(* ===== verification/Prelude.thy ===== *)
theory Prelude
  imports Main "HOL-Library.Word"
begin

text \<open>
  Shared vocabulary of the development: the names of the machine types the
  headers use, the collections of facts the component theories extend, and the
  generic lemmas on lists, for-loops and words that more than one component
  needs.

  \<^item> A \<open>ByteSpan\<close> and a \<open>StrView\<close> (\<open>core/span.hpp\<close>) are read-only views of a byte
    range; both are the list of the bytes they view. A \<open>char\<close> of a \<open>StrView\<close> is
    the byte the wire carried.
  \<^item> \<open>size_t\<close> is \<open>nat\<close>; the fixed-width fields keep their width as words.
  \<^item> A C++ \<open>for (i = a; i < b; ++i)\<close> without an early exit is a \<open>fold\<close> over
    \<open>[a..<b]\<close>.
\<close>

unbundle bit_operations_syntax

type_synonym byte = "8 word"
type_synonym u16 = "16 word"
type_synonym u32 = "32 word"
type_synonym bytes = "byte list"

named_theorems container_simps "what the fixed-capacity containers compute"
named_theorems wire_simps "what the byte reader and writer compute"
named_theorems frame_eqs "which broker fields an operation leaves alone"

subsection \<open>Lists\<close>

lemma nth_take_drop_append:
  "i \<le> length xs \<Longrightarrow>
     (take i xs @ drop (Suc i) xs) ! k = (if k < i then xs ! k else xs ! Suc k)"
  if "k < length xs - 1"
  using that by (auto simp: nth_append)

lemma set_remove_nth_subset: "set (take i xs @ drop (Suc i) xs) \<subseteq> set xs"
  using set_take_subset set_drop_subset by fastforce

lemma length_remove_nth:
  "i < length xs \<Longrightarrow> length (take i xs @ drop (Suc i) xs) = length xs - 1"
  by simp

lemma distinct_remove_nth:
  assumes "distinct xs" shows "distinct (take i xs @ drop (Suc i) xs)"
proof -
  have "set (take i xs) \<inter> set (drop (Suc i) xs) = {}"
    using assms by (simp add: set_take_disj_set_drop_if_distinct)
  with assms show ?thesis by simp
qed

lemma map_remove_nth:
  "map f (take i xs @ drop (Suc i) xs) = take i (map f xs) @ drop (Suc i) (map f xs)"
  by (simp add: take_map drop_map)

lemma filter_remove_nth:
  assumes "i < length xs" "\<not> P (xs ! i)"
  shows "filter P (take i xs @ drop (Suc i) xs) = filter P xs"
proof -
  have "filter P xs = filter P (take i xs @ xs ! i # drop (Suc i) xs)"
    using assms(1) by (metis id_take_nth_drop)
  with assms(2) show ?thesis by simp
qed

lemma distinct_map_update_same:
  assumes "i < length xs" "f y = f (xs ! i)"
  shows "map f (xs[i := y]) = map f xs"
  using assms by (metis list_update_id map_update)

lemma list_all_remove_nth: "list_all P xs \<Longrightarrow> list_all P (take i xs @ drop (Suc i) xs)"
  using set_remove_nth_subset by (fastforce simp: list_all_iff)

lemma list_all_update: "list_all P xs \<Longrightarrow> P y \<Longrightarrow> list_all P (xs[i := y])"
  using set_update_subset_insert by (fastforce simp: list_all_iff)

subsection \<open>Invariants of for-loops\<close>

lemma fold_invariant:
  assumes "\<And>x s. x \<in> set xs \<Longrightarrow> P s \<Longrightarrow> P (f x s)" and "P s"
  shows "P (fold f xs s)"
  using assms by (induction xs arbitrary: s) auto

lemma fold_upt_invariant:
  assumes "\<And>i s. a \<le> i \<Longrightarrow> i < b \<Longrightarrow> P s \<Longrightarrow> P (f i s)" and "P s"
  shows "P (fold f [a..<b] s)"
  by (rule fold_invariant) (use assms in auto)

lemma fold_upt_counter:
  assumes "a \<le> b" and "P a s"
    and "\<And>i s. a \<le> i \<Longrightarrow> i < b \<Longrightarrow> P i s \<Longrightarrow> P (Suc i) (f i s)"
  shows "P b (fold f [a..<b] s)"
  using assms
proof (induction "b - a" arbitrary: a s)
  case 0
  then show ?case by simp
next
  case (Suc d)
  then have "a < b" by simp
  moreover have "P b (fold f [Suc a..<b] (f a s))"
    using Suc.hyps(2) Suc.prems \<open>a < b\<close> by (intro Suc.hyps(1)) auto
  ultimately show ?case by (simp add: upt_conv_Cons)
qed

lemma length_fold_update: "length (fold (\<lambda>i xs. xs[g i := h i xs]) is xs) = length xs"
  by (induction "is" arbitrary: xs) auto

subsection \<open>First match\<close>

fun find_index_from :: "nat \<Rightarrow> ('a \<Rightarrow> bool) \<Rightarrow> 'a list \<Rightarrow> nat option" where
  "find_index_from i P [] = None"
| "find_index_from i P (x # xs) = (if P x then Some i else find_index_from (Suc i) P xs)"

text \<open>The index at which a linear scan stops.\<close>

definition find_index :: "('a \<Rightarrow> bool) \<Rightarrow> 'a list \<Rightarrow> nat option" where
  "find_index P xs = find_index_from 0 P xs"

lemma find_index_from_Some:
  "find_index_from k P xs = Some i \<Longrightarrow>
   k \<le> i \<and> i - k < length xs \<and> P (xs ! (i - k)) \<and> (\<forall>j < i - k. \<not> P (xs ! j))"
proof (induction k P xs rule: find_index_from.induct)
  case (2 k P x xs)
  show ?case
  proof (cases "P x")
    case False
    then have "find_index_from (Suc k) P xs = Some i" using 2 by simp
    from 2(1) [OF False this] have IH: "Suc k \<le> i" "i - Suc k < length xs" "P (xs ! (i - Suc k))"
      "\<forall>j < i - Suc k. \<not> P (xs ! j)" by auto
    have "i - k = Suc (i - Suc k)" using IH(1) by simp
    then show ?thesis using IH False by (auto simp: less_Suc_eq_0_disj)
  qed (use 2 in simp)
qed simp

lemma find_index_Some:
  "find_index P xs = Some i \<Longrightarrow> i < length xs \<and> P (xs ! i) \<and> (\<forall>j < i. \<not> P (xs ! j))"
  using find_index_from_Some [of 0 P xs i] by (simp add: find_index_def)

lemma find_index_from_None: "find_index_from k P xs = None \<longleftrightarrow> (\<forall>x \<in> set xs. \<not> P x)"
  by (induction k P xs rule: find_index_from.induct) auto

lemma find_index_None: "find_index P xs = None \<longleftrightarrow> (\<forall>x \<in> set xs. \<not> P x)"
  by (simp add: find_index_def find_index_from_None)

subsection \<open>Residues\<close>

lemma shift_mod_inj:
  fixes N :: nat
  assumes "(v + a) mod N = (v + b) mod N" "v < N" "a < N" "b < N" shows "a = b"
proof -
  have m: "x mod N = (if x < N then x else x - N)" if "x < 2 * N" for x
    using that by (simp add: le_mod_geq)
  show ?thesis using assms m [of "v + a"] m [of "v + b"] by (simp split: if_splits)
qed

subsection \<open>Words\<close>

lemma unat_of_nat_16: "n < 65536 \<Longrightarrow> unat (of_nat n :: u16) = n"
  by (simp add: unat_of_nat take_bit_nat_eq_self)

lemma of_nat_16_inj: "a < 65536 \<Longrightarrow> b < 65536 \<Longrightarrow> (of_nat a :: u16) = of_nat b \<longleftrightarrow> a = b"
  by (metis unat_of_nat_16)

lemma of_nat_16_neq_max: "n < 65535 \<Longrightarrow> (of_nat n :: u16) \<noteq> 0xFFFF"
proof
  assume "n < 65535" "(of_nat n :: u16) = 0xFFFF"
  then have "unat (of_nat n :: u16) = unat (0xFFFF :: u16)" by simp
  with \<open>n < 65535\<close> show False by (simp add: unat_of_nat_16)
qed

lemma unat_lt_16: "unat (w :: u16) < 65536"
  using unsigned_less [of w] by simp

lemma unat_lt_8: "unat (w :: byte) < 256"
  using unsigned_less [of w] by simp

lemma unat_lt_32: "unat (w :: u32) < 4294967296"
  using unsigned_less [of w] by simp

lemma unat_and_mask: "unat (c AND mask n) = unat c mod 2 ^ n" for c :: "'a::len word"
proof -
  have "unat (take_bit n c) = take_bit n (unat c)" by (rule unsigned_take_bit_eq)
  then show ?thesis by (simp only: take_bit_eq_mask take_bit_nat_eq) (simp only: take_bit_eq_mod flip: take_bit_eq_mask)
qed

lemma unat_drop_bit: "unat (drop_bit n c) = unat c div 2 ^ n" for c :: "'a::len word"
  by (simp only: unsigned_drop_bit_eq take_bit_nat_eq_self [OF unsigned_less])
    (simp only: drop_bit_eq_div)

lemma unat_push_bit: "unat c * 2 ^ n < 2 ^ LENGTH('a) \<Longrightarrow> unat (push_bit n c) = unat c * 2 ^ n" for c :: "'a::len word"
  by (simp only: unsigned_push_bit_eq) (simp only: push_bit_eq_mult take_bit_nat_eq_self)

lemma push_bit_or_add:
  fixes c x :: "'a::len word" assumes "unat x < 2 ^ n"
  shows "push_bit n c OR x = push_bit n c + x"
proof -
  have "take_bit n x = x" using assms
    by (metis  word_unat_eq_iff take_bit_nat_eq_self unsigned_take_bit_eq)
  then have "\<not> bit x k" if "n \<le> k" for k using that
    by (metis bit_take_bit_iff not_less)
  then show ?thesis by (subst disjunctive_add) (auto simp: bit_simps linorder_not_le)
qed

lemma unat_shift_or:
  fixes c x :: "'a::len word"
  assumes "unat x < 2 ^ n" "unat c * 2 ^ n + unat x < 2 ^ LENGTH('a)"
  shows "unat (push_bit n c OR x) = unat c * 2 ^ n + unat x"
proof -
  have "unat (push_bit n c) = unat c * 2 ^ n" using assms by (intro unat_push_bit) simp
  then show ?thesis using assms by (simp add: push_bit_or_add unat_word_ariths(1))
qed

lemma and_not_mask_eq_iff: "c AND NOT (mask n) = push_bit n d \<longleftrightarrow> drop_bit n c = drop_bit n (push_bit n d)" for c d :: "'a::len word"
proof -
  have "c AND NOT (mask n) = push_bit n (drop_bit n c)" by (rule bit_word_eqI) (auto simp: bit_simps)
  moreover have "drop_bit n (c AND NOT (mask n)) = drop_bit n c" by (rule bit_word_eqI) (auto simp: bit_simps dest: bit_imp_le_length)
  moreover have "push_bit n (drop_bit n (push_bit n d)) = push_bit n d" by (rule bit_word_eqI) (auto simp: bit_simps)
  ultimately show ?thesis by metis
qed

lemma unat_ucast_8_16: "unat (ucast (b :: byte) :: u16) = unat b"
  by (simp add: unsigned_ucast_eq take_bit_nat_eq_self order.strict_trans [OF unat_lt_8])

lemma unat_ucast_8_32: "unat (ucast (b :: byte) :: u32) = unat b"
  by (simp add: unsigned_ucast_eq take_bit_nat_eq_self order.strict_trans [OF unat_lt_8])

text \<open>Membership tests on the high bits of a byte, as ranges of its value.\<close>

lemma byte_high_bits:
  fixes c :: byte
  shows "c AND 0xE0 = 0xC0 \<longleftrightarrow> unat c div 32 = 6"
    and "c AND 0xF0 = 0xE0 \<longleftrightarrow> unat c div 16 = 14"
    and "c AND 0xF8 = 0xF0 \<longleftrightarrow> unat c div 8 = 30"
    and "c AND 0xC0 = 0x80 \<longleftrightarrow> unat c div 64 = 2"
proof -
  have *: "c AND NOT (mask n) = push_bit n d \<longleftrightarrow> unat c div 2 ^ n = unat d"
    if "unat d * 2 ^ n < 256" for n and d :: byte
  proof -
    have "unat (drop_bit n (push_bit n d)) = unat d"
      using that unat_push_bit [of d n] by (simp only: unat_drop_bit) simp
    then show ?thesis by (metis and_not_mask_eq_iff word_unat_eq_iff unat_drop_bit)
  qed
  have m: "NOT (mask 5) = (0xE0 :: byte)" "NOT (mask 4) = (0xF0 :: byte)"
    "NOT (mask 3) = (0xF8 :: byte)" "NOT (mask 6) = (0xC0 :: byte)"
    by (simp_all add: mask_eq_exp_minus_1)
  show "c AND 0xE0 = 0xC0 \<longleftrightarrow> unat c div 32 = 6" using * [of 6 5] by (simp add: m)
  show "c AND 0xF0 = 0xE0 \<longleftrightarrow> unat c div 16 = 14" using * [of 14 4] by (simp add: m)
  show "c AND 0xF8 = 0xF0 \<longleftrightarrow> unat c div 8 = 30" using * [of 30 3] by (simp add: m)
  show "c AND 0xC0 = 0x80 \<longleftrightarrow> unat c div 64 = 2" using * [of 2 6] by (simp add: m)
qed

lemma byte_low_bits:
  fixes c :: byte
  shows "unat (c AND 0x1F) = unat c mod 32" and "unat (c AND 0x0F) = unat c mod 16"
    and "unat (c AND 0x07) = unat c mod 8" and "unat (c AND 0x3F) = unat c mod 64"
    and "unat (c AND 0x7F) = unat c mod 128"
  using unat_and_mask [of c 5] unat_and_mask [of c 4] unat_and_mask [of c 3]
    unat_and_mask [of c 6] unat_and_mask [of c 7]
  by (simp_all add: mask_eq_exp_minus_1)

end
