(* ===== verification/Constants.thy ===== *)
theory Constants
  imports Prelude
begin

text \<open>
  The enumerations and fixed-header helpers: \<open>core/error.hpp\<close>,
  \<open>protocol/constants.hpp\<close> and the event vocabulary of \<open>broker/observer.hpp\<close>. An
  \<open>enum class\<close> is a datatype with the source's enumerators; \<open>PacketType\<close> gets one
  more constructor, because \<open>packet_type()\<close> casts any high nibble and the values 0
  and 15 have no enumerator.
\<close>

section \<open>Definitions\<close>

subsection \<open>Error codes\<close>

datatype err = Err_ok | Err_truncated | Err_malformed | Err_oversize | Err_capacity | Err_state

definition is_ok :: "err \<Rightarrow> bool" where
  "is_ok e \<longleftrightarrow> e = Err_ok"

fun err_name :: "err \<Rightarrow> string" where
  "err_name Err_ok = ''ok''"
| "err_name Err_truncated = ''truncated''"
| "err_name Err_malformed = ''malformed''"
| "err_name Err_oversize = ''oversize''"
| "err_name Err_capacity = ''capacity''"
| "err_name Err_state = ''state''"

subsection \<open>Packet types, QoS levels, CONNACK codes\<close>

datatype packet_type =
    PT_connect | PT_connack | PT_publish | PT_puback | PT_pubrec | PT_pubrel | PT_pubcomp
  | PT_subscribe | PT_suback | PT_unsubscribe | PT_unsuback | PT_pingreq | PT_pingresp
  | PT_disconnect | PT_reserved byte

fun packet_type_code :: "packet_type \<Rightarrow> byte" where
  "packet_type_code PT_connect = 1"
| "packet_type_code PT_connack = 2"
| "packet_type_code PT_publish = 3"
| "packet_type_code PT_puback = 4"
| "packet_type_code PT_pubrec = 5"
| "packet_type_code PT_pubrel = 6"
| "packet_type_code PT_pubcomp = 7"
| "packet_type_code PT_subscribe = 8"
| "packet_type_code PT_suback = 9"
| "packet_type_code PT_unsubscribe = 10"
| "packet_type_code PT_unsuback = 11"
| "packet_type_code PT_pingreq = 12"
| "packet_type_code PT_pingresp = 13"
| "packet_type_code PT_disconnect = 14"
| "packet_type_code (PT_reserved n) = n"

definition packet_type_cast :: "byte \<Rightarrow> packet_type" where
  "packet_type_cast n =
     (if n = 1 then PT_connect else if n = 2 then PT_connack else if n = 3 then PT_publish
      else if n = 4 then PT_puback else if n = 5 then PT_pubrec else if n = 6 then PT_pubrel
      else if n = 7 then PT_pubcomp else if n = 8 then PT_subscribe else if n = 9 then PT_suback
      else if n = 10 then PT_unsubscribe else if n = 11 then PT_unsuback
      else if n = 12 then PT_pingreq else if n = 13 then PT_pingresp
      else if n = 14 then PT_disconnect else PT_reserved n)"

datatype qos = at_most_once | at_least_once | exactly_once

fun qos_code :: "qos \<Rightarrow> byte" where
  "qos_code at_most_once = 0"
| "qos_code at_least_once = 1"
| "qos_code exactly_once = 2"

text \<open>\<open>static_cast<QoS>(raw)\<close>; every use is behind a \<open>raw > 2\<close> check.\<close>

definition qos_cast :: "byte \<Rightarrow> qos" where
  "qos_cast raw = (if raw = 0 then at_most_once else if raw = 1 then at_least_once else exactly_once)"

datatype connack_code =
    accepted | unacceptable_protocol | identifier_rejected | server_unavailable
  | bad_credentials | not_authorized

fun connack_value :: "connack_code \<Rightarrow> byte" where
  "connack_value accepted = 0"
| "connack_value unacceptable_protocol = 1"
| "connack_value identifier_rejected = 2"
| "connack_value server_unavailable = 3"
| "connack_value bad_credentials = 4"
| "connack_value not_authorized = 5"

definition protocol_level_311 :: byte where "protocol_level_311 = 4"
definition suback_failure :: byte where "suback_failure = 0x80"
definition max_remaining_length :: nat where "max_remaining_length = 268435455"
definition max_utf8_len :: nat where "max_utf8_len = 0xFFFF"

subsection \<open>Fixed header\<close>

definition make_first_byte :: "packet_type \<Rightarrow> byte \<Rightarrow> byte" where
  "make_first_byte t flags = push_bit 4 (packet_type_code t) OR (flags AND 0x0F)"

definition packet_type_of :: "byte \<Rightarrow> packet_type" where
  "packet_type_of first_byte = packet_type_cast (drop_bit 4 first_byte)"

definition packet_flags :: "byte \<Rightarrow> byte" where
  "packet_flags first_byte = first_byte AND 0x0F"

definition publish_retain_bit :: byte where "publish_retain_bit = 0x01"
definition publish_qos_shift :: nat where "publish_qos_shift = 1"
definition publish_qos_mask :: byte where "publish_qos_mask = 0x06"
definition publish_dup_bit :: byte where "publish_dup_bit = 0x08"

definition cf_reserved :: byte where "cf_reserved = 0x01"
definition cf_clean_session :: byte where "cf_clean_session = 0x02"
definition cf_will :: byte where "cf_will = 0x04"
definition cf_will_qos_shift :: nat where "cf_will_qos_shift = 3"
definition cf_will_qos_mask :: byte where "cf_will_qos_mask = 0x18"
definition cf_will_retain :: byte where "cf_will_retain = 0x20"
definition cf_password :: byte where "cf_password = 0x40"
definition cf_username :: byte where "cf_username = 0x80"

lemmas header_bits =
  publish_retain_bit_def publish_qos_shift_def publish_qos_mask_def publish_dup_bit_def
  cf_reserved_def cf_clean_session_def cf_will_def cf_will_qos_shift_def cf_will_qos_mask_def
  cf_will_retain_def cf_password_def cf_username_def

definition varint_size :: "nat \<Rightarrow> nat" where
  "varint_size v = (if v < 128 then 1 else if v < 16384 then 2 else if v < 2097152 then 3 else 4)"

definition fixed_flags_valid :: "packet_type \<Rightarrow> byte \<Rightarrow> bool" where
  "fixed_flags_valid t flags =
     (if t = PT_publish then True
      else if t = PT_pubrel \<or> t = PT_subscribe \<or> t = PT_unsubscribe then flags = 0x02
      else flags = 0x00)"

subsection \<open>Observer events\<close>

datatype event_kind =
    connection_opened | connection_closed | connect_refused | protocol_violation
  | transport_send_failed | connect_timeout | keepalive_timeout | idle_timeout
  | session_created | session_resumed | session_taken_over | session_expired | session_evicted
  | publish_denied | subscribe_denied | receive_denied
  | retained_store_failed | retained_stale_purged | delivery_dropped | inbound_qos2_evicted

fun event_kind_name :: "event_kind \<Rightarrow> string" where
  "event_kind_name connection_opened = ''connection_opened''"
| "event_kind_name connection_closed = ''connection_closed''"
| "event_kind_name connect_refused = ''connect_refused''"
| "event_kind_name protocol_violation = ''protocol_violation''"
| "event_kind_name transport_send_failed = ''transport_send_failed''"
| "event_kind_name connect_timeout = ''connect_timeout''"
| "event_kind_name keepalive_timeout = ''keepalive_timeout''"
| "event_kind_name idle_timeout = ''idle_timeout''"
| "event_kind_name session_created = ''session_created''"
| "event_kind_name session_resumed = ''session_resumed''"
| "event_kind_name session_taken_over = ''session_taken_over''"
| "event_kind_name session_expired = ''session_expired''"
| "event_kind_name session_evicted = ''session_evicted''"
| "event_kind_name inbound_qos2_evicted = ''inbound_qos2_evicted''"
| "event_kind_name publish_denied = ''publish_denied''"
| "event_kind_name subscribe_denied = ''subscribe_denied''"
| "event_kind_name receive_denied = ''receive_denied''"
| "event_kind_name retained_store_failed = ''retained_store_failed''"
| "event_kind_name retained_stale_purged = ''retained_stale_purged''"
| "event_kind_name delivery_dropped = ''delivery_dropped''"

text \<open>An \<open>Event\<close>; \<open>None\<close> is \<open>Event::no_conn\<close>.\<close>

record event =
  ev_kind :: event_kind
  ev_ci :: "nat option"
  ev_client_id :: bytes
  ev_topic :: bytes
  ev_err :: err
  ev_connack :: connack_code
  ev_qos :: qos

definition new_event :: "event_kind \<Rightarrow> event" where
  "new_event k = \<lparr>ev_kind = k, ev_ci = None, ev_client_id = [], ev_topic = [], ev_err = Err_ok,
     ev_connack = accepted, ev_qos = at_most_once\<rparr>"

section \<open>Orders and round trips\<close>

text \<open>\<open>enum class QoS : uint8_t\<close> compares by value.\<close>

instantiation qos :: linorder
begin

definition less_eq_qos :: "qos \<Rightarrow> qos \<Rightarrow> bool" where
  "less_eq_qos a b \<longleftrightarrow> qos_code a \<le> qos_code b"

definition less_qos :: "qos \<Rightarrow> qos \<Rightarrow> bool" where
  "less_qos a b \<longleftrightarrow> qos_code a < qos_code b"

instance
proof
  fix x y z :: qos
  show "(x < y) = (x \<le> y \<and> \<not> y \<le> x)" by (auto simp: less_eq_qos_def less_qos_def)
  show "x \<le> x" by (simp add: less_eq_qos_def)
  show "x \<le> y \<Longrightarrow> y \<le> z \<Longrightarrow> x \<le> z" by (simp add: less_eq_qos_def)
  show "x \<le> y \<Longrightarrow> y \<le> x \<Longrightarrow> x = y"
    by (cases x; cases y) (simp_all add: less_eq_qos_def word_le_nat_alt)
  show "x \<le> y \<or> y \<le> x" by (simp add: less_eq_qos_def linear)
qed

end

lemma qos_cast_code [simp]: "qos_cast (qos_code q) = q"
  by (cases q) (simp_all add: qos_cast_def)

lemma qos_code_le [simp]: "qos_code q \<le> 2"
  by (cases q) simp_all

lemma qos_code_cast: "raw \<le> 2 \<Longrightarrow> qos_code (qos_cast raw) = raw"
proof -
  assume "raw \<le> 2"
  then have "unat raw \<le> 2" by (simp add: word_le_nat_alt)
  then have "unat raw = 0 \<or> unat raw = 1 \<or> unat raw = 2" by auto
  then have "raw = 0 \<or> raw = 1 \<or> raw = 2"
    by (auto simp: word_unat_eq_iff)
  then show ?thesis by (auto simp: qos_cast_def)
qed

lemma packet_type_cast_code: "(\<forall>n. t \<noteq> PT_reserved n) \<Longrightarrow> packet_type_cast (packet_type_code t) = t"
  by (cases t) (simp_all add: packet_type_cast_def)

end
