(* ===== verification/Wire.thy ===== *)
theory Wire
  imports Constants
begin

text \<open>
  The bounds-checked byte \<open>Reader\<close> and \<open>Writer\<close> of \<open>protocol/reader.hpp\<close> and
  \<open>protocol/writer.hpp\<close>. A reader is the bytes between \<open>p_\<close> and \<open>end_\<close> and the sticky
  \<open>ok_\<close>. A writer works on the caller's memory: \<open>w_mem\<close> is that memory, \<open>w_base\<close> the
  offset \<open>buf_\<close> points at, so a write outside \<open>[buf_, buf_ + cap_)\<close> would be visible.

  The theory shows that a writer operation emits exactly its bytes or turns \<open>ok()\<close>
  false, and never touches memory outside its window; and that a reader reads back
  what a writer emitted.
\<close>

section \<open>Reader\<close>

record reader =
  r_rest :: bytes
  r_ok :: bool

definition reader_init :: "bytes \<Rightarrow> reader" where
  "reader_init s = \<lparr>r_rest = s, r_ok = True\<rparr>"

definition r_remaining :: "reader \<Rightarrow> nat" where
  "r_remaining r = length (r_rest r)"

definition r_at_end :: "reader \<Rightarrow> bool" where
  "r_at_end r \<longleftrightarrow> r_rest r = []"

definition r_u8 :: "reader \<Rightarrow> byte \<times> reader" where
  "r_u8 r = (if \<not> r_ok r \<or> r_remaining r < 1 then (0, r\<lparr>r_ok := False\<rparr>)
             else (r_rest r ! 0, r\<lparr>r_rest := drop 1 (r_rest r)\<rparr>))"

definition r_u16 :: "reader \<Rightarrow> u16 \<times> reader" where
  "r_u16 r = (if \<not> r_ok r \<or> r_remaining r < 2 then (0, r\<lparr>r_ok := False\<rparr>)
              else (push_bit 8 (ucast (r_rest r ! 0)) OR ucast (r_rest r ! 1),
                    r\<lparr>r_rest := drop 2 (r_rest r)\<rparr>))"

definition r_bytes :: "nat \<Rightarrow> reader \<Rightarrow> bytes \<times> reader" where
  "r_bytes n r = (if \<not> r_ok r \<or> r_remaining r < n then ([], r\<lparr>r_ok := False\<rparr>)
                  else (take n (r_rest r), r\<lparr>r_rest := drop n (r_rest r)\<rparr>))"

definition r_len_prefixed_bytes :: "reader \<Rightarrow> bytes \<times> reader" where
  "r_len_prefixed_bytes r =
     (let (n, r) = r_u16 r in if \<not> r_ok r then ([], r) else r_bytes (unat n) r)"

definition r_utf8 :: "reader \<Rightarrow> bytes \<times> reader" where
  "r_utf8 r = r_len_prefixed_bytes r"

definition r_take_rest :: "reader \<Rightarrow> bytes \<times> reader" where
  "r_take_rest r = (if \<not> r_ok r then ([], r) else (r_rest r, r\<lparr>r_rest := []\<rparr>))"

section \<open>Writer\<close>

record writer =
  w_mem :: bytes
  w_base :: nat
  w_cap :: nat
  w_len :: nat
  w_ok :: bool

definition writer_init :: "bytes \<Rightarrow> nat \<Rightarrow> nat \<Rightarrow> writer" where
  "writer_init mem base cap = \<lparr>w_mem = mem, w_base = base, w_cap = cap, w_len = 0, w_ok = True\<rparr>"

definition w_span :: "writer \<Rightarrow> bytes" where
  "w_span w = take (w_len w) (drop (w_base w) (w_mem w))"

definition w_u8 :: "byte \<Rightarrow> writer \<Rightarrow> writer" where
  "w_u8 v w = (if \<not> w_ok w \<or> w_len w + 1 > w_cap w then w\<lparr>w_ok := False\<rparr>
               else w\<lparr>w_mem := (w_mem w)[w_base w + w_len w := v], w_len := w_len w + 1\<rparr>)"

definition w_u16 :: "u16 \<Rightarrow> writer \<Rightarrow> writer" where
  "w_u16 v w = (if \<not> w_ok w \<or> w_len w + 2 > w_cap w then w\<lparr>w_ok := False\<rparr>
     else w\<lparr>w_mem := (w_mem w)[w_base w + w_len w := ucast (drop_bit 8 v),
                               w_base w + w_len w + 1 := ucast (v AND 0xFF)],
            w_len := w_len w + 2\<rparr>)"

definition w_bytes :: "bytes \<Rightarrow> writer \<Rightarrow> writer" where
  "w_bytes b w = (if \<not> w_ok w \<or> length b > w_cap w - w_len w then w\<lparr>w_ok := False\<rparr>
     else w\<lparr>w_mem := fold (\<lambda>i mem. mem[w_base w + w_len w + i := b ! i]) [0..<length b] (w_mem w),
            w_len := w_len w + length b\<rparr>)"

definition w_utf8 :: "bytes \<Rightarrow> writer \<Rightarrow> writer" where
  "w_utf8 s w = (if length s > max_utf8_len then w\<lparr>w_ok := False\<rparr>
                 else w_bytes s (w_u16 (of_nat (length s)) w))"

function w_varint_loop :: "u32 \<Rightarrow> writer \<Rightarrow> writer" where
  "w_varint_loop v w =
     (let digit = ucast (v mod 128); v' = v div 128
      in if v' > 0 then w_varint_loop v' (w_u8 (digit OR 0x80) w) else w_u8 digit w)"
  by pat_completeness auto
termination
proof (relation "measure (\<lambda>(v, w). unat v)")
  fix v :: u32 and w :: writer and digit :: byte and v' :: u32
  assume "v' = v div 128" "v' > 0"
  moreover have "unat (v div 128) = unat v div 128" by (simp add: unat_div)
  ultimately show "((v', w_u8 (digit OR 0x80) w), v, w) \<in> measure (\<lambda>(v, w). unat v)"
    by (cases "unat v = 0") (auto simp: word_less_nat_alt)
qed simp

declare w_varint_loop.simps [simp del]

definition w_varint :: "u32 \<Rightarrow> writer \<Rightarrow> writer" where
  "w_varint v w = (if unat v > max_remaining_length then w\<lparr>w_ok := False\<rparr> else w_varint_loop v w)"

section \<open>Reference encodings\<close>

definition u16_bytes :: "u16 \<Rightarrow> bytes" where
  "u16_bytes v = [ucast (drop_bit 8 v), ucast (v AND 0xFF)]"

definition utf8_bytes :: "bytes \<Rightarrow> bytes" where
  "utf8_bytes s = u16_bytes (of_nat (length s)) @ s"

function varint_bytes :: "nat \<Rightarrow> bytes" where
  "varint_bytes v = (if v < 128 then [of_nat v] else of_nat (v mod 128 + 128) # varint_bytes (v div 128))"
  by pat_completeness auto
termination
  by (relation "measure id") auto

declare varint_bytes.simps [simp del]

text \<open>
  A writer in its window, and what it means for an operation to emit \<open>bs\<close>: it
  succeeds exactly when the bytes fit, then they follow what was written before, and
  memory outside the window stays as it was.
\<close>

definition w_inv :: "writer \<Rightarrow> bool" where
  "w_inv w \<longleftrightarrow> w_base w + w_cap w \<le> length (w_mem w) \<and> w_len w \<le> w_cap w"

definition same_window :: "writer \<Rightarrow> writer \<Rightarrow> bool" where
  "same_window w w' \<longleftrightarrow> w_base w' = w_base w \<and> w_cap w' = w_cap w
     \<and> length (w_mem w') = length (w_mem w)
     \<and> take (w_base w) (w_mem w') = take (w_base w) (w_mem w)
     \<and> drop (w_base w + w_cap w) (w_mem w') = drop (w_base w + w_cap w) (w_mem w)"

definition emits :: "(writer \<Rightarrow> writer) \<Rightarrow> bytes \<Rightarrow> bool" where
  "emits f bs \<longleftrightarrow> (\<forall>w. w_inv w \<longrightarrow>
     w_inv (f w) \<and> same_window w (f w)
     \<and> (w_ok (f w) \<longleftrightarrow> w_ok w \<and> w_len w + length bs \<le> w_cap w)
     \<and> (w_ok (f w) \<longrightarrow> w_span (f w) = w_span w @ bs))"

section \<open>Writer operations emit their bytes\<close>

lemma length_w_span: "w_inv w \<Longrightarrow> length (w_span w) = w_len w"
  by (auto simp: w_inv_def w_span_def min_def)

lemma same_window_trans: "same_window a b \<Longrightarrow> same_window b c \<Longrightarrow> same_window a c"
  by (simp add: same_window_def)

lemma emits_seq:
  assumes "emits f a" "emits g b" shows "emits (\<lambda>w. g (f w)) (a @ b)"
  unfolding emits_def
proof (intro allI impI)
  fix w assume w: "w_inv w"
  have f: "w_inv (f w)" "same_window w (f w)"
    "w_ok (f w) \<longleftrightarrow> w_ok w \<and> w_len w + length a \<le> w_cap w"
    "w_ok (f w) \<Longrightarrow> w_span (f w) = w_span w @ a"
    using assms(1) w by (auto simp: emits_def)
  have g: "w_inv (g (f w))" "same_window (f w) (g (f w))"
    "w_ok (g (f w)) \<longleftrightarrow> w_ok (f w) \<and> w_len (f w) + length b \<le> w_cap (f w)"
    "w_ok (g (f w)) \<Longrightarrow> w_span (g (f w)) = w_span (f w) @ b"
    using assms(2) f(1) by (auto simp: emits_def)
  have "w_len (f w) = w_len w + length a" if "w_ok (f w)"
    using f(4) [OF that] length_w_span [OF f(1)] length_w_span [OF w] by simp
  moreover have "w_cap (f w) = w_cap w" using f(2) by (simp add: same_window_def)
  ultimately show "w_inv (g (f w)) \<and> same_window w (g (f w))
     \<and> (w_ok (g (f w)) \<longleftrightarrow> w_ok w \<and> w_len w + length (a @ b) \<le> w_cap w)
     \<and> (w_ok (g (f w)) \<longrightarrow> w_span (g (f w)) = w_span w @ (a @ b))"
    using f g same_window_trans [OF f(2) g(2)] by auto
qed

lemma emits_id: "emits (\<lambda>w. w) []"
  by (auto simp: emits_def same_window_def w_inv_def)

text \<open>One copy of \<open>b\<close> to the write position covers all three primitives.\<close>

lemma fold_copy:
  "p + length b \<le> length mem \<Longrightarrow>
     fold (\<lambda>i mem. mem[p + i := b ! i]) [0..<length b] mem
     = take p mem @ b @ drop (p + length b) mem"
proof (induction b rule: rev_induct)
  case (snoc x b)
  have "fold (\<lambda>i mem. mem[p + i := (b @ [x]) ! i]) [0..<length b] mem
        = fold (\<lambda>i mem. mem[p + i := b ! i]) [0..<length b] mem"
    by (rule fold_cong) (auto simp: nth_append)
  with snoc show ?case
    by (simp add: list_update_append min_def Cons_nth_drop_Suc [symmetric])
qed simp

lemma emits_copy:
  assumes f: "\<And>w. w_inv w \<Longrightarrow> f w = (if \<not> w_ok w \<or> w_len w + length b > w_cap w then w\<lparr>w_ok := False\<rparr>
     else w\<lparr>w_mem := take (w_base w + w_len w) (w_mem w) @ b
                     @ drop (w_base w + w_len w + length b) (w_mem w),
            w_len := w_len w + length b\<rparr>)"
  shows "emits f b"
  unfolding emits_def
proof (intro allI impI)
  fix w assume w: "w_inv w"
  show "w_inv (f w) \<and> same_window w (f w)
     \<and> (w_ok (f w) \<longleftrightarrow> w_ok w \<and> w_len w + length b \<le> w_cap w)
     \<and> (w_ok (f w) \<longrightarrow> w_span (f w) = w_span w @ b)"
  proof (cases "\<not> w_ok w \<or> w_len w + length b > w_cap w")
    case True
    with w show ?thesis by (auto simp: f [OF w] w_inv_def same_window_def)
  next
    case False
    define p q where "p = w_base w + w_len w" and "q = w_base w + w_cap w"
    define mem where "mem = take p (w_mem w) @ b @ drop (p + length b) (w_mem w)"
    have le: "w_base w \<le> p" "p + length b \<le> q" "q \<le> length (w_mem w)"
      using w False by (auto simp: p_def q_def w_inv_def)
    then have "length mem = length (w_mem w)" by (simp add: mem_def)
    moreover have "take (w_base w) mem = take (w_base w) (w_mem w)"
      using le by (simp add: mem_def min_def)
    moreover have "drop q mem = drop q (w_mem w)"
      using le by (simp add: mem_def)
    moreover have "take (w_len w + length b) (drop (w_base w) mem)
        = take (w_len w) (drop (w_base w) (w_mem w)) @ b"
      using le by (simp add: mem_def drop_take p_def)
    moreover have "f w = w\<lparr>w_mem := mem, w_len := w_len w + length b\<rparr>"
      using False by (simp add: f [OF w] mem_def p_def)
    ultimately show ?thesis
      using False w by (simp add: w_inv_def same_window_def w_span_def q_def)
  qed
qed

lemma list_update_copy:
  "p < length mem \<Longrightarrow> mem[p := v] = take p mem @ [v] @ drop (p + 1) mem"
  by (simp add: upd_conv_take_nth_drop)

lemma list_update_copy2:
  "p + 1 < length mem \<Longrightarrow> mem[p := v, p + 1 := u] = take p mem @ [v, u] @ drop (p + 2) mem"
  by (simp add: upd_conv_take_nth_drop list_update_append min_def Cons_nth_drop_Suc [symmetric])

lemma emits_u8: "emits (w_u8 v) [v]"
  by (rule emits_copy) (auto simp: w_u8_def w_inv_def list_update_copy)

lemma emits_u16: "emits (w_u16 v) (u16_bytes v)"
  by (rule emits_copy) (auto simp: w_u16_def w_inv_def u16_bytes_def list_update_copy2 [simplified])

lemma emits_bytes: "emits (w_bytes b) b"
proof (rule emits_copy)
  fix w assume w: "w_inv w"
  then show "w_bytes b w = (if \<not> w_ok w \<or> w_len w + length b > w_cap w then w\<lparr>w_ok := False\<rparr>
     else w\<lparr>w_mem := take (w_base w + w_len w) (w_mem w) @ b
                     @ drop (w_base w + w_len w + length b) (w_mem w),
            w_len := w_len w + length b\<rparr>)"
    using fold_copy [of "w_base w + w_len w" b "w_mem w"]
    by (auto simp: w_bytes_def w_inv_def)
qed

lemma emits_utf8: "length s \<le> max_utf8_len \<Longrightarrow> emits (w_utf8 s) (utf8_bytes s)"
  using emits_seq [OF emits_u16 [of "of_nat (length s)"] emits_bytes [of s]]
  by (simp add: w_utf8_def [abs_def] utf8_bytes_def not_less)

lemma w_utf8_too_long: "length s > max_utf8_len \<Longrightarrow> \<not> w_ok (w_utf8 s w)"
  by (simp add: w_utf8_def)

lemma unat_mod_128: "unat (ucast (v mod 128 :: u32) :: byte) = unat v mod 128"
  by (simp add: unsigned_ucast_eq unat_mod take_bit_nat_eq_self less_trans [OF mod_less_divisor])

lemma varint_digit:
  "ucast (v mod 128 :: u32) OR (0x80 :: byte) = of_nat (unat v mod 128 + 128)"
proof -
  have "(0x80 :: byte) OR ucast (v mod 128) = push_bit 7 1 OR ucast (v mod 128)" by simp
  also have "\<dots> = push_bit 7 1 + ucast (v mod 128)"
    by (rule push_bit_or_add) (simp add: unat_mod_128)
  also have "\<dots> = of_nat (unat v mod 128 + 128)"
    by (simp add: add.commute flip: unat_mod_128)
  finally show ?thesis by (simp add: or.commute)
qed

lemma emits_varint_loop: "emits (w_varint_loop v) (varint_bytes (unat v))"
proof (induction "unat v" arbitrary: v rule: less_induct)
  case less
  have d: "unat (v div 128) = unat v div 128" by (simp add: unat_div)
  show ?case
  proof (cases "v div 128 > 0")
    case True
    then have ge: "unat v \<ge> 128" using d by (auto simp: word_less_nat_alt div_greater_zero_iff)
    have "w_varint_loop v = (\<lambda>w. w_varint_loop (v div 128) (w_u8 (ucast (v mod 128) OR 0x80) w))"
      using True by (auto simp: w_varint_loop.simps [of v] Let_def)
    moreover have "emits (w_varint_loop (v div 128)) (varint_bytes (unat v div 128))"
      using less [of "v div 128"] ge d by simp
    ultimately show ?thesis
      using emits_seq [OF emits_u8] ge
      by (simp add: varint_bytes.simps [of "unat v"] varint_digit)
  next
    case False
    then have lt: "unat v < 128" using d by (auto simp: word_less_nat_alt)
    then have "ucast (v mod 128) = (of_nat (unat v) :: byte)"
      by (metis mod_less of_nat_unat unat_mod_128 ucast_id word_unat_eq_iff)
    with False lt show ?thesis
      using emits_u8 by (simp add: w_varint_loop.simps [of v, abs_def] varint_bytes.simps [of "unat v"])
  qed
qed

lemma emits_varint: "unat v \<le> max_remaining_length \<Longrightarrow> emits (w_varint v) (varint_bytes (unat v))"
  using emits_varint_loop [of v] by (simp add: w_varint_def [abs_def] not_less)

lemmas emits_intros = emits_u8 emits_u16 emits_bytes emits_utf8 emits_varint emits_seq

section \<open>Readers read back what writers emit\<close>

lemma unat_u16_of_bytes:
  "unat (push_bit 8 (ucast (a :: byte)) OR ucast (b :: byte) :: u16) = unat a * 256 + unat b"
  using unat_shift_or [of "ucast b :: u16" 8 "ucast a"] unat_lt_8 [of a] unat_lt_8 [of b]
  by (simp add: unat_ucast_8_16)

lemma range_div_u16: "unat (v :: u16) div 256 < 256"
  using unat_lt_16 [of v] by (simp add: less_mult_imp_div_less)

lemma unat_u16_bytes:
  "unat (ucast (drop_bit 8 v :: u16) :: byte) = unat v div 256"
  "unat (ucast (v AND 0xFF :: u16) :: byte) = unat v mod 256"
proof -
  have "unat (drop_bit 8 v) = unat v div 256" using unat_drop_bit [of 8 v] by simp
  moreover have "unat v div 256 < 256" using range_div_u16 [of v] by simp
  ultimately show "unat (ucast (drop_bit 8 v :: u16) :: byte) = unat v div 256"
    by (simp add: unsigned_ucast_eq take_bit_nat_eq_self)
  have "unat (v AND 0xFF) = unat v mod 256"
    using unat_and_mask [of v 8] by (simp add: mask_eq_exp_minus_1)
  then show "unat (ucast (v AND 0xFF :: u16) :: byte) = unat v mod 256"
    by (simp add: unsigned_ucast_eq take_bit_nat_eq_self)
qed

lemma u16_bytes_iff:
  "push_bit 8 (ucast a) OR ucast b = v \<longleftrightarrow> u16_bytes v = [a, b]"
proof -
  have "m * 256 + n = k \<longleftrightarrow> k div 256 = m \<and> k mod 256 = n" if "n < 256" for m n k :: nat
    using that div_mult_mod_eq [of k 256] mod_mult_self3 [of m 256 n] div_mult_self3 [of 256 m n] by auto
  from this [OF unat_lt_8 [of b]] show ?thesis
    by (auto simp: u16_bytes_def word_unat_eq_iff unat_u16_of_bytes unat_u16_bytes)
qed

lemma length_u16_bytes [simp]: "length (u16_bytes v) = 2"
  by (simp add: u16_bytes_def)

lemma length_utf8_bytes [simp]: "length (utf8_bytes s) = 2 + length s"
  by (simp add: utf8_bytes_def)

text \<open>A successful read took the encoding of its result off the front, and conversely.\<close>

lemma r_u8_iff:
  "r_ok r \<Longrightarrow> (r_u8 r = (v, r') \<and> r_ok r') \<longleftrightarrow> r_rest r = v # r_rest r' \<and> r_ok r'"
  by (cases "r_rest r") (auto simp: r_u8_def r_remaining_def)

lemma r_u16_iff:
  assumes "r_ok r"
  shows "(r_u16 r = (v, r') \<and> r_ok r') \<longleftrightarrow> r_rest r = u16_bytes v @ r_rest r' \<and> r_ok r'"
proof (cases "length (r_rest r) < 2")
  case True
  with assms show ?thesis by (auto simp: r_u16_def r_remaining_def)
next
  case False
  then obtain a b t where t: "r_rest r = a # b # t"
    by (metis One_nat_def Suc_1 Suc_le_length_iff not_less)
  have "r_u16 r = (v, r') \<longleftrightarrow> u16_bytes v = [a, b] \<and> r' = r\<lparr>r_rest := t\<rparr>"
    using t assms by (auto simp: r_u16_def r_remaining_def u16_bytes_iff)
  then show ?thesis using t assms
    by (auto simp: append_eq_Cons_conv u16_bytes_def)
qed

lemma r_bytes_iff:
  "r_ok r \<Longrightarrow> (r_bytes n r = (b, r') \<and> r_ok r') \<longleftrightarrow>
     length b = n \<and> r_rest r = b @ r_rest r' \<and> r_ok r'"
  by (auto simp: r_bytes_def r_remaining_def)

lemma unat_length_utf8: "length s \<le> max_utf8_len \<Longrightarrow> unat (of_nat (length s) :: u16) = length s"
  by (simp add: unat_of_nat_16 max_utf8_len_def)

lemma r_utf8_iff:
  assumes "r_ok r"
  shows "(r_utf8 r = (s, r') \<and> r_ok r') \<longleftrightarrow>
     length s \<le> max_utf8_len \<and> r_rest r = utf8_bytes s @ r_rest r' \<and> r_ok r'"
proof (cases "r_u16 r")
  case (Pair n q)
  show ?thesis
  proof (cases "r_ok q")
    case True
    have q: "r_rest r = u16_bytes n @ r_rest q" using r_u16_iff [OF assms, of n q] Pair True by simp
    have "r_utf8 r = r_bytes (unat n) q"
      using Pair True by (simp add: r_utf8_def r_len_prefixed_bytes_def)
    moreover have "unat n = length s \<longleftrightarrow> length s \<le> max_utf8_len \<and> n = of_nat (length s)"
      using unat_length_utf8 [of s] unat_lt_16 [of n]
      by (auto simp: max_utf8_len_def word_unat_eq_iff)
    moreover have "length s \<le> max_utf8_len \<Longrightarrow> u16_bytes n = u16_bytes (of_nat (length s)) \<Longrightarrow> n = of_nat (length s)"
      using u16_bytes_iff [of "u16_bytes n ! 0" "u16_bytes n ! 1" n]
        u16_bytes_iff [of "u16_bytes n ! 0" "u16_bytes n ! 1" "of_nat (length s)"]
      by (simp add: u16_bytes_def)
    ultimately show ?thesis
      using r_bytes_iff [OF True, of "unat n" s r'] q
      by (auto simp: utf8_bytes_def append_eq_append_conv)
  next
    case False
    then have "length (r_rest r) < 2"
      using Pair assms by (auto simp: r_u16_def r_remaining_def split: if_splits)
    then show ?thesis
      using Pair False by (auto simp: r_utf8_def r_len_prefixed_bytes_def)
  qed
qed

lemma reader_eq: "r_rest r = r_rest r' \<Longrightarrow> r_ok r = r_ok r' \<Longrightarrow> r = (r' :: reader)"
  by simp

lemma r_u8_enc [wire_simps]: "r_u8 \<lparr>r_rest = v # t, r_ok = True\<rparr> = (v, \<lparr>r_rest = t, r_ok = True\<rparr>)"
  by (simp add: r_u8_def r_remaining_def)

lemma r_u16_enc [wire_simps]:
  "r_u16 \<lparr>r_rest = u16_bytes v @ t, r_ok = True\<rparr> = (v, \<lparr>r_rest = t, r_ok = True\<rparr>)"
  using r_u16_iff [of "\<lparr>r_rest = u16_bytes v @ t, r_ok = True\<rparr>" v "\<lparr>r_rest = t, r_ok = True\<rparr>"] by simp

lemma r_utf8_enc [wire_simps]:
  "length s \<le> max_utf8_len \<Longrightarrow>
   r_utf8 \<lparr>r_rest = utf8_bytes s @ t, r_ok = True\<rparr> = (s, \<lparr>r_rest = t, r_ok = True\<rparr>)"
  using r_utf8_iff [of "\<lparr>r_rest = utf8_bytes s @ t, r_ok = True\<rparr>" s "\<lparr>r_rest = t, r_ok = True\<rparr>"] by simp

lemmas r_enc_end [wire_simps] = r_u16_enc [where t = "[]", simplified] r_utf8_enc [where t = "[]", simplified]

text \<open>A reader never moves backwards, and a failed reader stays failed.\<close>

lemma r_sticky [wire_simps]:
  "\<not> r_ok r \<Longrightarrow> r_u8 r = (0, r)" "\<not> r_ok r \<Longrightarrow> r_u16 r = (0, r)"
  "\<not> r_ok r \<Longrightarrow> r_bytes n r = ([], r)" "\<not> r_ok r \<Longrightarrow> r_utf8 r = ([], r)"
  "\<not> r_ok r \<Longrightarrow> r_take_rest r = ([], r)"
  by (auto simp: r_u8_def r_u16_def r_bytes_def r_utf8_def r_len_prefixed_bytes_def r_take_rest_def)

lemma r_u8D: "r_u8 r = (v, r') \<Longrightarrow> r_ok r' \<Longrightarrow> r_ok r \<and> r_rest r = v # r_rest r'"
  using r_u8_iff [of r v r'] r_sticky(1) [of r] by (cases "r_ok r") auto

lemma r_u16D: "r_u16 r = (v, r') \<Longrightarrow> r_ok r' \<Longrightarrow> r_ok r \<and> r_rest r = u16_bytes v @ r_rest r'"
  using r_u16_iff [of r v r'] r_sticky(2) [of r] by (cases "r_ok r") auto

lemma r_utf8D:
  "r_utf8 r = (s, r') \<Longrightarrow> r_ok r' \<Longrightarrow>
   r_ok r \<and> length s \<le> max_utf8_len \<and> r_rest r = utf8_bytes s @ r_rest r'"
  using r_utf8_iff [of r s r'] r_sticky(4) [of r] by (cases "r_ok r") auto

lemma r_remaining_utf8:
  "r_utf8 r = (s, r') \<Longrightarrow> r_ok r' \<Longrightarrow> r_remaining r = r_remaining r' + length s + 2"
  using r_utf8D [of r s r'] by (simp add: r_remaining_def)

lemma r_remaining_u8:
  "r_u8 r = (v, r') \<Longrightarrow> r_ok r' \<Longrightarrow> r_remaining r = r_remaining r' + 1"
  using r_u8D [of r v r'] by (simp add: r_remaining_def)

section \<open>Length of a variable byte integer\<close>

lemma length_varint_bytes: "n \<le> max_remaining_length \<Longrightarrow> length (varint_bytes n) = varint_size n"
  by (simp add: varint_bytes.simps varint_size_def max_remaining_length_def div_mult2_eq [symmetric]
      div_less_iff_less_mult)

section \<open>Properties\<close>

text \<open>Every operation of the writer appends exactly its encoding when there is room for it,
  fails without appending when there is not, and never changes a byte outside the window it was
  given; a string of more than 65535 bytes and a number of more than four length digits fail.\<close>

theorem writer_emits:
  "emits (w_u8 a) [a] \<and> emits (w_u16 v) (u16_bytes v) \<and> emits (w_bytes bs) bs
   \<and> (if length s \<le> max_utf8_len then emits (w_utf8 s) (utf8_bytes s) else \<not> w_ok (w_utf8 s w))
   \<and> (if unat n \<le> max_remaining_length then emits (w_varint n) (varint_bytes (unat n)) else \<not> w_ok (w_varint n w))"
  using emits_u8 emits_u16 emits_bytes emits_utf8 emits_varint w_utf8_too_long by (simp add: w_varint_def)

end
