(* ===== verification/Containers.thy ===== *)
theory Containers
  imports Prelude "HOL-Library.Multiset"
begin

text \<open>
  The fixed-capacity containers of \<open>core/\<close>: \<open>FixedString\<close> and \<open>FixedBuffer\<close>
  (owned bytes), \<open>StaticVector\<close> (an in-object vector) and \<open>Pool\<close> (slot-stable
  objects). The capacity is a template argument in the source and an argument
  here. A vector is the list of its live elements; a pool is its slots, where
  \<open>None\<close> is a slot with \<open>used_[i] = false\<close>, and the \<open>count_\<close> the class keeps
  beside them. A pointer to a pooled object is its slot index.
\<close>

section \<open>Definitions\<close>

subsection \<open>Comparison of views\<close>

definition span_eq :: "bytes \<Rightarrow> bytes \<Rightarrow> bool" where
  "span_eq a b \<longleftrightarrow> length a = length b \<and> list_all (\<lambda>i. a ! i = b ! i) [0..<length a]"

text \<open>\<open>ByteSpan::slice\<close>: an out-of-range request is clamped.\<close>

definition span_slice :: "bytes \<Rightarrow> nat \<Rightarrow> nat \<Rightarrow> bytes" where
  "span_slice b offset n =
     (if offset > length b then []
      else (let avail = length b - offset
            in take (if n < avail then n else avail) (drop offset b)))"

subsection \<open>FixedString and FixedBuffer\<close>

text \<open>Both \<open>assign\<close> functions copy the view or leave the old contents alone.\<close>

definition fixed_assign :: "nat \<Rightarrow> bytes \<Rightarrow> bytes \<Rightarrow> bytes \<times> bool" where
  "fixed_assign cap b old = (if length b > cap then (old, False) else (b, True))"

subsection \<open>StaticVector\<close>

definition sv_push_back :: "nat \<Rightarrow> 'a \<Rightarrow> 'a list \<Rightarrow> 'a list \<times> bool" where
  "sv_push_back cap v xs = (if length xs = cap then (xs, False) else (xs @ [v], True))"

text \<open>\<open>emplace_back\<close> value-initialises the next slot and returns it, or null.\<close>

definition sv_emplace_back :: "nat \<Rightarrow> 'a \<Rightarrow> 'a list \<Rightarrow> 'a list \<times> nat option" where
  "sv_emplace_back cap dflt xs =
     (if length xs = cap then (xs, None) else (xs @ [dflt], Some (length xs)))"

definition sv_pop_back :: "'a list \<Rightarrow> 'a list" where
  "sv_pop_back xs = (if length xs = 0 then xs else take (length xs - 1) xs)"

definition sv_remove_ordered :: "nat \<Rightarrow> 'a list \<Rightarrow> 'a list" where
  "sv_remove_ordered i xs =
     (if i \<ge> length xs then xs
      else sv_pop_back (fold (\<lambda>j ys. ys[j := ys ! (j + 1)]) [i..<length xs - 1] xs))"

definition sv_remove_unordered :: "nat \<Rightarrow> 'a list \<Rightarrow> 'a list" where
  "sv_remove_unordered i xs =
     (if i \<ge> length xs then xs
      else sv_pop_back (if i + 1 < length xs then xs[i := xs ! (length xs - 1)] else xs))"

function sv_clear :: "'a list \<Rightarrow> 'a list" where
  "sv_clear xs = (if length xs > 0 then sv_clear (sv_pop_back xs) else xs)"
  by pat_completeness auto
termination
  by (relation "measure length") (auto simp: sv_pop_back_def)

declare sv_clear.simps [simp del]

subsection \<open>Pool\<close>

record 'a pool =
  slots :: "'a option list"
  live :: nat

definition pool_init :: "nat \<Rightarrow> 'a pool" where
  "pool_init cap = \<lparr>slots = replicate cap None, live = 0\<rparr>"

definition pool_full :: "'a pool \<Rightarrow> bool" where
  "pool_full p \<longleftrightarrow> live p = length (slots p)"

text \<open>The first free slot, by linear search.\<close>

fun first_free :: "'a option list \<Rightarrow> nat \<Rightarrow> nat option" where
  "first_free [] i = None"
| "first_free (None # ss) i = Some i"
| "first_free (Some _ # ss) i = first_free ss (Suc i)"

definition pool_alloc :: "'a \<Rightarrow> 'a pool \<Rightarrow> 'a pool \<times> nat option" where
  "pool_alloc dflt p =
     (case first_free (slots p) 0 of
        None \<Rightarrow> (p, None)
      | Some i \<Rightarrow> (\<lparr>slots = (slots p)[i := Some dflt], live = live p + 1\<rparr>, Some i))"

definition pool_release :: "nat \<Rightarrow> 'a pool \<Rightarrow> 'a pool" where
  "pool_release i p =
     (if i \<ge> length (slots p) \<or> slots p ! i = None then p
      else \<lparr>slots = (slots p)[i := None], live = live p - 1\<rparr>)"

definition pool_clear :: "'a pool \<Rightarrow> 'a pool" where
  "pool_clear p = \<lparr>slots = map (\<lambda>_. None) (slots p), live = 0\<rparr>"

definition pool_at :: "'a pool \<Rightarrow> nat \<Rightarrow> 'a option" where
  "pool_at p i = (if i < length (slots p) then slots p ! i else None)"

fun find_slot :: "('a \<Rightarrow> bool) \<Rightarrow> 'a option list \<Rightarrow> nat \<Rightarrow> nat option" where
  "find_slot P [] i = None"
| "find_slot P (None # ss) i = find_slot P ss (Suc i)"
| "find_slot P (Some x # ss) i = (if P x then Some i else find_slot P ss (Suc i))"

definition pool_find :: "('a \<Rightarrow> bool) \<Rightarrow> 'a pool \<Rightarrow> nat option" where
  "pool_find P p = find_slot P (slots p) 0"

text \<open>
  \<open>for_each\<close> visits the slots in order and reads \<open>used_[i]\<close> when it gets there, so
  the callback may change the pool itself. \<open>get\<close> is where the pool sits in the
  state the callback works on.
\<close>

definition pool_for_each :: "nat \<Rightarrow> ('s \<Rightarrow> 'a pool) \<Rightarrow> (nat \<Rightarrow> 's \<Rightarrow> 's) \<Rightarrow> 's \<Rightarrow> 's" where
  "pool_for_each cap get f st =
     fold (\<lambda>i st. if pool_at (get st) i \<noteq> None then f i st else st) [0..<cap] st"

text \<open>Overwrite the object in a live slot (an assignment through its pointer).\<close>

definition pool_put :: "nat \<Rightarrow> 'a \<Rightarrow> 'a pool \<Rightarrow> 'a pool" where
  "pool_put i x p = p\<lparr>slots := (slots p)[i := Some x]\<rparr>"

definition pool_inv :: "nat \<Rightarrow> 'a pool \<Rightarrow> bool" where
  "pool_inv cap p \<longleftrightarrow>
     length (slots p) = cap \<and> live p = length (filter (\<lambda>s. s \<noteq> None) (slots p))"

section \<open>What the operations compute\<close>

lemma span_eq_iff [container_simps]: "span_eq a b \<longleftrightarrow> a = b"
  by (auto simp: span_eq_def list_all_iff intro: nth_equalityI)

lemma span_slice_eq [container_simps]: "span_slice b offset n = take n (drop offset b)"
  by (auto simp: span_slice_def Let_def)

lemma fixed_assign_fits [container_simps]:
  "length b \<le> cap \<Longrightarrow> fixed_assign cap b old = (b, True)"
  by (simp add: fixed_assign_def)

lemma fixed_assign_bound:
  "length old \<le> cap \<Longrightarrow> length (fst (fixed_assign cap b old)) \<le> cap"
  by (simp add: fixed_assign_def)

subsection \<open>StaticVector\<close>

lemma sv_pop_back_eq [container_simps]: "sv_pop_back xs = butlast xs"
  by (simp add: sv_pop_back_def butlast_conv_take)

lemma sv_clear_eq [container_simps]: "sv_clear xs = []"
proof (induction xs rule: sv_clear.induct)
  case (1 xs)
  then show ?case
    by (cases "xs = []") (simp_all add: sv_clear.simps [of xs] sv_clear.simps [of "[]"])
qed

text \<open>The shift loop of \<open>remove_ordered\<close> after it has moved the elements below \<open>j\<close>.\<close>

lemma shift_loop:
  assumes "i < length xs"
  shows "fold (\<lambda>j ys. ys[j := ys ! (j + 1)]) [i..<length xs - 1] xs
         = take i xs @ drop (Suc i) xs @ [last xs]"
proof -
  define P where "P j ys \<longleftrightarrow> length ys = length xs \<and>
      (\<forall>k < length xs. ys ! k = (if i \<le> k \<and> k < j then xs ! Suc k else xs ! k))" for j ys
  have "P (length xs - 1) (fold (\<lambda>j ys. ys[j := ys ! (j + 1)]) [i..<length xs - 1] xs)"
  proof (rule fold_upt_counter)
    show "i \<le> length xs - 1" using assms by simp
    show "P i xs" by (auto simp: P_def)
  next
    fix j ys
    assume "i \<le> j" "j < length xs - 1" "P j ys"
    then show "P (Suc j) (ys[j := ys ! (j + 1)])"
      by (auto simp: P_def nth_list_update less_Suc_eq)
  qed
  moreover have "xs ! k = last xs" if "\<not> k < length xs - Suc 0" "k < length xs" for k
    using that by (metis One_nat_def Suc_pred' last_conv_nth less_Suc_eq less_nat_zero_code
        linorder_neqE_nat list.size(3) not_less_eq)
  ultimately show ?thesis
    using assms
    by (intro nth_equalityI) (auto simp: P_def nth_append nth_Cons' min_def)
qed

lemma sv_remove_ordered_eq [container_simps]:
  "sv_remove_ordered i xs = take i xs @ drop (Suc i) xs"
proof (cases "i < length xs")
  case True
  then show ?thesis
    using shift_loop [OF True] by (simp add: sv_remove_ordered_def sv_pop_back_eq butlast_append)
next
  case False
  then show ?thesis by (simp add: sv_remove_ordered_def)
qed

lemma sv_remove_unordered_eq:
  assumes "i < length xs"
  shows "mset (sv_remove_unordered i xs) = mset xs - {#xs ! i#}"
proof (cases "i + 1 < length xs")
  case True
  then have ne: "xs \<noteq> []" by auto
  define ys where "ys = butlast xs"
  have xs: "xs = ys @ [last xs]" by (simp add: ys_def ne)
  have i: "i < length ys" using True by (simp add: ys_def)
  have "sv_remove_unordered i xs = ys[i := last xs]"
    using True ne by (auto simp: sv_remove_unordered_def sv_pop_back_eq ys_def
        butlast_list_update last_conv_nth)
  moreover have "xs ! i = ys ! i" using i by (simp add: ys_def nth_butlast)
  moreover have "mset xs = mset ys + {#last xs#}" by (subst xs) simp
  ultimately show ?thesis using i by (simp add: mset_update)
next
  case False
  then have "i = length xs - 1" "xs \<noteq> []" using assms by auto
  then have "xs ! i = last xs" by (simp add: last_conv_nth)
  moreover have "mset xs = mset (butlast xs @ [last xs])" using \<open>xs \<noteq> []\<close> by simp
  ultimately have "mset xs = mset (butlast xs) + {#xs ! i#}" by (metis mset_append mset_single_iff_right mset.simps(1) mset.simps(2) add_mset_add_single)
  with False assms show ?thesis by (simp add: sv_remove_unordered_def sv_pop_back_eq)
qed

subsection \<open>Pool\<close>

lemma first_free_offset:
  "first_free ss k = Some i \<Longrightarrow>
     \<exists>d. i = k + d \<and> d < length ss \<and> ss ! d = None \<and> (\<forall>j < d. ss ! j \<noteq> None)"
proof (induction ss k rule: first_free.induct)
  case (3 x ss k)
  then obtain d where "i = Suc k + d" "d < length ss" "ss ! d = None" "\<forall>j < d. ss ! j \<noteq> None"
    by auto
  then show ?case
    by (intro exI [of _ "Suc d"]) (auto simp: less_Suc_eq_0_disj)
qed auto

lemma first_free_Some:
  "first_free ss 0 = Some i \<Longrightarrow> i < length ss \<and> ss ! i = None \<and> (\<forall>j < i. ss ! j \<noteq> None)"
  using first_free_offset [of ss 0 i] by auto

lemma first_free_None: "first_free ss k = None \<longleftrightarrow> None \<notin> set ss"
  by (induction ss k rule: first_free.induct) auto

lemma find_slot_offset:
  "find_slot P ss k = Some i \<Longrightarrow>
     \<exists>d x. i = k + d \<and> d < length ss \<and> ss ! d = Some x \<and> P x
       \<and> (\<forall>j < d. \<forall>y. ss ! j = Some y \<longrightarrow> \<not> P y)"
proof (induction P ss k rule: find_slot.induct)
  case (2 P ss k)
  then obtain d x where "i = Suc k + d" "d < length ss" "ss ! d = Some x" "P x"
    "\<forall>j < d. \<forall>y. ss ! j = Some y \<longrightarrow> \<not> P y" by auto
  then show ?case
    by (intro exI [of _ "Suc d"] exI [of _ x]) (auto simp: less_Suc_eq_0_disj)
next
  case (3 P z ss k)
  show ?case
  proof (cases "P z")
    case True
    with 3 show ?thesis by (intro exI [of _ 0] exI [of _ z]) simp
  next
    case False
    with 3 obtain d x where "i = Suc k + d" "d < length ss" "ss ! d = Some x" "P x"
      "\<forall>j < d. \<forall>y. ss ! j = Some y \<longrightarrow> \<not> P y" by auto
    with False show ?thesis
      by (intro exI [of _ "Suc d"] exI [of _ x]) (auto simp: less_Suc_eq_0_disj)
  qed
qed simp

lemma find_slot_None: "find_slot P ss k = None \<longleftrightarrow> (\<forall>x. Some x \<in> set ss \<longrightarrow> \<not> P x)"
  by (induction P ss k rule: find_slot.induct) auto

lemma pool_at_init [simp]: "pool_at (pool_init cap) i = None"
  by (simp add: pool_at_def pool_init_def)

lemma pool_at_bound: "pool_at p i = Some x \<Longrightarrow> i < length (slots p)"
  by (auto simp: pool_at_def split: if_splits)

lemma pool_at_put [simp]:
  "i < length (slots p) \<Longrightarrow> pool_at (pool_put i x p) = (pool_at p)(i := Some x)"
  by (rule ext) (simp add: pool_at_def pool_put_def)

lemma length_pool_put [simp]: "length (slots (pool_put i x p)) = length (slots p)"
  by (simp add: pool_put_def)

lemma pool_at_release [simp]: "pool_at (pool_release i p) = (pool_at p)(i := None)"
  by (rule ext) (auto simp: pool_at_def pool_release_def)

lemma length_pool_release [simp]: "length (slots (pool_release i p)) = length (slots p)"
  by (simp add: pool_release_def)

lemma pool_inv_init [simp]: "pool_inv cap (pool_init cap)"
  by (simp add: pool_inv_def pool_init_def)

lemma pool_inv_length: "pool_inv cap p \<Longrightarrow> length (slots p) = cap"
  by (simp add: pool_inv_def)

lemma length_filter_update:
  assumes "i < length xs"
  shows "length (filter P (xs[i := y])) + (if P (xs ! i) then 1 else 0)
         = length (filter P xs) + (if P y then 1 else 0)"
proof -
  have "length (filter P xs) = length (filter P (take i xs @ xs ! i # drop (Suc i) xs))"
    using assms by (metis id_take_nth_drop)
  moreover have "xs[i := y] = take i xs @ y # drop (Suc i) xs"
    using assms by (simp add: upd_conv_take_nth_drop)
  ultimately show ?thesis by simp
qed

lemma pool_inv_put:
  assumes "pool_inv cap p" "pool_at p i = Some y"
  shows "pool_inv cap (pool_put i x p)"
proof -
  have "i < length (slots p)" "slots p ! i = Some y"
    using assms(2) by (auto simp: pool_at_def split: if_splits)
  with length_filter_update [of i "slots p" "\<lambda>s. s \<noteq> None" "Some x"] assms(1)
  show ?thesis by (simp add: pool_inv_def pool_put_def)
qed

lemma pool_inv_release:
  assumes "pool_inv cap p" shows "pool_inv cap (pool_release i p)"
  using assms length_filter_update [of i "slots p" "\<lambda>s. s \<noteq> None" None]
  by (auto simp: pool_inv_def pool_release_def)

lemma pool_alloc_Some:
  assumes "pool_inv cap p" "pool_alloc d p = (p', Some i)"
  shows "i < cap \<and> pool_at p i = None \<and> pool_at p' = (pool_at p)(i := Some d) \<and> pool_inv cap p'"
proof -
  have ff: "first_free (slots p) 0 = Some i"
    and p': "p' = \<lparr>slots = (slots p)[i := Some d], live = live p + 1\<rparr>"
    using assms(2) by (auto simp: pool_alloc_def split: option.splits)
  have i: "i < length (slots p)" "slots p ! i = None"
    using first_free_Some [OF ff] by auto
  with p' assms(1) length_filter_update [of i "slots p" "\<lambda>s. s \<noteq> None" "Some d"]
  show ?thesis by (auto simp: pool_inv_def pool_at_def)
qed

lemma pool_alloc_None:
  assumes "pool_inv cap p" "pool_alloc d p = (p', None)"
  shows "p' = p \<and> (\<forall>i < cap. pool_at p i \<noteq> None)"
proof -
  have "first_free (slots p) 0 = None" "p' = p"
    using assms(2) by (auto simp: pool_alloc_def split: option.splits)
  then show ?thesis
    using assms(1) by (auto simp: first_free_None pool_inv_def pool_at_def in_set_conv_nth)
qed

lemma pool_find_Some:
  "pool_find P p = Some i \<Longrightarrow> \<exists>x. pool_at p i = Some x \<and> P x"
  using find_slot_offset [of P "slots p" 0 i] by (auto simp: pool_find_def pool_at_def)

lemma pool_find_None:
  "pool_find P p = None \<longleftrightarrow> (\<forall>i x. pool_at p i = Some x \<longrightarrow> \<not> P x)"
  by (auto simp: pool_find_def find_slot_None pool_at_def in_set_conv_nth split: if_splits)

lemma pool_full_iff:
  assumes "pool_inv cap p" shows "pool_full p \<longleftrightarrow> (\<forall>i < cap. pool_at p i \<noteq> None)"
proof -
  have "length (filter Q xs) = length xs \<longleftrightarrow> (\<forall>x \<in> set xs. Q x)" for Q and xs :: "'b list"
    by (metis filter_True length_filter_less less_irrefl)
  from this [of "\<lambda>s. s \<noteq> None" "slots p"] show ?thesis
    using assms by (simp add: pool_full_def pool_inv_def pool_at_def all_set_conv_all_nth)
qed

section \<open>The interface the broker uses\<close>

text \<open>
  What a store of keyed objects promises its client: slots stay where they are,
  \<open>alloc\<close> hands out a free one, \<open>release\<close> frees exactly one. The client lemmas
  below are about a key that is unique among the live objects (a session's client
  id, a retained message's topic).
\<close>

locale slot_store =
  fixes cap :: nat
    and invar :: "'p \<Rightarrow> bool"
    and at :: "'p \<Rightarrow> nat \<Rightarrow> 'a option"
    and alloc :: "'a \<Rightarrow> 'p \<Rightarrow> 'p \<times> nat option"
    and release :: "nat \<Rightarrow> 'p \<Rightarrow> 'p"
    and put :: "nat \<Rightarrow> 'a \<Rightarrow> 'p \<Rightarrow> 'p"
  assumes at_bound: "invar p \<Longrightarrow> at p i \<noteq> None \<Longrightarrow> i < cap"
    and alloc_Some: "invar p \<Longrightarrow> alloc d p = (p', Some i) \<Longrightarrow>
           at p i = None \<and> at p' = (at p)(i := Some d) \<and> invar p'"
    and alloc_None: "invar p \<Longrightarrow> alloc d p = (p', None) \<Longrightarrow>
           p' = p \<and> (\<forall>i < cap. at p i \<noteq> None)"
    and at_release: "invar p \<Longrightarrow> at (release i p) = (at p)(i := None)"
    and invar_release: "invar p \<Longrightarrow> invar (release i p)"
    and at_put: "invar p \<Longrightarrow> at p i \<noteq> None \<Longrightarrow> at (put i x p) = (at p)(i := Some x)"
    and invar_put: "invar p \<Longrightarrow> at p i \<noteq> None \<Longrightarrow> invar (put i x p)"
begin

definition keyed :: "('a \<Rightarrow> 'k) \<Rightarrow> 'p \<Rightarrow> bool" where
  "keyed key p \<longleftrightarrow>
     (\<forall>i j x y. at p i = Some x \<longrightarrow> at p j = Some y \<longrightarrow> key x = key y \<longrightarrow> i = j)"

lemma keyedD: "keyed key p \<Longrightarrow> at p i = Some x \<Longrightarrow> at p j = Some y \<Longrightarrow> key x = key y \<Longrightarrow> i = j"
  unfolding keyed_def by blast

lemma keyed_release: "invar p \<Longrightarrow> keyed key p \<Longrightarrow> keyed key (release i p)"
  unfolding keyed_def by (simp add: at_release)

lemma keyed_put_same:
  "invar p \<Longrightarrow> keyed key p \<Longrightarrow> at p i = Some y \<Longrightarrow> key x = key y \<Longrightarrow> keyed key (put i x p)"
  unfolding keyed_def by (auto simp: at_put split: if_splits)

lemma keyed_alloc_put:
  assumes "invar p" "keyed key p" "alloc d p = (p', Some i)"
    and fresh: "\<And>j y. at p j = Some y \<Longrightarrow> key y \<noteq> key x"
  shows "keyed key (put i x p')"
proof -
  have p': "at p' = (at p)(i := Some d)" "invar p'"
    using alloc_Some [OF assms(1,3)] by auto
  then have "at (put i x p') = (at p)(i := Some x)" by (simp add: at_put)
  with assms(2) fresh show ?thesis
    unfolding keyed_def by (auto split: if_splits dest: fresh)
qed

lemma alloc_after_release:
  assumes "invar p" "at p i = Some x" "i < cap"
  shows "\<exists>p' j. alloc d (release i p) = (p', Some j)"
proof (cases "alloc d (release i p)")
  case (Pair p' r)
  then show ?thesis
    using assms alloc_None [OF invar_release [OF assms(1)], of d i p'] at_release [OF assms(1), of i]
    by (cases r) auto
qed

end

interpretation slot_pool: slot_store cap "pool_inv cap" pool_at pool_alloc pool_release pool_put for cap
proof
  fix p :: "'a pool" and i
  show "pool_inv cap p \<Longrightarrow> pool_at p i \<noteq> None \<Longrightarrow> i < cap"
    by (auto simp: pool_at_def pool_inv_def split: if_splits)
next
  fix p p' :: "'a pool" and d i
  show "pool_inv cap p \<Longrightarrow> pool_alloc d p = (p', Some i) \<Longrightarrow>
      pool_at p i = None \<and> pool_at p' = (pool_at p)(i := Some d) \<and> pool_inv cap p'"
    using pool_alloc_Some [of cap p d p' i] by simp
next
  fix p p' :: "'a pool" and d
  show "pool_inv cap p \<Longrightarrow> pool_alloc d p = (p', None) \<Longrightarrow>
      p' = p \<and> (\<forall>i < cap. pool_at p i \<noteq> None)"
    by (rule pool_alloc_None)
next
  fix p :: "'a pool" and i x
  show "pool_at (pool_release i p) = (pool_at p)(i := None)" by simp
  show "pool_inv cap p \<Longrightarrow> pool_inv cap (pool_release i p)" by (rule pool_inv_release)
  show "pool_at p i \<noteq> None \<Longrightarrow> pool_at (pool_put i x p) = (pool_at p)(i := Some x)"
    using pool_at_bound [of p i] by auto
  show "pool_inv cap p \<Longrightarrow> pool_at p i \<noteq> None \<Longrightarrow> pool_inv cap (pool_put i x p)"
    using pool_inv_put [of cap p i] by auto
qed

end
