(* ===== verification/Packets.thy ===== *)
theory Packets
  imports Wire Containers
begin

unbundle bit_operations_syntax

text \<open>
  Control packets (\<open>protocol/packets.hpp\<close>): the parsers of CONNECT, PUBLISH and the
  packets that carry only a packet identifier, the streaming parser of the
  SUBSCRIBE and UNSUBSCRIBE topic lists, and the builders. A parser returns
  \<open>Inl e\<close> where the code returns the error \<open>e\<close> (its out-parameter is then not read by
  any caller). A builder takes the buffer it writes and returns the buffer together with
  the bytes of the span it returns; the empty span is the code's failure value.
\<close>

section \<open>Parsing\<close>

record connect_packet =
  cp_client_id :: bytes
  cp_will_topic :: bytes
  cp_will_payload :: bytes
  cp_username :: bytes
  cp_password :: bytes
  cp_keepalive_s :: u16
  cp_protocol_level :: byte
  cp_will_qos :: qos
  cp_protocol_name_ok :: bool
  cp_clean_session :: bool
  cp_has_will :: bool
  cp_will_retain :: bool
  cp_has_username :: bool
  cp_has_password :: bool

definition mqtt_name :: bytes where
  "mqtt_name = [0x4D, 0x51, 0x54, 0x54]"

definition connect_will_qos :: "byte \<Rightarrow> byte" where
  "connect_will_qos flags = drop_bit cf_will_qos_shift (flags AND cf_will_qos_mask)"

text \<open>The fields after the variable header, read as the flags in \<open>p\<close> announce them.\<close>

definition parse_connect_payload :: "reader \<Rightarrow> connect_packet \<Rightarrow> err + connect_packet" where
  "parse_connect_payload r p =
    (let (client_id, r) = r_utf8 r;
         (will_topic, r) = (if cp_has_will p then r_utf8 r else (cp_will_topic p, r));
         (will_payload, r) = (if cp_has_will p then r_len_prefixed_bytes r else (cp_will_payload p, r));
         (username, r) = (if cp_has_username p then r_utf8 r else (cp_username p, r));
         (password, r) = (if cp_has_password p then r_len_prefixed_bytes r else (cp_password p, r))
     in if \<not> r_ok r then Inl Err_truncated
     else if \<not> r_at_end r then Inl Err_malformed
     else Inr (p\<lparr>cp_client_id := client_id, cp_will_topic := will_topic,
                 cp_will_payload := will_payload, cp_username := username,
                 cp_password := password\<rparr>))"

definition parse_connect :: "bytes \<Rightarrow> err + connect_packet" where
  "parse_connect body =
    (let (name, r) = r_utf8 (reader_init body);
         (level, r) = r_u8 r;
         (flags, r) = r_u8 r;
         (keepalive, r) = r_u16 r
     in if \<not> r_ok r then Inl Err_truncated
     else if flags AND cf_reserved \<noteq> 0 then Inl Err_malformed
     else
       let has_will = (flags AND cf_will \<noteq> 0);
           will_retain = (flags AND cf_will_retain \<noteq> 0);
           has_username = (flags AND cf_username \<noteq> 0);
           has_password = (flags AND cf_password \<noteq> 0);
           will_qos_raw = connect_will_qos flags
       in if will_qos_raw > 2 then Inl Err_malformed
       else if \<not> has_will \<and> (will_qos_raw \<noteq> 0 \<or> will_retain) then Inl Err_malformed
       else if has_password \<and> \<not> has_username then Inl Err_malformed
       else parse_connect_payload r
              \<lparr>cp_client_id = [], cp_will_topic = [], cp_will_payload = [], cp_username = [],
               cp_password = [], cp_keepalive_s = keepalive, cp_protocol_level = level,
               cp_will_qos = qos_cast will_qos_raw, cp_protocol_name_ok = span_eq name mqtt_name,
               cp_clean_session = (flags AND cf_clean_session \<noteq> 0), cp_has_will = has_will,
               cp_will_retain = will_retain, cp_has_username = has_username,
               cp_has_password = has_password\<rparr>)"

record publish_packet =
  pp_topic :: bytes
  pp_payload :: bytes
  pp_packet_id :: u16
  pp_qos :: qos
  pp_retain :: bool
  pp_dup :: bool

definition publish_qos_raw :: "byte \<Rightarrow> byte" where
  "publish_qos_raw flags = drop_bit publish_qos_shift (flags AND publish_qos_mask)"

definition parse_publish :: "byte \<Rightarrow> bytes \<Rightarrow> err + publish_packet" where
  "parse_publish first_byte body =
    (let flags = packet_flags first_byte;
         qos_raw = publish_qos_raw flags
     in if qos_raw > 2 then Inl Err_malformed
     else
       let qos = qos_cast qos_raw;
           dup = (flags AND publish_dup_bit \<noteq> 0);
           retain = (flags AND publish_retain_bit \<noteq> 0)
       in if qos = at_most_once \<and> dup then Inl Err_malformed
       else
         let (topic, r) = r_utf8 (reader_init body);
             (packet_id, r) = (if qos \<noteq> at_most_once then r_u16 r else (0, r))
         in if \<not> r_ok r then Inl Err_truncated
         else if qos \<noteq> at_most_once \<and> packet_id = 0 then Inl Err_malformed
         else Inr \<lparr>pp_topic = topic, pp_payload = fst (r_take_rest r), pp_packet_id = packet_id,
                   pp_qos = qos, pp_retain = retain, pp_dup = dup\<rparr>)"

definition parse_packet_id_only :: "bytes \<Rightarrow> err + u16" where
  "parse_packet_id_only body =
    (let (packet_id, r) = r_u16 (reader_init body)
     in if \<not> r_ok r then Inl Err_truncated
     else if \<not> r_at_end r then Inl Err_malformed
     else if packet_id = 0 then Inl Err_malformed
     else Inr packet_id)"

record topic_list_parser =
  tl_r :: reader
  tl_packet_id :: u16
  tl_count :: nat
  tl_err :: err
  tl_with_qos :: bool

definition tl_init :: "bytes \<Rightarrow> bool \<Rightarrow> topic_list_parser" where
  "tl_init body with_qos =
    (let (packet_id, r) = r_u16 (reader_init body)
     in \<lparr>tl_r = r, tl_packet_id = packet_id, tl_count = 0,
         tl_err = (if \<not> r_ok r then Err_truncated else if packet_id = 0 then Err_malformed else Err_ok),
         tl_with_qos = with_qos\<rparr>)"

definition tl_next :: "topic_list_parser \<Rightarrow> (bytes \<times> qos) option \<times> topic_list_parser" where
  "tl_next p =
    (if tl_err p \<noteq> Err_ok then (None, p)
     else if r_at_end (tl_r p) then
       (None, if tl_count p = 0 then p\<lparr>tl_err := Err_malformed\<rparr> else p)
     else
       let (flt, r) = r_utf8 (tl_r p);
           (q, r) = (if tl_with_qos p then r_u8 r else (0, r));
           p = p\<lparr>tl_r := r\<rparr>
       in if \<not> r_ok r then (None, p\<lparr>tl_err := Err_truncated\<rparr>)
       else if q > 2 then (None, p\<lparr>tl_err := Err_malformed\<rparr>)
       else (Some (flt, qos_cast q), p\<lparr>tl_count := tl_count p + 1\<rparr>))"

lemma tl_next_remaining:
  assumes "tl_next p = (Some x, p')" shows "r_remaining (tl_r p') < r_remaining (tl_r p)"
proof -
  obtain flt r where 1: "r_utf8 (tl_r p) = (flt, r)" by fastforce
  obtain q r' where 2: "(if tl_with_qos p then r_u8 r else (0, r)) = (q, r')" by fastforce
  have r': "r_ok r'" "tl_r p' = r'"
    using assms by (auto simp: tl_next_def 1 2 Let_def split: if_splits)
  then have "r_ok r \<and> r_remaining r' \<le> r_remaining r"
    using r_u8D [of r q r'] 2 by (auto simp: r_remaining_def split: if_splits)
  then show ?thesis using r_remaining_utf8 [OF 1] r' by simp
qed

text \<open>The idiom \<open>while (p.next(filter, qos)) body\<close>.\<close>

function tl_while :: "(bytes \<Rightarrow> qos \<Rightarrow> 's \<Rightarrow> 's) \<Rightarrow> topic_list_parser \<Rightarrow> 's \<Rightarrow> topic_list_parser \<times> 's" where
  "tl_while f p st =
    (case tl_next p of
       (None, p') \<Rightarrow> (p', st)
     | (Some (flt, q), p') \<Rightarrow> tl_while f p' (f flt q st))"
  by pat_completeness auto
termination
  by (relation "measure (\<lambda>(f, p, st). r_remaining (tl_r p))") (auto dest!: tl_next_remaining [OF sym])

declare tl_while.simps [simp del]

section \<open>Serialization\<close>

definition packet_overhead :: nat where
  "packet_overhead = 5"

definition frame_packet :: "bytes \<Rightarrow> byte \<Rightarrow> nat \<Rightarrow> bytes \<times> bytes" where
  "frame_packet buf first_byte body_len =
    (if body_len > max_remaining_length then (buf, [])
     else
       let vs = varint_size body_len;
           start = packet_overhead - 1 - vs;
           w = w_varint (of_nat body_len) (w_u8 first_byte (writer_init buf start (1 + vs)))
       in if \<not> w_ok w then (w_mem w, [])
       else (w_mem w, take (1 + vs + body_len) (drop start (w_mem w))))"

definition build_connack :: "bytes \<Rightarrow> nat \<Rightarrow> bool \<Rightarrow> connack_code \<Rightarrow> bytes \<times> bytes" where
  "build_connack buf cap session_present code =
    (if cap < packet_overhead + 2 then (buf, [])
     else
       let w = writer_init buf packet_overhead (cap - packet_overhead);
           w = w_u8 (if session_present then 1 else 0) w;
           w = w_u8 (connack_value code) w
       in if \<not> w_ok w then (w_mem w, [])
       else frame_packet (w_mem w) (make_first_byte PT_connack 0) (w_len w))"

definition build_publish :: "bytes \<Rightarrow> nat \<Rightarrow> bytes \<Rightarrow> bytes \<Rightarrow> qos \<Rightarrow> bool \<Rightarrow> bool \<Rightarrow> u16 \<Rightarrow> bytes \<times> bytes" where
  "build_publish buf cap topic payload qos retain dup packet_id =
    (let flags = push_bit publish_qos_shift (qos_code qos);
         flags = (if retain then flags OR publish_retain_bit else flags);
         flags = (if dup then flags OR publish_dup_bit else flags)
     in if cap < packet_overhead then (buf, [])
     else
       let w = writer_init buf packet_overhead (cap - packet_overhead);
           w = w_utf8 topic w;
           w = (if qos \<noteq> at_most_once then w_u16 packet_id w else w);
           w = w_bytes payload w
       in if \<not> w_ok w then (w_mem w, [])
       else frame_packet (w_mem w) (make_first_byte PT_publish flags) (w_len w))"

definition build_packet_id_only :: "bytes \<Rightarrow> nat \<Rightarrow> packet_type \<Rightarrow> u16 \<Rightarrow> bytes \<times> bytes" where
  "build_packet_id_only buf cap type packet_id =
    (if cap < packet_overhead + 2 then (buf, [])
     else
       let w = w_u16 packet_id (writer_init buf packet_overhead (cap - packet_overhead))
       in if \<not> w_ok w then (w_mem w, [])
       else frame_packet (w_mem w)
              (make_first_byte type (if type = PT_pubrel then 0x02 else 0x00)) (w_len w))"

definition build_pingresp :: "bytes \<Rightarrow> nat \<Rightarrow> bytes \<times> bytes" where
  "build_pingresp buf cap =
    (if cap < 2 then (buf, [])
     else let buf = buf[0 := make_first_byte PT_pingresp 0, 1 := 0] in (buf, take 2 buf))"

section \<open>What the builders emit\<close>

text \<open>The packet as [MQTT-2] lays it out: first byte, Remaining Length, body.\<close>

definition packet_bytes :: "byte \<Rightarrow> bytes \<Rightarrow> bytes" where
  "packet_bytes first_byte body = first_byte # varint_bytes (length body) @ body"

definition publish_body :: "bytes \<Rightarrow> bytes \<Rightarrow> qos \<Rightarrow> u16 \<Rightarrow> bytes" where
  "publish_body topic payload q packet_id =
     utf8_bytes topic @ (if q \<noteq> at_most_once then u16_bytes packet_id else []) @ payload"

definition publish_flags :: "qos \<Rightarrow> bool \<Rightarrow> bool \<Rightarrow> byte" where
  "publish_flags q retain dup =
     (qos_code q * 2 + (if retain then 1 else 0)) + (if dup then 8 else 0)"

lemma varint_size_range: "1 \<le> varint_size n" "varint_size n \<le> 4"
  by (auto simp: varint_size_def)

lemma frame_packet_bytes:
  assumes n: "n \<le> max_remaining_length" and buf: "packet_overhead + n \<le> length buf"
  shows "snd (frame_packet buf fb n) = fb # varint_bytes n @ take n (drop packet_overhead buf)"
    and "length (fst (frame_packet buf fb n)) = length buf"
proof -
  define vs w0 w where defs: "vs = varint_size n" "w0 = writer_init buf (4 - vs) (1 + vs)"
    "w = w_varint (of_nat n) (w_u8 fb w0)"
  have vs: "1 \<le> vs" "vs \<le> 4" using varint_size_range [of n] by (auto simp: defs)
  have un: "unat (of_nat n :: u32) = n"
    using n by (simp add: unat_of_nat max_remaining_length_def)
  have "emits (\<lambda>w. w_varint (of_nat n) (w_u8 fb w)) ([fb] @ varint_bytes n)"
    using emits_seq [OF emits_u8 [of fb] emits_varint [of "of_nat n"]] n un by simp
  moreover have "w_inv w0" using vs buf by (auto simp: defs(2) w_inv_def writer_init_def packet_overhead_def)
  ultimately have w: "w_inv w" "same_window w0 w" "w_ok w" "w_span w = fb # varint_bytes n"
    using length_varint_bytes [OF n]
    by (auto simp: emits_def defs writer_init_def w_span_def)
  have mem: "drop 5 (w_mem w) = drop 5 buf" "w_base w = 4 - vs" "length (w_mem w) = length buf"
    using w(2) vs by (auto simp: same_window_def defs(2) writer_init_def)
  have wl: "w_len w = 1 + vs"
    using length_w_span [OF w(1)] w(4) length_varint_bytes [OF n] by (simp add: defs)
  have "take (1 + vs + n) (drop (4 - vs) (w_mem w)) = w_span w @ take n (drop 5 (w_mem w))"
    using vs take_add [of "1 + vs" n "drop (4 - vs) (w_mem w)"] by (simp add: w_span_def mem(2) wl)
  moreover have fp: "frame_packet buf fb n = (w_mem w, take (1 + vs + n) (drop (4 - vs) (w_mem w)))"
    using n w(3) by (simp add: frame_packet_def packet_overhead_def defs Let_def)
  ultimately show "snd (frame_packet buf fb n) = fb # varint_bytes n @ take n (drop packet_overhead buf)"
    using w(4) mem by (simp add: packet_overhead_def)
  show "length (fst (frame_packet buf fb n)) = length buf" by (simp add: fp mem)
qed

lemma framed_body:
  assumes f: "emits f bs" and cap: "packet_overhead \<le> cap" "cap \<le> length buf"
    and w: "w = f (writer_init buf packet_overhead (cap - packet_overhead))"
  shows "snd (if \<not> w_ok w then (w_mem w, []) else frame_packet (w_mem w) fb (w_len w)) =
     (if packet_overhead + length bs \<le> cap \<and> length bs \<le> max_remaining_length
      then packet_bytes fb bs else [])"
proof -
  let ?w0 = "writer_init buf packet_overhead (cap - packet_overhead)"
  have "w_inv ?w0" using cap by (simp add: w_inv_def writer_init_def)
  then have i: "w_inv w" "same_window ?w0 w" "w_ok w \<longleftrightarrow> packet_overhead + length bs \<le> cap"
    "w_ok w \<Longrightarrow> w_span w = bs"
    using f cap by (auto simp: emits_def w writer_init_def w_span_def)
  have b: "w_base w = packet_overhead" "length (w_mem w) = length buf"
    using i(2) by (auto simp: same_window_def writer_init_def)
  show ?thesis
  proof (cases "w_ok w \<and> length bs \<le> max_remaining_length")
    case True
    then have l: "w_len w = length bs" using length_w_span [OF i(1)] i(4) by simp
    with True have "take (length bs) (drop packet_overhead (w_mem w)) = bs"
      using i(4) by (simp add: w_span_def b)
    then show ?thesis
      using frame_packet_bytes(1) [of "length bs" "w_mem w" fb] True i(3) b cap l
      by (simp add: packet_bytes_def)
  next
    case False
    moreover have "w_len w = length bs" if "w_ok w" using length_w_span [OF i(1)] i(4) that by simp
    ultimately show ?thesis using i(3) by (auto simp: frame_packet_def)
  qed
qed

text \<open>
  The closed form of every builder: the bytes do not depend on what the buffer held, and
  the span is empty exactly when the packet does not fit.
\<close>

lemma build_connack_bytes:
  "cap \<le> length buf \<Longrightarrow>
   snd (build_connack buf cap sp code) =
     (if packet_overhead + 2 \<le> cap
      then packet_bytes (make_first_byte PT_connack 0) [if sp then 1 else 0, connack_value code] else [])"
  using framed_body [OF emits_seq [OF emits_u8 [of "if sp then 1 else 0"] emits_u8 [of "connack_value code"]],
      of cap buf _ "make_first_byte PT_connack 0"]
  by (auto simp: build_connack_def Let_def max_remaining_length_def)

lemma build_packet_id_only_bytes:
  "cap \<le> length buf \<Longrightarrow>
   snd (build_packet_id_only buf cap type pid) =
     (if packet_overhead + 2 \<le> cap
      then packet_bytes (make_first_byte type (if type = PT_pubrel then 2 else 0)) (u16_bytes pid) else [])"
  using framed_body [OF emits_u16 [of pid], of cap buf _ "make_first_byte type (if type = PT_pubrel then 2 else 0)"]
  by (auto simp: build_packet_id_only_def Let_def max_remaining_length_def)

lemma build_pingresp_bytes:
  "cap \<le> length buf \<Longrightarrow>
   snd (build_pingresp buf cap) = (if 2 \<le> cap then packet_bytes (make_first_byte PT_pingresp 0) [] else [])"
  by (cases buf; cases "tl buf")
     (auto simp: build_pingresp_def packet_bytes_def varint_bytes.simps Let_def)

lemma publish_flags_bits:
  "(let flags = push_bit publish_qos_shift (qos_code q);
        flags = (if retain then flags OR publish_retain_bit else flags)
    in if dup then flags OR publish_dup_bit else flags) = publish_flags q retain dup"
  by (cases q) (simp_all add: Let_def header_bits publish_flags_def)

lemma build_publish_bytes:
  assumes "cap \<le> length buf" "length topic \<le> max_utf8_len"
  shows "snd (build_publish buf cap topic payload q retain dup pid) =
     (let body = publish_body topic payload q pid
      in if packet_overhead + length body \<le> cap \<and> length body \<le> max_remaining_length
         then packet_bytes (make_first_byte PT_publish (publish_flags q retain dup)) body else [])"
proof -
  have id: "emits (if q \<noteq> at_most_once then w_u16 pid else (\<lambda>w. w))
          (if q \<noteq> at_most_once then u16_bytes pid else [])"
    using emits_u16 [of pid] emits_id by simp
  have e: "emits (\<lambda>w. w_bytes payload ((if q \<noteq> at_most_once then w_u16 pid else (\<lambda>w. w)) (w_utf8 topic w)))
          (publish_body topic payload q pid)"
    using emits_seq [OF emits_seq [OF emits_utf8 [OF assms(2)] id] emits_bytes [of payload]]
    by (simp add: publish_body_def)
  have "build_publish buf cap topic payload q retain dup pid =
     (if cap < packet_overhead then (buf, [])
      else let w = w_bytes payload ((if q \<noteq> at_most_once then w_u16 pid else (\<lambda>w. w))
                     (w_utf8 topic (writer_init buf packet_overhead (cap - packet_overhead))))
           in if \<not> w_ok w then (w_mem w, [])
              else frame_packet (w_mem w) (make_first_byte PT_publish (publish_flags q retain dup)) (w_len w))"
    using publish_flags_bits [of q retain dup] by (simp add: build_publish_def Let_def)
  then show ?thesis
    using framed_body [OF e _ assms(1) refl, of "make_first_byte PT_publish (publish_flags q retain dup)"]
    by (auto simp: Let_def)
qed

text \<open>A topic that exceeds its length prefix yields no packet.\<close>

lemma w_not_ok_sticky:
  "\<not> w_ok w \<Longrightarrow> \<not> w_ok (w_u16 v w)" "\<not> w_ok w \<Longrightarrow> \<not> w_ok (w_bytes b w)"
  by (simp_all add: w_u16_def w_bytes_def)

lemma build_publish_long_topic:
  "max_utf8_len < length topic \<Longrightarrow> snd (build_publish buf cap topic payload q retain dup pid) = []"
  by (simp add: build_publish_def Let_def w_utf8_def w_not_ok_sticky)

section \<open>Round trips\<close>

lemma byte_bits:
  "packet_flags (make_first_byte t f) = f AND 0x0F"
proof -
  have m: "(0x0F :: byte) = mask 4" by (simp add: mask_eq_exp_minus_1)
  show ?thesis
    unfolding packet_flags_def make_first_byte_def m by (rule bit_word_eqI) (auto simp: bit_simps)
qed

lemma publish_flags_read:
  assumes "f = packet_flags (make_first_byte PT_publish (publish_flags q retain dup))"
  shows "publish_qos_raw f = qos_code q"
    and "f AND publish_dup_bit \<noteq> 0 \<longleftrightarrow> dup"
    and "f AND publish_retain_bit \<noteq> 0 \<longleftrightarrow> retain"
  by (cases q; simp add: assms byte_bits publish_flags_def publish_qos_raw_def header_bits)+

theorem parse_build_publish_body:
  assumes "length topic \<le> max_utf8_len" "q \<noteq> at_most_once \<longrightarrow> pid \<noteq> 0" "q = at_most_once \<longrightarrow> \<not> dup"
  shows "parse_publish (make_first_byte PT_publish (publish_flags q retain dup))
            (publish_body topic payload q pid) =
     Inr \<lparr>pp_topic = topic, pp_payload = payload,
          pp_packet_id = (if q = at_most_once then 0 else pid),
          pp_qos = q, pp_retain = retain, pp_dup = dup\<rparr>"
  using assms qos_code_le [of q]
  by (simp add: parse_publish_def publish_flags_read [OF refl] publish_body_def reader_init_def
      wire_simps r_take_rest_def Let_def qos_cast_code not_less)

section \<open>The accepted bodies\<close>

text \<open>
  The layout of [MQTT-3.1] as a relation: a CONNECT body is a protocol name, the level,
  the flags, the keep-alive and the payload fields the flags announce.
\<close>

definition connect_flags_ok :: "byte \<Rightarrow> connect_packet \<Rightarrow> bool" where
  "connect_flags_ok flags p \<longleftrightarrow> \<not> bit flags 0
     \<and> (cp_clean_session p \<longleftrightarrow> bit flags 1) \<and> (cp_has_will p \<longleftrightarrow> bit flags 2)
     \<and> qos_code (cp_will_qos p) = of_bool (bit flags 3) + 2 * of_bool (bit flags 4)
     \<and> (cp_will_retain p \<longleftrightarrow> bit flags 5)
     \<and> (cp_has_password p \<longleftrightarrow> bit flags 6) \<and> (cp_has_username p \<longleftrightarrow> bit flags 7)"

definition connect_payload :: "connect_packet \<Rightarrow> bytes" where
  "connect_payload p = utf8_bytes (cp_client_id p)
     @ (if cp_has_will p then utf8_bytes (cp_will_topic p) @ utf8_bytes (cp_will_payload p) else [])
     @ (if cp_has_username p then utf8_bytes (cp_username p) else [])
     @ (if cp_has_password p then utf8_bytes (cp_password p) else [])"

definition payload_ok :: "connect_packet \<Rightarrow> bool" where
  "payload_ok p \<longleftrightarrow> length (cp_client_id p) \<le> max_utf8_len
     \<and> (cp_has_will p \<longrightarrow> length (cp_will_topic p) \<le> max_utf8_len \<and> length (cp_will_payload p) \<le> max_utf8_len)
     \<and> (cp_has_username p \<longrightarrow> length (cp_username p) \<le> max_utf8_len)
     \<and> (cp_has_password p \<longrightarrow> length (cp_password p) \<le> max_utf8_len)"

definition connect_ok :: "bytes \<Rightarrow> connect_packet \<Rightarrow> bool" where
  "connect_ok name p \<longleftrightarrow> length name \<le> max_utf8_len \<and> (cp_protocol_name_ok p \<longleftrightarrow> name = mqtt_name)
     \<and> (\<not> cp_has_will p \<longrightarrow> cp_will_qos p = at_most_once \<and> \<not> cp_will_retain p
           \<and> cp_will_topic p = [] \<and> cp_will_payload p = [])
     \<and> (cp_has_password p \<longrightarrow> cp_has_username p)
     \<and> (\<not> cp_has_username p \<longrightarrow> cp_username p = []) \<and> (\<not> cp_has_password p \<longrightarrow> cp_password p = [])
     \<and> payload_ok p"

definition connect_body :: "bytes \<Rightarrow> byte \<Rightarrow> connect_packet \<Rightarrow> bytes" where
  "connect_body name flags p =
     utf8_bytes name @ [cp_protocol_level p, flags] @ u16_bytes (cp_keepalive_s p) @ connect_payload p"

lemma and_numeral_bit:
  "flags AND cf_reserved \<noteq> 0 \<longleftrightarrow> bit (flags :: byte) 0"
  "flags AND cf_clean_session \<noteq> 0 \<longleftrightarrow> bit flags 1"
  "flags AND cf_will \<noteq> 0 \<longleftrightarrow> bit flags 2"
  "flags AND cf_will_retain \<noteq> 0 \<longleftrightarrow> bit flags 5"
  "flags AND cf_password \<noteq> 0 \<longleftrightarrow> bit flags 6"
  "flags AND cf_username \<noteq> 0 \<longleftrightarrow> bit flags 7"
  using and_exp_eq_0_iff_not_bit [of flags 0] and_exp_eq_0_iff_not_bit [of flags 1]
    and_exp_eq_0_iff_not_bit [of flags 2] and_exp_eq_0_iff_not_bit [of flags 5]
    and_exp_eq_0_iff_not_bit [of flags 6] and_exp_eq_0_iff_not_bit [of flags 7]
  by (simp_all add: header_bits)

definition same_header :: "connect_packet \<Rightarrow> connect_packet \<Rightarrow> bool" where
  "same_header p0 p \<longleftrightarrow> p = p0\<lparr>cp_client_id := cp_client_id p,
       cp_will_topic := if cp_has_will p0 then cp_will_topic p else cp_will_topic p0,
       cp_will_payload := if cp_has_will p0 then cp_will_payload p else cp_will_payload p0,
       cp_username := if cp_has_username p0 then cp_username p else cp_username p0,
       cp_password := if cp_has_password p0 then cp_password p else cp_password p0\<rparr>"

lemma r_opt_iff:
  "((if c then r_utf8 r else (d, r)) = (s, r') \<and> r_ok r') \<longleftrightarrow>
   r_ok r \<and> r_ok r' \<and> r_rest r = (if c then utf8_bytes s else []) @ r_rest r'
   \<and> (if c then length s \<le> max_utf8_len else s = d)"
  using r_utf8_iff [of r s r'] r_utf8D [of r s r'] by (cases "r_ok r") auto

lemma same_header_fields:
  "same_header p0 p \<longleftrightarrow>
     cp_keepalive_s p = cp_keepalive_s p0 \<and> cp_protocol_level p = cp_protocol_level p0
     \<and> cp_will_qos p = cp_will_qos p0 \<and> cp_protocol_name_ok p = cp_protocol_name_ok p0
     \<and> cp_clean_session p = cp_clean_session p0 \<and> cp_has_will p = cp_has_will p0
     \<and> cp_will_retain p = cp_will_retain p0 \<and> cp_has_username p = cp_has_username p0
     \<and> cp_has_password p = cp_has_password p0
     \<and> (\<not> cp_has_will p \<longrightarrow> cp_will_topic p = cp_will_topic p0 \<and> cp_will_payload p = cp_will_payload p0)
     \<and> (\<not> cp_has_username p \<longrightarrow> cp_username p = cp_username p0)
     \<and> (\<not> cp_has_password p \<longrightarrow> cp_password p = cp_password p0)"
  by (cases p0, cases p) (auto simp: same_header_def)

lemma parse_connect_payload_step:
  assumes "r_utf8 r = (cid, r1)"
    and "(if cp_has_will p0 then r_utf8 r1 else (cp_will_topic p0, r1)) = (wt, r2)"
    and "(if cp_has_will p0 then r_utf8 r2 else (cp_will_payload p0, r2)) = (wp, r3)"
    and "(if cp_has_username p0 then r_utf8 r3 else (cp_username p0, r3)) = (un, r4)"
    and "(if cp_has_password p0 then r_utf8 r4 else (cp_password p0, r4)) = (pw, r5)"
  shows "parse_connect_payload r p0 =
     (if \<not> r_ok r5 then Inl Err_truncated else if r_rest r5 \<noteq> [] then Inl Err_malformed
      else Inr (p0\<lparr>cp_client_id := cid, cp_will_topic := wt, cp_will_payload := wp,
                  cp_username := un, cp_password := pw\<rparr>))"
  unfolding parse_connect_payload_def r_utf8_def [symmetric] assms Let_def prod.case r_at_end_def
  by simp

lemma parse_connect_payload_sound:
  assumes "parse_connect_payload r p0 = Inr p"
  shows "r_ok r \<and> r_rest r = connect_payload p \<and> payload_ok p \<and> same_header p0 p"
proof -
  obtain cid r1 where 1: "r_utf8 r = (cid, r1)" by fastforce
  obtain wt r2 where 2: "(if cp_has_will p0 then r_utf8 r1 else (cp_will_topic p0, r1)) = (wt, r2)" by fastforce
  obtain wp r3 where 3: "(if cp_has_will p0 then r_utf8 r2 else (cp_will_payload p0, r2)) = (wp, r3)" by fastforce
  obtain un r4 where 4: "(if cp_has_username p0 then r_utf8 r3 else (cp_username p0, r3)) = (un, r4)" by fastforce
  obtain pw r5 where 5: "(if cp_has_password p0 then r_utf8 r4 else (cp_password p0, r4)) = (pw, r5)" by fastforce
  have p: "r_ok r5" "r_rest r5 = []" "p = p0\<lparr>cp_client_id := cid, cp_will_topic := wt,
      cp_will_payload := wp, cp_username := un, cp_password := pw\<rparr>"
    using assms parse_connect_payload_step [OF 1 2 3 4 5] by (auto split: if_splits)
  have r4: "r_ok r4" "r_rest r4 = (if cp_has_password p0 then utf8_bytes pw else [])"
    "if cp_has_password p0 then length pw \<le> max_utf8_len else pw = cp_password p0"
    using r_opt_iff [THEN iffD1, OF conjI [OF 5 p(1)]] p(2) by simp_all
  have r3: "r_ok r3" "r_rest r3 = (if cp_has_username p0 then utf8_bytes un else []) @ r_rest r4"
    "if cp_has_username p0 then length un \<le> max_utf8_len else un = cp_username p0"
    using r_opt_iff [THEN iffD1, OF conjI [OF 4 r4(1)]] by blast+
  have r2: "r_ok r2" "r_rest r2 = (if cp_has_will p0 then utf8_bytes wp else []) @ r_rest r3"
    "if cp_has_will p0 then length wp \<le> max_utf8_len else wp = cp_will_payload p0"
    using r_opt_iff [THEN iffD1, OF conjI [OF 3 r3(1)]] by blast+
  have r1: "r_ok r1" "r_rest r1 = (if cp_has_will p0 then utf8_bytes wt else []) @ r_rest r2"
    "if cp_has_will p0 then length wt \<le> max_utf8_len else wt = cp_will_topic p0"
    using r_opt_iff [THEN iffD1, OF conjI [OF 2 r2(1)]] by blast+
  have r: "r_ok r" "length cid \<le> max_utf8_len" "r_rest r = utf8_bytes cid @ r_rest r1"
    using r_utf8D [OF 1 r1(1)] by simp_all
  have "r_rest r = connect_payload p"
    by (simp add: r r1 r2 r3 r4 connect_payload_def p(3))
  moreover have "payload_ok p" "same_header p0 p"
    using r(2) r1(3) r2(3) r3(3) r4(3) by (simp_all add: payload_ok_def same_header_def p(3))
  ultimately show ?thesis using r(1) by simp
qed

lemma parse_connect_payload_complete:
  assumes ok: "payload_ok p" and h: "same_header p0 p"
  shows "parse_connect_payload \<lparr>r_rest = connect_payload p, r_ok = True\<rparr> p0 = Inr p"
proof -
  have flags: "cp_has_will p = cp_has_will p0" "cp_has_username p = cp_has_username p0"
    "cp_has_password p = cp_has_password p0"
    and dflt: "\<not> cp_has_will p0 \<Longrightarrow> cp_will_topic p = cp_will_topic p0 \<and> cp_will_payload p = cp_will_payload p0"
    "\<not> cp_has_username p0 \<Longrightarrow> cp_username p = cp_username p0"
    "\<not> cp_has_password p0 \<Longrightarrow> cp_password p = cp_password p0"
    using h by (simp_all add: same_header_fields)
  let ?f = "\<lambda>c s. if c then utf8_bytes s else []"
  define q4 q3 q2 q1 where q: "q4 = \<lparr>r_rest = ?f (cp_has_password p) (cp_password p), r_ok = True\<rparr>"
    "q3 = \<lparr>r_rest = ?f (cp_has_username p) (cp_username p) @ r_rest q4, r_ok = True\<rparr>"
    "q2 = \<lparr>r_rest = ?f (cp_has_will p) (cp_will_payload p) @ r_rest q3, r_ok = True\<rparr>"
    "q1 = \<lparr>r_rest = ?f (cp_has_will p) (cp_will_topic p) @ r_rest q2, r_ok = True\<rparr>"
  have q_ok: "r_ok q1" "r_ok q2" "r_ok q3" "r_ok q4" by (simp_all add: q)
  have rr: "connect_payload p = utf8_bytes (cp_client_id p) @ r_rest q1"
    by (simp add: connect_payload_def q)
  have 1: "r_utf8 \<lparr>r_rest = connect_payload p, r_ok = True\<rparr> = (cp_client_id p, q1)"
    using r_utf8_iff [of "\<lparr>r_rest = connect_payload p, r_ok = True\<rparr>" "cp_client_id p" q1] ok q_ok(1) rr
    by (simp add: payload_ok_def)
  have 2: "(if cp_has_will p0 then r_utf8 q1 else (cp_will_topic p0, q1)) = (cp_will_topic p, q2)"
    by (rule r_opt_iff [THEN iffD2, THEN conjunct1])
      (use q(4) q_ok ok dflt(1) in \<open>auto simp: flags payload_ok_def\<close>)
  have 3: "(if cp_has_will p0 then r_utf8 q2 else (cp_will_payload p0, q2)) = (cp_will_payload p, q3)"
    by (rule r_opt_iff [THEN iffD2, THEN conjunct1])
      (use q(3) q_ok ok dflt(1) in \<open>auto simp: flags payload_ok_def\<close>)
  have 4: "(if cp_has_username p0 then r_utf8 q3 else (cp_username p0, q3)) = (cp_username p, q4)"
    by (rule r_opt_iff [THEN iffD2, THEN conjunct1])
      (use q(2) q_ok ok dflt(2) in \<open>auto simp: flags payload_ok_def\<close>)
  have 5: "(if cp_has_password p0 then r_utf8 q4 else (cp_password p0, q4)) =
      (cp_password p, \<lparr>r_rest = [], r_ok = True\<rparr>)"
    by (rule r_opt_iff [THEN iffD2, THEN conjunct1])
      (use q(1) q_ok ok dflt(3) in \<open>auto simp: flags payload_ok_def\<close>)
  have "p0\<lparr>cp_client_id := cp_client_id p, cp_will_topic := cp_will_topic p,
      cp_will_payload := cp_will_payload p, cp_username := cp_username p, cp_password := cp_password p\<rparr> = p"
    by (subst (6) h [unfolded same_header_def]) (simp add: dflt)
  then show ?thesis by (simp add: parse_connect_payload_step [OF 1 2 3 4 5])
qed

definition connect_header :: "bytes \<Rightarrow> byte \<Rightarrow> byte \<Rightarrow> u16 \<Rightarrow> connect_packet" where
  "connect_header name level flags keepalive =
     \<lparr>cp_client_id = [], cp_will_topic = [], cp_will_payload = [], cp_username = [],
      cp_password = [], cp_keepalive_s = keepalive, cp_protocol_level = level,
      cp_will_qos = qos_cast (connect_will_qos flags), cp_protocol_name_ok = (name = mqtt_name),
      cp_clean_session = bit flags 1, cp_has_will = bit flags 2,
      cp_will_retain = bit flags 5, cp_has_username = bit flags 7, cp_has_password = bit flags 6\<rparr>"

lemma parse_connect_step:
  assumes "r_utf8 (reader_init body) = (name, r1)" "r_u8 r1 = (level, r2)" "r_u8 r2 = (flags, r3)"
    "r_u16 r3 = (keepalive, r4)"
  shows "parse_connect body =
    (if \<not> r_ok r4 then Inl Err_truncated
     else if bit flags 0 \<or> connect_will_qos flags > 2
       \<or> \<not> bit flags 2 \<and> (connect_will_qos flags \<noteq> 0 \<or> bit flags 5) \<or> bit flags 6 \<and> \<not> bit flags 7
     then Inl Err_malformed
     else parse_connect_payload r4 (connect_header name level flags keepalive))"
  unfolding parse_connect_def assms Let_def prod.case and_numeral_bit span_eq_iff
    connect_header_def [symmetric]
  by auto

lemma take_two: "take_bit (Suc (Suc 0)) w = of_bool (bit w 0) + 2 * of_bool (bit w 1)" for w :: byte
  by (simp add: take_bit_Suc mod_2_eq_odd bit_0 bit_Suc)

lemma connect_will_qos_bits: "connect_will_qos flags = of_bool (bit flags 3) + 2 * of_bool (bit flags 4)"
proof -
  have "connect_will_qos flags = drop_bit 3 flags AND 3"
    by (simp add: connect_will_qos_def cf_will_qos_shift_def cf_will_qos_mask_def)
  also have "\<dots> = take_bit (Suc (Suc 0)) (drop_bit 3 flags)"
    using take_bit_eq_mask [of 2 "drop_bit 3 flags"] by (simp add: mask_eq_exp_minus_1 numeral_2_eq_2)
  finally show ?thesis unfolding take_two by (simp add: bit_drop_bit_eq)
qed

lemma same_header_iff:
  assumes "\<not> bit flags 0" "connect_will_qos flags \<le> 2"
    "bit flags 2 \<or> connect_will_qos flags = 0 \<and> \<not> bit flags 5" "bit flags 6 \<longrightarrow> bit flags 7"
  shows "same_header (connect_header name level flags keepalive) p \<and> payload_ok p \<and> length name \<le> max_utf8_len
     \<longleftrightarrow> connect_flags_ok flags p \<and> connect_ok name p \<and> cp_protocol_level p = level \<and> cp_keepalive_s p = keepalive"
proof -
  have q: "qos_code q = connect_will_qos flags \<longleftrightarrow> q = qos_cast (connect_will_qos flags)" for q
    using qos_code_cast [OF assms(2)] by (metis qos_cast_code)
  have q0: "qos_cast 0 = at_most_once"
    by (simp add: qos_cast_def)
  show ?thesis
    using assms unfolding same_header_fields connect_header_def connect_flags_ok_def connect_ok_def q connect_will_qos_bits [symmetric]
    by (auto simp: q0)
qed

theorem parse_connect_iff:
  "parse_connect body = Inr p \<longleftrightarrow>
     (\<exists>name flags. body = connect_body name flags p \<and> connect_flags_ok flags p \<and> connect_ok name p)"
proof
  assume l: "parse_connect body = Inr p"
  obtain name r1 where 1: "r_utf8 (reader_init body) = (name, r1)" by fastforce
  obtain level r2 where 2: "r_u8 r1 = (level, r2)" by fastforce
  obtain flags r3 where 3: "r_u8 r2 = (flags, r3)" by fastforce
  obtain ka r4 where 4: "r_u16 r3 = (ka, r4)" by fastforce
  have s: "r_ok r4" "\<not> bit flags 0" "connect_will_qos flags \<le> 2"
    "bit flags 2 \<or> connect_will_qos flags = 0 \<and> \<not> bit flags 5" "bit flags 6 \<longrightarrow> bit flags 7"
    "parse_connect_payload r4 (connect_header name level flags ka) = Inr p"
    using l unfolding parse_connect_step [OF 1 2 3 4] by (auto split: if_splits)
  have p: "r_rest r4 = connect_payload p" "payload_ok p" "same_header (connect_header name level flags ka) p"
    using parse_connect_payload_sound [OF s(6)] by simp_all
  have r3: "r_ok r3" "r_rest r3 = u16_bytes ka @ connect_payload p" using r_u16D [OF 4 s(1)] p(1) by simp_all
  have r2: "r_ok r2" "r_rest r2 = flags # r_rest r3" using r_u8D [OF 3 r3(1)] by simp_all
  have r1: "r_ok r1" "r_rest r1 = level # r_rest r2" using r_u8D [OF 2 r2(1)] by simp_all
  have r: "length name \<le> max_utf8_len" "body = utf8_bytes name @ r_rest r1"
    using r_utf8D [OF 1 r1(1)] by (simp_all add: reader_init_def)
  have "connect_flags_ok flags p" "connect_ok name p" "cp_protocol_level p = level" "cp_keepalive_s p = ka"
    using same_header_iff [OF s(2-5), of name level ka p] p(2,3) r(1) by blast+
  moreover from this have "body = connect_body name flags p"
    using r r1 r2 r3 by (simp add: connect_body_def)
  ultimately show "\<exists>name flags. body = connect_body name flags p \<and> connect_flags_ok flags p \<and> connect_ok name p"
    by blast
next
  assume "\<exists>name flags. body = connect_body name flags p \<and> connect_flags_ok flags p \<and> connect_ok name p"
  then obtain name flags where b: "body = connect_body name flags p" and f: "connect_flags_ok flags p"
    and k: "connect_ok name p" by blast
  let ?rd = "\<lambda>t. \<lparr>r_rest = t, r_ok = True\<rparr>"
  let ?t4 = "connect_payload p" let ?t3 = "u16_bytes (cp_keepalive_s p) @ ?t4"
  have rd: "r_utf8 (reader_init body) = (name, ?rd (cp_protocol_level p # flags # ?t3))"
    "r_u8 (?rd (cp_protocol_level p # flags # ?t3)) = (cp_protocol_level p, ?rd (flags # ?t3))"
    "r_u8 (?rd (flags # ?t3)) = (flags, ?rd ?t3)" "r_u16 (?rd ?t3) = (cp_keepalive_s p, ?rd ?t4)"
    using k by (simp_all add: b connect_body_def reader_init_def wire_simps connect_ok_def)
  have c: "\<not> bit flags 0" "connect_will_qos flags \<le> 2"
    "bit flags 2 \<or> connect_will_qos flags = 0 \<and> \<not> bit flags 5" "bit flags 6 \<longrightarrow> bit flags 7"
    using f k qos_code_le [of "cp_will_qos p"] by (auto simp: connect_flags_ok_def connect_ok_def connect_will_qos_bits [symmetric])
  have "same_header (connect_header name (cp_protocol_level p) flags (cp_keepalive_s p)) p" "payload_ok p"
    using same_header_iff [OF c, of name "cp_protocol_level p" "cp_keepalive_s p" p] f k by blast+
  from parse_connect_payload_complete [OF this(2,1)] c show "parse_connect body = Inr p"
    unfolding parse_connect_step [OF rd] by auto
qed

section \<open>Properties\<close>

text \<open>C16: \<open>parse_connect\<close> accepts exactly the bodies that encode a CONNECT packet - protocol name,
  level, flags, keep-alive and the payload fields the flags announce, with nothing after them and
  with the flag combinations MQTT allows - and returns the packet encoded.\<close>

theorem parse_connect_correct:
  "parse_connect body = Inr p \<longleftrightarrow>
     (\<exists>name flags. body = connect_body name flags p \<and> connect_flags_ok flags p \<and> connect_ok name p)"
  by (rule parse_connect_iff)

text \<open>\<open>build_publish\<close> returns the complete PUBLISH packet - header, length, topic, identifier for
  QoS above 0, payload - when it fits the buffer, and the empty span when it does not.\<close>

theorem build_publish_correct:
  assumes "cap \<le> length buf" "length topic \<le> max_utf8_len"
  shows "snd (build_publish buf cap topic payload q retain dup pid) =
     (let body = publish_body topic payload q pid
      in if packet_overhead + length body \<le> cap \<and> length body \<le> max_remaining_length
         then packet_bytes (make_first_byte PT_publish (publish_flags q retain dup)) body else [])"
  by (rule build_publish_bytes [OF assms])

end
