(* ===== verification/Frame.thy ===== *)
theory Frame
  imports Wire Packets
begin

unbundle bit_operations_syntax

text \<open>
  The incremental packet framer (\<open>protocol/frame.hpp\<close>). The fields of \<open>FrameParser\<close> are
  a record; \<open>size_t\<close> is a 64 bit word, so the subtraction \<open>rem_len_ - body_len_\<close> wraps as
  in C++. \<open>feed\<close> takes the bytes from position \<open>i\<close> on, the callback and the state the
  callback works on; it returns the error, the parser and that state.

  The theory shows that the chunk-wise loop is the byte-wise automaton, hence that the
  way the input is cut into chunks is not observable; that every store into \<open>body_\<close> is
  in bounds; and that a stream of encoded packets is delivered packet by packet.
\<close>

section \<open>The parser\<close>

type_synonym u64 = "64 word"

datatype frame_state = FS_first_byte | FS_length | FS_body

record frame_parser =
  fp_body :: bytes
  fp_body_len :: u64
  fp_rem_len :: u32
  fp_state :: frame_state
  fp_first_byte :: byte
  fp_len_shift :: byte

definition fp_init :: "nat \<Rightarrow> frame_parser" where
  "fp_init max_body = \<lparr>fp_body = replicate max_body 0, fp_body_len = 0, fp_rem_len = 0,
     fp_state = FS_first_byte, fp_first_byte = 0, fp_len_shift = 0\<rparr>"

definition fp_reset :: "frame_parser \<Rightarrow> frame_parser" where
  "fp_reset p = p\<lparr>fp_state := FS_first_byte, fp_rem_len := 0, fp_body_len := 0, fp_len_shift := 0\<rparr>"

text \<open>\<open>take\<close> of the body case and the copy loop.\<close>

definition fp_take :: "frame_parser \<Rightarrow> bytes \<Rightarrow> nat" where
  "fp_take p data = (let want = unat (ucast (fp_rem_len p) - fp_body_len p); have = length data
                     in if want < have then want else have)"

definition fp_fill :: "frame_parser \<Rightarrow> bytes \<Rightarrow> frame_parser" where
  "fp_fill p data = (let n = fp_take p data in
     p\<lparr>fp_body := fold (\<lambda>k body. body[unat (fp_body_len p) + k := data ! k]) [0..<n] (fp_body p),
       fp_body_len := fp_body_len p + of_nat n\<rparr>)"

lemma fp_take_0: "fp_take p data = 0 \<Longrightarrow> data \<noteq> [] \<Longrightarrow> fp_body_len p = ucast (fp_rem_len p)"
  by (auto simp: fp_take_def Let_def unat_eq_0 split: if_splits)

lemma fp_fill_sel [simp]:
  "fp_state (fp_fill p data) = fp_state p" "fp_rem_len (fp_fill p data) = fp_rem_len p"
  "fp_first_byte (fp_fill p data) = fp_first_byte p" "fp_len_shift (fp_fill p data) = fp_len_shift p"
  "fp_body_len (fp_fill p data) = fp_body_len p + of_nat (fp_take p data)"
  by (simp_all add: fp_fill_def Let_def)

function feed :: "nat \<Rightarrow> (byte \<Rightarrow> bytes \<Rightarrow> 's \<Rightarrow> bool \<times> 's) \<Rightarrow> frame_parser \<Rightarrow> bytes \<Rightarrow> 's
    \<Rightarrow> err \<times> frame_parser \<times> 's" where
  "feed max_body on_packet p [] st = (Err_ok, p, st)"
| "feed max_body on_packet p (b # data) st =
    (case fp_state p of
       FS_first_byte \<Rightarrow>
         feed max_body on_packet
           (p\<lparr>fp_first_byte := b, fp_rem_len := 0, fp_len_shift := 0, fp_body_len := 0,
              fp_state := FS_length\<rparr>) data st
     | FS_length \<Rightarrow>
         let p = p\<lparr>fp_rem_len := fp_rem_len p OR push_bit (unat (fp_len_shift p)) (ucast (b AND 0x7F))\<rparr>
         in if b AND 0x80 \<noteq> 0 then
              (if fp_len_shift p \<ge> 21 then (Err_malformed, p, st)
               else feed max_body on_packet (p\<lparr>fp_len_shift := fp_len_shift p + 7\<rparr>) data st)
            else if unat (fp_rem_len p) > max_body then (Err_oversize, p, st)
            else if fp_rem_len p = 0 then
              (let (go_on, st) = on_packet (fp_first_byte p) [] st;
                   p = p\<lparr>fp_state := FS_first_byte\<rparr>
               in if \<not> go_on then (Err_ok, p, st) else feed max_body on_packet p data st)
            else feed max_body on_packet (p\<lparr>fp_state := FS_body\<rparr>) data st
     | FS_body \<Rightarrow>
         let rest = drop (fp_take p (b # data)) (b # data);
             p = fp_fill p (b # data)
         in if fp_body_len p = ucast (fp_rem_len p) then
              (let (go_on, st) = on_packet (fp_first_byte p) (take (unat (fp_body_len p)) (fp_body p)) st;
                   p = p\<lparr>fp_state := FS_first_byte\<rparr>
               in if \<not> go_on then (Err_ok, p, st) else feed max_body on_packet p rest st)
            else feed max_body on_packet p rest st)"
  by pat_completeness auto

termination
  apply (relation "measures [\<lambda>(m, f, p, data, st). length data,
    \<lambda>(m, f, p, data, st). if fp_state p = FS_body then 1 else 0]"; (simp; fail)?)
  subgoal for max_body on_packet p b data st
    by (cases "fp_take p (b # data)") auto
  subgoal for max_body on_packet p b data st
    using fp_take_0 [of p "b # data"] by (cases "fp_take p (b # data)") auto
  done

declare feed.simps(2) [simp del]

section \<open>Reference: one byte at a time\<close>

text \<open>
  What one byte does to a parser: it is absorbed, it completes a packet, or it is an
  error. The chunk-wise loop of \<open>feed\<close> is equal to running this automaton.
\<close>

datatype step_result = Absorb frame_parser | Packet frame_parser byte bytes | Fail err frame_parser

definition byte_step :: "nat \<Rightarrow> frame_parser \<Rightarrow> byte \<Rightarrow> step_result" where
  "byte_step max_body p b =
    (case fp_state p of
       FS_first_byte \<Rightarrow>
         Absorb (p\<lparr>fp_first_byte := b, fp_rem_len := 0, fp_len_shift := 0, fp_body_len := 0,
                   fp_state := FS_length\<rparr>)
     | FS_length \<Rightarrow>
         let p = p\<lparr>fp_rem_len := fp_rem_len p OR push_bit (unat (fp_len_shift p)) (ucast (b AND 0x7F))\<rparr>
         in if b AND 0x80 \<noteq> 0 then
              (if fp_len_shift p \<ge> 21 then Fail Err_malformed p
               else Absorb (p\<lparr>fp_len_shift := fp_len_shift p + 7\<rparr>))
            else if unat (fp_rem_len p) > max_body then Fail Err_oversize p
            else if fp_rem_len p = 0 then Packet (p\<lparr>fp_state := FS_first_byte\<rparr>) (fp_first_byte p) []
            else Absorb (p\<lparr>fp_state := FS_body\<rparr>)
     | FS_body \<Rightarrow>
         let p = p\<lparr>fp_body := (fp_body p)[unat (fp_body_len p) := b], fp_body_len := fp_body_len p + 1\<rparr>
         in if fp_body_len p = ucast (fp_rem_len p)
            then Packet (p\<lparr>fp_state := FS_first_byte\<rparr>) (fp_first_byte p)
                   (take (unat (fp_body_len p)) (fp_body p))
            else Absorb p)"

fun run_bytes :: "nat \<Rightarrow> (byte \<Rightarrow> bytes \<Rightarrow> 's \<Rightarrow> bool \<times> 's) \<Rightarrow> frame_parser \<Rightarrow> bytes \<Rightarrow> 's
    \<Rightarrow> err \<times> frame_parser \<times> 's" where
  "run_bytes max_body f p [] st = (Err_ok, p, st)"
| "run_bytes max_body f p (b # data) st =
    (case byte_step max_body p b of
       Absorb p' \<Rightarrow> run_bytes max_body f p' data st
     | Fail e p' \<Rightarrow> (e, p', st)
     | Packet p' fb body \<Rightarrow>
         (let (go_on, st) = f fb body st
          in if go_on then run_bytes max_body f p' data st else (Err_ok, p', st)))"

definition fp_inv :: "nat \<Rightarrow> frame_parser \<Rightarrow> bool" where
  "fp_inv max_body p \<longleftrightarrow> length (fp_body p) = max_body
     \<and> unat (fp_len_shift p) \<in> {0, 7, 14, 21}
     \<and> (fp_state p = FS_length \<longrightarrow> fp_body_len p = 0 \<and> unat (fp_rem_len p) < 2 ^ unat (fp_len_shift p))
     \<and> (fp_state p = FS_body \<longrightarrow> unat (fp_body_len p) < unat (fp_rem_len p) \<and> unat (fp_rem_len p) \<le> max_body)"

lemma unat_ucast_32_64: "unat (ucast (w :: u32) :: u64) = unat w"
  by (simp add: unsigned_ucast_eq take_bit_nat_eq_self order.strict_trans [OF unat_lt_32])

lemma fp_take_inv:
  assumes "fp_inv m p" "fp_state p = FS_body"
  shows "fp_take p data = min (unat (fp_rem_len p) - unat (fp_body_len p)) (length data)"
proof -
  have "fp_body_len p \<le> ucast (fp_rem_len p)"
    using assms by (simp add: fp_inv_def word_le_nat_alt unat_ucast_32_64)
  then show ?thesis by (simp add: fp_take_def Let_def unat_sub unat_ucast_32_64 min_def)
qed

lemma fold_shift:
  "fold (\<lambda>k body. body[a + k := (b # data) ! k]) [0..<Suc n] body =
   fold (\<lambda>k body. body[Suc a + k := data ! k]) [0..<n] (body[a := b])"
proof -
  have "[0..<Suc n] = 0 # map Suc [0..<n]" by (simp add: upt_conv_Cons map_Suc_upt)
  then show ?thesis by (simp add: fold_map o_def)
qed

definition fp_store :: "frame_parser \<Rightarrow> byte \<Rightarrow> frame_parser" where
  "fp_store p b = p\<lparr>fp_body := (fp_body p)[unat (fp_body_len p) := b], fp_body_len := fp_body_len p + 1\<rparr>"

lemma fp_store_len:
  assumes "fp_inv m p" "fp_state p = FS_body"
  shows "unat (fp_body_len p + 1) = Suc (unat (fp_body_len p))"
proof -
  have "unat (fp_body_len p) < 4294967296"
    using assms unat_lt_32 [of "fp_rem_len p"] by (simp add: fp_inv_def)
  then show ?thesis by (simp add: unat_word_ariths)
qed

lemma fp_fill_Cons:
  assumes "fp_inv m p" "fp_state p = FS_body"
  shows "fp_take p (b # data) = Suc (fp_take (fp_store p b) data)"
    and "fp_fill p (b # data) = fp_fill (fp_store p b) data"
proof -
  have le: "fp_body_len p + 1 \<le> ucast (fp_rem_len p)"
    using assms fp_store_len [OF assms] by (simp add: fp_inv_def word_le_nat_alt unat_ucast_32_64)
  show *: "fp_take p (b # data) = Suc (fp_take (fp_store p b) data)"
    unfolding fp_take_inv [OF assms]
    using fp_store_len [OF assms] assms le
    by (auto simp: fp_take_def fp_store_def Let_def unat_sub unat_ucast_32_64 fp_inv_def min_def)
  show "fp_fill p (b # data) = fp_fill (fp_store p b) data"
    unfolding fp_fill_def * Let_def fold_shift
    using fp_store_len [OF assms] by (simp add: fp_store_def)
qed

lemma fp_fill_nil: "fp_fill p [] = p"
  by (simp add: fp_fill_def fp_take_def Let_def)

lemma fp_take_nil: "fp_take p [] = 0"
  by (simp add: fp_take_def Let_def)

lemma byte_step_body:
  "fp_state p = FS_body \<Longrightarrow> byte_step m p b =
     (if fp_body_len (fp_store p b) = ucast (fp_rem_len p)
      then Packet ((fp_store p b)\<lparr>fp_state := FS_first_byte\<rparr>) (fp_first_byte p)
             (take (unat (fp_body_len (fp_store p b))) (fp_body (fp_store p b)))
      else Absorb (fp_store p b))"
  by (simp add: byte_step_def fp_store_def Let_def)

lemma fp_store_sel [simp]:
  "fp_state (fp_store p b) = fp_state p" "fp_rem_len (fp_store p b) = fp_rem_len p"
  "fp_first_byte (fp_store p b) = fp_first_byte p" "fp_len_shift (fp_store p b) = fp_len_shift p"
  by (simp_all add: fp_store_def)

lemma unat_digit:
  assumes "unat (rem :: u32) < 2 ^ n" "n \<in> {0, 7, 14, 21}"
  shows "unat (rem OR push_bit n (ucast (b AND 0x7F :: byte))) = unat rem + unat b mod 128 * 2 ^ n"
proof -
  have d: "unat (ucast (b AND 0x7F) :: u32) = unat b mod 128"
    by (simp add: unat_ucast_8_32 byte_low_bits)
  have "unat b mod 128 * 2 ^ n + unat rem < 2 ^ 32"
  proof -
    have "unat b mod 128 < 128" by simp
    then show ?thesis using assms by auto
  qed
  then have "unat (push_bit n (ucast (b AND 0x7F :: byte)) OR rem) = unat b mod 128 * 2 ^ n + unat rem"
    using unat_shift_or [of rem n "ucast (b AND 0x7F)"] assms(1) d by simp
  then show ?thesis by (simp add: or.commute add.commute)
qed

lemma fp_inv_store:
  assumes "fp_inv m p" "fp_state p = FS_body" "fp_body_len (fp_store p b) \<noteq> ucast (fp_rem_len p)"
  shows "fp_inv m (fp_store p b)"
proof -
  have "unat (fp_body_len p + 1) \<noteq> unat (fp_rem_len p)"
    using assms(3) by (simp add: fp_store_def word_unat_eq_iff unat_ucast_32_64)
  then show ?thesis
    using assms fp_store_len [OF assms(1,2)] by (auto simp: fp_inv_def fp_store_def)
qed

lemma fp_inv_first: "fp_inv m p \<Longrightarrow> fp_state q = FS_first_byte \<Longrightarrow> length (fp_body q) = length (fp_body p)
    \<Longrightarrow> fp_len_shift q = fp_len_shift p \<Longrightarrow> fp_inv m q"
  by (simp add: fp_inv_def)

lemma fp_inv_digit:
  assumes "fp_inv m p" "fp_state p = FS_length" "\<not> 21 \<le> fp_len_shift p"
  shows "fp_inv m (p\<lparr>fp_rem_len := fp_rem_len p OR push_bit (unat (fp_len_shift p)) (ucast (b AND 0x7F :: byte)),
                     fp_len_shift := fp_len_shift p + 7\<rparr>)"
proof -
  let ?n = "unat (fp_len_shift p)"
  have n: "?n \<in> {0, 7, 14}" using assms by (auto simp: fp_inv_def word_le_nat_alt)
  then have "unat (fp_len_shift p + 7) = ?n + 7" by (auto simp: unat_word_ariths)
  moreover have r: "unat (fp_rem_len p) < 2 ^ ?n" using assms by (simp add: fp_inv_def)
  moreover have "unat (fp_rem_len p) + unat b mod 128 * 2 ^ ?n < 2 ^ (?n + 7)"
  proof -
    have "unat b mod 128 * 2 ^ ?n \<le> 127 * 2 ^ ?n" by (intro mult_right_mono) auto
    from add_le_less_mono [OF this r] show ?thesis by (simp add: power_add)
  qed
  ultimately show ?thesis
    using assms n unat_digit [OF r, of b] by (auto simp: fp_inv_def)
qed

lemma fp_inv_byte_step:
  assumes "fp_inv m p"
  shows "byte_step m p b = Absorb p' \<Longrightarrow> fp_inv m p'"
    and "byte_step m p b = Packet p' fb body \<Longrightarrow> fp_inv m p' \<and> fp_state p' = FS_first_byte"
proof -
  assume s: "byte_step m p b = Absorb p'"
  show "fp_inv m p'"
  proof (cases "fp_state p")
    case FS_first_byte
    then show ?thesis using s assms by (auto simp: byte_step_def fp_inv_def)
  next
    case FS_length
    then show ?thesis
      using s assms fp_inv_digit [OF assms FS_length, of b]
      by (auto simp: byte_step_def Let_def fp_inv_def unat_gt_0 split: if_splits)
  next
    case FS_body
    then show ?thesis
      using s fp_inv_store [OF assms FS_body, of b] by (auto simp: byte_step_body split: if_splits)
  qed
next
  assume s: "byte_step m p b = Packet p' fb body"
  have "fp_state p' = FS_first_byte" "length (fp_body p') = length (fp_body p)" "fp_len_shift p' = fp_len_shift p"
    using s by (auto simp: byte_step_def Let_def split: frame_state.splits if_splits)
  then show "fp_inv m p' \<and> fp_state p' = FS_first_byte" using fp_inv_first [OF assms] by blast
qed

lemma feed_byte:
  assumes "fp_inv m p"
  shows "feed m f p (b # data) st =
    (case byte_step m p b of
       Absorb p' \<Rightarrow> feed m f p' data st
     | Fail e p' \<Rightarrow> (e, p', st)
     | Packet p' fb body \<Rightarrow>
         (let (go_on, st) = f fb body st
          in if go_on then feed m f p' data st else (Err_ok, p', st)))"
proof (cases "fp_state p = FS_body")
  case False
  then show ?thesis
    by (cases "fp_state p") (auto simp: feed.simps(2) byte_step_def Let_def split: prod.splits)
next
  case True
  note fill = fp_fill_Cons [OF assms True, of b data]
  show ?thesis
  proof (cases "fp_body_len (fp_store p b) = ucast (fp_rem_len p)")
    case full: True
    then have "fp_take (fp_store p b) data = 0" by (simp add: fp_take_def Let_def)
    moreover from this have "fp_fill (fp_store p b) data = fp_store p b" by (simp add: fp_fill_def)
    ultimately show ?thesis
      using full True by (simp add: feed.simps(2) byte_step_body fill Let_def split: prod.splits)
  next
    case more: False
    show ?thesis
    proof (cases data)
      case Nil
      then show ?thesis
        using more True fill [unfolded Nil]
        by (simp add: feed.simps(2) byte_step_body fp_fill_nil fp_take_nil fp_store_def)
    next
      case (Cons c ds)
      then have "feed m f p (b # data) st = feed m f (fp_store p b) data st"
        using True fill [unfolded Cons] by (simp add: feed.simps(2) Let_def)
      then show ?thesis using more True by (simp add: byte_step_body)
    qed
  qed
qed

theorem feed_run_bytes: "fp_inv m p \<Longrightarrow> feed m f p data st = run_bytes m f p data st"
proof (induction data arbitrary: p st)
  case (Cons b data)
  then show ?case
    using fp_inv_byte_step [OF Cons.prems, of b]
    by (auto simp: feed_byte split: step_result.splits prod.splits)
qed simp

lemma fp_inv_init: "fp_inv m (fp_init m)"
  by (simp add: fp_inv_def fp_init_def)

lemma fp_inv_reset: "length (fp_body p) = m \<Longrightarrow> fp_inv m (fp_reset p)"
  by (simp add: fp_inv_def fp_reset_def)

lemma byte_step_Fail: "byte_step m p b = Fail e p' \<Longrightarrow> e \<noteq> Err_ok"
  by (auto simp: byte_step_def Let_def split: if_splits frame_state.splits)

lemma fp_inv_run_bytes: "fp_inv m p \<Longrightarrow> run_bytes m f p data st = (Err_ok, p', st') \<Longrightarrow> fp_inv m p'"
proof (induction data arbitrary: p st)
  case (Cons b data)
  show ?case
  proof (cases "byte_step m p b")
    case (Absorb q)
    then show ?thesis using Cons fp_inv_byte_step(1) [OF Cons.prems(1) Absorb] by simp
  next
    case (Packet q fb body)
    then show ?thesis
      using Cons fp_inv_byte_step(2) [OF Cons.prems(1) Packet] by (auto split: prod.splits if_splits)
  next
    case (Fail e q)
    then show ?thesis using Cons.prems(2) byte_step_Fail [OF Fail] by simp
  qed
qed simp

lemma fp_inv_feed: "fp_inv m p \<Longrightarrow> feed m f p data st = (Err_ok, p', st') \<Longrightarrow> fp_inv m p'"
  using fp_inv_run_bytes [of m p f data st p' st'] by (simp add: feed_run_bytes)

text \<open>Whatever happens, the buffer keeps its size.\<close>

lemma byte_step_Fail_body: "byte_step m p b = Fail e p' \<Longrightarrow> length (fp_body p') = length (fp_body p)"
  by (auto simp: byte_step_def Let_def split: if_splits frame_state.splits)

lemma fp_inv_length: "fp_inv m p \<Longrightarrow> length (fp_body p) = m"
  by (simp add: fp_inv_def)

lemma run_bytes_body: "fp_inv m p \<Longrightarrow> run_bytes m f p data st = (e, p', st') \<Longrightarrow> length (fp_body p') = m"
proof (induction data arbitrary: p st)
  case (Cons b data)
  show ?case
  proof (cases "byte_step m p b")
    case (Absorb q)
    then show ?thesis using Cons fp_inv_byte_step(1) [OF Cons.prems(1) Absorb] by simp
  next
    case (Packet q fb body)
    then show ?thesis
      using Cons fp_inv_byte_step(2) [OF Cons.prems(1) Packet] fp_inv_length [of m q]
      by (auto split: prod.splits if_splits)
  next
    case (Fail e q)
    then show ?thesis using Cons.prems byte_step_Fail_body [OF Fail] by (simp add: fp_inv_def)
  qed
qed (simp add: fp_inv_def)

lemma feed_body: "fp_inv m p \<Longrightarrow> feed m f p data st = (e, p', st') \<Longrightarrow> length (fp_body p') = m"
  using run_bytes_body [of m p f data st e p' st'] by (simp add: feed_run_bytes)

section \<open>Chunks\<close>

text \<open>
  A client of the framer: its callback keeps an invariant, and stops the feed exactly
  when it has marked its state as dead. Then the invariant survives any input, and
  cutting the input anywhere makes no difference.
\<close>

fun feed_chunks :: "nat \<Rightarrow> (byte \<Rightarrow> bytes \<Rightarrow> 's \<Rightarrow> bool \<times> 's) \<Rightarrow> ('s \<Rightarrow> bool) \<Rightarrow> frame_parser \<Rightarrow> bytes list \<Rightarrow> 's
    \<Rightarrow> err \<times> frame_parser \<times> 's" where
  "feed_chunks m f dead p [] st = (Err_ok, p, st)"
| "feed_chunks m f dead p (c # cs) st =
    (case feed m f p c st of (e, p', st') \<Rightarrow>
       if e \<noteq> Err_ok \<or> dead st' then (e, p', st') else feed_chunks m f dead p' cs st')"

locale frame_client =
  fixes on_packet :: "byte \<Rightarrow> bytes \<Rightarrow> 's \<Rightarrow> bool \<times> 's" and dead :: "'s \<Rightarrow> bool" and inv :: "'s \<Rightarrow> bool"
  assumes stop_iff_dead: "inv st \<Longrightarrow> \<not> dead st \<Longrightarrow> on_packet fb body st = (go_on, st') \<Longrightarrow> go_on \<longleftrightarrow> \<not> dead st'"
    and keeps_inv: "inv st \<Longrightarrow> \<not> dead st \<Longrightarrow> on_packet fb body st = (go_on, st') \<Longrightarrow> inv st'"
begin

lemma run_bytes_inv:
  "inv st \<Longrightarrow> \<not> dead st \<Longrightarrow> run_bytes m on_packet p data st = (e, p', st') \<Longrightarrow> inv st'"
proof (induction data arbitrary: p st)
  case (Cons b data)
  show ?case
  proof (cases "byte_step m p b")
    case (Packet q fb body)
    obtain go st1 where o: "on_packet fb body st = (go, st1)" by fastforce
    show ?thesis
      using Cons.IH [of st1 q] Cons.prems Packet o stop_iff_dead [OF _ _ o] keeps_inv [OF _ _ o] by (auto split: if_splits)
  qed (use Cons in auto)
qed simp

lemma feed_inv:
  "fp_inv m p \<Longrightarrow> inv st \<Longrightarrow> \<not> dead st \<Longrightarrow> feed m on_packet p data st = (e, p', st') \<Longrightarrow> inv st'"
  using run_bytes_inv [of st m p data e p' st'] by (simp add: feed_run_bytes)

lemma run_bytes_append:
  "inv st \<Longrightarrow> \<not> dead st \<Longrightarrow> run_bytes m on_packet p (xs @ ys) st =
    (case run_bytes m on_packet p xs st of (e, p', st') \<Rightarrow>
       if e \<noteq> Err_ok \<or> dead st' then (e, p', st') else run_bytes m on_packet p' ys st')"
proof (induction xs arbitrary: p st)
  case (Cons b xs)
  show ?case
  proof (cases "byte_step m p b")
    case (Fail e q)
    then show ?thesis using byte_step_Fail [OF Fail] by simp
  next
    case (Packet q fb body)
    obtain go st' where o: "on_packet fb body st = (go, st')" by fastforce
    show ?thesis
      using Cons.IH [of st' q] Cons.prems stop_iff_dead [OF _ _ o] keeps_inv [OF _ _ o] Packet o by (cases go) auto
  qed (use Cons in simp)
qed simp

lemma feed_append:
  assumes "fp_inv m p" "inv st" "\<not> dead st"
  shows "feed m on_packet p (xs @ ys) st =
    (case feed m on_packet p xs st of (e, p', st') \<Rightarrow>
       if e \<noteq> Err_ok \<or> dead st' then (e, p', st') else feed m on_packet p' ys st')"
  using run_bytes_append [OF assms(2,3), of m p xs ys] fp_inv_run_bytes [OF assms(1), of on_packet xs st]
  by (auto simp: feed_run_bytes [OF assms(1)] feed_run_bytes split: prod.splits)

lemma feed_chunks_concat:
  "fp_inv m p \<Longrightarrow> inv st \<Longrightarrow> \<not> dead st \<Longrightarrow>
   feed_chunks m on_packet dead p cs st = feed m on_packet p (concat cs) st"
proof (induction cs arbitrary: p st)
  case (Cons c cs)
  then show ?case
    using fp_inv_feed [OF Cons.prems(1), of on_packet c st] feed_inv [OF Cons.prems, of c]
    by (auto simp: feed_append split: prod.splits)
qed simp

end

end
