(* ===== verification/Frame_Delivery.thy ===== *)
theory Frame_Delivery
  imports Frame
begin

unbundle bit_operations_syntax

text \<open>
  What the framer delivers on a stream of encoded packets: each packet once, with its
  first byte and its body, in order, and nothing else; and the two framing errors.
\<close>

section \<open>Delivery of encoded packets\<close>

text \<open>The parser state after the last digit of the Remaining Length.\<close>

definition length_done :: "nat \<Rightarrow> (byte \<Rightarrow> bytes \<Rightarrow> 's \<Rightarrow> bool \<times> 's) \<Rightarrow> frame_parser \<Rightarrow> bytes \<Rightarrow> 's
    \<Rightarrow> err \<times> frame_parser \<times> 's" where
  "length_done m f p data st =
    (if unat (fp_rem_len p) > m then (Err_oversize, p, st)
     else if fp_rem_len p = 0 then
       (let (go_on, st) = f (fp_first_byte p) [] st
        in if go_on then run_bytes m f (p\<lparr>fp_state := FS_first_byte\<rparr>) data st
           else (Err_ok, p\<lparr>fp_state := FS_first_byte\<rparr>, st))
     else run_bytes m f (p\<lparr>fp_state := FS_body\<rparr>) data st)"

lemma byte_bit7: "(b :: byte) AND 0x80 \<noteq> 0 \<longleftrightarrow> 128 \<le> unat b"
proof -
  have "b AND 0x80 = 0 \<longleftrightarrow> \<not> bit b 7" using and_exp_eq_0_iff_not_bit [of b 7] by simp
  also have "bit b 7 \<longleftrightarrow> odd (unat b div 128)"
  proof -
    have "bit b 7 \<longleftrightarrow> bit (unat b) 7" by (simp add: bit_unsigned_iff)
    also have "\<dots> \<longleftrightarrow> odd (unat b div 128)" using bit_iff_odd [of "unat b" 7] by simp
    finally show ?thesis .
  qed
  also have "odd (unat b div 128) \<longleftrightarrow> 128 \<le> unat b"
  proof -
    have "unat b div 128 < 2" using unat_lt_8 [of b] by (simp add: div_less_iff_less_mult)
    then have "unat b div 128 = 0 \<or> unat b div 128 = 1" by linarith
    then show ?thesis by (auto simp: div_eq_0_iff)
  qed
  finally show ?thesis by blast
qed

definition fp_digit :: "frame_parser \<Rightarrow> byte \<Rightarrow> frame_parser" where
  "fp_digit p b = p\<lparr>fp_rem_len := fp_rem_len p OR push_bit (unat (fp_len_shift p)) (ucast (b AND 0x7F))\<rparr>"

lemma byte_step_last:
  "fp_state p = FS_length \<Longrightarrow> unat b < 128 \<Longrightarrow>
   run_bytes m f p (b # data) st = length_done m f (fp_digit p b) data st"
  using byte_bit7 [of b] by (auto simp: byte_step_def length_done_def fp_digit_def Let_def split: prod.splits)

lemma byte_step_more:
  "fp_state p = FS_length \<Longrightarrow> 128 \<le> unat b \<Longrightarrow> \<not> 21 \<le> fp_len_shift p \<Longrightarrow>
   run_bytes m f p (b # data) st = run_bytes m f ((fp_digit p b)\<lparr>fp_len_shift := fp_len_shift p + 7\<rparr>) data st"
  using byte_bit7 [of b] by (simp add: byte_step_def fp_digit_def Let_def)

lemma fp_digit_rem:
  assumes "fp_inv m p" "fp_state p = FS_length" "unat b mod 128 = d"
  shows "fp_digit p b = p\<lparr>fp_rem_len := of_nat (unat (fp_rem_len p) + d * 2 ^ unat (fp_len_shift p))\<rparr>"
proof -
  have "unat (fp_rem_len (fp_digit p b)) = unat (fp_rem_len p) + d * 2 ^ unat (fp_len_shift p)"
    using unat_digit [of "fp_rem_len p" "unat (fp_len_shift p)" b] assms
    by (auto simp: fp_digit_def fp_inv_def)
  from arg_cong [OF this, of "of_nat :: nat \<Rightarrow> u32"]
  have "fp_rem_len (fp_digit p b) = of_nat (unat (fp_rem_len p) + d * 2 ^ unat (fp_len_shift p))" by simp
  then show ?thesis by (simp add: fp_digit_def)
qed

lemma run_varint:
  "fp_inv m p \<Longrightarrow> fp_state p = FS_length \<Longrightarrow> n * 2 ^ unat (fp_len_shift p) \<le> max_remaining_length \<Longrightarrow>
   \<exists>sh. unat sh \<in> {0, 7, 14, 21} \<and> (\<forall>data st. run_bytes m f p (varint_bytes n @ data) st =
     length_done m f (p\<lparr>fp_rem_len := of_nat (unat (fp_rem_len p) + n * 2 ^ unat (fp_len_shift p)), fp_len_shift := sh\<rparr>) data st)"
proof (induction n arbitrary: p rule: varint_bytes.induct)
  case (1 n)
  let ?sh = "unat (fp_len_shift p)"
  show ?case
  proof (cases "n < 128")
    case True
    then have "unat (of_nat n :: byte) = n" by (simp add: unat_of_nat)
    then show ?thesis
      using True fp_digit_rem [OF 1(2,3), of "of_nat n" n] byte_step_last [OF 1(3), of "of_nat n" m f] 1(2)
      by (intro exI [of _ "fp_len_shift p"]) (simp add: varint_bytes.simps [of n] fp_inv_def)
  next
    case False
    let ?b = "of_nat (n mod 128 + 128) :: byte"
    let ?r = "unat (fp_rem_len p) + n mod 128 * 2 ^ ?sh"
    have b: "unat ?b = n mod 128 + 128" by (simp add: unat_of_nat take_bit_nat_eq_self del: of_nat_add)
    have sh: "?sh \<noteq> 21" "?sh \<in> {0, 7, 14, 21}"
      using 1(2,4) False by (auto simp: fp_inv_def max_remaining_length_def)
    then have lt: "\<not> 21 \<le> fp_len_shift p" "unat (fp_len_shift p + 7) = ?sh + 7"
      by (auto simp: word_le_nat_alt unat_word_ariths)
    define q where "q = (fp_digit p ?b)\<lparr>fp_len_shift := fp_len_shift p + 7\<rparr>"
    have q: "fp_state q = FS_length" "fp_len_shift q = fp_len_shift p + 7"
      "q\<lparr>fp_rem_len := r, fp_len_shift := s\<rparr> = p\<lparr>fp_rem_len := r, fp_len_shift := s\<rparr>" for r s
      using 1(3) by (simp_all add: q_def fp_digit_def)
    have inv: "fp_inv m q" using fp_inv_digit [OF 1(2,3) lt(1), of ?b] by (simp add: q_def fp_digit_def)
    have r: "unat (fp_rem_len q) = ?r"
      using unat_digit [of "fp_rem_len p" ?sh ?b] 1(2,3) b by (auto simp: q_def fp_digit_def fp_inv_def)
    have split: "n mod 128 * P + n div 128 * (P * 128) = n * P" for P :: nat
      using div_mult_mod_eq [of n 128] by (metis add.commute distrib_right mult.assoc mult.commute)
    have le: "n div 128 * 2 ^ unat (fp_len_shift q) \<le> max_remaining_length"
      using split [of "2 ^ ?sh"] 1(4) by (simp add: q(2) lt(2) power_add)
    have eq: "unat (fp_rem_len q) + n div 128 * 2 ^ unat (fp_len_shift q) = unat (fp_rem_len p) + n * 2 ^ ?sh"
      using split [of "2 ^ ?sh"] by (simp add: r q(2) lt(2) power_add)
    have step: "run_bytes m f p (?b # xs) st = run_bytes m f q xs st" for xs st
      using byte_step_more [OF 1(3), of ?b m f xs st] b lt(1) by (simp add: q_def)
    have vb: "varint_bytes n = ?b # varint_bytes (n div 128)" using False by (simp add: varint_bytes.simps [of n])
    from 1(1) [OF False inv q(1) le] show ?thesis by (simp only: vb append_Cons step eq q(3))
  qed
qed

lemma run_body:
  assumes "fp_inv m p" "fp_state p = FS_body" "bs \<noteq> []"
    "unat (fp_body_len p) + length bs = unat (fp_rem_len p)"
  shows "\<exists>p'. fp_inv m p' \<and> fp_state p' = FS_first_byte \<and> (\<forall>data st. run_bytes m f p (bs @ data) st =
     (let (go_on, st) = f (fp_first_byte p) (take (unat (fp_body_len p)) (fp_body p) @ bs) st
      in if go_on then run_bytes m f p' data st else (Err_ok, p', st)))"
  using assms
proof (induction bs arbitrary: p)
  case (Cons b bs)
  let ?q = "fp_store p b"
  have len: "unat (fp_body_len ?q) = Suc (unat (fp_body_len p))"
    using fp_store_len [OF Cons.prems(1,2)] by (simp add: fp_store_def)
  have pre: "take (unat (fp_body_len ?q)) (fp_body ?q) = take (unat (fp_body_len p)) (fp_body p) @ [b]"
    using Cons.prems(1,2) by (simp add: len) (simp add: fp_store_def fp_inv_def take_Suc_conv_app_nth)
  show ?case
  proof (cases "bs = []")
    case True
    then have "fp_body_len ?q = ucast (fp_rem_len p)"
      using Cons.prems(4) len by (simp add: word_unat_eq_iff unat_ucast_32_64)
    then have s: "byte_step m p b = Packet (?q\<lparr>fp_state := FS_first_byte\<rparr>) (fp_first_byte p)
        (take (unat (fp_body_len p)) (fp_body p) @ [b])"
      using pre by (simp add: byte_step_body [OF Cons.prems(2)])
    show ?thesis
      using fp_inv_byte_step(2) [OF Cons.prems(1) s] s True
      by (intro exI [of _ "?q\<lparr>fp_state := FS_first_byte\<rparr>"]) simp
  next
    case False
    then have ne: "fp_body_len ?q \<noteq> ucast (fp_rem_len p)"
      using Cons.prems(4) len by (cases bs) (auto simp: word_unat_eq_iff unat_ucast_32_64)
    then have "byte_step m p b = Absorb ?q" by (simp add: byte_step_body [OF Cons.prems(2)])
    then show ?thesis
      using Cons.IH [OF fp_inv_store [OF Cons.prems(1,2) ne] _ False] Cons.prems(2,4) len pre by simp
  qed
qed simp

theorem feed_packet:
  assumes inv: "fp_inv m p" "fp_state p = FS_first_byte"
    and n: "length body \<le> m" "length body \<le> max_remaining_length"
  shows "\<exists>p'. fp_inv m p' \<and> fp_state p' = FS_first_byte \<and> (\<forall>data st. feed m f p (packet_bytes fb body @ data) st =
     (let (go_on, st) = f fb body st in if go_on then feed m f p' data st else (Err_ok, p', st)))"
proof -
  define p1 where "p1 = p\<lparr>fp_first_byte := fb, fp_rem_len := 0, fp_len_shift := 0, fp_body_len := 0, fp_state := FS_length\<rparr>"
  have p1: "fp_inv m p1" "fp_state p1 = FS_length" using inv by (simp_all add: p1_def fp_inv_def)
  obtain sh where sh: "unat sh \<in> {0, 7, 14, 21}"
    "\<And>data st. run_bytes m f p1 (varint_bytes (length body) @ data) st =
       length_done m f (p1\<lparr>fp_rem_len := of_nat (length body), fp_len_shift := sh\<rparr>) data st"
    using run_varint [OF p1, of "length body" f] n by (auto simp: p1_def)
  define q where "q = p1\<lparr>fp_rem_len := of_nat (length body), fp_len_shift := sh\<rparr>"
  have u: "unat (of_nat (length body) :: u32) = length body"
    using n by (simp add: unat_of_nat take_bit_nat_eq_self max_remaining_length_def)
  have run: "run_bytes m f p (packet_bytes fb body @ data) st = length_done m f q (body @ data) st" for data st
    using inv sh(2) [of "body @ data"] by (simp add: packet_bytes_def byte_step_def p1_def [symmetric] q_def)
  have "\<exists>p'. fp_inv m p' \<and> fp_state p' = FS_first_byte \<and> (\<forall>data st. length_done m f q (body @ data) st =
     (let (go_on, st) = f fb body st in if go_on then run_bytes m f p' data st else (Err_ok, p', st)))"
  proof (cases "body = []")
    case True
    then have "fp_rem_len q = 0" "fp_first_byte q = fb" by (simp_all add: q_def p1_def)
    moreover have "fp_inv m (q\<lparr>fp_state := FS_first_byte\<rparr>)"
      using p1 sh(1) by (simp add: fp_inv_def q_def p1_def)
    ultimately show ?thesis using True
      by (intro exI [of _ "q\<lparr>fp_state := FS_first_byte\<rparr>"]) (simp add: length_done_def)
  next
    case False
    have "fp_inv m (q\<lparr>fp_state := FS_body\<rparr>)" using p1 sh(1) n u False by (simp add: fp_inv_def q_def p1_def)
    moreover have "fp_first_byte q = fb" "fp_body_len q = 0" "unat (fp_rem_len q) = length body"
      using u by (simp_all add: q_def p1_def)
    moreover from this(3) False have "fp_rem_len q \<noteq> 0" by (auto simp: word_unat_eq_iff)
    ultimately show ?thesis
      using run_body [of m "q\<lparr>fp_state := FS_body\<rparr>" body f] False n(1) by (simp add: length_done_def)
  qed
  then obtain p' where "fp_inv m p'" "fp_state p' = FS_first_byte" "\<And>data st. length_done m f q (body @ data) st =
     (let (go_on, st) = f fb body st in if go_on then run_bytes m f p' data st else (Err_ok, p', st))" by blast
  then show ?thesis by (intro exI [of _ p']) (simp add: feed_run_bytes inv run split: prod.split)
qed

theorem feed_oversize:
  assumes inv: "fp_inv m p" "fp_state p = FS_first_byte"
    and n: "m < n" "n \<le> max_remaining_length"
  shows "\<exists>p'. feed m f p (fb # varint_bytes n @ data) st = (Err_oversize, p', st)"
proof -
  define p1 where "p1 = p\<lparr>fp_first_byte := fb, fp_rem_len := 0, fp_len_shift := 0, fp_body_len := 0, fp_state := FS_length\<rparr>"
  have p1: "fp_inv m p1" "fp_state p1 = FS_length" using inv by (simp_all add: p1_def fp_inv_def)
  have u: "unat (of_nat n :: u32) = n"
    using n by (simp add: unat_of_nat take_bit_nat_eq_self max_remaining_length_def)
  have "feed m f p (fb # varint_bytes n @ data) st = run_bytes m f p1 (varint_bytes n @ data) st"
    using inv by (simp add: feed_run_bytes byte_step_def p1_def)
  then show ?thesis using run_varint [OF p1, of n f] n u by (auto simp: p1_def length_done_def)
qed

text \<open>A fifth length byte is never read: the fourth with its continuation bit set is an error.\<close>

theorem feed_overlong:
  assumes inv: "fp_inv m p" "fp_state p = FS_first_byte"
    and b: "128 \<le> unat b1" "128 \<le> unat b2" "128 \<le> unat b3" "128 \<le> unat b4"
  shows "\<exists>p'. feed m f p (fb # b1 # b2 # b3 # b4 # data) st = (Err_malformed, p', st)"
  using inv b by (simp add: feed_run_bytes byte_step_def Let_def byte_bit7 [THEN iffD2] word_le_nat_alt unat_word_ariths)

text \<open>Packets in order, until the callback asks to stop.\<close>

fun deliver :: "(byte \<Rightarrow> bytes \<Rightarrow> 's \<Rightarrow> bool \<times> 's) \<Rightarrow> (byte \<times> bytes) list \<Rightarrow> 's \<Rightarrow> 's" where
  "deliver f [] st = st"
| "deliver f ((fb, body) # ps) st =
    (let (go_on, st) = f fb body st in if go_on then deliver f ps st else st)"

definition stream_bytes :: "(byte \<times> bytes) list \<Rightarrow> bytes" where
  "stream_bytes ps = concat (map (\<lambda>(fb, body). packet_bytes fb body) ps)"

definition packet_fits :: "nat \<Rightarrow> byte \<times> bytes \<Rightarrow> bool" where
  "packet_fits m pkt \<longleftrightarrow> length (snd pkt) \<le> m \<and> length (snd pkt) \<le> max_remaining_length"

theorem feed_stream:
  "fp_inv m p \<Longrightarrow> fp_state p = FS_first_byte \<Longrightarrow> list_all (packet_fits m) ps \<Longrightarrow>
   \<exists>p'. fp_inv m p' \<and> fp_state p' = FS_first_byte \<and> feed m f p (stream_bytes ps) st = (Err_ok, p', deliver f ps st)"
proof (induction ps arbitrary: p st)
  case (Cons pkt ps)
  obtain fb body where pkt: "pkt = (fb, body)" by fastforce
  obtain p' where p': "fp_inv m p'" "fp_state p' = FS_first_byte"
    "\<And>data st. feed m f p (packet_bytes fb body @ data) st =
       (let (go_on, st) = f fb body st in if go_on then feed m f p' data st else (Err_ok, p', st))"
    using feed_packet [OF Cons.prems(1,2), of body f fb] Cons.prems(3) pkt by (auto simp: packet_fits_def)
  obtain go st' where f: "f fb body st = (go, st')" by fastforce
  have "feed m f p (stream_bytes (pkt # ps)) st = (if go then feed m f p' (stream_bytes ps) st' else (Err_ok, p', st'))"
    using p'(3) [of "stream_bytes ps"] f pkt by (simp add: stream_bytes_def)
  then show ?case using Cons.IH [OF p'(1,2), of st'] Cons.prems(3) p' f pkt by (cases go) auto
qed (auto simp: stream_bytes_def)

context frame_client
begin

lemma chunked_stream:
  assumes "inv st" "\<not> dead st" "list_all (packet_fits m) ps" "concat chunks = stream_bytes ps"
  shows "\<exists>p'. feed_chunks m on_packet dead (fp_init m) chunks st = (Err_ok, p', deliver on_packet ps st)"
  using feed_stream [OF fp_inv_init _ assms(3), of on_packet st] feed_chunks_concat [OF fp_inv_init assms(1,2), of m chunks] assms(4)
  by (auto simp: fp_init_def)

end

section \<open>Properties\<close>

text \<open>C14: the chunk-wise loop of \<open>feed\<close> computes what the byte-at-a-time automaton computes: the same
  error, the same parser state and the same calls of the callback.\<close>

theorem feed_byte_automaton:
  assumes "fp_inv m p" shows "feed m f p data st = run_bytes m f p data st"
  by (rule feed_run_bytes [OF assms])

theorem feed_byte_automaton_witness:
  "fp_inv 4 (fp_init 4) \<and>
   feed 4 (\<lambda>fb body st. (True, st @ [(fb, body)])) (fp_init 4) [0x30, 1, 9] [] =
   run_bytes 4 (\<lambda>fb body st. (True, st @ [(fb, body)])) (fp_init 4) [0x30, 1, 9] []"
  using fp_inv_init [of 4]
    feed_byte_automaton [OF fp_inv_init [of 4], of "\<lambda>fb body st. (True, st @ [(fb, body)])" "[0x30, 1, 9]" "[]"] by blast

text \<open>C15: between packets, a stream of encoded packets that fit the buffer is handed to the callback
  packet by packet, in order, until the callback asks to stop, and no error is reported.\<close>

theorem feed_delivers_stream:
  "fp_inv m p \<Longrightarrow> fp_state p = FS_first_byte \<Longrightarrow> list_all (packet_fits m) ps \<Longrightarrow>
   \<exists>p'. fp_inv m p' \<and> fp_state p' = FS_first_byte \<and> feed m f p (stream_bytes ps) st = (Err_ok, p', deliver f ps st)"
  by (rule feed_stream)

theorem feed_delivers_stream_witness:
  "\<exists>p'. fp_inv 8 p' \<and> fp_state p' = FS_first_byte \<and>
     feed 8 (\<lambda>fb body st. (True, st @ [(fb, body)])) (fp_init 8) (stream_bytes [(0x30, [1, 2]), (0xC0, [])]) [] =
       (Err_ok, p', [(0x30, [1, 2]), (0xC0, [])])"
  using feed_delivers_stream [OF fp_inv_init [of 8], of "[(0x30, [1, 2]), (0xC0, [])]" "\<lambda>fb body st. (True, st @ [(fb, body)])" "[]"]
  by (simp add: fp_init_def packet_fits_def max_remaining_length_def)

text \<open>A Remaining Length above the buffer is reported as oversize, and one that continues after its
  fourth byte as malformed, before a byte of the body is stored and without calling the callback.\<close>

theorem feed_rejects_length:
  assumes "fp_inv m p" "fp_state p = FS_first_byte"
  shows "(m < n \<and> n \<le> max_remaining_length \<longrightarrow>
      (\<exists>p'. feed m f p (fb # varint_bytes n @ data) st = (Err_oversize, p', st)))
    \<and> (128 \<le> unat b1 \<and> 128 \<le> unat b2 \<and> 128 \<le> unat b3 \<and> 128 \<le> unat b4 \<longrightarrow>
      (\<exists>p'. feed m f p (fb # b1 # b2 # b3 # b4 # data) st = (Err_malformed, p', st)))"
  using feed_oversize [OF assms, of n f fb data st] feed_overlong [OF assms, of b1 b2 b3 b4 f fb data st] by simp

text \<open>C23: what \<open>build_publish\<close> puts on the wire, the framer of the receiver hands over as one packet
  that \<open>parse_publish\<close> reads back as the message sent.\<close>

theorem publish_roundtrip:
  assumes cap: "cap \<le> length buf" and topic: "length topic \<le> max_utf8_len"
    and id: "q \<noteq> at_most_once \<longrightarrow> pid \<noteq> 0" "q = at_most_once \<longrightarrow> \<not> dup"
    and sent: "snd (build_publish buf cap topic payload q retain dup pid) \<noteq> []" and m: "cap \<le> m"
  shows "\<exists>p'. feed m (\<lambda>fb body st. (True, st @ [parse_publish fb body])) (fp_init m)
      (snd (build_publish buf cap topic payload q retain dup pid)) [] =
    (Err_ok, p', [Inr \<lparr>pp_topic = topic, pp_payload = payload, pp_packet_id = (if q = at_most_once then 0 else pid),
       pp_qos = q, pp_retain = retain, pp_dup = dup\<rparr>])"
proof -
  let ?fb = "make_first_byte PT_publish (publish_flags q retain dup)" and ?body = "publish_body topic payload q pid"
  have e: "snd (build_publish buf cap topic payload q retain dup pid) = packet_bytes ?fb ?body"
    and fit: "packet_overhead + length ?body \<le> cap" "length ?body \<le> max_remaining_length"
    using build_publish_bytes [OF cap topic, of payload q retain dup pid] sent by (auto simp: Let_def split: if_splits)
  have "fp_state (fp_init m) = FS_first_byte" "list_all (packet_fits m) [(?fb, ?body)]"
    using fit m by (simp_all add: fp_init_def packet_fits_def)
  from feed_stream [OF fp_inv_init this, of "\<lambda>fb body st. (True, st @ [parse_publish fb body])" "[]"]
  show ?thesis by (auto simp: stream_bytes_def e parse_build_publish_body [OF topic id])
qed

theorem publish_roundtrip_witness:
  "\<exists>p'. feed 32 (\<lambda>fb body st. (True, st @ [parse_publish fb body])) (fp_init 32)
      (snd (build_publish (replicate 32 0) 32 [0x61] [7, 8] at_least_once True False 5)) [] =
    (Err_ok, p', [Inr \<lparr>pp_topic = [0x61], pp_payload = [7, 8], pp_packet_id = (if at_least_once = at_most_once then 0 else 5),
       pp_qos = at_least_once, pp_retain = True, pp_dup = False\<rparr>])"
proof (rule publish_roundtrip)
  show "snd (build_publish (replicate 32 0) 32 [0x61] [7, 8] at_least_once True False 5) \<noteq> []"
    by (simp add: build_publish_bytes max_utf8_len_def publish_body_def utf8_bytes_def u16_bytes_def packet_overhead_def
        max_remaining_length_def packet_bytes_def)
qed (simp_all add: max_utf8_len_def)

end
