(* ===== verification/Session.thy ===== *)
theory Session
  imports Containers Constants
begin

text \<open>
  Per-client session state (\<open>broker/session.hpp\<close>). Pointers into \<open>subs\<close> and \<open>pending\<close>
  are indices. The loop of \<open>alloc_packet_id\<close> has no bound of its own; it is modelled
  with one round per packet identifier, and shown to return within them whenever fewer
  than 65535 messages are pending.
\<close>

section \<open>Model\<close>

datatype out_state = queued | awaiting_puback | awaiting_pubrec | awaiting_pubcomp

record subscription =
  sub_filter :: bytes
  sub_granted :: qos
  sub_retain_pending :: bool

record out_msg =
  om_topic :: bytes
  om_payload :: bytes
  om_packet_id :: u16
  om_qos :: qos
  om_state :: out_state
  om_retain :: bool
  om_dup :: bool
  om_resend_pubrel :: bool

definition no_conn :: u16 where "no_conn = 0xFFFF"

record 'ctx session =
  s_client_id :: bytes
  s_subs :: "subscription list"
  s_pending :: "out_msg list"
  s_last_packet_id :: u16
  s_inbound_qos2 :: "u16 list"
  s_will_topic :: bytes
  s_will_payload :: bytes
  s_will_qos :: qos
  s_will_retain :: bool
  s_has_will :: bool
  s_retain_cursor :: u16
  s_clean_session :: bool
  s_conn :: u16
  s_disconnect_ms :: u32
  s_disconnect_order :: u32
  s_auth_ctx :: 'ctx

definition new_subscription :: subscription where
  "new_subscription = \<lparr>sub_filter = [], sub_granted = at_most_once, sub_retain_pending = False\<rparr>"

definition new_out_msg :: out_msg where
  "new_out_msg = \<lparr>om_topic = [], om_payload = [], om_packet_id = 0, om_qos = at_least_once,
     om_state = queued, om_retain = False, om_dup = False, om_resend_pubrel = False\<rparr>"

definition new_session :: "'ctx \<Rightarrow> 'ctx session" where
  "new_session ctx = \<lparr>s_client_id = [], s_subs = [], s_pending = [], s_last_packet_id = 0,
     s_inbound_qos2 = [], s_will_topic = [], s_will_payload = [], s_will_qos = at_most_once,
     s_will_retain = False, s_has_will = False, s_retain_cursor = 0, s_clean_session = True,
     s_conn = no_conn, s_disconnect_ms = 0, s_disconnect_order = 0, s_auth_ctx = ctx\<rparr>"

definition connected :: "'ctx session \<Rightarrow> bool" where
  "connected s \<longleftrightarrow> s_conn s \<noteq> no_conn"

definition find_sub :: "bytes \<Rightarrow> 'ctx session \<Rightarrow> nat option" where
  "find_sub flt s = find_index (\<lambda>sub. span_eq (sub_filter sub) flt) (s_subs s)"

definition has_inbound_qos2 :: "u16 \<Rightarrow> 'ctx session \<Rightarrow> bool" where
  "has_inbound_qos2 pid s \<longleftrightarrow> list_ex (\<lambda>v. v = pid) (s_inbound_qos2 s)"

definition remove_inbound_qos2 :: "u16 \<Rightarrow> 'ctx session \<Rightarrow> 'ctx session" where
  "remove_inbound_qos2 pid s =
    (case find_index (\<lambda>v. v = pid) (s_inbound_qos2 s) of
       None \<Rightarrow> s
     | Some i \<Rightarrow> s\<lparr>s_inbound_qos2 := sv_remove_ordered i (s_inbound_qos2 s)\<rparr>)"

definition id_in_use :: "out_msg list \<Rightarrow> u16 \<Rightarrow> bool" where
  "id_in_use pending pid \<longleftrightarrow> list_ex (\<lambda>m. om_state m \<noteq> queued \<and> om_packet_id m = pid) pending"

definition next_packet_id :: "u16 \<Rightarrow> u16" where
  "next_packet_id l0 = (let l = l0 + 1 in if l = 0 then 1 else l)"

fun alloc_loop :: "nat \<Rightarrow> out_msg list \<Rightarrow> u16 \<Rightarrow> u16 option" where
  "alloc_loop 0 pending l0 = None"
| "alloc_loop (Suc n) pending l0 =
    (let l = next_packet_id l0 in if id_in_use pending l then alloc_loop n pending l else Some l)"

definition alloc_packet_id :: "'ctx session \<Rightarrow> (u16 \<times> 'ctx session) option" where
  "alloc_packet_id s =
    (case alloc_loop 65535 (s_pending s) (s_last_packet_id s) of
       None \<Rightarrow> None
     | Some l \<Rightarrow> Some (l, s\<lparr>s_last_packet_id := l\<rparr>))"

definition find_pending :: "u16 \<Rightarrow> out_state \<Rightarrow> out_state \<Rightarrow> 'ctx session \<Rightarrow> nat option" where
  "find_pending pid a b s =
     find_index (\<lambda>m. om_packet_id m = pid \<and> (om_state m = a \<or> om_state m = b)) (s_pending s)"

section \<open>Packet identifiers\<close>

lemma unat_next_packet_id: "unat (next_packet_id l) = unat l mod 65535 + 1"
proof (cases "unat l = 65535")
  case True
  then have "l = 65535" by (simp add: word_unat_eq_iff)
  then show ?thesis by (simp add: next_packet_id_def)
next
  case False
  then have "unat l < 65535" using unat_lt_16 [of l] by linarith
  moreover from this have "unat (l + 1) = unat l + 1" by (simp add: unat_word_ariths)
  moreover from this have "l + 1 \<noteq> 0" by (metis add_is_0 one_neq_zero unsigned_0)
  ultimately show ?thesis by (simp add: next_packet_id_def)
qed

lemma unat_iterate: "unat ((next_packet_id ^^ Suc k) l) = (unat l + k) mod 65535 + 1"
proof (induction k)
  case 0
  show ?case by (simp add: unat_next_packet_id)
next
  case (Suc k)
  have "unat ((next_packet_id ^^ Suc (Suc k)) l) = ((unat l + k) mod 65535 + 1) mod 65535 + 1"
    using unat_next_packet_id [of "(next_packet_id ^^ Suc k) l"] Suc by simp
  also have "((unat l + k) mod 65535 + 1) mod 65535 = (unat l + Suc k) mod 65535"
    by (metis add_Suc_right mod_Suc_eq Suc_eq_plus1)
  finally show ?case .
qed

lemma iterate_inj: "inj_on (\<lambda>k. (next_packet_id ^^ Suc k) l) {..<65535}"
proof (rule inj_onI)
  fix a b :: nat assume ab: "a \<in> {..<65535}" "b \<in> {..<65535}"
    and "(next_packet_id ^^ Suc a) l = (next_packet_id ^^ Suc b) l"
  then have "(unat l + a) mod 65535 = (unat l + b) mod 65535" by (metis add_right_cancel unat_iterate)
  then have "(unat l mod 65535 + a) mod 65535 = (unat l mod 65535 + b) mod 65535"
    by (simp only: mod_add_left_eq)
  then show "a = b" by (rule shift_mod_inj) (use ab in simp_all)
qed

lemma alloc_loop_None:
  "alloc_loop n pending l = None \<Longrightarrow> k < n \<Longrightarrow> id_in_use pending ((next_packet_id ^^ Suc k) l)"
proof (induction n arbitrary: k l)
  case (Suc n)
  show ?case
  proof (cases k)
    case (Suc j)
    then show ?thesis using Suc.IH [of "next_packet_id l" j] Suc.prems
      by (auto simp: Let_def funpow_swap1 split: if_splits)
  qed (use Suc.prems in \<open>auto simp: Let_def split: if_splits\<close>)
qed simp

lemma alloc_loop_Some:
  "alloc_loop n pending l = Some pid \<Longrightarrow> pid \<noteq> 0 \<and> \<not> id_in_use pending pid"
proof (induction n arbitrary: l)
  case (Suc n)
  have "next_packet_id l \<noteq> 0" by (auto simp: next_packet_id_def Let_def)
  then show ?case using Suc by (auto simp: Let_def split: if_splits)
qed simp

lemma alloc_loop_returns:
  assumes "length pending < 65535"
  shows "alloc_loop 65535 pending l \<noteq> None"
proof
  assume n: "alloc_loop 65535 pending l = None"
  let ?ids = "(\<lambda>k. (next_packet_id ^^ Suc k) l) ` {..<65535}"
  have "?ids \<subseteq> om_packet_id ` set pending"
  proof
    fix pid assume "pid \<in> ?ids"
    then obtain k where "k < 65535" "pid = (next_packet_id ^^ Suc k) l" by blast
    then have "id_in_use pending pid" using alloc_loop_None [OF n] by simp
    then show "pid \<in> om_packet_id ` set pending" by (auto simp: id_in_use_def list_ex_iff)
  qed
  then have "card ?ids \<le> card (om_packet_id ` set pending)" by (intro card_mono) auto
  also have "\<dots> \<le> length pending" by (meson card_image_le card_length finite_set le_trans)
  finally show False using assms card_image [OF iterate_inj, of l] by simp
qed

lemma alloc_packet_id_fresh:
  assumes "length (s_pending s) < 65535"
  obtains pid where "alloc_packet_id s = Some (pid, s\<lparr>s_last_packet_id := pid\<rparr>)" "pid \<noteq> 0"
    "\<not> id_in_use (s_pending s) pid"
  using alloc_loop_returns [OF assms, of "s_last_packet_id s"]
    alloc_loop_Some [of 65535 "s_pending s" "s_last_packet_id s"]
  by (cases "alloc_loop 65535 (s_pending s) (s_last_packet_id s)") (auto simp: alloc_packet_id_def)

section \<open>Properties\<close>

text \<open>With fewer than 65535 messages pending, the search loop of \<open>alloc_packet_id\<close> ends within one
  round per identifier, and the identifier it returns is not 0 and not in use by an in-flight message.\<close>

theorem alloc_packet_id_terminates:
  assumes "length (s_pending s) < 65535"
  shows "\<exists>pid. alloc_packet_id s = Some (pid, s\<lparr>s_last_packet_id := pid\<rparr>) \<and> pid \<noteq> 0 \<and> \<not> id_in_use (s_pending s) pid"
  using alloc_packet_id_fresh [OF assms] by metis

end
