(* ===== verification/Utf8.thy ===== *)
theory Utf8
  imports Prelude
begin

text \<open>
  \<open>protocol/utf8.hpp\<close>: the well-formedness check for MQTT strings, and its
  equivalence with a reference definition: a string is accepted exactly when it is
  the UTF-8 encoding of a sequence of Unicode scalar values other than U+0000.
\<close>

section \<open>Definitions\<close>

text \<open>The lead byte: the number of continuation bytes and the bits of the code point.\<close>

definition utf8_lead :: "byte \<Rightarrow> (nat \<times> u32) option" where
  "utf8_lead c =
     (if c AND 0xE0 = 0xC0 then Some (1, ucast (c AND 0x1F))
      else if c AND 0xF0 = 0xE0 then Some (2, ucast (c AND 0x0F))
      else if c AND 0xF8 = 0xF0 then Some (3, ucast (c AND 0x07))
      else None)"

text \<open>The loop over continuation bytes \<open>k = 1 .. cont\<close>; \<open>None\<close> is its \<open>return false\<close>.\<close>

function utf8_cont :: "bytes \<Rightarrow> nat \<Rightarrow> nat \<Rightarrow> nat \<Rightarrow> u32 \<Rightarrow> u32 option" where
  "utf8_cont s i k cont cp =
     (if k \<le> cont then
        (let b = s ! (i + k) in
         if b AND 0xC0 \<noteq> 0x80 then None
         else utf8_cont s i (k + 1) cont (push_bit 6 cp OR ucast (b AND 0x3F)))
      else Some cp)"
  by pat_completeness auto
termination
  by (relation "measure (\<lambda>(s, i, k, cont, cp). Suc cont - k)") auto

function utf8_loop :: "bytes \<Rightarrow> nat \<Rightarrow> bool" where
  "utf8_loop s i =
     (if i < length s then
        (let c = s ! i in
         if c = 0x00 then False
         else if c < 0x80 then utf8_loop s (i + 1)
         else case utf8_lead c of
             None \<Rightarrow> False
           | Some (cont, cp0) \<Rightarrow>
               if i + 1 + cont > length s then False
               else case utf8_cont s i 1 cont cp0 of
                   None \<Rightarrow> False
                 | Some cp \<Rightarrow>
                     if (cont = 1 \<and> cp < 0x80) \<or> (cont = 2 \<and> cp < 0x800)
                        \<or> (cont = 3 \<and> cp < 0x10000) then False
                     else if cp > 0x10FFFF \<or> (cp \<ge> 0xD800 \<and> cp \<le> 0xDFFF) then False
                     else utf8_loop s (i + (1 + cont)))
      else True)"
  by pat_completeness auto
termination
  by (relation "measure (\<lambda>(s, i). length s - i)") auto

declare utf8_cont.simps [simp del] utf8_loop.simps [simp del]

definition utf8_valid :: "bytes \<Rightarrow> bool" where
  "utf8_valid s = utf8_loop s 0"

subsection \<open>Reference definition\<close>

text \<open>A code point an MQTT string may contain, and its encoding.\<close>

definition mqtt_scalar :: "nat \<Rightarrow> bool" where
  "mqtt_scalar cp \<longleftrightarrow> 0 < cp \<and> cp \<le> 0x10FFFF \<and> \<not> (0xD800 \<le> cp \<and> cp \<le> 0xDFFF)"

definition utf8_encode :: "nat \<Rightarrow> bytes" where
  "utf8_encode cp =
     (if cp < 0x80 then [of_nat cp]
      else if cp < 0x800 then [of_nat (0xC0 + cp div 64), of_nat (0x80 + cp mod 64)]
      else if cp < 0x10000 then
        [of_nat (0xE0 + cp div 4096), of_nat (0x80 + cp div 64 mod 64), of_nat (0x80 + cp mod 64)]
      else [of_nat (0xF0 + cp div 262144), of_nat (0x80 + cp div 4096 mod 64),
            of_nat (0x80 + cp div 64 mod 64), of_nat (0x80 + cp mod 64)])"

definition utf8_text :: "bytes \<Rightarrow> bool" where
  "utf8_text s \<longleftrightarrow> (\<exists>cps. list_all mqtt_scalar cps \<and> s = concat (map utf8_encode cps))"

section \<open>Proofs\<close>

lemma unat_cont_step:
  "unat cp < 2 ^ 26 \<Longrightarrow>
     unat (push_bit 6 cp OR ucast ((b :: byte) AND 0x3F)) = unat (cp :: u32) * 64 + unat b mod 64"
  using unat_shift_or [of "ucast (b AND 0x3F) :: u32" 6 cp]
  by (simp add: unat_ucast_8_32 byte_low_bits)

text \<open>What the continuation loop computes for one, two and three bytes.\<close>

lemma utf8_cont_done: "k > cont \<Longrightarrow> utf8_cont s i k cont cp = Some cp"
  by (simp add: utf8_cont.simps [of s i k cont cp])

lemma utf8_cont_more:
  "k \<le> cont \<Longrightarrow> utf8_cont s i k cont cp =
     (if unat (s ! (i + k)) div 64 = 2
      then utf8_cont s i (Suc k) cont (push_bit 6 cp OR ucast (s ! (i + k) AND 0x3F)) else None)"
  by (simp add: utf8_cont.simps [of s i k cont cp] byte_high_bits)

fun cont_value :: "bytes \<Rightarrow> nat \<Rightarrow> nat option" where
  "cont_value [] v = Some v"
| "cont_value (b # bs) v = (if unat b div 64 = 2 then cont_value bs (v * 64 + unat b mod 64) else None)"

lemma utf8_cont_value:
  assumes "unat cp * 64 ^ (Suc cont - k) + 64 ^ (Suc cont - k) \<le> 2 ^ 32" "i + cont < length s" 
  shows "map_option unat (utf8_cont s i k cont cp) = cont_value (take (Suc cont - k) (drop (i + k) s)) (unat cp)"
  using assms
proof (induction s i k cont cp rule: utf8_cont.induct)
  case (1 s i k cont cp)
  show ?case
  proof (cases "k \<le> cont")
    case False then show ?thesis by (simp add: utf8_cont_done)
  next
    case True
    define b where "b = s ! (i + k)"
    let ?cp = "push_bit 6 cp OR ucast (b AND 0x3F)"
    obtain m where m: "Suc cont - k = Suc m" using True by (metis Suc_diff_le)
    have "unat cp * 64 + 64 \<le> 2 ^ 32 div 64 ^ m"
      using 1(2) unfolding m by (simp add: less_eq_div_iff_mult_less_eq algebra_simps)
    also have "\<dots> \<le> 2 ^ 32" by simp
    finally have "unat cp < 2 ^ 26" by simp
    then have u: "unat ?cp = unat cp * 64 + unat b mod 64" by (rule unat_cont_step)
    have "unat ?cp * 64 ^ m + 64 ^ m \<le> (unat cp * 64 + 64) * 64 ^ m"
    proof -
      have "unat ?cp + 1 \<le> unat cp * 64 + 64" unfolding u by simp
      then have "(unat ?cp + 1) * 64 ^ m \<le> (unat cp * 64 + 64) * 64 ^ m" by (rule mult_le_mono1)
      then show ?thesis by simp
    qed
    also have "\<dots> \<le> 2 ^ 32" using 1(2) unfolding m by (simp add: algebra_simps)
    finally have le: "unat ?cp * 64 ^ m + 64 ^ m \<le> 2 ^ 32" .
    have dr: "drop (i + k) s = b # drop (i + Suc k) s"
      using True 1(3) by (simp add: b_def Cons_nth_drop_Suc)
    have IH: "unat b div 64 = 2 \<Longrightarrow> map_option unat (utf8_cont s i (Suc k) cont ?cp) = cont_value (take m (drop (i + Suc k) s)) (unat ?cp)"
    proof -
      assume "unat b div 64 = 2"
      moreover have "Suc cont - Suc k = m" using m by simp
      ultimately show ?thesis
        using 1(1) [OF True b_def] le 1(3) by (simp add: byte_high_bits)
    qed
    show ?thesis
      using IH True by (simp add: utf8_cont_more m dr flip: b_def u)
  qed
qed

lemma utf8_lead_cases:
  assumes "utf8_lead c = Some (cont, cp)"
  obtains "cont = 1" "unat c div 32 = 6" "unat cp = unat c mod 32"
    | "cont = 2" "unat c div 16 = 14" "unat cp = unat c mod 16"
    | "cont = 3" "unat c div 8 = 30" "unat cp = unat c mod 8"
  using assms by (auto simp: utf8_lead_def byte_high_bits unat_ucast_8_32 byte_low_bits split: if_splits)

lemma encode_1: "unat c < 128 \<Longrightarrow> utf8_encode (unat c) = [c]"
  by (simp add: utf8_encode_def)

lemma encode_2:
  assumes "b < 64" "0x80 \<le> a * 64 + b" "a < 32"
  shows "utf8_encode (a * 64 + b) = [192 + of_nat a, 128 + of_nat b]"
  using assms by (simp add: utf8_encode_def)

lemma encode_3:
  assumes "b < 64" "c < 64" "a < 16" "0x800 \<le> (a * 64 + b) * 64 + c"
  shows "utf8_encode ((a * 64 + b) * 64 + c) = [224 + of_nat a, 128 + of_nat b, 128 + of_nat c]"
proof -
  have "((a * 64 + b) * 64 + c) div 4096 = a" using assms by (intro div_nat_eqI) simp_all
  moreover have "((a * 64 + b) * 64 + c) div 64 = a * 64 + b" using assms by (intro div_nat_eqI) simp_all
  moreover have "((a * 64 + b) * 64 + c) mod 64 = c" using assms by (simp only: mod_mult_self3) simp
  ultimately show ?thesis using assms unfolding utf8_encode_def by simp
qed

lemma encode_4:
  assumes "b < 64" "c < 64" "d < 64" "a < 8" "0x10000 \<le> ((a * 64 + b) * 64 + c) * 64 + d"
  shows "utf8_encode (((a * 64 + b) * 64 + c) * 64 + d)
     = [240 + of_nat a, 128 + of_nat b, 128 + of_nat c, 128 + of_nat d]"
proof -
  have "(((a * 64 + b) * 64 + c) * 64 + d) div 262144 = a" using assms by (intro div_nat_eqI) simp_all
  moreover have "(((a * 64 + b) * 64 + c) * 64 + d) div 4096 = a * 64 + b" using assms by (intro div_nat_eqI) simp_all
  moreover have "(((a * 64 + b) * 64 + c) * 64 + d) div 64 = (a * 64 + b) * 64 + c" using assms by (intro div_nat_eqI) simp_all
  moreover have "(((a * 64 + b) * 64 + c) * 64 + d) mod 64 = d" using assms by (simp only: mod_mult_self3) simp
  moreover have "((a * 64 + b) * 64 + c) mod 64 = c" using assms by (simp only: mod_mult_self3) simp
  ultimately show ?thesis using assms unfolding utf8_encode_def by simp
qed

lemma div_decomp: "n div k = q \<Longrightarrow> n = q * k + n mod (k::nat)"
  by (metis div_mult_mod_eq)

lemma bytes_of_div:
  fixes c :: byte
  shows "unat c div 32 = 6 \<Longrightarrow> 192 + of_nat (unat c mod 32) = c"
    and "unat c div 16 = 14 \<Longrightarrow> 224 + of_nat (unat c mod 16) = c"
    and "unat c div 8 = 30 \<Longrightarrow> 240 + of_nat (unat c mod 8) = c"
    and "unat c div 64 = 2 \<Longrightarrow> 128 + of_nat (unat c mod 64) = c"
proof -
  have *: "of_nat (q * k) + of_nat (unat c mod k) = c" if "unat c div k = q" for k q
    using arg_cong [OF div_decomp [OF that], of "of_nat :: nat \<Rightarrow> byte"] by simp
  show "unat c div 32 = 6 \<Longrightarrow> 192 + of_nat (unat c mod 32) = c" using * [of 32 6] by simp
  show "unat c div 16 = 14 \<Longrightarrow> 224 + of_nat (unat c mod 16) = c" using * [of 16 14] by simp
  show "unat c div 8 = 30 \<Longrightarrow> 240 + of_nat (unat c mod 8) = c" using * [of 8 30] by simp
  show "unat c div 64 = 2 \<Longrightarrow> 128 + of_nat (unat c mod 64) = c" using * [of 64 2] by simp
qed

definition code_ok :: "nat \<Rightarrow> nat \<Rightarrow> bool" where
  "code_ok cont v \<longleftrightarrow> \<not> ((cont = 1 \<and> v < 0x80) \<or> (cont = 2 \<and> v < 0x800) \<or> (cont = 3 \<and> v < 0x10000))
     \<and> v \<le> 0x10FFFF \<and> \<not> (0xD800 \<le> v \<and> v \<le> 0xDFFF)"

lemma utf8_lead_bound: "utf8_lead c = Some (cont, cp) \<Longrightarrow> 1 \<le> cont \<and> cont \<le> 3 \<and> unat cp < 32"
  by (erule utf8_lead_cases) auto

lemma utf8_loop_multi:
  assumes "i < length s" "0x80 \<le> unat (s ! i)"
  shows "utf8_loop s i =
    (case utf8_lead (s ! i) of None \<Rightarrow> False | Some (cont, cp0) \<Rightarrow> i + cont < length s \<and>
      (case cont_value (take cont (drop (i + 1) s)) (unat cp0) of None \<Rightarrow> False
       | Some v \<Rightarrow> code_ok cont v \<and> utf8_loop s (i + (1 + cont))))"
proof (cases "utf8_lead (s ! i)")
  case None
  with assms show ?thesis by (simp add: utf8_loop.simps [of s i] word_less_nat_alt word_unat_eq_iff)
next
  case (Some p)
  obtain cont cp0 where p: "p = (cont, cp0)" by (cases p)
  show ?thesis
  proof (cases "i + cont < length s")
    case False
    with assms Some p show ?thesis by (simp add: utf8_loop.simps [of s i] Let_def word_less_nat_alt)
  next
    case True
    have bd: "cont \<le> 3" "unat cp0 \<le> 31"
      using utf8_lead_bound [of "s ! i" cont cp0] Some p by auto
    then have c: "64 ^ cont \<le> (64::nat) ^ 3" by (intro power_increasing) simp_all
    have "unat cp0 * 64 ^ cont \<le> 31 * 64 ^ 3" by (rule mult_le_mono [OF bd(2) c])
    with c have "unat cp0 * 64 ^ (Suc cont - 1) + 64 ^ (Suc cont - 1) \<le> 2 ^ 32" by simp
    from utf8_cont_value [OF this True]
    have cv: "cont_value (take cont (drop (i + 1) s)) (unat cp0) = map_option unat (utf8_cont s i 1 cont cp0)"
      by simp
    have "s ! i \<noteq> 0" "\<not> s ! i < 0x80" using assms(2) by (auto simp: word_less_nat_alt)
    then have un: "utf8_loop s i = (case utf8_cont s i 1 cont cp0 of None \<Rightarrow> False | Some cp \<Rightarrow>
        if (cont = 1 \<and> cp < 0x80) \<or> (cont = 2 \<and> cp < 0x800) \<or> (cont = 3 \<and> cp < 0x10000) then False
        else if cp > 0x10FFFF \<or> (cp \<ge> 0xD800 \<and> cp \<le> 0xDFFF) then False
        else utf8_loop s (i + (1 + cont)))"
      using assms(1) Some p True
      by (simp only: utf8_loop.simps [of s i] Let_def if_True if_False option.case prod.case) simp
    show ?thesis
    proof (cases "utf8_cont s i 1 cont cp0")
      case None
      then show ?thesis using Some p cv un by simp
    next
      case c: (Some cp)
      have "code_ok cont (unat cp) \<longleftrightarrow>
         \<not> ((cont = 1 \<and> cp < 0x80) \<or> (cont = 2 \<and> cp < 0x800) \<or> (cont = 3 \<and> cp < 0x10000))
         \<and> \<not> (cp > 0x10FFFF \<or> (cp \<ge> 0xD800 \<and> cp \<le> 0xDFFF))"
        by (simp add: code_ok_def word_less_nat_alt word_le_nat_alt linorder_not_less)
      then show ?thesis using Some p cv un True c by simp
    qed
  qed
qed

lemma utf8_loop_single:
  assumes "i < length s" "unat (s ! i) < 0x80"
  shows "utf8_loop s i \<longleftrightarrow> unat (s ! i) \<noteq> 0 \<and> utf8_loop s (i + 1)"
  using assms by (auto simp: utf8_loop.simps [of s i] Let_def word_less_nat_alt word_unat_eq_iff)

lemma take_drop_Suc: "i + n < length s \<Longrightarrow> take (Suc n) (drop i s) = s ! i # take n (drop (Suc i) s)"
  by (simp flip: Cons_nth_drop_Suc)

lemma utf8_step_forward:
  assumes "i < length s" "utf8_loop s i"
  shows "\<exists>cp. mqtt_scalar cp \<and> take (length (utf8_encode cp)) (drop i s) = utf8_encode cp
     \<and> i + length (utf8_encode cp) \<le> length s \<and> utf8_loop s (i + length (utf8_encode cp))"
proof (cases "unat (s ! i) < 0x80")
  case True
  with assms show ?thesis
    by (intro exI [of _ "unat (s ! i)"])
      (auto simp: mqtt_scalar_def encode_1 utf8_loop_single take_Suc_conv_app_nth)
next
  case False
  with assms obtain cont cp0 v where lead: "utf8_lead (s ! i) = Some (cont, cp0)" and len: "i + cont < length s"
    and v: "cont_value (take cont (drop (i + 1) s)) (unat cp0) = Some v" and ok: "code_ok cont v"
    and rest: "utf8_loop s (i + (1 + cont))"
    by (auto simp: utf8_loop_multi split: option.splits)
  have "length (utf8_encode v) = Suc cont \<and> utf8_encode v = take (Suc cont) (drop i s) \<and> mqtt_scalar v"
    using lead
  proof (cases rule: utf8_lead_cases)
    case 1
    let ?b = "s ! Suc i"
    from 1 v len have b: "unat ?b div 64 = 2" and veq: "v = unat (s ! i) mod 32 * 64 + unat ?b mod 64"
      by (auto simp: take_drop_Suc split: if_splits)
    have "utf8_encode v = [s ! i, ?b]" unfolding veq
      using encode_2 [of "unat ?b mod 64" "unat (s ! i) mod 32"] 1 ok veq
      by (simp add: code_ok_def bytes_of_div b)
    with 1 ok len show ?thesis by (simp add: code_ok_def mqtt_scalar_def take_drop_Suc)
  next
    case 2
    let ?b = "s ! Suc i" and ?c = "s ! Suc (Suc i)"
    from 2 v len have b: "unat ?b div 64 = 2" "unat ?c div 64 = 2"
      and veq: "v = (unat (s ! i) mod 16 * 64 + unat ?b mod 64) * 64 + unat ?c mod 64"
      by (auto simp: take_drop_Suc numeral_2_eq_2 split: if_splits)
    have "utf8_encode v = [s ! i, ?b, ?c]" unfolding veq
      using encode_3 [of "unat ?b mod 64" "unat ?c mod 64" "unat (s ! i) mod 16"] 2 ok veq
      by (simp add: code_ok_def bytes_of_div b)
    with 2 ok len show ?thesis
      by (simp add: code_ok_def mqtt_scalar_def take_drop_Suc numeral_2_eq_2)
  next
    case 3
    let ?b = "s ! Suc i" and ?c = "s ! Suc (Suc i)" and ?d = "s ! Suc (Suc (Suc i))"
    from 3 v len have b: "unat ?b div 64 = 2" "unat ?c div 64 = 2" "unat ?d div 64 = 2"
      and veq: "v = ((unat (s ! i) mod 8 * 64 + unat ?b mod 64) * 64 + unat ?c mod 64) * 64 + unat ?d mod 64"
      by (auto simp: take_drop_Suc numeral_3_eq_3 numeral_2_eq_2 split: if_splits)
    have "utf8_encode v = [s ! i, ?b, ?c, ?d]" unfolding veq
      using encode_4 [of "unat ?b mod 64" "unat ?c mod 64" "unat ?d mod 64" "unat (s ! i) mod 8"] 3 ok veq
      by (simp add: code_ok_def bytes_of_div b)
    with 3 ok len show ?thesis
      by (simp add: code_ok_def mqtt_scalar_def take_drop_Suc numeral_3_eq_3 numeral_2_eq_2)
  qed
  with len rest show ?thesis by (intro exI [of _ v]) auto
qed

lemma unat_byte: "n < 256 \<Longrightarrow> unat (of_nat n :: byte) = n"
  by (simp add: unat_of_nat take_bit_nat_eq_self)

lemma unat_byte_plus: "numeral k + m < 256 \<Longrightarrow> unat (numeral k + of_nat m :: byte) = numeral k + m"
  using unat_byte [of "numeral k + m"] by simp

lemma utf8_lead_values:
  "unat c div 32 = 6 \<Longrightarrow> \<exists>w. utf8_lead c = Some (1, w) \<and> unat w = unat c mod 32"
  "unat c div 16 = 14 \<Longrightarrow> \<exists>w. utf8_lead c = Some (2, w) \<and> unat w = unat c mod 16"
  "unat c div 8 = 30 \<Longrightarrow> \<exists>w. utf8_lead c = Some (3, w) \<and> unat w = unat c mod 8"
proof -
  assume "unat c div 32 = 6"
  then show "\<exists>w. utf8_lead c = Some (1, w) \<and> unat w = unat c mod 32"
    by (simp add: utf8_lead_def byte_high_bits unat_ucast_8_32 byte_low_bits)
next
  assume c: "unat c div 16 = 14"
  then have "unat c div 32 \<noteq> 6" by linarith
  with c show "\<exists>w. utf8_lead c = Some (2, w) \<and> unat w = unat c mod 16"
    by (simp add: utf8_lead_def byte_high_bits unat_ucast_8_32 byte_low_bits)
next
  assume c: "unat c div 8 = 30"
  then have "unat c div 32 \<noteq> 6" "unat c div 16 \<noteq> 14" by linarith+
  with c show "\<exists>w. utf8_lead c = Some (3, w) \<and> unat w = unat c mod 8"
    by (simp add: utf8_lead_def byte_high_bits unat_ucast_8_32 byte_low_bits)
qed

lemma range_div: "cp < k * m \<Longrightarrow> cp div k < (m::nat)"
  by (simp add: less_mult_imp_div_less mult.commute)

lemma div_mod_split: "q < k \<Longrightarrow> (p * k + q) div k = p \<and> (p * k + q) mod k = (q::nat)"
  by simp

lemma lead_split:
  "q < 32 \<Longrightarrow> (192 + q) div 32 = 6 \<and> (192 + q) mod 32 = (q::nat)"
  "q < 16 \<Longrightarrow> (224 + q) div 16 = 14 \<and> (224 + q) mod 16 = (q::nat)"
  "q < 8 \<Longrightarrow> (240 + q) div 8 = 30 \<and> (240 + q) mod 8 = (q::nat)"
  "q < 64 \<Longrightarrow> (128 + q) div 64 = 2 \<and> (128 + q) mod 64 = (q::nat)"
  using div_mod_split [of q 64 2] div_mod_split [of q 32 6] div_mod_split [of q 16 14] div_mod_split [of q 8 30] by simp_all

lemma radix64:
  "(n div 4096 * 64 + n div 64 mod 64) * 64 + n mod 64 = (n::nat)"
  "((n div 262144 * 64 + n div 4096 mod 64) * 64 + n div 64 mod 64) * 64 + n mod 64 = n"
proof -
  have d: "n div 4096 = n div 64 div 64" "n div 262144 = n div 64 div 64 div 64"
    by (simp_all flip: div_mult2_eq)
  show "(n div 4096 * 64 + n div 64 mod 64) * 64 + n mod 64 = n"
    unfolding d by (simp only: div_mult_mod_eq)
  show "((n div 262144 * 64 + n div 4096 mod 64) * 64 + n div 64 mod 64) * 64 + n mod 64 = n"
    unfolding d by (simp only: div_mult_mod_eq)
qed

text \<open>How the validator reads the encoding of a code point outside ASCII.\<close>

definition reads_back :: "nat \<Rightarrow> bool" where
  "reads_back cp \<longleftrightarrow> (\<exists>c w tail. utf8_encode cp = c # tail \<and> 0x80 \<le> unat c
     \<and> utf8_lead c = Some (length tail, w) \<and> cont_value tail (unat w) = Some cp
     \<and> code_ok (length tail) cp)"

lemma reads_back_2:
  assumes "0x80 \<le> cp" "cp < 0x800" shows "reads_back cp"
proof -
  define c :: byte where "c = of_nat (0xC0 + cp div 64)"
  have q: "cp div 64 < 32" using range_div [of cp 64 32] assms by simp
  have n: "unat c = 0xC0 + cp div 64" using q by (simp add: c_def unat_byte_plus)
  then obtain w where w: "utf8_lead c = Some (1, w)" "unat w = cp div 64"
    using utf8_lead_values(1) [of c] lead_split(1) [OF q] by auto
  have "utf8_encode cp = [c, of_nat (0x80 + cp mod 64)]"
    using assms by (simp add: utf8_encode_def c_def)
  with n w assms show ?thesis
    unfolding reads_back_def
    by (intro exI [of _ c] exI [of _ w] exI [of _ "[of_nat (0x80 + cp mod 64)]"])
      (simp add: unat_byte_plus lead_split code_ok_def)
qed

lemma reads_back_3:
  assumes "0x800 \<le> cp" "cp < 0x10000" "\<not> (0xD800 \<le> cp \<and> cp \<le> 0xDFFF)"
  shows "reads_back cp"
proof -
  define c :: byte where "c = of_nat (0xE0 + cp div 4096)"
  let ?tail = "[of_nat (0x80 + cp div 64 mod 64), of_nat (0x80 + cp mod 64)] :: bytes"
  have q: "cp div 4096 < 16" using range_div [of cp 4096 16] assms by simp
  have n: "unat c = 0xE0 + cp div 4096" using q by (simp add: c_def unat_byte_plus)
  then obtain w where w: "utf8_lead c = Some (2, w)" "unat w = cp div 4096"
    using utf8_lead_values(2) [of c] lead_split(2) [OF q] by auto
  have "utf8_encode cp = c # ?tail" using assms by (simp add: utf8_encode_def c_def)
  moreover have "cont_value ?tail (unat w) = Some cp"
    using w(2) radix64(1) [of cp] by (simp add: unat_byte_plus lead_split)
  ultimately show ?thesis
    unfolding reads_back_def using n w assms
    by (intro exI [of _ c] exI [of _ w] exI [of _ ?tail]) (simp add: code_ok_def)
qed

lemma reads_back_4:
  assumes "0x10000 \<le> cp" "cp \<le> 0x10FFFF" shows "reads_back cp"
proof -
  define c :: byte where "c = of_nat (0xF0 + cp div 262144)"
  let ?tail = "[of_nat (0x80 + cp div 4096 mod 64), of_nat (0x80 + cp div 64 mod 64),
     of_nat (0x80 + cp mod 64)] :: bytes"
  have q: "cp div 262144 < 5" using range_div [of cp 262144 5] assms by simp
  have n: "unat c = 0xF0 + cp div 262144" using q by (simp add: c_def unat_byte_plus)
  then obtain w where w: "utf8_lead c = Some (3, w)" "unat w = cp div 262144"
    using utf8_lead_values(3) [of c] lead_split(3) [of "cp div 262144"] q by auto
  have "utf8_encode cp = c # ?tail" using assms by (simp add: utf8_encode_def c_def)
  moreover have "cont_value ?tail (unat w) = Some cp"
    using w(2) radix64(2) [of cp] by (simp add: unat_byte_plus lead_split)
  ultimately show ?thesis
    unfolding reads_back_def using n w assms
    by (intro exI [of _ c] exI [of _ w] exI [of _ ?tail]) (simp add: code_ok_def)
qed

lemma utf8_step_backward:
  assumes "mqtt_scalar cp" "drop i s = utf8_encode cp @ rest"
    "utf8_loop s (i + length (utf8_encode cp))"
  shows "utf8_loop s i"
proof (cases "cp < 0x80")
  case True
  then have e: "utf8_encode cp = [of_nat cp]" by (simp add: utf8_encode_def)
  then have i: "i < length s" "s ! i = of_nat cp"
    using assms(2) by (cases "i < length s"; simp add: Cons_nth_drop_Suc [symmetric])+
  with True e assms(1,3) show ?thesis
    by (simp add: utf8_loop_single unat_byte mqtt_scalar_def)
next
  case False
  then have "reads_back cp"
    using assms(1) reads_back_2 [of cp] reads_back_3 [of cp] reads_back_4 [of cp]
    unfolding mqtt_scalar_def by linarith
  then obtain c w tail where e: "utf8_encode cp = c # tail" and c: "0x80 \<le> unat c"
    and lead: "utf8_lead c = Some (length tail, w)"
    and v: "cont_value tail (unat w) = Some cp" and ok: "code_ok (length tail) cp"
    by (auto simp: reads_back_def)
  have i: "i < length s" using assms(2) e by (cases "i < length s") auto
  then have d: "s ! i = c" "drop (Suc i) s = tail @ rest"
    using assms(2) e by (simp_all add: Cons_nth_drop_Suc [symmetric])
  have "length (drop i s) = Suc (length tail + length rest)" using assms(2) e by simp
  then have "i + length tail < length s" by simp
  with i d c lead v ok e assms(3) show ?thesis by (simp add: utf8_loop_multi)
qed

lemma utf8_encode_nonempty [simp]: "utf8_encode cp \<noteq> []"
  by (simp add: utf8_encode_def)

lemma utf8_loop_text: "i \<le> length s \<Longrightarrow> utf8_loop s i \<longleftrightarrow> utf8_text (drop i s)"
proof (induction "length s - i" arbitrary: i rule: less_induct)
  case less
  show ?case
  proof (cases "i < length s")
    case False
    with less.prems have "i = length s" by simp
    moreover have "utf8_loop s (length s)" by (simp add: utf8_loop.simps [of s "length s"])
    ultimately show ?thesis by (auto simp: utf8_text_def intro!: exI [of _ "[]"])
  next
    case True
    show ?thesis
    proof
      assume "utf8_loop s i"
      then obtain cp where cp: "mqtt_scalar cp" "take (length (utf8_encode cp)) (drop i s) = utf8_encode cp"
        "i + length (utf8_encode cp) \<le> length s" "utf8_loop s (i + length (utf8_encode cp))"
        using utf8_step_forward [OF True] by auto
      have "length s - (i + length (utf8_encode cp)) < length s - i" using True by (simp add: diff_less_mono2)
      from less.hyps [OF this cp(3)] cp(4) obtain cps where cps: "list_all mqtt_scalar cps"
        "drop (i + length (utf8_encode cp)) s = concat (map utf8_encode cps)"
        by (auto simp: utf8_text_def)
      have "drop i s = utf8_encode cp @ drop (i + length (utf8_encode cp)) s"
        using append_take_drop_id [of "length (utf8_encode cp)" "drop i s"] cp(2)
        by (simp add: add.commute)
      with cp(1) cps show "utf8_text (drop i s)"
        unfolding utf8_text_def by (intro exI [of _ "cp # cps"]) simp
    next
      assume "utf8_text (drop i s)"
      then obtain cps where cps: "list_all mqtt_scalar cps" "drop i s = concat (map utf8_encode cps)"
        by (auto simp: utf8_text_def)
      with True obtain cp cps' where c: "cps = cp # cps'" by (cases cps) auto
      with cps have d: "drop i s = utf8_encode cp @ concat (map utf8_encode cps')" "mqtt_scalar cp" by auto
      have rest: "drop (i + length (utf8_encode cp)) s = concat (map utf8_encode cps')"
        using arg_cong [OF d(1), of "drop (length (utf8_encode cp))"] by (simp add: add.commute)
      have "length (drop i s) = length (utf8_encode cp) + length (concat (map utf8_encode cps'))"
        using d(1) by simp
      then have "i + length (utf8_encode cp) \<le> length s" using True by simp
      moreover have "length s - (i + length (utf8_encode cp)) < length s - i" using True by (simp add: diff_less_mono2)
      ultimately have "utf8_loop s (i + length (utf8_encode cp))"
        using less.hyps [of "i + length (utf8_encode cp)"] rest cps(1) c
        by (auto simp: utf8_text_def)
      then show "utf8_loop s i" using utf8_step_backward [OF d(2,1)] by simp
    qed
  qed
qed

lemma utf8_valid_text: "utf8_valid s \<longleftrightarrow> utf8_text s"
  using utf8_loop_text [of 0 s] by (simp add: utf8_valid_def)

section \<open>Properties\<close>

text \<open>C37: \<open>utf8_valid\<close> accepts a byte string exactly when it is the UTF-8 encoding of a
  sequence of Unicode scalar values that MQTT allows: shortest form, no surrogates,
  nothing above U+10FFFF and no U+0000.\<close>

theorem utf8_valid_correct: "utf8_valid s \<longleftrightarrow> utf8_text s"
  by (rule utf8_valid_text)

end
