(* ===== verification/Topic.thy ===== *)
theory Topic
  imports Utf8 Constants
begin

text \<open>
  Topic names and filters (\<open>topic.hpp\<close>). The loops are written over the indices the
  code uses; a level is what lies between two slashes. The theory relates them to the
  level-wise definition of [MQTT-4.7] and shows that \<open>topic_filter_covers\<close>, which the
  access control uses, never claims too much.
\<close>

section \<open>Model\<close>

definition ch_slash :: byte where "ch_slash = 0x2F"
definition ch_hash :: byte where "ch_hash = 0x23"
definition ch_plus :: byte where "ch_plus = 0x2B"
definition ch_dollar :: byte where "ch_dollar = 0x24"

lemmas ch_defs = ch_slash_def ch_hash_def ch_plus_def ch_dollar_def

definition topic_name_valid :: "bytes \<Rightarrow> bool" where
  "topic_name_valid name =
    (if name = [] \<or> length name > max_utf8_len \<or> \<not> utf8_valid name then False
     else list_all (\<lambda>i. \<not> (name ! i = ch_hash \<or> name ! i = ch_plus)) [0..<length name])"

definition filter_char_ok :: "bytes \<Rightarrow> nat \<Rightarrow> bool" where
  "filter_char_ok f i =
    (if f ! i = ch_hash then
       (if i + 1 \<noteq> length f then False
        else if i \<noteq> 0 \<and> f ! (i - 1) \<noteq> ch_slash then False else True)
     else if f ! i = ch_plus then
       (if i \<noteq> 0 \<and> f ! (i - 1) \<noteq> ch_slash then False
        else if i + 1 \<noteq> length f \<and> f ! (i + 1) \<noteq> ch_slash then False else True)
     else True)"

definition topic_filter_valid :: "bytes \<Rightarrow> bool" where
  "topic_filter_valid f =
    (if f = [] \<or> length f > max_utf8_len \<or> \<not> utf8_valid f then False
     else list_all (filter_char_ok f) [0..<length f])"

text \<open>The inner loop that finds the end of the level starting at \<open>i\<close>.\<close>

function level_end :: "bytes \<Rightarrow> nat \<Rightarrow> nat" where
  "level_end s i = (if i < length s \<and> s ! i \<noteq> ch_slash then level_end s (i + 1) else i)"
  by pat_completeness auto
termination by (relation "measure (\<lambda>(s, i). length s - i)") auto

declare level_end.simps [simp del]

lemma level_end_takeWhile:
  "i \<le> length s \<Longrightarrow> level_end s i = i + length (takeWhile (\<lambda>c. c \<noteq> ch_slash) (drop i s))"
proof (induction s i rule: level_end.induct)
  case (1 s i)
  show ?case
  proof (cases "i < length s")
    case True
    then show ?thesis using 1 by (auto simp: level_end.simps [of s i] Cons_nth_drop_Suc [symmetric])
  next
    case False
    then have "i = length s" using 1(2) by simp
    then show ?thesis by (subst level_end.simps) simp
  qed
qed

lemma level_end_ge: "i \<le> level_end s i"
proof (induction s i rule: level_end.induct)
  case (1 s i)
  show ?case by (subst level_end.simps) (use 1 in force)
qed

lemma level_end_measure:
  "level_end s i < length s \<Longrightarrow> length s - level_end s i < Suc (length s) - i"
  using level_end_ge [of i s] by simp

definition level_is :: "bytes \<Rightarrow> nat \<Rightarrow> nat \<Rightarrow> byte \<Rightarrow> bool" where
  "level_is s i e c \<longleftrightarrow> e = i + 1 \<and> s ! i = c"

definition level_same :: "bytes \<Rightarrow> nat \<Rightarrow> nat \<Rightarrow> bytes \<Rightarrow> nat \<Rightarrow> nat \<Rightarrow> bool" where
  "level_same a ai ae b bi be \<longleftrightarrow>
     ae - ai = be - bi \<and> list_all (\<lambda>k. a ! (ai + k) = b ! (bi + k)) [0..<ae - ai]"

function topic_matches_loop :: "bytes \<Rightarrow> bytes \<Rightarrow> nat \<Rightarrow> nat \<Rightarrow> bool \<Rightarrow> bool" where
  "topic_matches_loop flt name fi ni name_active =
    (let fe = level_end flt fi
     in if level_is flt fi fe ch_hash then True
        else if \<not> name_active then False
        else
          let ne = level_end name ni;
              is_plus = level_is flt fi fe ch_plus
          in if \<not> is_plus \<and> \<not> level_same flt fi fe name ni ne then False
             else
               let f_more = fe < length flt; n_more = ne < length name
               in if \<not> f_more then \<not> n_more
                  else if n_more then topic_matches_loop flt name (fe + 1) (ne + 1) True
                  else topic_matches_loop flt name (fe + 1) ni False)"
  by pat_completeness auto
termination
  by (relation "measure (\<lambda>(flt, name, fi, ni, act). Suc (length flt) - fi)") (auto simp: level_end_measure)

declare topic_matches_loop.simps [simp del]

definition topic_matches :: "bytes \<Rightarrow> bytes \<Rightarrow> bool" where
  "topic_matches flt name =
    (if name \<noteq> [] \<and> name ! 0 = ch_dollar \<and> flt \<noteq> [] \<and> (flt ! 0 = ch_plus \<or> flt ! 0 = ch_hash) then False
     else topic_matches_loop flt name 0 0 True)"

function topic_filter_covers_loop :: "bytes \<Rightarrow> bytes \<Rightarrow> nat \<Rightarrow> nat \<Rightarrow> bool \<Rightarrow> bool" where
  "topic_filter_covers_loop cover flt ci fi filter_active =
    (let ce = level_end cover ci
     in if level_is cover ci ce ch_hash then True
        else if \<not> filter_active then False
        else
          let fe = level_end flt fi;
              c_plus = level_is cover ci ce ch_plus;
              f_hash = level_is flt fi fe ch_hash;
              f_plus = level_is flt fi fe ch_plus
          in if f_hash then False
             else if f_plus \<and> \<not> c_plus then False
             else if \<not> f_plus \<and> \<not> c_plus \<and> \<not> level_same cover ci ce flt fi fe then False
             else
               let c_more = ce < length cover; f_more = fe < length flt
               in if \<not> c_more then \<not> f_more
                  else if f_more then topic_filter_covers_loop cover flt (ce + 1) (fe + 1) True
                  else topic_filter_covers_loop cover flt (ce + 1) fi False)"
  by pat_completeness auto
termination
  by (relation "measure (\<lambda>(cover, flt, ci, fi, act). Suc (length cover) - ci)") (auto simp: level_end_measure)

declare topic_filter_covers_loop.simps [simp del]

definition topic_filter_covers :: "bytes \<Rightarrow> bytes \<Rightarrow> bool" where
  "topic_filter_covers cover flt =
    (if flt \<noteq> [] \<and> flt ! 0 = ch_dollar \<and> cover \<noteq> [] \<and> (cover ! 0 = ch_plus \<or> cover ! 0 = ch_hash) then False
     else topic_filter_covers_loop cover flt 0 0 True)"

section \<open>Levels\<close>

function levels :: "bytes \<Rightarrow> bytes list" where
  "levels s = (let l = takeWhile (\<lambda>c. c \<noteq> ch_slash) s
               in if length l < length s then l # levels (drop (length l + 1) s) else [l])"
  by pat_completeness auto
termination by (relation "measure length") auto

declare levels.simps [simp del]

lemma levels_not_Nil [simp]: "levels s \<noteq> []"
  by (subst levels.simps) (simp add: Let_def)

fun match_levels :: "bytes list \<Rightarrow> bytes list \<Rightarrow> bool" where
  "match_levels [] ns \<longleftrightarrow> ns = []"
| "match_levels (f # fs) ns \<longleftrightarrow> f = [ch_hash] \<or>
     (case ns of [] \<Rightarrow> False | n # ns \<Rightarrow> (f = [ch_plus] \<or> f = n) \<and> match_levels fs ns)"

fun covers_levels :: "bytes list \<Rightarrow> bytes list \<Rightarrow> bool" where
  "covers_levels [] fs \<longleftrightarrow> fs = []"
| "covers_levels (c # cs) fs \<longleftrightarrow> c = [ch_hash] \<or>
     (case fs of [] \<Rightarrow> False
      | f # fs \<Rightarrow> f \<noteq> [ch_hash] \<and> (c = [ch_plus] \<or> f \<noteq> [ch_plus] \<and> f = c) \<and> covers_levels cs fs)"

definition wild_guard :: "bytes \<Rightarrow> bytes \<Rightarrow> bool" where
  "wild_guard flt name \<longleftrightarrow> name \<noteq> [] \<and> hd name = ch_dollar \<and> flt \<noteq> [] \<and> hd flt \<in> {ch_plus, ch_hash}"

abbreviation level_at :: "bytes \<Rightarrow> nat \<Rightarrow> bytes" where
  "level_at s i \<equiv> takeWhile (\<lambda>c. c \<noteq> ch_slash) (drop i s)"

lemma level_at_slice: "i \<le> length s \<Longrightarrow> level_at s i = take (level_end s i - i) (drop i s)"
  by (simp add: level_end_takeWhile) (metis takeWhile_eq_take)

lemma levels_at:
  "i \<le> length s \<Longrightarrow> levels (drop i s) =
     (if level_end s i < length s then level_at s i # levels (drop (level_end s i + 1) s) else [level_at s i])"
  by (subst levels.simps) (simp add: level_end_takeWhile Let_def less_diff_conv add.commute)

lemma level_is_iff: "i \<le> length s \<Longrightarrow> level_is s i (level_end s i) c \<longleftrightarrow> level_at s i = [c]"
proof -
  assume i: "i \<le> length s"
  then have e: "level_end s i = i + length (level_at s i)" by (rule level_end_takeWhile)
  have "s ! i = hd (level_at s i)" if "level_at s i \<noteq> []"
    using that by (cases "drop i s") (auto simp: nth_via_drop split: if_splits)
  then show ?thesis unfolding level_is_def e by (cases "level_at s i") auto
qed

lemma level_same_iff:
  "i \<le> length s \<Longrightarrow> j \<le> length t \<Longrightarrow>
   level_same s i (level_end s i) t j (level_end t j) \<longleftrightarrow> level_at s i = level_at t j"
proof -
  assume i: "i \<le> length s" and j: "j \<le> length t"
  let ?a = "level_at s i" and ?b = "level_at t j"
  have e: "level_end s i = i + length ?a" "level_end t j = j + length ?b"
    using i j by (simp_all add: level_end_takeWhile)
  have n: "s ! (i + k) = ?a ! k" if "k < length ?a" for k using that i by (simp add: takeWhile_nth)
  have m: "t ! (j + k) = ?b ! k" if "k < length ?b" for k using that j by (simp add: takeWhile_nth)
  have "level_same s i (level_end s i) t j (level_end t j) \<longleftrightarrow>
      length ?a = length ?b \<and> (\<forall>k < length ?a. ?a ! k = ?b ! k)"
    unfolding level_same_def e by (auto simp: list_all_iff n m)
  then show ?thesis using list_eq_iff_nth_eq [of ?a ?b] by simp
qed

lemma topic_matches_levels:
  "fi \<le> length flt \<Longrightarrow> ni \<le> length name \<Longrightarrow> topic_matches_loop flt name fi ni act =
     match_levels (levels (drop fi flt)) (if act then levels (drop ni name) else [])"
proof (induction flt name fi ni act rule: topic_matches_loop.induct)
  case (1 flt name fi ni act)
  show ?case
    using 1 by (subst topic_matches_loop.simps)
      (auto simp: Let_def level_is_iff level_same_iff levels_at [of fi] levels_at [of ni])
qed

lemma topic_filter_covers_levels:
  "ci \<le> length cover \<Longrightarrow> fi \<le> length flt \<Longrightarrow> topic_filter_covers_loop cover flt ci fi act =
     covers_levels (levels (drop ci cover)) (if act then levels (drop fi flt) else [])"
proof (induction cover flt ci fi act rule: topic_filter_covers_loop.induct)
  case (1 cover flt ci fi act)
  show ?case
    using 1 by (subst topic_filter_covers_loop.simps)
      (auto simp: Let_def level_is_iff level_same_iff levels_at [of ci] levels_at [of fi])
qed

lemma topic_matches_iff:
  "topic_matches flt name \<longleftrightarrow> \<not> wild_guard flt name \<and> match_levels (levels flt) (levels name)"
  using topic_matches_levels [of 0 flt 0 name True]
  by (auto simp: topic_matches_def wild_guard_def hd_conv_nth)

lemma topic_filter_covers_iff:
  "topic_filter_covers cover flt \<longleftrightarrow> \<not> wild_guard cover flt \<and> covers_levels (levels cover) (levels flt)"
  using topic_filter_covers_levels [of 0 cover 0 flt True]
  by (auto simp: topic_filter_covers_def wild_guard_def hd_conv_nth)

lemma covers_levels_sound:
  "covers_levels cs fs \<Longrightarrow> match_levels fs ns \<Longrightarrow> match_levels cs ns"
proof (induction cs fs arbitrary: ns rule: covers_levels.induct)
  case (2 c cs fs)
  then show ?case by (cases fs; cases ns) auto
qed auto

lemma levels_hd: "\<exists>ls. levels s = takeWhile (\<lambda>c. c \<noteq> ch_slash) s # ls"
  by (subst levels.simps) (simp add: Let_def)

lemma hd_of_level: "takeWhile P s = c # cs \<Longrightarrow> s \<noteq> [] \<and> hd s = c"
  by (cases s) (auto split: if_splits)

lemma ch_distinct: "distinct [ch_slash, ch_hash, ch_plus, ch_dollar]"
  by (simp add: ch_defs)

lemma match_dollar:
  assumes "match_levels (levels flt) (levels (ch_dollar # n))" "\<not> wild_guard flt (ch_dollar # n)"
  shows "flt \<noteq> [] \<and> hd flt = ch_dollar"
proof -
  obtain fs where f: "levels flt = takeWhile (\<lambda>c. c \<noteq> ch_slash) flt # fs" using levels_hd by blast
  obtain ns m where n: "levels (ch_dollar # n) = (ch_dollar # m) # ns"
    using levels_hd [of "ch_dollar # n"] ch_distinct by auto
  have "takeWhile (\<lambda>c. c \<noteq> ch_slash) flt \<in> {[ch_hash], [ch_plus], ch_dollar # m}"
    using assms(1) by (auto simp: f n)
  then show ?thesis
    using assms(2) hd_of_level [of "\<lambda>c. c \<noteq> ch_slash" flt] by (auto simp: wild_guard_def)
qed

theorem covers_sound:
  assumes c: "topic_filter_covers cover flt" and m: "topic_matches flt name"
  shows "topic_matches cover name"
proof -
  have l: "covers_levels (levels cover) (levels flt)" "\<not> wild_guard cover flt"
    "match_levels (levels flt) (levels name)" "\<not> wild_guard flt name"
    using c m by (simp_all add: topic_filter_covers_iff topic_matches_iff)
  have "\<not> wild_guard cover name"
  proof
    assume g: "wild_guard cover name"
    then obtain n where n: "name = ch_dollar # n" by (cases name) (auto simp: wild_guard_def)
    have "flt \<noteq> [] \<and> hd flt = ch_dollar" using l(3,4) unfolding n by (rule match_dollar)
    then show False using l(2) g by (auto simp: wild_guard_def)
  qed
  then show ?thesis using covers_levels_sound [OF l(1,3)] by (simp add: topic_matches_iff)
qed

section \<open>Level-wise specification\<close>

text \<open>[MQTT-4.7.1]: a wildcard is a level of its own, and \<open>#\<close> is the last level.\<close>

definition level_wf :: "bytes \<Rightarrow> bool" where
  "level_wf l \<longleftrightarrow> (ch_hash \<in> set l \<longrightarrow> l = [ch_hash]) \<and> (ch_plus \<in> set l \<longrightarrow> l = [ch_plus])"

definition filter_wf :: "bytes list \<Rightarrow> bool" where
  "filter_wf ls \<longleftrightarrow> list_all level_wf ls \<and> [ch_hash] \<notin> set (butlast ls)"

text \<open>[MQTT-4.7.1, 4.7.2]: which names a filter matches.\<close>

definition level_matches :: "bytes \<Rightarrow> bytes \<Rightarrow> bool" where
  "level_matches f n \<longleftrightarrow> f = [ch_plus] \<or> f = n"

definition mqtt_matches :: "bytes \<Rightarrow> bytes \<Rightarrow> bool" where
  "mqtt_matches flt name \<longleftrightarrow> \<not> wild_guard flt name \<and>
     (if last (levels flt) = [ch_hash]
      then \<exists>parent below. levels name = parent @ below \<and> list_all2 level_matches (butlast (levels flt)) parent
      else list_all2 level_matches (levels flt) (levels name))"

lemma match_levels_parent:
  "[ch_hash] \<notin> set fs \<Longrightarrow>
   match_levels (fs @ [[ch_hash]]) ns \<longleftrightarrow> (\<exists>parent below. ns = parent @ below \<and> list_all2 level_matches fs parent)"
proof (induction fs arbitrary: ns)
  case (Cons f fs)
  show ?case
  proof (cases ns)
    case (Cons n ns')
    then show ?thesis
      using Cons.prems Cons.IH [of ns']
      by (auto simp: level_matches_def list_all2_Cons1 Cons_eq_append_conv)
  qed (use Cons in \<open>auto simp: list_all2_Cons1\<close>)
qed simp

lemma match_levels_literal:
  "[ch_hash] \<notin> set fs \<Longrightarrow> match_levels fs ns \<longleftrightarrow> list_all2 level_matches fs ns"
  by (induction fs arbitrary: ns) (auto simp: level_matches_def list_all2_Cons1 split: list.splits)

lemma matches_wf:
  assumes "filter_wf (levels flt)" shows "topic_matches flt name \<longleftrightarrow> mqtt_matches flt name"
proof (cases "last (levels flt) = [ch_hash]")
  case True
  then have "levels flt = butlast (levels flt) @ [[ch_hash]]" by (metis append_butlast_last_id levels_not_Nil)
  then show ?thesis
    using match_levels_parent [of "butlast (levels flt)" "levels name"] assms True
    by (simp add: topic_matches_iff mqtt_matches_def filter_wf_def)
next
  case False
  then have "[ch_hash] \<notin> set (levels flt)"
    using assms by (metis append_butlast_last_id filter_wf_def in_set_conv_decomp levels_not_Nil rotate1.simps(2) set_ConsD set_rotate1)
  then show ?thesis
    using match_levels_literal [of "levels flt" "levels name"] False by (simp add: topic_matches_iff mqtt_matches_def)
qed

text \<open>The character scan of \<open>topic_filter_valid\<close> checks exactly the levels.\<close>

abbreviation scan_ok :: "bytes \<Rightarrow> bool" where
  "scan_ok s \<equiv> \<forall>i < length s. filter_char_ok s i"

lemma single_level: "i < length l \<Longrightarrow> i = 0 \<Longrightarrow> Suc i = length l \<Longrightarrow> l = [l ! i]"
  by (cases l) auto

lemma no_slash_nth: "ch_slash \<notin> set l \<Longrightarrow> i < length l \<Longrightarrow> l ! i \<noteq> ch_slash"
  by (metis nth_mem)

lemma scan_level:
  assumes "ch_slash \<notin> set l" shows "scan_ok l \<longleftrightarrow> level_wf l"
proof
  assume l: "scan_ok l"
  have "l = [c]" if c: "c \<in> set l" "c = ch_hash \<or> c = ch_plus" for c
  proof -
    obtain i where i: "i < length l" "l ! i = c" using c(1) by (metis in_set_conv_nth)
    then have ok: "filter_char_ok l i" using l by blast
    have "i = 0"
      using ok i c(2) no_slash_nth [OF assms, of "i - 1"] by (auto simp: filter_char_ok_def split: if_splits)
    moreover have "Suc i = length l"
      using ok i c(2) no_slash_nth [OF assms, of "Suc i"]
      by (cases "Suc i < length l") (auto simp: filter_char_ok_def split: if_splits)
    ultimately show ?thesis using single_level [OF i(1)] i(2) by metis
  qed
  from this [of ch_hash] this [of ch_plus] show "level_wf l" by (simp add: level_wf_def)
next
  assume w: "level_wf l"
  show "scan_ok l"
  proof (intro allI impI)
    fix i assume i: "i < length l"
    then have "l ! i = ch_hash \<Longrightarrow> l = [ch_hash]" "l ! i = ch_plus \<Longrightarrow> l = [ch_plus]"
      using w nth_mem [OF i] by (auto simp: level_wf_def)
    then show "filter_char_ok l i"
      using i by (cases "l ! i = ch_hash"; cases "l ! i = ch_plus") (auto simp: filter_char_ok_def)
  qed
qed

lemma scan_before:
  assumes "ch_slash \<notin> set l" "i < length l"
  shows "filter_char_ok (l @ ch_slash # s) i \<longleftrightarrow> l ! i \<noteq> ch_hash \<and> (l ! i = ch_plus \<longrightarrow> l = [ch_plus])"
proof -
  have p: "i \<noteq> 0 \<Longrightarrow> l ! (i - 1) \<noteq> ch_slash" using no_slash_nth [OF assms(1), of "i - 1"] assms(2) by simp
  have n: "(l @ ch_slash # s) ! Suc i \<noteq> ch_slash \<longleftrightarrow> Suc i \<noteq> length l"
    using no_slash_nth [OF assms(1), of "Suc i"] assms(2) by (cases "Suc i = length l") (auto simp: nth_append)
  have "l ! i = ch_plus \<Longrightarrow> i = 0 \<and> Suc i = length l \<longleftrightarrow> l = [ch_plus]"
    using single_level [OF assms(2)] assms(2) by (metis One_nat_def length_Cons less_one list.size(3))
  then show ?thesis using assms(2) p n by (auto simp: filter_char_ok_def nth_append)
qed

lemma scan_after:
  "j < length s \<Longrightarrow> filter_char_ok (l @ ch_slash # s) (Suc (length l + j)) = filter_char_ok s j"
  by (cases j) (auto simp: filter_char_ok_def nth_append)

lemma scan_cons:
  assumes "ch_slash \<notin> set l"
  shows "scan_ok (l @ ch_slash # s) \<longleftrightarrow> level_wf l \<and> l \<noteq> [ch_hash] \<and> scan_ok s"
proof -
  have split: "(\<forall>i < length (l @ ch_slash # s). P i) \<longleftrightarrow>
      (\<forall>i < length l. P i) \<and> P (length l) \<and> (\<forall>j < length s. P (Suc (length l + j)))" for P
  proof -
    have "i < length l \<or> i = length l \<or> (\<exists>j < length s. i = Suc (length l + j))"
      if "i < length (l @ ch_slash # s)" for i
      using that by (auto intro!: exI [of _ "i - Suc (length l)"])
    then show ?thesis by auto
  qed
  have "filter_char_ok (l @ ch_slash # s) (length l)" using ch_distinct by (auto simp: filter_char_ok_def)
  moreover have "(\<forall>i < length l. l ! i \<noteq> ch_hash \<and> (l ! i = ch_plus \<longrightarrow> l = [ch_plus])) \<longleftrightarrow> level_wf l \<and> l \<noteq> [ch_hash]"
    unfolding all_set_conv_all_nth [of l "\<lambda>c. c \<noteq> ch_hash \<and> (c = ch_plus \<longrightarrow> l = [ch_plus])", symmetric]
    by (auto simp: level_wf_def)
  ultimately show ?thesis unfolding split using scan_before [OF assms] scan_after by simp
qed

lemma scan_levels: "scan_ok s \<longleftrightarrow> filter_wf (levels s)"
proof (induction s rule: levels.induct)
  case (1 s)
  define l where "l = takeWhile (\<lambda>c. c \<noteq> ch_slash) s"
  have l: "ch_slash \<notin> set l" by (auto simp: l_def dest: set_takeWhileD)
  show ?case
  proof (cases "length l < length s")
    case True
    have "s = l @ drop (length l) s" by (simp add: l_def flip: dropWhile_eq_drop)
    moreover have "s ! length l = ch_slash" using True nth_length_takeWhile [of _ s] by (auto simp: l_def)
    ultimately have s: "s = l @ ch_slash # drop (length l + 1) s"
      using True by (metis Cons_nth_drop_Suc Suc_eq_plus1)
    have "levels s = l # levels (drop (length l + 1) s)"
      using True by (subst levels.simps) (simp add: l_def [symmetric] Let_def)
    moreover have "scan_ok s \<longleftrightarrow> level_wf l \<and> l \<noteq> [ch_hash] \<and> scan_ok (drop (length l + 1) s)"
      by (subst (1 2) s) (rule scan_cons [OF l])
    moreover note 1 [OF l_def True]
    ultimately show ?thesis by (auto simp: filter_wf_def)
  next
    case False
    have "l = take (length l) s" unfolding l_def by (rule takeWhile_eq_take)
    with False have "s = l" by (metis not_less take_all)
    moreover have "levels s = [l]" using False by (subst levels.simps) (simp add: l_def [symmetric])
    ultimately show ?thesis using scan_level [OF l] by (simp add: filter_wf_def)
  qed
qed

lemma topic_filter_valid_levels:
  "topic_filter_valid f \<longleftrightarrow> f \<noteq> [] \<and> length f \<le> max_utf8_len \<and> utf8_text f \<and> filter_wf (levels f)"
  using scan_levels [of f] by (auto simp: topic_filter_valid_def utf8_valid_text list_all_iff)

lemma topic_name_valid_chars:
  "topic_name_valid name \<longleftrightarrow>
     name \<noteq> [] \<and> length name \<le> max_utf8_len \<and> utf8_text name \<and> ch_hash \<notin> set name \<and> ch_plus \<notin> set name"
proof -
  have "(\<forall>i < length name. \<not> (name ! i = ch_hash \<or> name ! i = ch_plus)) \<longleftrightarrow> ch_hash \<notin> set name \<and> ch_plus \<notin> set name"
    unfolding all_set_conv_all_nth [of name "\<lambda>c. \<not> (c = ch_hash \<or> c = ch_plus)", symmetric] by blast
  then show ?thesis by (auto simp: topic_name_valid_def utf8_valid_text list_all_iff)
qed

text \<open>
  The converse of \<open>covers_sound\<close> fails: every name \<open>#\<close> matches is matched by \<open>+/#\<close>, but
  the code does not grant it. The refusal is on the safe side.
\<close>

lemma covers_incomplete:
  "\<not> topic_filter_covers [ch_plus, ch_slash, ch_hash] [ch_hash]
   \<and> (topic_matches [ch_hash] name \<longrightarrow> topic_matches [ch_plus, ch_slash, ch_hash] name)"
proof -
  have l: "levels [ch_hash] = [[ch_hash]]" "levels [ch_plus, ch_slash, ch_hash] = [[ch_plus], [ch_hash]]"
    using ch_distinct by (auto simp: levels.simps Let_def)
  obtain n ns where "levels name = n # ns" using levels_hd by blast
  then show ?thesis
    using ch_distinct by (auto simp: topic_filter_covers_iff topic_matches_iff l wild_guard_def)
qed

section \<open>Properties\<close>

text \<open>C19: on a valid filter, \<open>topic_matches\<close> is the level-wise matching of the standard: \<open>+\<close>
  matches one level, a final \<open>#\<close> matches its parent and everything below, other levels are
  compared literally, and a leading wildcard does not match a name starting with \<open>$\<close>.\<close>

theorem topic_matches_correct:
  "topic_filter_valid flt \<Longrightarrow> topic_matches flt name \<longleftrightarrow> mqtt_matches flt name"
  by (rule matches_wf) (simp add: topic_filter_valid_levels)

lemmas topic_eval = topic_filter_valid_def filter_char_ok_def utf8_valid_def utf8_loop.simps max_utf8_len_def
  topic_matches_def topic_matches_loop.simps topic_filter_covers_def topic_filter_covers_loop.simps
  level_end.simps level_is_def level_same_def ch_defs

theorem topic_matches_correct_witness:
  "topic_filter_valid [0x61, ch_slash, ch_plus] \<and>
   (topic_matches [0x61, ch_slash, ch_plus] [0x61, ch_slash, 0x62] \<longleftrightarrow>
    mqtt_matches [0x61, ch_slash, ch_plus] [0x61, ch_slash, 0x62])"
proof -
  have v: "topic_filter_valid [0x61, ch_slash, ch_plus]" by (simp add: topic_eval)
  show ?thesis using v topic_matches_correct [OF v, of "[0x61, ch_slash, 0x62]"] by simp
qed

text \<open>\<open>topic_filter_valid\<close> accepts exactly the non-empty, encodable, well-formed UTF-8
  strings in which a wildcard fills its level and \<open>#\<close> is the last level.\<close>

theorem topic_filter_valid_correct:
  "topic_filter_valid f \<longleftrightarrow> f \<noteq> [] \<and> length f \<le> max_utf8_len \<and> utf8_text f \<and> filter_wf (levels f)"
  by (rule topic_filter_valid_levels)

text \<open>C38: if \<open>topic_filter_covers\<close> says that an access pattern covers a filter, then the pattern
  matches every name the filter matches, \<open>$\<close>-topics included.\<close>

theorem topic_filter_covers_sound:
  "topic_filter_covers cover flt \<Longrightarrow> topic_matches flt name \<Longrightarrow> topic_matches cover name"
  by (rule covers_sound)

theorem topic_filter_covers_sound_witness:
  "topic_filter_covers [0x61, ch_slash, ch_hash] [0x61, ch_slash, ch_plus] \<and>
   topic_matches [0x61, ch_slash, ch_plus] [0x61, ch_slash, 0x62] \<and>
   topic_matches [0x61, ch_slash, ch_hash] [0x61, ch_slash, 0x62]"
proof -
  have c: "topic_filter_covers [0x61, ch_slash, ch_hash] [0x61, ch_slash, ch_plus]" by (simp add: topic_eval)
  have m: "topic_matches [0x61, ch_slash, ch_plus] [0x61, ch_slash, 0x62]" by (simp add: topic_eval)
  show ?thesis using c m topic_filter_covers_sound [OF c m] by simp
qed

end
