(* ===== verification/Retained.thy ===== *)
theory Retained
  imports Containers Topic
begin

text \<open>
  The retained-message store (\<open>broker/retained.hpp\<close>): a pool of entries, one per topic.
  The template parameters \<open>Traits::max_topic_len\<close> and \<open>Traits::max_payload_len\<close> are
  arguments; \<open>Traits::max_retained\<close> is the number of slots of the pool.

  The theory shows that the store is a finite map from topics to values, and that a
  refused update never leaves an older value behind.
\<close>

section \<open>Model\<close>

datatype retain_status = stored | dropped | stale_purged

record retained_entry =
  re_topic :: bytes
  re_payload :: bytes
  re_qos :: qos

definition new_entry :: retained_entry where
  "new_entry = \<lparr>re_topic = [], re_payload = [], re_qos = at_most_once\<rparr>"

type_synonym retained_store = "retained_entry pool"

definition retained_find :: "bytes \<Rightarrow> retained_store \<Rightarrow> nat option" where
  "retained_find topic st = pool_find (\<lambda>e. span_eq (re_topic e) topic) st"

text \<open>\<open>e->payload.assign(payload); e->qos = qos\<close> through the pointer to slot \<open>i\<close>.\<close>

definition entry_write :: "nat \<Rightarrow> bytes \<Rightarrow> qos \<Rightarrow> nat \<Rightarrow> retained_store \<Rightarrow> retained_store" where
  "entry_write max_payload payload q i st =
    (case pool_at st i of
       None \<Rightarrow> st
     | Some e \<Rightarrow> pool_put i (e\<lparr>re_payload := fst (fixed_assign max_payload payload (re_payload e)),
                              re_qos := q\<rparr>) st)"

definition retained_set :: "nat \<Rightarrow> nat \<Rightarrow> bytes \<Rightarrow> bytes \<Rightarrow> qos \<Rightarrow> retained_store \<Rightarrow> retained_store \<times> retain_status" where
  "retained_set max_topic max_payload topic payload q st =
    (let e = retained_find topic st
     in if length topic > max_topic \<or> length payload > max_payload then
          (case e of None \<Rightarrow> (st, dropped) | Some i \<Rightarrow> (pool_release i st, stale_purged))
        else
          (case e of
             None \<Rightarrow>
               (case pool_alloc new_entry st of
                  (st, None) \<Rightarrow> (st, dropped)
                | (st, Some i) \<Rightarrow>
                    (let st = pool_put i (new_entry\<lparr>re_topic := fst (fixed_assign max_topic topic [])\<rparr>) st
                     in (entry_write max_payload payload q i st, stored)))
           | Some i \<Rightarrow> (entry_write max_payload payload q i st, stored)))"

definition retained_remove :: "bytes \<Rightarrow> retained_store \<Rightarrow> retained_store" where
  "retained_remove topic st =
    (case retained_find topic st of None \<Rightarrow> st | Some i \<Rightarrow> pool_release i st)"

definition retained_for_each :: "nat \<Rightarrow> ('s \<Rightarrow> retained_store) \<Rightarrow> (nat \<Rightarrow> 's \<Rightarrow> 's) \<Rightarrow> 's \<Rightarrow> 's" where
  "retained_for_each max_retained get f st = pool_for_each max_retained get f st"

definition retained_for_each_match :: "nat \<Rightarrow> ('s \<Rightarrow> retained_store) \<Rightarrow> bytes \<Rightarrow> (nat \<Rightarrow> 's \<Rightarrow> 's) \<Rightarrow> 's \<Rightarrow> 's" where
  "retained_for_each_match max_retained get flt f st =
     pool_for_each max_retained get
       (\<lambda>i st. case pool_at (get st) i of
                 None \<Rightarrow> st
               | Some e \<Rightarrow> if topic_matches flt (re_topic e) then f i st else st) st"

definition retained_size :: "retained_store \<Rightarrow> nat" where
  "retained_size st = live st"

section \<open>Invariant and abstraction\<close>

definition retained_entry_ok :: "nat \<Rightarrow> nat \<Rightarrow> retained_entry \<Rightarrow> bool" where
  "retained_entry_ok max_topic max_payload e \<longleftrightarrow>
     length (re_topic e) \<le> max_topic \<and> length (re_payload e) \<le> max_payload"

definition retained_inv :: "nat \<Rightarrow> nat \<Rightarrow> nat \<Rightarrow> retained_store \<Rightarrow> bool" where
  "retained_inv cap max_topic max_payload st \<longleftrightarrow>
     pool_inv cap st \<and> slot_pool.keyed re_topic st
     \<and> (\<forall>i e. pool_at st i = Some e \<longrightarrow> retained_entry_ok max_topic max_payload e)"

text \<open>The value a subscriber would be handed for a topic.\<close>

definition retained_value :: "retained_store \<Rightarrow> bytes \<Rightarrow> (bytes \<times> qos) option" where
  "retained_value st topic =
    (case retained_find topic st of
       None \<Rightarrow> None
     | Some i \<Rightarrow> map_option (\<lambda>e. (re_payload e, re_qos e)) (pool_at st i))"

lemma retained_find_Some:
  "retained_find topic st = Some i \<Longrightarrow> \<exists>e. pool_at st i = Some e \<and> re_topic e = topic"
  by (auto simp: retained_find_def span_eq_iff dest!: pool_find_Some)

lemma retained_find_None:
  "retained_find topic st = None \<longleftrightarrow> (\<forall>i e. pool_at st i = Some e \<longrightarrow> re_topic e \<noteq> topic)"
  by (simp add: retained_find_def span_eq_iff pool_find_None)

lemma retained_value_Some:
  assumes "retained_inv cap mt mp st"
  shows "retained_value st topic = Some v \<longleftrightarrow>
    (\<exists>i e. pool_at st i = Some e \<and> re_topic e = topic \<and> v = (re_payload e, re_qos e))"
proof (cases "retained_find topic st")
  case None
  then have "retained_value st topic = None" by (simp add: retained_value_def)
  then show ?thesis using None retained_find_None [of topic st] by auto
next
  case (Some i)
  have k: "slot_pool.keyed re_topic st" using assms by (simp add: retained_inv_def)
  obtain e where e: "pool_at st i = Some e" "re_topic e = topic" using retained_find_Some [OF Some] by blast
  have u: "e' = e" if "pool_at st j = Some e'" "re_topic e' = topic" for j e'
    using slot_pool.keyedD [OF k that(1) e(1)] e that by simp
  have "retained_value st topic = Some (re_payload e, re_qos e)" using Some e by (simp add: retained_value_def)
  then show ?thesis using u e by (metis option.inject)
qed

lemma option_eqI: "(\<And>v. x = Some v \<longleftrightarrow> y = Some v) \<Longrightarrow> x = y"
  by (cases x; cases y) auto

lemma value_cong:
  assumes "retained_inv cap mt mp st" "retained_inv cap mt mp st'"
    and "\<And>j x. re_topic x = t \<Longrightarrow> pool_at st' j = Some x \<longleftrightarrow> pool_at st j = Some x"
  shows "retained_value st' t = retained_value st t"
  by (rule option_eqI)
    (unfold retained_value_Some [OF assms(1)] retained_value_Some [OF assms(2)], use assms(3) in blast)

lemma value_write:
  assumes "retained_inv cap mt mp st" "retained_inv cap mt mp st'"
    and at: "pool_at st' = (pool_at st)(i := Some e)"
    and slot: "pool_at st i = None \<or> (\<exists>e0. pool_at st i = Some e0 \<and> re_topic e0 = re_topic e)"
  shows "retained_value st' = (retained_value st)(re_topic e \<mapsto> (re_payload e, re_qos e))"
proof (rule ext)
  fix t
  have "retained_value st' (re_topic e) = Some (re_payload e, re_qos e)"
    using retained_value_Some [OF assms(2), of "re_topic e" "(re_payload e, re_qos e)"] by (auto simp: at)
  moreover have "retained_value st' t = retained_value st t" if "t \<noteq> re_topic e"
    by (rule value_cong [OF assms(1,2)]) (use slot that in \<open>auto simp: at\<close>)
  ultimately show "retained_value st' t = ((retained_value st)(re_topic e \<mapsto> (re_payload e, re_qos e))) t" by simp
qed

lemma value_release:
  assumes "retained_inv cap mt mp st" "pool_at st i = Some e" "retained_inv cap mt mp (pool_release i st)"
  shows "retained_value (pool_release i st) = (retained_value st)(re_topic e := None)"
proof (rule ext)
  fix t
  have k: "slot_pool.keyed re_topic st" using assms(1) by (simp add: retained_inv_def)
  have "retained_find (re_topic e) (pool_release i st) = None"
    unfolding retained_find_None using slot_pool.keyedD [OF k _ assms(2)] by auto
  then have "retained_value (pool_release i st) (re_topic e) = None" by (simp add: retained_value_def)
  moreover have "retained_value (pool_release i st) t = retained_value st t" if "t \<noteq> re_topic e"
    by (rule value_cong [OF assms(1,3)]) (use assms(2) that in auto)
  ultimately show "retained_value (pool_release i st) t = ((retained_value st)(re_topic e := None)) t" by simp
qed

lemma retained_inv_release: "retained_inv cap mt mp st \<Longrightarrow> retained_inv cap mt mp (pool_release i st)"
  by (auto simp: retained_inv_def pool_inv_release intro: slot_pool.keyed_release split: if_splits)

lemma retained_inv_put:
  assumes "retained_inv cap mt mp st" "pool_at st i = Some e0" "re_topic e = re_topic e0"
    "retained_entry_ok mt mp e"
  shows "retained_inv cap mt mp (pool_put i e st)" "pool_at (pool_put i e st) = (pool_at st)(i := Some e)"
proof -
  have i: "i < length (slots st)" using pool_at_bound [OF assms(2)] .
  then show at: "pool_at (pool_put i e st) = (pool_at st)(i := Some e)" by simp
  show "retained_inv cap mt mp (pool_put i e st)"
    unfolding retained_inv_def at
    using assms slot_pool.keyed_put_same [of cap st re_topic i e0 e] pool_inv_put [of cap st i e0 e]
    by (auto simp: retained_inv_def)
qed

lemma retained_inv_init: "retained_inv cap mt mp (pool_init cap)"
  by (simp add: retained_inv_def slot_pool.keyed_def)

section \<open>Refinement\<close>

definition fits :: "nat \<Rightarrow> nat \<Rightarrow> bytes \<Rightarrow> bytes \<Rightarrow> bool" where
  "fits mt mp topic payload \<longleftrightarrow> length topic \<le> mt \<and> length payload \<le> mp"

lemma entry_write_put:
  "pool_at st i = Some e \<Longrightarrow> length payload \<le> mp \<Longrightarrow>
   entry_write mp payload q i st = pool_put i (e\<lparr>re_payload := payload, re_qos := q\<rparr>) st"
  by (simp add: entry_write_def fixed_assign_def)

lemma retained_inv_alloc:
  assumes "retained_inv cap mt mp st" "pool_alloc new_entry st = (st', Some i)"
    "retained_find (re_topic e) st = None" "retained_entry_ok mt mp e"
  shows "retained_inv cap mt mp (pool_put i e st')" "pool_at (pool_put i e st') = (pool_at st)(i := Some e)"
    "pool_at st i = None" "pool_at st' i = Some new_entry"
proof -
  have p: "pool_inv cap st" "slot_pool.keyed re_topic st" using assms(1) by (simp_all add: retained_inv_def)
  note a = pool_alloc_Some [OF p(1) assms(2)]
  then show "pool_at st i = None" "pool_at st' i = Some new_entry" by auto
  have i: "i < length (slots st')" using a by (auto simp: pool_inv_def)
  then show at: "pool_at (pool_put i e st') = (pool_at st)(i := Some e)" using a by simp
  have "slot_pool.keyed re_topic (pool_put i e st')"
    using slot_pool.keyed_alloc_put [OF p assms(2), of e] assms(3) retained_find_None [of "re_topic e" st] by blast
  moreover have "pool_inv cap (pool_put i e st')" using pool_inv_put [of cap st' i new_entry e] a by simp
  ultimately show "retained_inv cap mt mp (pool_put i e st')"
    unfolding retained_inv_def at using assms(1,4) by (auto simp: retained_inv_def)
qed

lemma value_None: "retained_value st t = None \<longleftrightarrow> retained_find t st = None"
  using retained_find_Some [of t st] by (cases "retained_find t st") (auto simp: retained_value_def)

definition set_spec :: "retain_status \<Rightarrow> bytes \<Rightarrow> bytes \<times> qos \<Rightarrow> (bytes \<rightharpoonup> bytes \<times> qos) \<Rightarrow> (bytes \<rightharpoonup> bytes \<times> qos)" where
  "set_spec status topic v m = (if status = stored then m(topic \<mapsto> v) else m(topic := None))"

lemma retained_set_refuse:
  assumes inv: "retained_inv cap mt mp st" and "\<not> fits mt mp topic payload"
    and s: "retained_set mt mp topic payload q st = (st', status)"
  shows "retained_inv cap mt mp st' \<and> retained_value st' = (retained_value st)(topic := None)
    \<and> status = (if retained_value st topic = None then dropped else stale_purged)"
proof (cases "retained_find topic st")
  case None
  then show ?thesis using assms
    by (auto simp: retained_set_def fits_def value_None fun_upd_idem)
next
  case (Some i)
  then obtain e where "pool_at st i = Some e" "re_topic e = topic" using retained_find_Some by blast
  then show ?thesis
    using assms Some value_release [OF inv, of i e] retained_inv_release [OF inv, of i]
    by (auto simp: retained_set_def fits_def value_None)
qed

lemma retained_set_replace:
  assumes inv: "retained_inv cap mt mp st" and fit: "fits mt mp topic payload" and i: "retained_find topic st = Some i"
    and s: "retained_set mt mp topic payload q st = (st', status)"
  shows "retained_inv cap mt mp st' \<and> retained_value st' = (retained_value st)(topic \<mapsto> (payload, q)) \<and> status = stored"
proof -
  obtain e where e: "pool_at st i = Some e" "re_topic e = topic" using retained_find_Some [OF i] by blast
  let ?e = "e\<lparr>re_payload := payload, re_qos := q\<rparr>"
  have st': "st' = pool_put i ?e st" "status = stored"
    using s fit i entry_write_put [OF e(1), of payload mp q] by (auto simp: retained_set_def fits_def)
  have "retained_entry_ok mt mp ?e" using fit e(2) by (auto simp: retained_entry_ok_def fits_def)
  then have w: "retained_inv cap mt mp st'" "pool_at st' = (pool_at st)(i := Some ?e)"
    using retained_inv_put [OF inv e(1), of ?e] st' by auto
  have "retained_value st' = (retained_value st)(re_topic ?e \<mapsto> (re_payload ?e, re_qos ?e))"
    by (rule value_write [OF inv w]) (use e in simp)
  with w st' e show ?thesis by simp
qed

lemma retained_set_new:
  assumes inv: "retained_inv cap mt mp st" and fit: "fits mt mp topic payload" and i: "retained_find topic st = None"
    and s: "retained_set mt mp topic payload q st = (st', status)"
  shows "retained_inv cap mt mp st' \<and> (if pool_full st then st' = st \<and> status = dropped
      else retained_value st' = (retained_value st)(topic \<mapsto> (payload, q)) \<and> status = stored)"
proof (cases "pool_alloc new_entry st")
  case (Pair st1 r)
  have pinv: "pool_inv cap st" using inv by (simp add: retained_inv_def)
  show ?thesis
  proof (cases r)
    case None
    then have "pool_full st" "st1 = st" using pool_alloc_None [OF pinv, of new_entry st1] Pair pool_full_iff [OF pinv] by auto
    then show ?thesis using s fit i Pair None inv by (simp add: retained_set_def fits_def)
  next
    case (Some j)
    let ?n = "new_entry\<lparr>re_topic := topic\<rparr>"
    let ?e = "?n\<lparr>re_payload := payload, re_qos := q\<rparr>"
    have al: "pool_alloc new_entry st = (st1, Some j)" using Pair Some by simp
    have ok: "retained_entry_ok mt mp ?n" "retained_entry_ok mt mp ?e"
      using fit by (auto simp: retained_entry_ok_def fits_def new_entry_def)
    have a0: "retained_inv cap mt mp (pool_put j ?n st1)" "pool_at (pool_put j ?n st1) = (pool_at st)(j := Some ?n)"
      "pool_at st j = None" using retained_inv_alloc [OF inv al, of ?n] ok(1) i by simp_all
    have st': "st' = pool_put j ?e (pool_put j ?n st1)" "status = stored"
      using s fit i al entry_write_put [of "pool_put j ?n st1" j ?n payload mp q] a0(2)
      by (auto simp: retained_set_def fits_def fixed_assign_def)
    have w: "retained_inv cap mt mp st'" "pool_at st' = (pool_at st)(j := Some ?e)"
      using retained_inv_put [OF a0(1), of j ?n ?e] ok(2) a0(2) st'(1) by auto
    have "retained_value st' = (retained_value st)(re_topic ?e \<mapsto> (re_payload ?e, re_qos ?e))"
      by (rule value_write [OF inv w]) (use a0 in simp)
    moreover have "\<not> pool_full st"
      using pool_full_iff [OF pinv] pool_alloc_Some [OF pinv al] by auto
    ultimately show ?thesis using w st' by simp
  qed
qed

theorem retained_set_refines:
  assumes inv: "retained_inv cap mt mp st" and s: "retained_set mt mp topic payload q st = (st', status)"
  shows "retained_inv cap mt mp st' \<and> retained_value st' = set_spec status topic (payload, q) (retained_value st)
    \<and> (status = stored \<longleftrightarrow> fits mt mp topic payload \<and> (retained_value st topic \<noteq> None \<or> \<not> pool_full st))
    \<and> (status = stale_purged \<longrightarrow> retained_value st topic \<noteq> None)"
proof (cases "fits mt mp topic payload")
  case False
  then show ?thesis using retained_set_refuse [OF inv _ s] by (simp add: set_spec_def)
next
  case True
  show ?thesis
  proof (cases "retained_find topic st")
    case None
    then show ?thesis using retained_set_new [OF inv True None s] value_None [of st topic] True
      by (auto simp: set_spec_def fun_upd_idem split: if_splits)
  next
    case (Some i)
    then show ?thesis using retained_set_replace [OF inv True Some s] value_None [of st topic] True by (simp add: set_spec_def)
  qed
qed

theorem retained_remove_refines:
  assumes inv: "retained_inv cap mt mp st"
  shows "retained_inv cap mt mp (retained_remove topic st)
    \<and> retained_value (retained_remove topic st) = (retained_value st)(topic := None)"
proof (cases "retained_find topic st")
  case None
  then show ?thesis using inv value_None [of st topic] by (simp add: retained_remove_def fun_upd_idem)
next
  case (Some i)
  then obtain e where "pool_at st i = Some e" "re_topic e = topic" using retained_find_Some by blast
  then show ?thesis using Some value_release [OF inv, of i e] retained_inv_release [OF inv, of i]
    by (simp add: retained_remove_def)
qed

section \<open>Last-value interface\<close>

text \<open>
  What the broker relies on: a store keeps at most one value per topic, an accepted
  update is what a later lookup finds, and a refused one leaves nothing behind.
\<close>

locale last_value_store =
  fixes invar :: "'st \<Rightarrow> bool" and look :: "'st \<Rightarrow> 'k \<Rightarrow> 'v option"
    and put :: "'k \<Rightarrow> 'v \<Rightarrow> 'st \<Rightarrow> 'st" and remove :: "'k \<Rightarrow> 'st \<Rightarrow> 'st"
  assumes put_invar: "invar st \<Longrightarrow> invar (put k v st)"
    and put_look: "invar st \<Longrightarrow> look (put k v st) = (look st)(k \<mapsto> v) \<or> look (put k v st) = (look st)(k := None)"
    and remove_invar: "invar st \<Longrightarrow> invar (remove k st)"
    and remove_look: "invar st \<Longrightarrow> look (remove k st) = (look st)(k := None)"
begin

text \<open>An update is \<open>(k, Some v)\<close> for a store and \<open>(k, None)\<close> for a clear.\<close>

definition update :: "'k \<times> 'v option \<Rightarrow> 'st \<Rightarrow> 'st" where
  "update u st = (case snd u of None \<Rightarrow> remove (fst u) st | Some v \<Rightarrow> put (fst u) v st)"

lemma update_invar: "invar st \<Longrightarrow> invar (update u st)"
  by (simp add: update_def put_invar remove_invar split: option.split)

lemma update_look:
  "invar st \<Longrightarrow> look (update u st) k = (if k = fst u then look (update u st) (fst u) else look st k)
     \<and> look (update u st) (fst u) \<in> {snd u, None}"
  using put_look [of st "fst u" "the (snd u)"] remove_look [of st "fst u"]
  by (cases "snd u") (auto simp: update_def)

lemma never_stale:
  "invar st \<Longrightarrow> look (fold update us st) k = Some v \<Longrightarrow>
   (\<exists>before after. us = before @ (k, Some v) # after \<and> (\<forall>u \<in> set after. fst u \<noteq> k))
   \<or> (\<forall>u \<in> set us. fst u \<noteq> k) \<and> look st k = Some v"
proof (induction us rule: rev_induct)
  case (snoc u us)
  let ?st = "fold update us st"
  have inv: "invar ?st" using snoc.prems(1) update_invar by (induction us arbitrary: st) auto
  show ?case
  proof (cases "k = fst u")
    case True
    then have "u = (k, Some v)" using update_look [OF inv, of u k] snoc.prems(2) by (cases u) auto
    then show ?thesis by (intro disjI1 exI [of _ us] exI [of _ "[]"]) simp
  next
    case False
    then have "look ?st k = Some v" using update_look [OF inv, of u k] snoc.prems(2) by simp
    from snoc.IH [OF snoc.prems(1) this] show ?thesis
    proof
      assume "\<exists>before after. us = before @ (k, Some v) # after \<and> (\<forall>u \<in> set after. fst u \<noteq> k)"
      then obtain before after where "us = before @ (k, Some v) # after" "\<forall>u \<in> set after. fst u \<noteq> k" by blast
      then show ?thesis using False by (intro disjI1 exI [of _ before] exI [of _ "after @ [u]"]) simp
    qed (use False in simp)
  qed
qed simp

end

interpretation retained_lvs: last_value_store "retained_inv cap mt mp" retained_value
  "\<lambda>k v st. fst (retained_set mt mp k (fst v) (snd v) st)" retained_remove for cap mt mp
proof
  fix st k v
  assume inv: "retained_inv cap mt mp st"
  obtain st' status where s: "retained_set mt mp k (fst v) (snd v) st = (st', status)" by fastforce
  note r = retained_set_refines [OF inv s]
  show "retained_inv cap mt mp (fst (retained_set mt mp k (fst v) (snd v) st))" using r s by simp
  show "retained_value (fst (retained_set mt mp k (fst v) (snd v) st)) = (retained_value st)(k \<mapsto> v)
      \<or> retained_value (fst (retained_set mt mp k (fst v) (snd v) st)) = (retained_value st)(k := None)"
    using r s by (auto simp: set_spec_def)
  show "retained_inv cap mt mp (retained_remove k st)" "retained_value (retained_remove k st) = (retained_value st)(k := None)"
    using retained_remove_refines [OF inv] by auto
qed

section \<open>Properties\<close>

text \<open>C20: seen as a map from topics to payload and QoS, \<open>set\<close> either stores the new value or leaves the
  topic without one, never with an older one, and touches no other topic; it stores exactly when topic
  and payload fit and the topic is already there or a slot is free. The store stays consistent.\<close>

theorem retained_set_correct:
  assumes "retained_inv cap mt mp st" "retained_set mt mp topic payload q st = (st', status)"
  shows "retained_inv cap mt mp st' \<and> retained_value st' = set_spec status topic (payload, q) (retained_value st)
    \<and> (status = stored \<longleftrightarrow> fits mt mp topic payload \<and> (retained_value st topic \<noteq> None \<or> \<not> pool_full st))
    \<and> (status = stale_purged \<longrightarrow> retained_value st topic \<noteq> None)"
  by (rule retained_set_refines [OF assms])

theorem retained_set_correct_witness:
  "\<exists>st' status. retained_set 8 8 [0x61] [7] at_least_once (pool_init 2) = (st', status)
    \<and> retained_value st' = set_spec status [0x61] ([7], at_least_once) (retained_value (pool_init 2))
    \<and> (status = stored \<longleftrightarrow> fits 8 8 [0x61] [7] \<and> (retained_value (pool_init 2) [0x61] \<noteq> None \<or> \<not> pool_full (pool_init 2 :: retained_store)))"
proof -
  obtain st' status where s: "retained_set 8 8 [0x61] [7] at_least_once (pool_init 2) = (st', status)" by fastforce
  show ?thesis using s retained_set_correct [OF retained_inv_init s] by blast
qed

text \<open>After any sequence of stores and clears, a retained value found for a topic is the one of the
  last update of that topic: a later store that was refused, or a later clear, leaves nothing behind.\<close>

theorem retained_never_stale:
  assumes "retained_value (fold (\<lambda>u st. case snd u of None \<Rightarrow> retained_remove (fst u) st
      | Some v \<Rightarrow> fst (retained_set mt mp (fst u) (fst v) (snd v) st)) us (pool_init cap)) topic = Some v"
  shows "\<exists>before after. us = before @ (topic, Some v) # after \<and> (\<forall>u \<in> set after. fst u \<noteq> topic)"
proof -
  have "retained_value (pool_init cap) topic = None"
    by (simp add: retained_value_Some [OF retained_inv_init [of cap mt mp]] not_Some_eq [symmetric] del: not_Some_eq)
  then show ?thesis
    using retained_lvs.never_stale [OF retained_inv_init, where us = us and k = topic and v = v and mt = mt and mp = mp and cap = cap] assms
    by (auto simp: retained_lvs.update_def [abs_def])
qed

end
