(* ===== verification/Security.thy ===== *)
theory Security
  imports Containers Topic
begin

unbundle bit_operations_syntax

text \<open>
  Security policies: the interface the broker calls, \<open>AllowAllSecurity\<close>
  (\<open>broker/broker.hpp\<close>) and \<open>TableAcl\<close> (\<open>broker/table_acl.hpp\<close>). An optional username or
  password is an \<open>option\<close> where the code passes a pointer. The arithmetic of the
  branch-free selection is kept on bytes: the code computes it in \<open>unsigned int\<close> and
  keeps the low byte.

  The theory shows that the constant-time comparison is equality, that authentication
  is a lookup in the user table, and that a granted subscription never leads outside
  what the same role may receive.
\<close>

section \<open>The policy interface\<close>

record 'ctx security =
  sec_ctx :: 'ctx
  sec_authenticate :: "bytes \<Rightarrow> bytes option \<Rightarrow> bytes option \<Rightarrow> 'ctx \<Rightarrow> connack_code \<times> 'ctx"
  sec_publish :: "'ctx \<Rightarrow> bytes \<Rightarrow> bool"
  sec_receive :: "'ctx \<Rightarrow> bytes \<Rightarrow> bool"
  sec_subscribe :: "'ctx \<Rightarrow> bytes \<Rightarrow> bool"

definition allow_all :: "unit security" where
  "allow_all = \<lparr>sec_ctx = (), sec_authenticate = (\<lambda>client_id username password ctx. (accepted, ctx)),
     sec_publish = (\<lambda>ctx topic. True), sec_receive = (\<lambda>ctx topic. True),
     sec_subscribe = (\<lambda>ctx flt. True)\<rparr>"

section \<open>TableAcl\<close>

record acl_caps =
  max_users :: nat
  max_rules :: nat
  max_name_len :: nat
  max_secret_len :: nat
  max_pattern_len :: nat

datatype acl_access = acl_read | acl_write | acl_read_write

fun access_bits :: "acl_access \<Rightarrow> byte" where
  "access_bits acl_read = 1"
| "access_bits acl_write = 2"
| "access_bits acl_read_write = 3"

record acl_user =
  u_name :: bytes
  u_password :: bytes
  u_role :: byte

record acl_rule =
  ru_pattern :: bytes
  ru_role :: byte
  ru_access :: byte

record table_acl =
  acl_users :: "acl_user list"
  acl_rules :: "acl_rule list"
  acl_anon_role :: byte
  acl_anon_allowed :: bool

definition acl_init :: table_acl where
  "acl_init = \<lparr>acl_users = [], acl_rules = [], acl_anon_role = 0, acl_anon_allowed = False\<rparr>"

definition add_user :: "acl_caps \<Rightarrow> bytes \<Rightarrow> bytes \<Rightarrow> byte \<Rightarrow> table_acl \<Rightarrow> table_acl \<times> bool" where
  "add_user caps username password role a =
    (if username = [] \<or> length username > max_name_len caps \<or> length password > max_secret_len caps
     then (a, False)
     else if list_ex (\<lambda>u. span_eq (u_name u) username) (acl_users a) then (a, False)
     else
       case sv_emplace_back (max_users caps) \<lparr>u_name = [], u_password = [], u_role = 0\<rparr> (acl_users a) of
         (us, None) \<Rightarrow> (a, False)
       | (us, Some i) \<Rightarrow>
           (a\<lparr>acl_users := us[i := \<lparr>u_name = fst (fixed_assign (max_name_len caps) username (u_name (us ! i))),
               u_password = fst (fixed_assign (max_secret_len caps) password (u_password (us ! i))),
               u_role = role\<rparr>]\<rparr>, True))"

definition allow_anonymous :: "byte \<Rightarrow> table_acl \<Rightarrow> table_acl" where
  "allow_anonymous role a = a\<lparr>acl_anon_allowed := True, acl_anon_role := role\<rparr>"

definition add_rule :: "acl_caps \<Rightarrow> byte \<Rightarrow> bytes \<Rightarrow> acl_access \<Rightarrow> table_acl \<Rightarrow> table_acl \<times> bool" where
  "add_rule caps role pattern access a =
    (if \<not> topic_filter_valid pattern \<or> length pattern > max_pattern_len caps then (a, False)
     else
       case sv_emplace_back (max_rules caps) \<lparr>ru_pattern = [], ru_role = 0, ru_access = 0\<rparr> (acl_rules a) of
         (rs, None) \<Rightarrow> (a, False)
       | (rs, Some i) \<Rightarrow>
           (a\<lparr>acl_rules := rs[i := \<lparr>ru_pattern = fst (fixed_assign (max_pattern_len caps) pattern (ru_pattern (rs ! i))),
               ru_role = role, ru_access = access_bits access\<rparr>]\<rparr>, True))"

definition constant_time_eq :: "bytes \<Rightarrow> bytes \<Rightarrow> bool" where
  "constant_time_eq a b =
    (let diff = (if length a = length b then 0 else 1 :: byte);
         n = (if length a < length b then length a else length b)
     in fold (\<lambda>i diff. diff OR (a ! i XOR b ! i)) [0..<n] diff = 0)"

text \<open>One round of the scan over the user table, on \<open>(found, role)\<close>.\<close>

definition select_user :: "bytes \<Rightarrow> bytes \<Rightarrow> acl_user \<Rightarrow> byte \<times> byte \<Rightarrow> byte \<times> byte" where
  "select_user username supplied u fr =
    (let (found, role) = fr;
         name_hit = (if constant_time_eq (u_name u) username then 1 else 0);
         pw_hit = (if constant_time_eq (u_password u) supplied then 1 else 0);
         hit = name_hit AND pw_hit;
         sel = hit AND (found XOR 1);
         role = (role AND (sel - 1)) OR (u_role u AND (0 - sel));
         found = found OR hit
     in (found, role))"

definition acl_authenticate :: "table_acl \<Rightarrow> bytes \<Rightarrow> bytes option \<Rightarrow> bytes option \<Rightarrow> byte \<Rightarrow> connack_code \<times> byte" where
  "acl_authenticate a client_id username password ctx =
    (case username of
       None \<Rightarrow> if \<not> acl_anon_allowed a then (not_authorized, ctx) else (accepted, acl_anon_role a)
     | Some name \<Rightarrow>
         (let supplied = (case password of Some p \<Rightarrow> p | None \<Rightarrow> []);
              (found, role) = fold (select_user name supplied) (acl_users a) (0, 0)
          in if found = 0 then (bad_credentials, ctx) else (accepted, role)))"

definition acl_allowed :: "table_acl \<Rightarrow> byte \<Rightarrow> byte \<Rightarrow> bytes \<Rightarrow> bool \<Rightarrow> bool" where
  "acl_allowed a role need subject as_filter =
     list_ex (\<lambda>r. if ru_role r \<noteq> role \<or> ru_access r AND need = 0 then False
                  else if as_filter then topic_filter_covers (ru_pattern r) subject
                  else topic_matches (ru_pattern r) subject) (acl_rules a)"

definition acl_authorize_publish :: "table_acl \<Rightarrow> byte \<Rightarrow> bytes \<Rightarrow> bool" where
  "acl_authorize_publish a role topic = acl_allowed a role (access_bits acl_write) topic False"

definition acl_authorize_receive :: "table_acl \<Rightarrow> byte \<Rightarrow> bytes \<Rightarrow> bool" where
  "acl_authorize_receive a role topic = acl_allowed a role (access_bits acl_read) topic False"

definition acl_authorize_subscribe :: "table_acl \<Rightarrow> byte \<Rightarrow> bytes \<Rightarrow> bool" where
  "acl_authorize_subscribe a role flt = acl_allowed a role (access_bits acl_read) flt True"

text \<open>A configured table as a policy; the context is the role.\<close>

definition acl_policy :: "table_acl \<Rightarrow> byte security" where
  "acl_policy a = \<lparr>sec_ctx = 0, sec_authenticate = acl_authenticate a,
     sec_publish = acl_authorize_publish a, sec_receive = acl_authorize_receive a,
     sec_subscribe = acl_authorize_subscribe a\<rparr>"

section \<open>Comparison\<close>

lemma or_fold_zero:
  "fold (\<lambda>i diff. diff OR f i) is d = (0 :: byte) \<longleftrightarrow> d = 0 \<and> (\<forall>i \<in> set is. f i = 0)"
proof (induction "is" arbitrary: d)
  case (Cons i "is")
  have "d OR f i = 0 \<longleftrightarrow> d = 0 \<and> f i = 0" by (rule or_eq_0_iff)
  then show ?case using Cons by simp
qed simp

lemma xor_zero: "(x :: byte) XOR y = 0 \<longleftrightarrow> x = y"
  by (metis xor.assoc xor.left_neutral xor_self_eq)

lemma constant_time_eq_iff: "constant_time_eq a b \<longleftrightarrow> a = b"
proof (cases "length a = length b")
  case True
  then show ?thesis
    using list_eq_iff_nth_eq [of a b] by (simp add: constant_time_eq_def or_fold_zero xor_zero Ball_def)
next
  case False
  then show ?thesis by (auto simp: constant_time_eq_def or_fold_zero)
qed

section \<open>Authentication\<close>

lemma select_user_eq:
  "found \<in> {0, 1} \<Longrightarrow> select_user name pw u (found, role) =
    (if u_name u = name \<and> u_password u = pw then (1, if found = 0 then u_role u else role) else (found, role))"
  by (auto simp: select_user_def constant_time_eq_iff Let_def)

lemma select_fold:
  "found \<in> {0, 1} \<Longrightarrow> fold (select_user name pw) us (found, role) =
    (if found = 1 then (1, role)
     else case find (\<lambda>u. u_name u = name \<and> u_password u = pw) us of
            None \<Rightarrow> (0, role) | Some u \<Rightarrow> (1, u_role u))"
  by (induction us arbitrary: found role) (auto simp: select_user_eq)

text \<open>The user table is consistent: what \<open>add_user\<close> lets in.\<close>

definition acl_inv :: "acl_caps \<Rightarrow> table_acl \<Rightarrow> bool" where
  "acl_inv caps a \<longleftrightarrow> distinct (map u_name (acl_users a))
     \<and> length (acl_users a) \<le> max_users caps \<and> length (acl_rules a) \<le> max_rules caps
     \<and> list_all (\<lambda>u. u_name u \<noteq> [] \<and> length (u_name u) \<le> max_name_len caps
          \<and> length (u_password u) \<le> max_secret_len caps) (acl_users a)
     \<and> list_all (\<lambda>r. topic_filter_valid (ru_pattern r) \<and> length (ru_pattern r) \<le> max_pattern_len caps) (acl_rules a)"

lemma acl_inv_init: "acl_inv caps acl_init"
  by (simp add: acl_inv_def acl_init_def)

lemma add_user_eq:
  "add_user caps name pw role a =
    (if name = [] \<or> length name > max_name_len caps \<or> length pw > max_secret_len caps
        \<or> name \<in> u_name ` set (acl_users a) \<or> length (acl_users a) = max_users caps
     then (a, False)
     else (a\<lparr>acl_users := acl_users a @ [\<lparr>u_name = name, u_password = pw, u_role = role\<rparr>]\<rparr>, True))"
  by (auto simp: add_user_def sv_emplace_back_def fixed_assign_def span_eq_iff list_ex_iff)

lemma add_rule_eq:
  "add_rule caps role pattern access a =
    (if \<not> topic_filter_valid pattern \<or> length pattern > max_pattern_len caps \<or> length (acl_rules a) = max_rules caps
     then (a, False)
     else (a\<lparr>acl_rules := acl_rules a @ [\<lparr>ru_pattern = pattern, ru_role = role, ru_access = access_bits access\<rparr>]\<rparr>, True))"
  by (auto simp: add_rule_def sv_emplace_back_def fixed_assign_def)

lemma acl_inv_add_user: "acl_inv caps a \<Longrightarrow> acl_inv caps (fst (add_user caps name pw role a))"
  by (auto simp: add_user_eq acl_inv_def)

lemma acl_inv_add_rule: "acl_inv caps a \<Longrightarrow> acl_inv caps (fst (add_rule caps role pattern access a))"
  by (auto simp: add_rule_eq acl_inv_def)

lemma find_unique:
  assumes "distinct (map f xs)" "x \<in> set xs" "P x"
  shows "find (\<lambda>y. f y = f x \<and> P y) xs = Some x"
  using assms by (induction xs) (auto simp: image_iff)

lemma acl_authenticate_user:
  assumes "acl_inv caps a"
  shows "acl_authenticate a client_id (Some name) password ctx =
    (let supplied = (case password of Some p \<Rightarrow> p | None \<Rightarrow> [])
     in case find (\<lambda>u. u_name u = name \<and> u_password u = supplied) (acl_users a) of
          None \<Rightarrow> (bad_credentials, ctx) | Some u \<Rightarrow> (accepted, u_role u))"
  by (simp add: acl_authenticate_def select_fold Let_def split: option.split)

lemma acl_accepts_iff:
  assumes "acl_inv caps a"
  shows "acl_authenticate a client_id (Some name) password ctx = (accepted, role) \<longleftrightarrow>
    (\<exists>u \<in> set (acl_users a). u_name u = name \<and> u_role u = role
       \<and> u_password u = (case password of Some p \<Rightarrow> p | None \<Rightarrow> []))"
  (is "?l \<longleftrightarrow> ?r")
proof
  assume ?l
  then show ?r
    by (auto simp: acl_authenticate_user [OF assms] Let_def find_Some_iff split: option.splits)
next
  assume ?r
  then obtain u where u: "u \<in> set (acl_users a)" "u_name u = name" "u_role u = role"
    "u_password u = (case password of Some p \<Rightarrow> p | None \<Rightarrow> [])" by blast
  have "find (\<lambda>v. u_name v = u_name u \<and> u_password v = u_password u) (acl_users a) = Some u"
    by (rule find_unique) (use assms u in \<open>auto simp: acl_inv_def\<close>)
  then show ?l using u by (simp add: acl_authenticate_user [OF assms])
qed

section \<open>Authorization\<close>

text \<open>
  What the broker may assume of a policy: whatever a granted subscription matches, the
  same context may receive.
\<close>

locale consistent_policy =
  fixes subscribe :: "'ctx \<Rightarrow> bytes \<Rightarrow> bool" and receive :: "'ctx \<Rightarrow> bytes \<Rightarrow> bool"
  assumes subscribe_receive: "subscribe ctx flt \<Longrightarrow> topic_matches flt topic \<Longrightarrow> receive ctx topic"
begin

lemma granted_filters_receive:
  "list_all (subscribe ctx) flts \<Longrightarrow> list_ex (\<lambda>flt. topic_matches flt topic) flts \<Longrightarrow> receive ctx topic"
  by (auto simp: list_all_iff list_ex_iff dest: subscribe_receive)

end

lemma acl_subscribe_receive:
  "acl_authorize_subscribe a role flt \<Longrightarrow> topic_matches flt topic \<Longrightarrow> acl_authorize_receive a role topic"
  using covers_sound [of _ flt topic]
  by (auto simp: acl_authorize_subscribe_def acl_authorize_receive_def acl_allowed_def list_ex_iff split: if_splits)

interpretation acl: consistent_policy "acl_authorize_subscribe a" "acl_authorize_receive a" for a
  by unfold_locales (rule acl_subscribe_receive)

interpretation open_policy: consistent_policy "sec_subscribe allow_all" "sec_receive allow_all"
  by unfold_locales (simp add: allow_all_def)

section \<open>Properties\<close>

text \<open>C39: \<open>TableAcl::authenticate\<close>, which compares every user in constant time and selects with masks,
  accepts a named client with a role exactly when some user of the table has that name, that password
  (an absent one counts as empty) and that role.\<close>

theorem acl_authenticate_correct:
  assumes "acl_inv caps a"
  shows "acl_authenticate a client_id (Some name) password ctx = (accepted, role) \<longleftrightarrow>
    (\<exists>u \<in> set (acl_users a). u_name u = name \<and> u_role u = role
       \<and> u_password u = (case password of Some p \<Rightarrow> p | None \<Rightarrow> []))"
  by (rule acl_accepts_iff [OF assms])

theorem acl_authenticate_correct_witness:
  "acl_authenticate (fst (add_user \<lparr>max_users = 2, max_rules = 2, max_name_len = 8, max_secret_len = 8, max_pattern_len = 8\<rparr>
       [0x62] [1, 2] 3 acl_init)) [] (Some [0x62]) (Some [1, 2]) 0 = (accepted, 3)"
proof -
  let ?caps = "\<lparr>max_users = 2, max_rules = 2, max_name_len = 8, max_secret_len = 8, max_pattern_len = 8\<rparr>"
  have "acl_inv ?caps (fst (add_user ?caps [0x62] [1, 2] 3 acl_init))" by (rule acl_inv_add_user [OF acl_inv_init])
  from acl_authenticate_correct [OF this, of "[]" "[0x62]" "Some [1, 2]" 0 3] show ?thesis
    by (simp add: add_user_eq acl_init_def)
qed

text \<open>The comparison of secrets, which never stops early, decides equality.\<close>

theorem constant_time_eq_correct: "constant_time_eq a b \<longleftrightarrow> a = b"
  by (rule constant_time_eq_iff)

text \<open>Whatever a filter granted by \<open>authorize_subscribe\<close> matches, \<open>authorize_receive\<close> lets the same
  role receive: a subscription is never granted and then starved.\<close>

theorem acl_subscription_receives:
  "list_all (acl_authorize_subscribe a role) flts \<Longrightarrow> list_ex (\<lambda>flt. topic_matches flt topic) flts \<Longrightarrow>
   acl_authorize_receive a role topic"
  by (rule acl.granted_filters_receive)

end
