(* ===== verification/Broker_State.thy ===== *)
theory Broker_State
  imports Packets Frame Session Retained Security
begin

text \<open>
  State of the broker (\<open>broker/broker.hpp\<close>, \<open>broker/config.hpp\<close>) and the operations that
  only read it, report an event or hand bytes to the transport. The class is a template
  over its capacities, a transport, a security policy and an observer: the first three
  are the environment \<open>E\<close>, what the observer is told and what the transport is handed is
  appended to the trace \<open>b_trace\<close>. \<open>SessionT&\<close> and \<open>SessionT*\<close> are slot indices of the pool.

  \<open>b_stuck\<close> has no counterpart in the code: it becomes true where the code would
  dereference a null pointer or loop forever, and stays true. That it never does is one
  of the properties.
\<close>

section \<open>Configuration and environment\<close>

record traits =
  max_connections :: nat
  max_sessions :: nat
  max_subscriptions_per_session :: nat
  max_topic_len :: nat
  max_client_id_len :: nat
  max_packet_size :: nat
  max_payload_len :: nat
  max_retained :: nat
  max_pending_per_session :: nat
  max_inbound_qos2 :: nat
  connect_timeout_ms :: u32
  max_idle_ms :: u32
  session_expiry_ms :: u32

definition default_traits :: traits where
  "default_traits = \<lparr>max_connections = 8, max_sessions = 8, max_subscriptions_per_session = 8,
     max_topic_len = 128, max_client_id_len = 64, max_packet_size = 1024, max_payload_len = 512,
     max_retained = 16, max_pending_per_session = 8, max_inbound_qos2 = 8,
     connect_timeout_ms = 10000, max_idle_ms = 0, session_expiry_ms = 0\<rparr>"

definition stored_body_max :: "traits \<Rightarrow> nat" where
  "stored_body_max T = 2 + max_topic_len T + 2 + max_payload_len T"

definition out_size :: "traits \<Rightarrow> nat" where
  "out_size T = packet_overhead +
     (if max_packet_size T > stored_body_max T then max_packet_size T else stored_body_max T)"

definition max_duration_ms :: u32 where "max_duration_ms = 0x7FFFFFFF"

text \<open>The class-level \<open>static_assert\<close>s on the traits, and the one of \<open>Session\<close>.\<close>

definition traits_asserted :: "traits \<Rightarrow> bool" where
  "traits_asserted T \<longleftrightarrow> connect_timeout_ms T \<le> max_duration_ms \<and> max_idle_ms T \<le> max_duration_ms
     \<and> session_expiry_ms T \<le> max_duration_ms \<and> max_retained T \<le> 0xFFFF"

record ('ctx, 'tr) env =
  e_traits :: traits
  e_sec :: "'ctx security"
  e_send :: "'tr \<Rightarrow> nat \<Rightarrow> bytes \<Rightarrow> 'tr \<times> bool"
  e_close :: "'tr \<Rightarrow> nat \<Rightarrow> 'tr"

section \<open>State\<close>

definition no_session :: u16 where "no_session = 0xFFFF"

record conn =
  cn_parser :: frame_parser
  cn_deadline_ms :: u32
  cn_session :: u16
  cn_keepalive_s :: u16
  cn_active :: bool
  cn_dead :: bool
  cn_notify_transport :: bool

definition new_conn :: "nat \<Rightarrow> conn" where
  "new_conn max_packet = \<lparr>cn_parser = fp_init max_packet, cn_deadline_ms = 0, cn_session = no_session,
     cn_keepalive_s = 0, cn_active = False, cn_dead = False, cn_notify_transport = True\<rparr>"

definition conn_reset :: "conn \<Rightarrow> conn" where
  "conn_reset c = c\<lparr>cn_parser := fp_reset (cn_parser c), cn_deadline_ms := 0, cn_session := no_session,
     cn_keepalive_s := 0, cn_active := False, cn_dead := False, cn_notify_transport := True\<rparr>"

datatype action = Sent nat bytes bool | Closed nat | Noted event

record ('ctx, 'tr) broker =
  b_tr :: 'tr
  b_conns :: "conn list"
  b_sessions :: "'ctx session pool"
  b_retained :: retained_store
  b_now_ms :: u32
  b_disconnect_order :: u32
  b_auto_id_counter :: u16
  b_trace :: "action list"
  b_stuck :: bool

definition broker_init :: "traits \<Rightarrow> 'tr \<Rightarrow> ('ctx, 'tr) broker" where
  "broker_init T tr = \<lparr>b_tr = tr, b_conns = replicate (max_connections T) (new_conn (max_packet_size T)),
     b_sessions = pool_init (max_sessions T), b_retained = pool_init (max_retained T), b_now_ms = 0,
     b_disconnect_order = 0, b_auto_id_counter = 0, b_trace = [], b_stuck = False\<rparr>"

text \<open>Array access; an index at or above \<open>max_connections\<close> is never used.\<close>

definition conn_at :: "('ctx, 'tr) broker \<Rightarrow> nat \<Rightarrow> conn" where
  "conn_at b ci = (if ci < length (b_conns b) then b_conns b ! ci else new_conn 0)"

definition upd_conn :: "nat \<Rightarrow> (conn \<Rightarrow> conn) \<Rightarrow> ('ctx, 'tr) broker \<Rightarrow> ('ctx, 'tr) broker" where
  "upd_conn ci f b = b\<lparr>b_conns := (b_conns b)[ci := f (conn_at b ci)]\<rparr>"

definition mark_dead :: "nat \<Rightarrow> ('ctx, 'tr) broker \<Rightarrow> ('ctx, 'tr) broker" where
  "mark_dead ci b = upd_conn ci (\<lambda>c. c\<lparr>cn_dead := True\<rparr>) b"

definition session_at :: "('ctx, 'tr) broker \<Rightarrow> nat \<Rightarrow> 'ctx session option" where
  "session_at b si = pool_at (b_sessions b) si"

definition fail :: "('ctx, 'tr) broker \<Rightarrow> ('ctx, 'tr) broker" where
  "fail b = b\<lparr>b_stuck := True\<rparr>"

text \<open>Work on the session behind a pointer; a dead pointer is undefined behaviour.\<close>

definition with_session :: "nat \<Rightarrow> ('ctx, 'tr) broker \<Rightarrow> ('ctx session \<Rightarrow> ('ctx, 'tr) broker) \<Rightarrow> ('ctx, 'tr) broker" where
  "with_session si b k = (case session_at b si of None \<Rightarrow> fail b | Some s \<Rightarrow> k s)"

definition put_session :: "nat \<Rightarrow> 'ctx session \<Rightarrow> ('ctx, 'tr) broker \<Rightarrow> ('ctx, 'tr) broker" where
  "put_session si s b = b\<lparr>b_sessions := pool_put si s (b_sessions b)\<rparr>"

definition upd_session :: "nat \<Rightarrow> ('ctx session \<Rightarrow> 'ctx session) \<Rightarrow> ('ctx, 'tr) broker \<Rightarrow> ('ctx, 'tr) broker" where
  "upd_session si f b = with_session si b (\<lambda>s. put_session si (f s) b)"

definition release_session :: "nat \<Rightarrow> ('ctx, 'tr) broker \<Rightarrow> ('ctx, 'tr) broker" where
  "release_session si b = b\<lparr>b_sessions := pool_release si (b_sessions b)\<rparr>"

definition session_of :: "('ctx, 'tr) broker \<Rightarrow> conn \<Rightarrow> nat option" where
  "session_of b c =
    (if cn_session c \<noteq> no_session
     then (if session_at b (unat (cn_session c)) \<noteq> None then Some (unat (cn_session c)) else None)
     else None)"

text \<open>\<open>SessionT& s = *session_of(c)\<close> at the start of a handler.\<close>

definition with_session_of :: "nat \<Rightarrow> ('ctx, 'tr) broker \<Rightarrow> (nat \<Rightarrow> 'ctx session \<Rightarrow> ('ctx, 'tr) broker) \<Rightarrow> ('ctx, 'tr) broker" where
  "with_session_of ci b k =
    (case session_of b (conn_at b ci) of
       None \<Rightarrow> fail b
     | Some si \<Rightarrow> with_session si b (k si))"

section \<open>Reporting\<close>

definition notify :: "event \<Rightarrow> ('ctx, 'tr) broker \<Rightarrow> ('ctx, 'tr) broker" where
  "notify e b = b\<lparr>b_trace := b_trace b @ [Noted e]\<rparr>"

definition client_id_of :: "('ctx, 'tr) broker \<Rightarrow> conn \<Rightarrow> bytes" where
  "client_id_of b c =
    (case session_of b c of
       None \<Rightarrow> []
     | Some si \<Rightarrow> (case session_at b si of None \<Rightarrow> [] | Some s \<Rightarrow> s_client_id s))"

definition notify_conn :: "('ctx, 'tr) env \<Rightarrow> event_kind \<Rightarrow> nat \<Rightarrow> ('ctx, 'tr) broker \<Rightarrow> ('ctx, 'tr) broker" where
  "notify_conn E k ci b = notify ((new_event k)\<lparr>ev_ci := Some ci,
     ev_client_id := (if ci < max_connections (e_traits E) then client_id_of b (conn_at b ci) else [])\<rparr>) b"

definition notify_violation :: "nat \<Rightarrow> err \<Rightarrow> ('ctx, 'tr) broker \<Rightarrow> ('ctx, 'tr) broker" where
  "notify_violation ci e b = notify ((new_event protocol_violation)\<lparr>ev_ci := Some ci, ev_err := e,
     ev_client_id := client_id_of b (conn_at b ci)\<rparr>) b"

definition violation :: "nat \<Rightarrow> err \<Rightarrow> ('ctx, 'tr) broker \<Rightarrow> ('ctx, 'tr) broker" where
  "violation ci e b = mark_dead ci (notify_violation ci e b)"

definition notify_refused :: "nat \<Rightarrow> bytes \<Rightarrow> connack_code \<Rightarrow> ('ctx, 'tr) broker \<Rightarrow> ('ctx, 'tr) broker" where
  "notify_refused ci client_id code b = notify ((new_event connect_refused)\<lparr>ev_ci := Some ci,
     ev_client_id := client_id, ev_connack := code\<rparr>) b"

definition session_ci :: "'ctx session \<Rightarrow> nat option" where
  "session_ci s = (if connected s then Some (unat (s_conn s)) else None)"

definition notify_session :: "event_kind \<Rightarrow> 'ctx session \<Rightarrow> ('ctx, 'tr) broker \<Rightarrow> ('ctx, 'tr) broker" where
  "notify_session k s b = notify ((new_event k)\<lparr>ev_client_id := s_client_id s, ev_ci := session_ci s\<rparr>) b"

definition notify_denied :: "event_kind \<Rightarrow> 'ctx session \<Rightarrow> bytes \<Rightarrow> ('ctx, 'tr) broker \<Rightarrow> ('ctx, 'tr) broker" where
  "notify_denied k s topic b = notify ((new_event k)\<lparr>ev_client_id := s_client_id s, ev_topic := topic,
     ev_ci := session_ci s\<rparr>) b"

definition notify_topic :: "event_kind \<Rightarrow> bytes \<Rightarrow> ('ctx, 'tr) broker \<Rightarrow> ('ctx, 'tr) broker" where
  "notify_topic k topic b = notify ((new_event k)\<lparr>ev_topic := topic\<rparr>) b"

definition notify_drop :: "'ctx session \<Rightarrow> bytes \<Rightarrow> qos \<Rightarrow> err \<Rightarrow> ('ctx, 'tr) broker \<Rightarrow> ('ctx, 'tr) broker" where
  "notify_drop s topic q e b = notify ((new_event delivery_dropped)\<lparr>ev_client_id := s_client_id s,
     ev_topic := topic, ev_qos := q, ev_err := e, ev_ci := session_ci s\<rparr>) b"

section \<open>Deadlines\<close>

definition keepalive_window_ms :: "u16 \<Rightarrow> u32" where
  "keepalive_window_ms keepalive_s = ucast keepalive_s * 1500"

definition refresh_deadline :: "traits \<Rightarrow> u32 \<Rightarrow> conn \<Rightarrow> conn" where
  "refresh_deadline T now_ms c =
    (if cn_keepalive_s c > 0 then c\<lparr>cn_deadline_ms := now_ms + keepalive_window_ms (cn_keepalive_s c)\<rparr>
     else if max_idle_ms T > 0 then c\<lparr>cn_deadline_ms := now_ms + max_idle_ms T\<rparr>
     else c)"

definition deadline_passed :: "u32 \<Rightarrow> u32 \<Rightarrow> bool" where
  "deadline_passed now deadline \<longleftrightarrow> sint (now - deadline) \<ge> 0"

definition qos_min :: "qos \<Rightarrow> qos \<Rightarrow> qos" where "qos_min a b = (if a < b then a else b)"
definition qos_max :: "qos \<Rightarrow> qos \<Rightarrow> qos" where "qos_max a b = (if a > b then a else b)"

section \<open>Connections of sessions and sending\<close>

definition conn_index :: "traits \<Rightarrow> 'ctx session \<Rightarrow> nat" where
  "conn_index T s =
    (let ci = unat (s_conn s) in if connected s \<and> ci < max_connections T then ci else max_connections T)"

definition conn_of_session :: "traits \<Rightarrow> 'ctx session \<Rightarrow> ('ctx, 'tr) broker \<Rightarrow> conn option" where
  "conn_of_session T s b =
    (let ci = conn_index T s in if ci < max_connections T then Some (conn_at b ci) else None)"

text \<open>A call of \<open>tr_.send\<close>.\<close>

definition transport_send :: "('ctx, 'tr) env \<Rightarrow> nat \<Rightarrow> bytes \<Rightarrow> ('ctx, 'tr) broker \<Rightarrow> ('ctx, 'tr) broker \<times> bool" where
  "transport_send E ci pkt b =
    (let (tr, sent) = e_send E (b_tr b) ci pkt
     in (b\<lparr>b_tr := tr, b_trace := b_trace b @ [Sent ci pkt sent]\<rparr>, sent))"

definition transport_close :: "('ctx, 'tr) env \<Rightarrow> nat \<Rightarrow> ('ctx, 'tr) broker \<Rightarrow> ('ctx, 'tr) broker" where
  "transport_close E ci b = b\<lparr>b_tr := e_close E (b_tr b) ci, b_trace := b_trace b @ [Closed ci]\<rparr>"

definition try_send_to :: "('ctx, 'tr) env \<Rightarrow> nat \<Rightarrow> bytes \<Rightarrow> ('ctx, 'tr) broker \<Rightarrow> ('ctx, 'tr) broker \<times> bool" where
  "try_send_to E ci pkt b =
    (if ci \<ge> max_connections (e_traits E) then (b, False)
     else
       let c = conn_at b ci
       in if \<not> cn_active c \<or> cn_dead c \<or> pkt = [] then (b, False)
          else transport_send E ci pkt b)"

definition send_to :: "('ctx, 'tr) env \<Rightarrow> nat \<Rightarrow> bytes \<Rightarrow> ('ctx, 'tr) broker \<Rightarrow> ('ctx, 'tr) broker" where
  "send_to E ci pkt b =
    (if ci \<ge> max_connections (e_traits E) then b
     else
       let c = conn_at b ci
       in if \<not> cn_active c \<or> cn_dead c \<or> pkt = [] then b
          else
            let (b, sent) = transport_send E ci pkt b
            in if \<not> sent then mark_dead ci (notify_conn E transport_send_failed ci b) else b)"

text \<open>
  Packets are built in the member \<open>out_\<close>; what a builder returns does not depend on what
  the buffer held before (\<open>build_publish_bytes\<close> and its siblings), so every build starts
  from the same buffer.
\<close>

definition out_buf :: "traits \<Rightarrow> bytes" where
  "out_buf T = replicate (out_size T) 0"

definition publish_pkt :: "traits \<Rightarrow> bytes \<Rightarrow> bytes \<Rightarrow> qos \<Rightarrow> bool \<Rightarrow> bool \<Rightarrow> u16 \<Rightarrow> bytes" where
  "publish_pkt T topic payload q retain dup pid =
     snd (build_publish (out_buf T) (out_size T) topic payload q retain dup pid)"

definition id_pkt :: "traits \<Rightarrow> packet_type \<Rightarrow> u16 \<Rightarrow> bytes" where
  "id_pkt T type pid = snd (build_packet_id_only (out_buf T) (out_size T) type pid)"

definition connack_pkt :: "traits \<Rightarrow> bool \<Rightarrow> connack_code \<Rightarrow> bytes" where
  "connack_pkt T session_present code = snd (build_connack (out_buf T) (out_size T) session_present code)"

definition pingresp_pkt :: "traits \<Rightarrow> bytes" where
  "pingresp_pkt T = snd (build_pingresp (out_buf T) (out_size T))"

end
