(* ===== verification/Broker_Deliver.thy ===== *)
theory Broker_Deliver
  imports Broker_State
begin

text \<open>
  Delivery (\<open>broker/broker.hpp\<close>): the outbound queue of a session (\<open>enqueue\<close>,
  \<open>pump_session\<close>, \<open>resume_session\<close>), routing of a publish, the retained store and its
  replay, and the deferred teardown of connections (\<open>flush_dead\<close>, \<open>teardown\<close>).

  The queue loops terminate because each round moves past an entry or removes it, and
  \<open>flush_dead\<close> because each round makes an active connection inactive.
\<close>

section \<open>What sending leaves alone\<close>

lemma notify_sel [simp]:
  "b_tr (notify e b) = b_tr b" "b_conns (notify e b) = b_conns b" "b_sessions (notify e b) = b_sessions b"
  "b_retained (notify e b) = b_retained b" "b_now_ms (notify e b) = b_now_ms b"
  "b_disconnect_order (notify e b) = b_disconnect_order b"
  "b_auto_id_counter (notify e b) = b_auto_id_counter b" "b_stuck (notify e b) = b_stuck b"
  by (simp_all add: notify_def)

lemmas notify_defs = notify_conn_def notify_violation_def notify_refused_def notify_session_def
  notify_denied_def notify_topic_def notify_drop_def

lemma upd_conn_sel [simp]:
  "b_tr (upd_conn ci f b) = b_tr b" "b_sessions (upd_conn ci f b) = b_sessions b"
  "b_retained (upd_conn ci f b) = b_retained b" "b_now_ms (upd_conn ci f b) = b_now_ms b"
  "b_disconnect_order (upd_conn ci f b) = b_disconnect_order b"
  "b_auto_id_counter (upd_conn ci f b) = b_auto_id_counter b" "b_stuck (upd_conn ci f b) = b_stuck b"
  "b_trace (upd_conn ci f b) = b_trace b" "length (b_conns (upd_conn ci f b)) = length (b_conns b)"
  by (simp_all add: upd_conn_def)

lemma conn_at_upd:
  "conn_at (upd_conn ci f b) cj = (if cj = ci \<and> ci < length (b_conns b) then f (conn_at b ci) else conn_at b cj)"
  by (auto simp: conn_at_def upd_conn_def)

lemma conn_at_cong: "b_conns b = b_conns b' \<Longrightarrow> conn_at b = conn_at b'"
  by (rule ext) (simp add: conn_at_def)

lemma conn_at_notify [simp]: "conn_at (notify e b) = conn_at b"
  by (rule conn_at_cong) simp

lemma session_at_notify [simp]: "session_at (notify e b) = session_at b"
  by (rule ext) (simp add: session_at_def)

lemma session_at_upd_conn [simp]: "session_at (upd_conn ci f b) = session_at b"
  by (rule ext) (simp add: session_at_def)

lemma try_send_sessions [simp]: "b_sessions (fst (try_send_to E ci pkt b)) = b_sessions b"
  by (simp add: try_send_to_def transport_send_def Let_def split: prod.splits)

lemma session_at_put:
  "session_at b si = Some s0 \<Longrightarrow> session_at (put_session si s b) = (session_at b)(si := Some s)"
  by (auto simp: session_at_def put_session_def fun_eq_iff dest: pool_at_bound)

lemma upd_session_Some: "session_at b si = Some s \<Longrightarrow> upd_session si f b = put_session si (f s) b"
  by (simp add: upd_session_def with_session_def)

section \<open>The outbound queue\<close>

definition upd_pending :: "nat \<Rightarrow> nat \<Rightarrow> (out_msg \<Rightarrow> out_msg) \<Rightarrow> ('ctx, 'tr) broker \<Rightarrow> ('ctx, 'tr) broker" where
  "upd_pending si i f b =
     upd_session si (\<lambda>s. s\<lparr>s_pending := (s_pending s)[i := f (s_pending s ! i)]\<rparr>) b"

definition drop_pending :: "nat \<Rightarrow> nat \<Rightarrow> ('ctx, 'tr) broker \<Rightarrow> ('ctx, 'tr) broker" where
  "drop_pending si i b = upd_session si (\<lambda>s. s\<lparr>s_pending := sv_remove_ordered i (s_pending s)\<rparr>) b"

definition in_flight_state :: "qos \<Rightarrow> out_state" where
  "in_flight_state q = (if q = at_least_once then awaiting_puback else awaiting_pubrec)"

definition pending_left :: "nat \<Rightarrow> nat \<Rightarrow> ('ctx, 'tr) broker \<Rightarrow> nat" where
  "pending_left si i b = (case session_at b si of None \<Rightarrow> 0 | Some s \<Rightarrow> length (s_pending s) - i)"

lemma pending_left_upd:
  assumes "session_at b si = Some s" "i < length (s_pending s)"
    "session_at b' si = Some s'" "length (s_pending s') = length (s_pending s)"
  shows "pending_left si (Suc i) (upd_pending si i f b') < pending_left si i b"
  using assms by (simp add: pending_left_def upd_pending_def upd_session_Some session_at_put)

lemma pending_left_drop:
  assumes "session_at b si = Some s" "i < length (s_pending s)"
    "session_at b' si = Some s'" "length (s_pending s') = length (s_pending s)"
  shows "pending_left si i (drop_pending si i b') < pending_left si i b"
  using assms by (simp add: pending_left_def drop_pending_def upd_session_Some session_at_put sv_remove_ordered_eq)

lemma session_at_try: "session_at (fst (try_send_to E ci pkt b)) = session_at b"
  by (rule ext) (simp add: session_at_def)

text \<open>
  One round of the loop of \<open>pump_session\<close>: whether the loop goes on, the next index and
  the state. A session slot that is not live would be a dangling reference.
\<close>

definition pump_step :: "('ctx, 'tr) env \<Rightarrow> nat \<Rightarrow> nat \<Rightarrow> ('ctx, 'tr) broker \<Rightarrow> bool \<times> nat \<times> ('ctx, 'tr) broker" where
  "pump_step E si i b =
    (case session_at b si of
       None \<Rightarrow> (False, i, fail b)
     | Some s \<Rightarrow>
         if \<not> i < length (s_pending s) then (False, i, b)
         else
           case conn_of_session (e_traits E) s b of
             None \<Rightarrow> (False, i, b)
           | Some c \<Rightarrow>
               if cn_dead c then (False, i, b)
               else
                 let m = s_pending s ! i
                 in if om_state m = awaiting_pubcomp \<and> om_resend_pubrel m then
                      let r = try_send_to E (conn_index (e_traits E) s)
                                (id_pkt (e_traits E) PT_pubrel (om_packet_id m)) b
                      in if \<not> snd r then (False, i, fst r)
                         else (True, i + 1, upd_pending si i (\<lambda>m. m\<lparr>om_resend_pubrel := False\<rparr>) (fst r))
                    else if om_state m \<noteq> queued then (True, i + 1, b)
                    else
                      case alloc_packet_id s of
                        None \<Rightarrow> (False, i, fail b)
                      | Some (pid, s') \<Rightarrow>
                          let b' = put_session si s' b;
                              pkt = publish_pkt (e_traits E) (om_topic m) (om_payload m) (om_qos m)
                                      (om_retain m) (om_dup m) pid
                          in if pkt = [] then
                               (True, i, drop_pending si i (notify_drop s' (om_topic m) (om_qos m) Err_oversize b'))
                             else
                               let r = try_send_to E (conn_index (e_traits E) s') pkt b'
                               in if \<not> snd r then (False, i, fst r)
                                  else (True, i + 1, upd_pending si i (\<lambda>m. m\<lparr>om_packet_id := pid,
                                          om_state := in_flight_state (om_qos m)\<rparr>) (fst r)))"

lemma alloc_pending: "alloc_packet_id s = Some (pid, s') \<Longrightarrow> s_pending s' = s_pending s"
  by (auto simp: alloc_packet_id_def split: option.splits)

lemma pending_left_simps:
  assumes "session_at b si = Some s" "i < length (s_pending s)" "s_pending s' = s_pending s"
  shows "pending_left si (Suc i) (upd_pending si i f (fst (try_send_to E ci pkt (put_session si s' b)))) < pending_left si i b"
    "pending_left si i (drop_pending si i (notify_drop s' t q e (put_session si s' b))) < pending_left si i b"
proof -
  have s': "session_at (put_session si s' b) si = Some s'" "length (s_pending s') = length (s_pending s)"
    using assms by (simp_all add: session_at_put)
  show "pending_left si (Suc i) (upd_pending si i f (fst (try_send_to E ci pkt (put_session si s' b)))) < pending_left si i b"
    by (rule pending_left_upd [OF assms(1,2), where s' = s']) (use s' in \<open>simp_all add: session_at_try\<close>)
  show "pending_left si i (drop_pending si i (notify_drop s' t q e (put_session si s' b))) < pending_left si i b"
    by (rule pending_left_drop [OF assms(1,2), where s' = s']) (use s' in \<open>simp_all add: notify_defs\<close>)
qed

lemma pending_left_skip:
  "session_at b si = Some s \<Longrightarrow> i < length (s_pending s) \<Longrightarrow> pending_left si (Suc i) b < pending_left si i b"
  by (simp add: pending_left_def)

lemma pending_left_sent:
  "session_at b si = Some s \<Longrightarrow> i < length (s_pending s) \<Longrightarrow>
   pending_left si (Suc i) (upd_pending si i f (fst (try_send_to E ci pkt b))) < pending_left si i b"
  by (rule pending_left_upd [where s' = s]) (simp_all add: session_at_try)

lemma pump_step_left: "pump_step E si i b = (True, i', b') \<Longrightarrow> pending_left si i' b' < pending_left si i b"
  by (auto simp: pump_step_def Let_def pending_left_simps pending_left_skip pending_left_sent alloc_pending
      split: option.splits if_splits prod.splits)

function pump_loop :: "('ctx, 'tr) env \<Rightarrow> nat \<Rightarrow> nat \<Rightarrow> ('ctx, 'tr) broker \<Rightarrow> ('ctx, 'tr) broker" where
  "pump_loop E si i b =
    (case pump_step E si i b of (go_on, i', b') \<Rightarrow> if go_on then pump_loop E si i' b' else b')"
  by pat_completeness auto
termination
  by (relation "measure (\<lambda>(E, si, i, b). pending_left si i b)") (auto intro: pump_step_left)

declare pump_loop.simps [simp del]

definition pump_session :: "('ctx, 'tr) env \<Rightarrow> nat \<Rightarrow> ('ctx, 'tr) broker \<Rightarrow> ('ctx, 'tr) broker" where
  "pump_session E si b = pump_loop E si 0 b"

text \<open>One round of the loop of \<open>resume_session\<close>.\<close>

definition resume_step :: "('ctx, 'tr) env \<Rightarrow> nat \<Rightarrow> nat \<Rightarrow> ('ctx, 'tr) broker \<Rightarrow> bool \<times> nat \<times> ('ctx, 'tr) broker" where
  "resume_step E si i b =
    (case session_at b si of
       None \<Rightarrow> (False, i, fail b)
     | Some s \<Rightarrow>
         if \<not> i < length (s_pending s) then (False, i, b)
         else
           case conn_of_session (e_traits E) s b of
             None \<Rightarrow> (False, i, b)
           | Some c \<Rightarrow>
               if cn_dead c then (False, i, b)
               else
                 let m = s_pending s ! i
                 in if om_state m = awaiting_pubcomp then
                      let r = try_send_to E (conn_index (e_traits E) s)
                                (id_pkt (e_traits E) PT_pubrel (om_packet_id m)) b
                      in if \<not> snd r
                         then (False, i, upd_pending si i (\<lambda>m. m\<lparr>om_resend_pubrel := True\<rparr>) (fst r))
                         else (True, i + 1, upd_pending si i (\<lambda>m. m\<lparr>om_resend_pubrel := False\<rparr>) (fst r))
                    else
                      let first_send = (om_state m = queued)
                      in case (if first_send then alloc_packet_id s else Some (om_packet_id m, s)) of
                        None \<Rightarrow> (False, i, fail b)
                      | Some (pid, s') \<Rightarrow>
                          let b' = put_session si s' b;
                              pkt = publish_pkt (e_traits E) (om_topic m) (om_payload m) (om_qos m)
                                      (om_retain m) (if first_send then om_dup m else True) pid
                          in if pkt = [] then
                               (True, i, drop_pending si i (notify_drop s' (om_topic m) (om_qos m) Err_oversize b'))
                             else
                               let r = try_send_to E (conn_index (e_traits E) s') pkt b'
                               in if \<not> snd r then (False, i, fst r)
                                  else (True, i + 1, upd_pending si i (\<lambda>m.
                                          if first_send
                                          then m\<lparr>om_packet_id := pid, om_state := in_flight_state (om_qos m)\<rparr>
                                          else m\<lparr>om_dup := True\<rparr>) (fst r)))"

lemma resume_step_left: "resume_step E si i b = (True, i', b') \<Longrightarrow> pending_left si i' b' < pending_left si i b"
  by (auto simp: resume_step_def Let_def pending_left_simps pending_left_sent alloc_pending
      split: option.splits if_splits prod.splits)

function resume_loop :: "('ctx, 'tr) env \<Rightarrow> nat \<Rightarrow> nat \<Rightarrow> ('ctx, 'tr) broker \<Rightarrow> ('ctx, 'tr) broker" where
  "resume_loop E si i b =
    (case resume_step E si i b of (go_on, i', b') \<Rightarrow> if go_on then resume_loop E si i' b' else b')"
  by pat_completeness auto
termination
  by (relation "measure (\<lambda>(E, si, i, b). pending_left si i b)") (auto intro: resume_step_left)

declare resume_loop.simps [simp del]

definition resume_session :: "('ctx, 'tr) env \<Rightarrow> nat \<Rightarrow> ('ctx, 'tr) broker \<Rightarrow> ('ctx, 'tr) broker" where
  "resume_session E si b = resume_loop E si 0 b"

definition enqueue :: "('ctx, 'tr) env \<Rightarrow> nat \<Rightarrow> bytes \<Rightarrow> bytes \<Rightarrow> qos \<Rightarrow> bool \<Rightarrow> ('ctx, 'tr) broker \<Rightarrow> ('ctx, 'tr) broker" where
  "enqueue E si topic payload eff retain b =
     with_session si b (\<lambda>s.
       if length payload > max_payload_len (e_traits E) then notify_drop s topic eff Err_oversize b
       else
         case sv_emplace_back (max_pending_per_session (e_traits E)) new_out_msg (s_pending s) of
           (pending, None) \<Rightarrow> notify_drop s topic eff Err_capacity b
         | (pending, Some i) \<Rightarrow>
             let m = (pending ! i)\<lparr>om_topic := fst (fixed_assign (max_topic_len (e_traits E)) topic (om_topic (pending ! i))),
                         om_payload := fst (fixed_assign (max_payload_len (e_traits E)) payload (om_payload (pending ! i))),
                         om_qos := eff, om_retain := retain\<rparr>;
                 s = s\<lparr>s_pending := pending[i := m]\<rparr>;
                 b = put_session si s b
             in case conn_of_session (e_traits E) s b of
                  None \<Rightarrow> b
                | Some pc \<Rightarrow> if \<not> cn_dead pc then pump_session E si b else b)"

section \<open>Retained messages\<close>

definition apply_retain :: "('ctx, 'tr) env \<Rightarrow> bytes \<Rightarrow> bytes \<Rightarrow> qos \<Rightarrow> ('ctx, 'tr) broker \<Rightarrow> ('ctx, 'tr) broker \<times> bool" where
  "apply_retain E topic payload q b =
    (if payload = [] then (b\<lparr>b_retained := retained_remove topic (b_retained b)\<rparr>, True)
     else
       let (st, status) = retained_set (max_topic_len (e_traits E)) (max_payload_len (e_traits E))
                            topic payload q (b_retained b);
           b = b\<lparr>b_retained := st\<rparr>;
           b = (if status = stale_purged then notify_topic retained_stale_purged topic b else b)
       in if status \<noteq> stored then (notify_topic retained_store_failed topic b, False) else (b, True))"

section \<open>Routing\<close>

text \<open>The loop over \<open>s.subs\<close>: whether some subscription matches, and the largest grant.\<close>

definition granted_for :: "(subscription \<Rightarrow> bool) \<Rightarrow> subscription list \<Rightarrow> bool \<times> qos" where
  "granted_for hit subs =
     fold (\<lambda>sub (matched, granted_max).
             if hit sub then (True, qos_max granted_max (sub_granted sub)) else (matched, granted_max))
       subs (False, at_most_once)"

definition route_one :: "('ctx, 'tr) env \<Rightarrow> bytes \<Rightarrow> bytes \<Rightarrow> qos \<Rightarrow> nat \<Rightarrow> ('ctx, 'tr) broker \<Rightarrow> ('ctx, 'tr) broker" where
  "route_one E topic payload q si b =
     with_session si b (\<lambda>s.
       let (matched, granted_max) = granted_for (\<lambda>sub. topic_matches (sub_filter sub) topic) (s_subs s)
       in if \<not> matched then b
          else if \<not> sec_receive (e_sec E) (s_auth_ctx s) topic then notify_denied receive_denied s topic b
          else
            let online = (case conn_of_session (e_traits E) s b of None \<Rightarrow> False | Some oc \<Rightarrow> \<not> cn_dead oc);
                eff = qos_min q granted_max
            in if eff = at_most_once then
                 (if online
                  then send_to E (conn_index (e_traits E) s)
                         (publish_pkt (e_traits E) topic payload at_most_once False False 0) b
                  else b)
               else if online \<or> \<not> s_clean_session s then enqueue E si topic payload eff False b
               else b)"

definition route_publish :: "('ctx, 'tr) env \<Rightarrow> bytes \<Rightarrow> bytes \<Rightarrow> qos \<Rightarrow> ('ctx, 'tr) broker \<Rightarrow> ('ctx, 'tr) broker" where
  "route_publish E topic payload q b =
     pool_for_each (max_sessions (e_traits E)) b_sessions (route_one E topic payload q) b"

section \<open>Replay of retained messages\<close>

definition any_retain_pending :: "'ctx session \<Rightarrow> bool" where
  "any_retain_pending s \<longleftrightarrow> list_ex sub_retain_pending (s_subs s)"

text \<open>
  One visit of the callback, on \<open>(index, paused, broker)\<close>; \<open>ri\<close> is the slot visited. The
  session is re-read on every visit because \<open>enqueue\<close> changes it.
\<close>

definition replay_one :: "('ctx, 'tr) env \<Rightarrow> nat \<Rightarrow> nat \<Rightarrow> nat
    \<Rightarrow> u16 \<times> bool \<times> ('ctx, 'tr) broker \<Rightarrow> u16 \<times> bool \<times> ('ctx, 'tr) broker" where
  "replay_one E ci si ri st =
    (let (index, paused, b) = st; here = index; index = index + 1
     in case (session_at b si, pool_at (b_retained b) ri) of
          (Some s, Some e) \<Rightarrow>
            if paused \<or> here < s_retain_cursor s then (index, paused, b)
            else
              let (matched, granted_max) =
                    granted_for (\<lambda>sub. sub_retain_pending sub \<and> topic_matches (sub_filter sub) (re_topic e)) (s_subs s)
              in if \<not> matched then (index, paused, b)
                 else if \<not> sec_receive (e_sec E) (s_auth_ctx s) (re_topic e)
                 then (index, paused, notify_denied receive_denied s (re_topic e) b)
                 else
                   let eff = qos_min granted_max (re_qos e)
                   in if eff \<noteq> at_most_once
                      then (index, paused, enqueue E si (re_topic e) (re_payload e) eff True b)
                      else
                        let pkt = publish_pkt (e_traits E) (re_topic e) (re_payload e) at_most_once True False 0
                        in if pkt = [] then (index, paused, notify_drop s (re_topic e) at_most_once Err_oversize b)
                           else
                             let r = try_send_to E ci pkt b
                             in if \<not> snd r
                                then (index, True, upd_session si (\<lambda>s. s\<lparr>s_retain_cursor := here\<rparr>) (fst r))
                                else (index, paused, fst r)
        | _ \<Rightarrow> (index, paused, fail b))"

definition clear_retain_pending :: "'ctx session \<Rightarrow> 'ctx session" where
  "clear_retain_pending s = s\<lparr>s_subs := map (\<lambda>sub. sub\<lparr>sub_retain_pending := False\<rparr>) (s_subs s)\<rparr>"

definition replay_retained :: "('ctx, 'tr) env \<Rightarrow> nat \<Rightarrow> nat \<Rightarrow> ('ctx, 'tr) broker \<Rightarrow> ('ctx, 'tr) broker" where
  "replay_retained E ci si b =
    (let (index, paused, b) =
           retained_for_each (max_retained (e_traits E)) (\<lambda>(index, paused, b). b_retained b)
             (replay_one E ci si) (0, False, b)
     in if paused then b
        else upd_session si (\<lambda>s. clear_retain_pending (s\<lparr>s_retain_cursor := 0\<rparr>)) b)"

section \<open>Teardown\<close>

text \<open>The will of session \<open>si\<close>, published once it is detached.\<close>

definition publish_will :: "('ctx, 'tr) env \<Rightarrow> 'ctx session \<Rightarrow> ('ctx, 'tr) broker \<Rightarrow> ('ctx, 'tr) broker" where
  "publish_will E s b =
    (if sec_publish (e_sec E) (s_auth_ctx s) (s_will_topic s) then
       let b = (if s_will_retain s
                then fst (apply_retain E (s_will_topic s) (s_will_payload s) (s_will_qos s) b) else b)
       in route_publish E (s_will_topic s) (s_will_payload s) (s_will_qos s) b
     else b)"

definition teardown :: "('ctx, 'tr) env \<Rightarrow> nat \<Rightarrow> ('ctx, 'tr) broker \<Rightarrow> ('ctx, 'tr) broker" where
  "teardown E ci b =
    (let s = session_of b (conn_at b ci);
         to_notify = cn_notify_transport (conn_at b ci);
         b = notify_conn E connection_closed ci b;
         b = upd_conn ci (\<lambda>c. c\<lparr>cn_active := False, cn_dead := False, cn_session := no_session\<rparr>) b;
         b = (case s of
                None \<Rightarrow> b
              | Some si \<Rightarrow>
                  let order = b_disconnect_order b + 1;
                      b = b\<lparr>b_disconnect_order := order\<rparr>;
                      b = upd_session si (\<lambda>s. s\<lparr>s_conn := no_conn, s_disconnect_ms := b_now_ms b,
                                                 s_disconnect_order := order\<rparr>) b;
                      b = with_session si b (\<lambda>s.
                            if s_has_will s
                            then publish_will E s (put_session si (s\<lparr>s_has_will := False\<rparr>) b)
                            else b)
                  in with_session si b (\<lambda>s. if s_clean_session s then release_session si b else b))
     in if to_notify then transport_close E ci b else b)"

definition flush_pass :: "('ctx, 'tr) env \<Rightarrow> ('ctx, 'tr) broker \<Rightarrow> bool \<times> ('ctx, 'tr) broker" where
  "flush_pass E b =
     fold (\<lambda>i (again, b). if cn_active (conn_at b i) \<and> cn_dead (conn_at b i)
                          then (True, teardown E i b) else (again, b))
       [0..<max_connections (e_traits E)] (False, b)"

end
