(* ===== verification/Queue_Inv.thy ===== *)
theory Queue_Inv
  imports Session
begin

text \<open>
  The invariant of a session's outbound queue and of the session record, and its
  preservation by the list operations the broker performs on them: a message is
  appended, put in flight, acknowledged, or dropped. In-flight messages come first and
  carry distinct non-zero packet identifiers; the queued ones follow in the order they
  were published.
\<close>

definition msg_ok :: "nat \<Rightarrow> nat \<Rightarrow> out_msg \<Rightarrow> bool" where
  "msg_ok max_topic max_payload m \<longleftrightarrow>
     length (om_topic m) \<le> max_topic \<and> length (om_payload m) \<le> max_payload
     \<and> om_qos m \<noteq> at_most_once
     \<and> (om_state m \<noteq> queued \<longrightarrow> om_packet_id m \<noteq> 0)
     \<and> (om_state m = awaiting_puback \<longrightarrow> om_qos m = at_least_once)
     \<and> (om_state m = awaiting_pubrec \<or> om_state m = awaiting_pubcomp \<longrightarrow> om_qos m = exactly_once)
     \<and> (om_resend_pubrel m \<longrightarrow> om_state m = awaiting_pubcomp)"

definition in_flight_ids :: "out_msg list \<Rightarrow> u16 list" where
  "in_flight_ids ps = map om_packet_id (filter (\<lambda>m. om_state m \<noteq> queued) ps)"

definition pending_ok :: "nat \<Rightarrow> nat \<Rightarrow> nat \<Rightarrow> out_msg list \<Rightarrow> bool" where
  "pending_ok max_pending max_topic max_payload ps \<longleftrightarrow>
     length ps \<le> max_pending \<and> list_all (msg_ok max_topic max_payload) ps
     \<and> distinct (in_flight_ids ps)
     \<and> sorted_wrt (\<lambda>a b. om_state a = queued \<longrightarrow> om_state b = queued) ps"

lemma in_flight_ids_append [simp]: "in_flight_ids (a @ b) = in_flight_ids a @ in_flight_ids b"
  by (simp add: in_flight_ids_def)

lemma in_flight_ids_Cons [simp]:
  "in_flight_ids (m # b) = (if om_state m = queued then in_flight_ids b else om_packet_id m # in_flight_ids b)"
  by (simp add: in_flight_ids_def)

lemma in_flight_ids_Nil [simp]: "in_flight_ids [] = []"
  by (simp add: in_flight_ids_def)

lemma id_in_use_iff: "id_in_use ps pid \<longleftrightarrow> pid \<in> set (in_flight_ids ps)"
  by (auto simp: id_in_use_def in_flight_ids_def list_ex_iff)

lemma pending_ok_Nil [simp]: "pending_ok mp mt my []"
  by (simp add: pending_ok_def)

lemma pending_ok_split:
  "pending_ok mp mt my (a @ m # c) \<longleftrightarrow> pending_ok mp mt my (a @ c) \<and> Suc (length a + length c) \<le> mp \<and> msg_ok mt my m
     \<and> (om_state m \<noteq> queued \<longrightarrow> om_packet_id m \<notin> set (in_flight_ids (a @ c)) \<and> (\<forall>x \<in> set a. om_state x \<noteq> queued))
     \<and> (om_state m = queued \<longrightarrow> (\<forall>x \<in> set c. om_state x = queued))"
  by (auto simp: pending_ok_def sorted_wrt_append)

lemma pending_ok_remove:
  assumes "pending_ok mp mt my ps" "i < length ps"
  shows "pending_ok mp mt my (sv_remove_ordered i ps)"
  using assms pending_ok_split [of mp mt my "take i ps" "ps ! i" "drop (Suc i) ps"]
  by (simp add: sv_remove_ordered_eq id_take_nth_drop [symmetric])

lemma pending_ok_update:
  assumes "pending_ok mp mt my ps" "i < length ps" "msg_ok mt my m"
    and "om_state m = om_state (ps ! i) \<and> om_packet_id m = om_packet_id (ps ! i)
       \<or> om_state m \<noteq> queued \<and> om_state (ps ! i) \<noteq> queued \<and> om_packet_id m = om_packet_id (ps ! i)
       \<or> om_state m \<noteq> queued \<and> om_state (ps ! i) = queued \<and> om_packet_id m \<notin> set (in_flight_ids ps)
         \<and> (\<forall>j < i. om_state (ps ! j) \<noteq> queued)"
  shows "pending_ok mp mt my (ps[i := m])"
proof -
  let ?a = "take i ps" and ?c = "drop (Suc i) ps"
  have ps: "ps = ?a @ ps ! i # ?c" using assms(2) by (rule id_take_nth_drop)
  have up: "ps[i := m] = ?a @ m # ?c" using assms(2) by (rule upd_conv_take_nth_drop)
  have pre: "(\<forall>x \<in> set ?a. om_state x \<noteq> queued) \<longleftrightarrow> (\<forall>j < i. om_state (ps ! j) \<noteq> queued)"
    using assms(2) by (simp add: all_set_conv_all_nth)
  have ids: "set (in_flight_ids ps) = set (in_flight_ids (?a @ ?c)) \<union> (if om_state (ps ! i) = queued then {} else {om_packet_id (ps ! i)})"
    using in_flight_ids_append [of ?a "ps ! i # ?c", folded ps] by auto
  have ok: "pending_ok mp mt my (?a @ ?c)" "Suc (length ?a + length ?c) \<le> mp"
    "om_state (ps ! i) \<noteq> queued \<longrightarrow> om_packet_id (ps ! i) \<notin> set (in_flight_ids (?a @ ?c)) \<and> (\<forall>x \<in> set ?a. om_state x \<noteq> queued)"
    "om_state (ps ! i) = queued \<longrightarrow> (\<forall>x \<in> set ?c. om_state x = queued)"
    using pending_ok_split [of mp mt my ?a "ps ! i" ?c, folded ps] assms(1) by blast+
  show ?thesis
    unfolding up pending_ok_split
  proof (intro conjI ok assms(3))
    show "om_state m \<noteq> queued \<longrightarrow> om_packet_id m \<notin> set (in_flight_ids (?a @ ?c)) \<and> (\<forall>x \<in> set ?a. om_state x \<noteq> queued)"
      using assms(4) ok(3) unfolding ids pre by (cases "om_state (ps ! i) = queued") force+
    show "om_state m = queued \<longrightarrow> (\<forall>x \<in> set ?c. om_state x = queued)"
      using assms(4) ok(4) by metis
  qed
qed

lemma pending_ok_append:
  "pending_ok mp mt my ps \<Longrightarrow> length ps < mp \<Longrightarrow> msg_ok mt my m \<Longrightarrow> om_state m = queued \<Longrightarrow>
   pending_ok mp mt my (ps @ [m])"
  using pending_ok_split [of mp mt my ps m "[]"] by simp

end
