(* ===== verification/Broker_Frame.thy ===== *)
theory Broker_Frame
  imports Broker_Deliver Queue_Inv
begin

text \<open>
  What a delivery may change. \<open>delivers b b'\<close> says that between \<open>b\<close> and \<open>b'\<close> the trace has
  grown, some active connections may have been marked dead, and sessions differ at most
  in their queue, their packet-id counter and their replay bookkeeping. Every operation
  that queues or sends is shown to be of this kind, and to keep the sessions in order
  without getting stuck.
\<close>

section \<open>Session invariant\<close>

definition session_ok :: "traits \<Rightarrow> 'ctx session \<Rightarrow> bool" where
  "session_ok T s \<longleftrightarrow>
     pending_ok (max_pending_per_session T) (max_topic_len T) (max_payload_len T) (s_pending s)
     \<and> length (s_subs s) \<le> max_subscriptions_per_session T
     \<and> distinct (map sub_filter (s_subs s))
     \<and> list_all (\<lambda>sub. length (sub_filter sub) \<le> max_topic_len T \<and> topic_filter_valid (sub_filter sub)) (s_subs s)
     \<and> length (s_inbound_qos2 s) \<le> max_inbound_qos2 T \<and> distinct (s_inbound_qos2 s)
     \<and> s_client_id s \<noteq> [] \<and> length (s_client_id s) \<le> max_client_id_len T
     \<and> (s_has_will s \<longrightarrow> connected s \<and> topic_name_valid (s_will_topic s)
          \<and> length (s_will_topic s) \<le> max_topic_len T \<and> length (s_will_payload s) \<le> max_payload_len T)"

definition sessions_ok :: "traits \<Rightarrow> ('ctx, 'tr) broker \<Rightarrow> bool" where
  "sessions_ok T b \<longleftrightarrow> (\<forall>si s. session_at b si = Some s \<longrightarrow> session_ok T s) \<and> \<not> b_stuck b"

text \<open>Bounds the code relies on without asserting them all; see \<open>traits_asserted\<close>.\<close>

definition traits_ok :: "traits \<Rightarrow> bool" where
  "traits_ok T \<longleftrightarrow> traits_asserted T \<and> max_connections T \<le> 0xFFFF \<and> max_sessions T \<le> 0xFFFF
     \<and> max_pending_per_session T < 0xFFFF \<and> 0 < max_inbound_qos2 T"

section \<open>The relation\<close>

definition conn_le :: "conn \<Rightarrow> conn \<Rightarrow> bool" where
  "conn_le c c' \<longleftrightarrow> c' = c \<or> cn_active c \<and> c' = c\<lparr>cn_dead := True\<rparr>"

definition core :: "'ctx session \<Rightarrow> 'ctx session" where
  "core s = clear_retain_pending (s\<lparr>s_pending := [], s_last_packet_id := 0, s_retain_cursor := 0\<rparr>)"

definition delivers :: "('ctx, 'tr) broker \<Rightarrow> ('ctx, 'tr) broker \<Rightarrow> bool" where
  "delivers b b' \<longleftrightarrow>
     length (b_conns b') = length (b_conns b)
     \<and> (\<forall>ci. conn_le (conn_at b ci) (conn_at b' ci))
     \<and> (\<forall>cap. pool_inv cap (b_sessions b) \<longrightarrow> pool_inv cap (b_sessions b'))
     \<and> (\<forall>si. map_option core (session_at b' si) = map_option core (session_at b si))
     \<and> b_retained b' = b_retained b \<and> b_now_ms b' = b_now_ms b
     \<and> b_disconnect_order b' = b_disconnect_order b \<and> b_auto_id_counter b' = b_auto_id_counter b
     \<and> (\<exists>ext. b_trace b' = b_trace b @ ext)"

lemma conn_le_refl [simp]: "conn_le c c"
  by (simp add: conn_le_def)

lemma conn_le_trans: "conn_le a b \<Longrightarrow> conn_le b c \<Longrightarrow> conn_le a c"
  by (auto simp: conn_le_def)

lemma delivers_refl [simp, intro]: "delivers b b"
  by (simp add: delivers_def)

lemma delivers_trans [trans]: "delivers a b \<Longrightarrow> delivers b c \<Longrightarrow> delivers a c"
  unfolding delivers_def by (auto intro: conn_le_trans)

lemma delivers_session:
  "delivers b b' \<Longrightarrow> session_at b si = Some s \<Longrightarrow> \<exists>s'. session_at b' si = Some s' \<and> core s' = core s"
  unfolding delivers_def by (cases "session_at b' si") (auto dest: spec [of _ si])

lemma delivers_session_back:
  "delivers b b' \<Longrightarrow> session_at b' si = Some s' \<Longrightarrow> \<exists>s. session_at b si = Some s \<and> core s' = core s"
  unfolding delivers_def by (cases "session_at b si") (auto dest: spec [of _ si])

lemma delivers_None: "delivers b b' \<Longrightarrow> session_at b' si = None \<longleftrightarrow> session_at b si = None"
  using delivers_session [of b b' si] delivers_session_back [of b b' si]
  by (cases "session_at b si"; cases "session_at b' si") auto

lemma delivers_notify [simp, intro]: "delivers b (notify e b)"
  by (simp add: delivers_def) (simp add: notify_def)

lemma delivers_fail [simp, intro]: "delivers b (fail b)"
  by (simp add: delivers_def fail_def conn_at_def session_at_def)

lemma delivers_transport_send: "delivers b (fst (transport_send E ci pkt b))"
  by (simp add: delivers_def transport_send_def conn_at_def session_at_def split: prod.split)

lemma delivers_mark_dead: "cn_active (conn_at b ci) \<Longrightarrow> delivers b (mark_dead ci b)"
  by (auto simp: delivers_def mark_dead_def conn_at_upd conn_le_def)

lemma delivers_try_send [simp, intro]: "delivers b (fst (try_send_to E ci pkt b))"
  by (simp add: try_send_to_def delivers_transport_send Let_def)

lemma conn_at_transport_send: "conn_at (fst (transport_send E ci pkt b)) = conn_at b"
  by (rule conn_at_cong) (simp add: transport_send_def split: prod.split)

lemma delivers_send_to [simp, intro]: "delivers b (send_to E ci pkt b)"
proof -
  obtain b1 sent where t: "transport_send E ci pkt b = (b1, sent)" by fastforce
  have d: "delivers b b1" "conn_at b1 = conn_at b"
    using delivers_transport_send [of b E ci pkt] conn_at_transport_send [of E ci pkt b] t by simp_all
  have "delivers b1 (mark_dead ci (notify_conn E transport_send_failed ci b1))" if "cn_active (conn_at b ci)"
    unfolding notify_conn_def
    by (rule delivers_trans [OF delivers_notify delivers_mark_dead]) (use that d(2) in simp)
  then show ?thesis
    using d(1) t by (auto simp: send_to_def Let_def intro: delivers_trans)
qed

lemma put_session_sel [simp]:
  "b_conns (put_session si s b) = b_conns b" "b_retained (put_session si s b) = b_retained b"
  "b_now_ms (put_session si s b) = b_now_ms b" "b_stuck (put_session si s b) = b_stuck b"
  "b_disconnect_order (put_session si s b) = b_disconnect_order b" "b_tr (put_session si s b) = b_tr b"
  "b_auto_id_counter (put_session si s b) = b_auto_id_counter b" "b_trace (put_session si s b) = b_trace b"
  by (simp_all add: put_session_def)

lemma conn_at_put_session [simp]: "conn_at (put_session si s b) = conn_at b"
  by (rule conn_at_cong) simp

lemma delivers_put:
  assumes "session_at b si = Some s" "core s' = core s"
  shows "delivers b (put_session si s' b)"
proof -
  have "pool_inv cap (b_sessions (put_session si s' b))" if "pool_inv cap (b_sessions b)" for cap
    using pool_inv_put [OF that, of si s s'] assms(1) by (simp add: put_session_def session_at_def)
  then show ?thesis using assms by (simp add: delivers_def session_at_put)
qed

lemma delivers_upd_session:
  "(\<And>s. core (f s) = core s) \<Longrightarrow> delivers b (upd_session si f b)"
  by (cases "session_at b si") (auto simp: upd_session_def with_session_def delivers_put)

lemma core_pending [simp]: "core (s\<lparr>s_pending := ps\<rparr>) = core s" "core (s\<lparr>s_retain_cursor := k\<rparr>) = core s"
  "core (s\<lparr>s_last_packet_id := l\<rparr>) = core s" "core (clear_retain_pending s) = core s"
  by (simp_all add: core_def clear_retain_pending_def)

lemma delivers_upd_pending [simp, intro]: "delivers b (upd_pending si i f b)"
  unfolding upd_pending_def by (rule delivers_upd_session) simp

lemma delivers_drop_pending [simp, intro]: "delivers b (drop_pending si i b)"
  unfolding drop_pending_def by (rule delivers_upd_session) simp

lemma alloc_core: "alloc_packet_id s = Some (pid, s') \<Longrightarrow> core s' = core s"
  by (auto simp: alloc_packet_id_def split: option.splits)

lemma delivers_put_alloc:
  "session_at b si = Some s \<Longrightarrow> alloc_packet_id s = Some (pid, s') \<Longrightarrow> delivers b (put_session si s' b)"
  using delivers_put [of b si s s'] alloc_core by blast

lemma delivers_put_same: "session_at b si = Some s \<Longrightarrow> delivers b (put_session si s b)"
  using delivers_put [of b si s s] by simp

lemma delivers_sent: "delivers b b0 \<Longrightarrow> delivers b (upd_pending si i f (fst (try_send_to E ci pkt b0)))"
  using delivers_trans [OF delivers_try_send delivers_upd_pending] delivers_trans by blast

lemma delivers_refused: "delivers b b0 \<Longrightarrow> delivers b (fst (try_send_to E ci pkt b0))"
  using delivers_trans by blast

lemma delivers_dropped: "delivers b b0 \<Longrightarrow> delivers b (drop_pending si i (notify_drop s t q e b0))"
  unfolding notify_drop_def using delivers_trans [OF delivers_notify delivers_drop_pending] delivers_trans by blast

lemmas delivers_queue = delivers_put_alloc delivers_put_same delivers_sent delivers_refused delivers_dropped

lemma delivers_pump_step: "pump_step E si i b = (go_on, i', b') \<Longrightarrow> delivers b b'"
  by (auto simp: pump_step_def Let_def delivers_queue split: option.splits if_splits prod.splits)

lemma delivers_resume_step: "resume_step E si i b = (go_on, i', b') \<Longrightarrow> delivers b b'"
  by (auto simp: resume_step_def Let_def delivers_queue split: option.splits if_splits prod.splits)

lemma delivers_pump_loop: "delivers b (pump_loop E si i b)"
proof (induction E si i b rule: pump_loop.induct)
  case (1 E si i b)
  obtain go i' b' where p: "pump_step E si i b = (go, i', b')" by (metis prod_cases3)
  show ?case
    using 1 [OF p [symmetric] refl] delivers_pump_step [OF p] p
    by (auto simp: pump_loop.simps [of E si i b] intro: delivers_trans)
qed

lemma delivers_resume_loop: "delivers b (resume_loop E si i b)"
proof (induction E si i b rule: resume_loop.induct)
  case (1 E si i b)
  obtain go i' b' where p: "resume_step E si i b = (go, i', b')" by (metis prod_cases3)
  show ?case
    using 1 [OF p [symmetric] refl] delivers_resume_step [OF p] p
    by (auto simp: resume_loop.simps [of E si i b] intro: delivers_trans)
qed

section \<open>The queue keeps its invariant\<close>

lemma sessions_ok_at: "sessions_ok T b \<Longrightarrow> session_at b si = Some s \<Longrightarrow> session_ok T s"
  by (simp add: sessions_ok_def)

lemma sessions_ok_put:
  "sessions_ok T b \<Longrightarrow> session_at b si = Some s \<Longrightarrow> session_ok T s' \<Longrightarrow> sessions_ok T (put_session si s' b)"
  by (auto simp: sessions_ok_def session_at_put split: if_splits)

lemma sessions_ok_cong:
  "sessions_ok T b \<Longrightarrow> b_sessions b' = b_sessions b \<Longrightarrow> b_stuck b' = b_stuck b \<Longrightarrow> sessions_ok T b'"
  by (simp add: sessions_ok_def session_at_def)

lemma sessions_ok_notify [simp]: "sessions_ok T (notify e b) = sessions_ok T b"
  by (simp add: sessions_ok_def)

lemma sessions_ok_try [simp]: "sessions_ok T b \<Longrightarrow> sessions_ok T (fst (try_send_to E ci pkt b))"
  by (erule sessions_ok_cong)
    (simp_all add: try_send_to_def transport_send_def Let_def split: prod.splits)

lemma sessions_ok_send_to [simp]: "sessions_ok T b \<Longrightarrow> sessions_ok T (send_to E ci pkt b)"
  by (erule sessions_ok_cong)
    (auto simp: send_to_def transport_send_def Let_def mark_dead_def notify_defs split: prod.splits)

lemma session_ok_pending:
  "session_ok T s \<Longrightarrow> pending_ok (max_pending_per_session T) (max_topic_len T) (max_payload_len T) ps \<Longrightarrow>
   session_ok T (s\<lparr>s_pending := ps\<rparr>)"
  by (simp add: session_ok_def connected_def)

lemma session_ok_pendingD:
  "session_ok T s \<Longrightarrow> pending_ok (max_pending_per_session T) (max_topic_len T) (max_payload_len T) (s_pending s)"
  by (simp add: session_ok_def)

lemma session_ok_alloc: "session_ok T s \<Longrightarrow> alloc_packet_id s = Some (pid, s') \<Longrightarrow> session_ok T s'"
  by (auto simp: alloc_packet_id_def session_ok_def connected_def split: option.splits)

lemma alloc_id_Some:
  assumes "traits_ok T" "session_ok T s"
  shows "\<exists>pid. alloc_packet_id s = Some (pid, s\<lparr>s_last_packet_id := pid\<rparr>) \<and> pid \<noteq> 0 \<and> \<not> id_in_use (s_pending s) pid"
proof -
  have "length (s_pending s) < 65535"
    using assms by (simp add: traits_ok_def session_ok_def pending_ok_def)
  then show ?thesis using alloc_packet_id_fresh [of s] by metis
qed

text \<open>Everything before the index has left the queued state.\<close>

definition sent_before :: "nat \<Rightarrow> 'ctx session \<Rightarrow> bool" where
  "sent_before i s \<longleftrightarrow> (\<forall>j < i. j < length (s_pending s) \<longrightarrow> om_state (s_pending s ! j) \<noteq> queued)"

definition loop_inv :: "traits \<Rightarrow> nat \<Rightarrow> nat \<Rightarrow> ('ctx, 'tr) broker \<Rightarrow> bool" where
  "loop_inv T si i b \<longleftrightarrow> sessions_ok T b \<and> (\<exists>s. session_at b si = Some s \<and> sent_before i s)"

lemma loop_inv_upd:
  assumes ok: "sessions_ok T b" and s: "session_at b si = Some s" "sent_before i s" "i < length (s_pending s)"
    and m: "msg_ok (max_topic_len T) (max_payload_len T) (f (s_pending s ! i))" "om_state (f (s_pending s ! i)) \<noteq> queued"
    and id: "om_state (s_pending s ! i) \<noteq> queued \<and> om_packet_id (f (s_pending s ! i)) = om_packet_id (s_pending s ! i)
       \<or> om_state (s_pending s ! i) = queued \<and> \<not> id_in_use (s_pending s) (om_packet_id (f (s_pending s ! i)))"
  shows "loop_inv T si (Suc i) (upd_pending si i f b)"
proof -
  let ?ps = "(s_pending s)[i := f (s_pending s ! i)]"
  have "pending_ok (max_pending_per_session T) (max_topic_len T) (max_payload_len T) ?ps"
    by (rule pending_ok_update [OF session_ok_pendingD [OF sessions_ok_at [OF ok s(1)]] s(3) m(1)])
      (use id m(2) s in \<open>auto simp: id_in_use_iff sent_before_def\<close>)
  then have "sessions_ok T (put_session si (s\<lparr>s_pending := ?ps\<rparr>) b)"
    using sessions_ok_put [OF ok s(1)] session_ok_pending [OF sessions_ok_at [OF ok s(1)]] by blast
  moreover have "sent_before (Suc i) (s\<lparr>s_pending := ?ps\<rparr>)"
    using s(2) m(2) by (auto simp: sent_before_def less_Suc_eq nth_list_update)
  ultimately show ?thesis
    using s(1) by (simp add: loop_inv_def upd_pending_def upd_session_Some session_at_put)
qed

lemma loop_inv_drop:
  assumes ok: "sessions_ok T b" and s: "session_at b si = Some s" "sent_before i s" "i < length (s_pending s)"
  shows "loop_inv T si i (drop_pending si i b)"
proof -
  let ?ps = "sv_remove_ordered i (s_pending s)"
  have "pending_ok (max_pending_per_session T) (max_topic_len T) (max_payload_len T) ?ps"
    by (rule pending_ok_remove [OF session_ok_pendingD [OF sessions_ok_at [OF ok s(1)]] s(3)])
  then have "sessions_ok T (put_session si (s\<lparr>s_pending := ?ps\<rparr>) b)"
    using sessions_ok_put [OF ok s(1)] session_ok_pending [OF sessions_ok_at [OF ok s(1)]] by blast
  moreover have "sent_before i (s\<lparr>s_pending := ?ps\<rparr>)"
    using s(2,3) by (auto simp: sent_before_def sv_remove_ordered_eq nth_append)
  ultimately show ?thesis
    using s(1) by (simp add: loop_inv_def drop_pending_def upd_session_Some session_at_put)
qed

lemma loop_invD: "loop_inv T si i b \<Longrightarrow> sessions_ok T b"
  by (simp add: loop_inv_def)

lemma sent_before_Suc:
  "sent_before i s \<Longrightarrow> om_state (s_pending s ! i) \<noteq> queued \<Longrightarrow> sent_before (Suc i) s"
  by (auto simp: sent_before_def less_Suc_eq)

lemma msg_ok_at:
  "session_ok T s \<Longrightarrow> i < length (s_pending s) \<Longrightarrow> msg_ok (max_topic_len T) (max_payload_len T) (s_pending s ! i)"
  by (simp add: session_ok_def pending_ok_def list_all_length)

lemma msg_ok_in_flight:
  "msg_ok mt mp m \<Longrightarrow> pid \<noteq> 0 \<Longrightarrow> om_state m = queued \<Longrightarrow>
   msg_ok mt mp (m\<lparr>om_packet_id := pid, om_state := in_flight_state (om_qos m)\<rparr>)"
  by (cases "om_qos m") (auto simp: msg_ok_def in_flight_state_def)

lemma in_flight_state_not_queued [simp]: "in_flight_state q \<noteq> queued"
  by (simp add: in_flight_state_def)

lemma session_at_tried [simp]: "session_at (fst (try_send_to E ci pkt b)) = session_at b"
  by (rule session_at_try)

text \<open>
  Sending a queued entry: the identifier is fresh, so the entry may be put in flight;
  both loops share this round.
\<close>

lemma first_send_ok:
  assumes T: "traits_ok T" and ok: "sessions_ok T b" and s: "session_at b si = Some s" "sent_before i s"
    and i: "i < length (s_pending s)" "om_state (s_pending s ! i) = queued"
  obtains pid s' where "alloc_packet_id s = Some (pid, s')" "session_ok T s'"
    "sessions_ok T (put_session si s' b)"
    "\<And>E ci pkt. loop_inv T si (Suc i) (upd_pending si i (\<lambda>m. m\<lparr>om_packet_id := pid, om_state := in_flight_state (om_qos m)\<rparr>)
        (fst (try_send_to E ci pkt (put_session si s' b))))"
    "\<And>t q e. loop_inv T si i (drop_pending si i (notify_drop s' t q e (put_session si s' b)))"
proof -
  have so: "session_ok T s" by (rule sessions_ok_at [OF ok s(1)])
  obtain pid where al: "alloc_packet_id s = Some (pid, s\<lparr>s_last_packet_id := pid\<rparr>)" "pid \<noteq> 0" "\<not> id_in_use (s_pending s) pid"
    using alloc_id_Some [OF T so] by blast
  let ?s = "s\<lparr>s_last_packet_id := pid\<rparr>"
  have so': "session_ok T ?s" by (rule session_ok_alloc [OF so al(1)])
  then have ok': "sessions_ok T (put_session si ?s b)" by (rule sessions_ok_put [OF ok s(1)])
  have at: "session_at (put_session si ?s b) si = Some ?s" using s(1) by (simp add: session_at_put)
  have sb: "sent_before i ?s" using s(2) by (simp add: sent_before_def)
  show ?thesis
  proof (rule that [OF al(1) so' ok'])
    show "loop_inv T si (Suc i) (upd_pending si i (\<lambda>m. m\<lparr>om_packet_id := pid, om_state := in_flight_state (om_qos m)\<rparr>)
        (fst (try_send_to E ci pkt (put_session si ?s b))))" for E ci pkt
      by (rule loop_inv_upd [OF sessions_ok_try [OF ok'], of _ _ _ si ?s])
        (use at sb i al msg_ok_in_flight [OF msg_ok_at [OF so i(1)] al(2) i(2)] in auto)
    show "loop_inv T si i (drop_pending si i (notify_drop ?s t q e (put_session si ?s b)))" for t q e
      unfolding notify_drop_def by (rule loop_inv_drop [of _ _ _ ?s]) (use ok' at sb i in auto)
  qed
qed

lemma pubrel_sent_ok:
  assumes ok: "sessions_ok T b" and s: "session_at b si = Some s" "sent_before i s"
    and i: "i < length (s_pending s)" "om_state (s_pending s ! i) = awaiting_pubcomp"
  shows "loop_inv T si (Suc i) (upd_pending si i (\<lambda>m. m\<lparr>om_resend_pubrel := r\<rparr>) (fst (try_send_to E ci pkt b)))"
  by (rule loop_inv_upd [OF sessions_ok_try [OF ok], of _ _ _ si s])
    (use s i msg_ok_at [OF sessions_ok_at [OF ok s(1)] i(1)] in \<open>auto simp: msg_ok_def\<close>)

lemma pump_step_ok:
  assumes T: "traits_ok (e_traits E)" and inv: "loop_inv (e_traits E) si i b"
    and st: "pump_step E si i b = (go_on, i', b')"
  shows "sessions_ok (e_traits E) b' \<and> (go_on \<longrightarrow> loop_inv (e_traits E) si i' b')"
proof -
  obtain s where ok: "sessions_ok (e_traits E) b" and s: "session_at b si = Some s" "sent_before i s"
    using inv by (auto simp: loop_inv_def)
  show ?thesis
  proof (cases "i < length (s_pending s) \<and> (\<exists>c. conn_of_session (e_traits E) s b = Some c \<and> \<not> cn_dead c)")
    case False
    then have "b' = b" "\<not> go_on" using st s by (auto simp: pump_step_def split: option.splits if_splits)
    then show ?thesis using ok by simp
  next
    case True
    then obtain c where i: "i < length (s_pending s)" and c: "conn_of_session (e_traits E) s b = Some c" "\<not> cn_dead c" by blast
    consider (rel) "om_state (s_pending s ! i) = awaiting_pubcomp \<and> om_resend_pubrel (s_pending s ! i)"
      | (skip) "om_state (s_pending s ! i) \<noteq> queued" "\<not> (om_state (s_pending s ! i) = awaiting_pubcomp \<and> om_resend_pubrel (s_pending s ! i))"
      | (send) "om_state (s_pending s ! i) = queued" by blast
    then show ?thesis
    proof cases
      case rel
      then show ?thesis using st s i c ok pubrel_sent_ok [OF ok s i]
        by (auto simp: pump_step_def Let_def loop_inv_def split: if_splits)
    next
      case skip
      then show ?thesis using st s i c ok sent_before_Suc [OF s(2)] by (auto simp: pump_step_def Let_def loop_inv_def)
    next
      case send
      obtain pid s' where al: "alloc_packet_id s = Some (pid, s')" "sessions_ok (e_traits E) (put_session si s' b)"
        and f: "\<And>E' ci pkt. loop_inv (e_traits E) si (Suc i) (upd_pending si i (\<lambda>m. m\<lparr>om_packet_id := pid,
              om_state := in_flight_state (om_qos m)\<rparr>) (fst (try_send_to E' ci pkt (put_session si s' b))))"
          "\<And>t q e. loop_inv (e_traits E) si i (drop_pending si i (notify_drop s' t q e (put_session si s' b)))"
        by (rule first_send_ok [OF T ok s i send]) blast
      show ?thesis using st s i c send al f(1) [of _ _ _, THEN loop_invD] f(1) f(2) [THEN loop_invD] f(2)
        by (auto simp: pump_step_def Let_def split: if_splits)
    qed
  qed
qed

lemma resend_ok:
  assumes ok: "sessions_ok T b" and s: "session_at b si = Some s" "sent_before i s"
    and i: "i < length (s_pending s)" "om_state (s_pending s ! i) \<noteq> queued"
  shows "sessions_ok T (put_session si s b)"
    "loop_inv T si (Suc i) (upd_pending si i (\<lambda>m. m\<lparr>om_dup := True\<rparr>) (fst (try_send_to E ci pkt (put_session si s b))))"
    "loop_inv T si i (drop_pending si i (notify_drop s t q e (put_session si s b)))"
proof -
  show ok': "sessions_ok T (put_session si s b)" by (rule sessions_ok_put [OF ok s(1) sessions_ok_at [OF ok s(1)]])
  have at: "session_at (put_session si s b) si = Some s" using s(1) by (simp add: session_at_put)
  show "loop_inv T si (Suc i) (upd_pending si i (\<lambda>m. m\<lparr>om_dup := True\<rparr>) (fst (try_send_to E ci pkt (put_session si s b))))"
    by (rule loop_inv_upd [OF sessions_ok_try [OF ok'], of _ _ _ si s])
      (use at s i msg_ok_at [OF sessions_ok_at [OF ok s(1)] i(1)] in \<open>auto simp: msg_ok_def\<close>)
  show "loop_inv T si i (drop_pending si i (notify_drop s t q e (put_session si s b)))"
    unfolding notify_drop_def by (rule loop_inv_drop [of _ _ _ s]) (use ok' at s i in auto)
qed

lemma resume_step_ok:
  assumes T: "traits_ok (e_traits E)" and inv: "loop_inv (e_traits E) si i b"
    and st: "resume_step E si i b = (go_on, i', b')"
  shows "sessions_ok (e_traits E) b' \<and> (go_on \<longrightarrow> loop_inv (e_traits E) si i' b')"
proof -
  obtain s where ok: "sessions_ok (e_traits E) b" and s: "session_at b si = Some s" "sent_before i s"
    using inv by (auto simp: loop_inv_def)
  show ?thesis
  proof (cases "i < length (s_pending s) \<and> (\<exists>c. conn_of_session (e_traits E) s b = Some c \<and> \<not> cn_dead c)")
    case False
    then have "b' = b" "\<not> go_on" using st s by (auto simp: resume_step_def split: option.splits if_splits)
    then show ?thesis using ok by simp
  next
    case True
    then obtain c where i: "i < length (s_pending s)" and c: "conn_of_session (e_traits E) s b = Some c" "\<not> cn_dead c" by blast
    consider (rel) "om_state (s_pending s ! i) = awaiting_pubcomp"
      | (again) "om_state (s_pending s ! i) \<noteq> queued" "om_state (s_pending s ! i) \<noteq> awaiting_pubcomp"
      | (send) "om_state (s_pending s ! i) = queued" by blast
    then show ?thesis
    proof cases
      case rel
      show ?thesis using st s i c rel pubrel_sent_ok [OF ok s i rel] pubrel_sent_ok [OF ok s i rel, THEN loop_invD]
        by (auto simp: resume_step_def Let_def split: if_splits)
    next
      case again
      note r = resend_ok [OF ok s i again(1)]
      show ?thesis using st s i c again r(1,2,3) r(2) [THEN loop_invD] r(3) [THEN loop_invD]
        by (auto simp: resume_step_def Let_def split: if_splits)
    next
      case send
      obtain pid s' where al: "alloc_packet_id s = Some (pid, s')" "sessions_ok (e_traits E) (put_session si s' b)"
        and f: "\<And>E' ci pkt. loop_inv (e_traits E) si (Suc i) (upd_pending si i (\<lambda>m. m\<lparr>om_packet_id := pid,
              om_state := in_flight_state (om_qos m)\<rparr>) (fst (try_send_to E' ci pkt (put_session si s' b))))"
          "\<And>t q e. loop_inv (e_traits E) si i (drop_pending si i (notify_drop s' t q e (put_session si s' b)))"
        by (rule first_send_ok [OF T ok s i send]) blast
      show ?thesis using st s i c send al f(1) [of _ _ _, THEN loop_invD] f(1) f(2) [THEN loop_invD] f(2)
        by (auto simp: resume_step_def Let_def split: if_splits)
    qed
  qed
qed

lemma pump_loop_ok:
  "traits_ok (e_traits E) \<Longrightarrow> loop_inv (e_traits E) si i b \<Longrightarrow> sessions_ok (e_traits E) (pump_loop E si i b)"
proof (induction E si i b rule: pump_loop.induct)
  case (1 E si i b)
  obtain go i' b' where p: "pump_step E si i b = (go, i', b')" by (metis prod_cases3)
  show ?case using 1(1) [OF p [symmetric] refl] pump_step_ok [OF 1(2,3) p] p 1(2)
    by (auto simp: pump_loop.simps [of E si i b])
qed

lemma resume_loop_ok:
  "traits_ok (e_traits E) \<Longrightarrow> loop_inv (e_traits E) si i b \<Longrightarrow> sessions_ok (e_traits E) (resume_loop E si i b)"
proof (induction E si i b rule: resume_loop.induct)
  case (1 E si i b)
  obtain go i' b' where p: "resume_step E si i b = (go, i', b')" by (metis prod_cases3)
  show ?case using 1(1) [OF p [symmetric] refl] resume_step_ok [OF 1(2,3) p] p 1(2)
    by (auto simp: resume_loop.simps [of E si i b])
qed

lemma pump_session_ok:
  "traits_ok (e_traits E) \<Longrightarrow> sessions_ok (e_traits E) b \<Longrightarrow> session_at b si \<noteq> None \<Longrightarrow>
   sessions_ok (e_traits E) (pump_session E si b)"
  unfolding pump_session_def by (rule pump_loop_ok) (auto simp: loop_inv_def sent_before_def)

lemma resume_session_ok:
  "traits_ok (e_traits E) \<Longrightarrow> sessions_ok (e_traits E) b \<Longrightarrow> session_at b si \<noteq> None \<Longrightarrow>
   sessions_ok (e_traits E) (resume_session E si b)"
  unfolding resume_session_def by (rule resume_loop_ok) (auto simp: loop_inv_def sent_before_def)

lemma delivers_pump_session [simp, intro]: "delivers b (pump_session E si b)"
  by (simp add: pump_session_def delivers_pump_loop)

lemma delivers_resume_session [simp, intro]: "delivers b (resume_session E si b)"
  by (simp add: resume_session_def delivers_resume_loop)

section \<open>Enqueue and routing\<close>

text \<open>What \<open>enqueue\<close> appends.\<close>

definition queued_msg :: "bytes \<Rightarrow> bytes \<Rightarrow> qos \<Rightarrow> bool \<Rightarrow> out_msg" where
  "queued_msg topic payload q retain =
     new_out_msg\<lparr>om_topic := topic, om_payload := payload, om_qos := q, om_retain := retain\<rparr>"

lemma enqueue_eq:
  assumes "session_at b si = Some s" "length topic \<le> max_topic_len (e_traits E)"
  shows "enqueue E si topic payload q retain b =
    (if length payload > max_payload_len (e_traits E) then notify_drop s topic q Err_oversize b
     else if length (s_pending s) = max_pending_per_session (e_traits E) then notify_drop s topic q Err_capacity b
     else
       let s = s\<lparr>s_pending := s_pending s @ [queued_msg topic payload q retain]\<rparr>; b = put_session si s b
       in case conn_of_session (e_traits E) s b of
            None \<Rightarrow> b | Some c \<Rightarrow> if cn_dead c then b else pump_session E si b)"
  using assms
  by (auto simp: enqueue_def with_session_def sv_emplace_back_def fixed_assign_def queued_msg_def Let_def
      split: option.split)

lemma delivers_put_pending [simp, intro]:
  "session_at b si = Some s \<Longrightarrow> delivers b (put_session si (s\<lparr>s_pending := ps\<rparr>) b)"
  by (rule delivers_put) auto

lemma delivers_enqueue [simp, intro]: "delivers b (enqueue E si topic payload q retain b)"
  by (auto simp: enqueue_def with_session_def notify_drop_def Let_def
      intro: delivers_trans [OF delivers_put_pending delivers_pump_session] split: option.split prod.split)

lemma enqueue_ok:
  assumes T: "traits_ok (e_traits E)" and ok: "sessions_ok (e_traits E) b" and s: "session_at b si = Some s"
    and t: "length topic \<le> max_topic_len (e_traits E)" and q: "q \<noteq> at_most_once"
  shows "sessions_ok (e_traits E) (enqueue E si topic payload q retain b)"
proof -
  let ?s = "s\<lparr>s_pending := s_pending s @ [queued_msg topic payload q retain]\<rparr>"
  have so: "session_ok (e_traits E) s" by (rule sessions_ok_at [OF ok s])
  have "sessions_ok (e_traits E) (put_session si ?s b)"
    if "length payload \<le> max_payload_len (e_traits E)" "length (s_pending s) \<noteq> max_pending_per_session (e_traits E)"
  proof (rule sessions_ok_put [OF ok s session_ok_pending [OF so pending_ok_append]])
    show "length (s_pending s) < max_pending_per_session (e_traits E)"
      using so that(2) by (simp add: session_ok_def pending_ok_def)
  qed (use so that t q in \<open>auto simp: session_ok_def msg_ok_def queued_msg_def new_out_msg_def\<close>)
  moreover have "session_at (put_session si ?s b) si \<noteq> None" using s by (simp add: session_at_put)
  ultimately show ?thesis
    using ok pump_session_ok [OF T] by (auto simp: enqueue_eq [OF s t] Let_def notify_drop_def split: option.split)
qed

lemma delivers_route_one: "delivers b (route_one E topic payload q si b)"
  by (auto simp: route_one_def with_session_def notify_denied_def Let_def split: option.split prod.split)

lemma route_one_ok:
  assumes T: "traits_ok (e_traits E)" and ok: "sessions_ok (e_traits E) b" and s: "session_at b si \<noteq> None"
    and t: "length topic \<le> max_topic_len (e_traits E)"
  shows "sessions_ok (e_traits E) (route_one E topic payload q si b)"
  using ok s enqueue_ok [OF T ok _ t]
  by (auto simp: route_one_def with_session_def notify_denied_def Let_def split: prod.split)

lemma route_publish_ok:
  assumes T: "traits_ok (e_traits E)" and ok: "sessions_ok (e_traits E) b"
    and t: "length topic \<le> max_topic_len (e_traits E)"
  shows "delivers b (route_publish E topic payload q b) \<and> sessions_ok (e_traits E) (route_publish E topic payload q b)"
  unfolding route_publish_def pool_for_each_def
proof (rule fold_upt_invariant)
  fix i st assume "delivers b st \<and> sessions_ok (e_traits E) st"
  then show "delivers b (if pool_at (b_sessions st) i \<noteq> None then route_one E topic payload q i st else st)
      \<and> sessions_ok (e_traits E) (if pool_at (b_sessions st) i \<noteq> None then route_one E topic payload q i st else st)"
    using route_one_ok [OF T _ _ t, of st i] delivers_trans [OF _ delivers_route_one]
    by (auto simp: session_at_def)
qed (use ok in simp)

lemma delivers_route_publish [simp, intro]: "delivers b (route_publish E topic payload q b)"
  unfolding route_publish_def pool_for_each_def
  by (rule fold_upt_invariant) (auto intro: delivers_trans delivers_route_one)

section \<open>Replay\<close>

lemma session_ok_cursor: "session_ok T s \<Longrightarrow> session_ok T (s\<lparr>s_retain_cursor := k\<rparr>)"
  by (simp add: session_ok_def connected_def)

lemma session_ok_clear: "session_ok T s \<Longrightarrow> session_ok T (clear_retain_pending s)"
  by (simp add: session_ok_def connected_def clear_retain_pending_def list_all_iff o_def)

lemma upd_session_ok:
  "sessions_ok T b \<Longrightarrow> session_at b si \<noteq> None \<Longrightarrow> (\<And>s. session_ok T s \<Longrightarrow> session_ok T (f s)) \<Longrightarrow>
   sessions_ok T (upd_session si f b)"
  using sessions_ok_put sessions_ok_at by (fastforce simp: upd_session_Some)

lemma upd_session_at:
  "session_at b si \<noteq> None \<Longrightarrow> session_at (upd_session si f b) si \<noteq> None"
  by (auto simp: upd_session_Some session_at_put)

definition replay_inv :: "traits \<Rightarrow> nat \<Rightarrow> ('ctx, 'tr) broker \<Rightarrow> u16 \<times> bool \<times> ('ctx, 'tr) broker \<Rightarrow> bool" where
  "replay_inv T si b st \<longleftrightarrow>
     delivers b (snd (snd st)) \<and> sessions_ok T (snd (snd st)) \<and> session_at (snd (snd st)) si \<noteq> None"

lemma replay_one_delivers: "delivers b (snd (snd (replay_one E ci si ri (index, paused, b))))"
  by (auto simp: replay_one_def Let_def notify_defs
      intro: delivers_trans [OF delivers_try_send delivers_upd_session] split: option.split prod.split)

lemma replay_one_ok:
  assumes T: "traits_ok (e_traits E)" and ok: "sessions_ok (e_traits E) b" and s: "session_at b si \<noteq> None"
    and e: "pool_at (b_retained b) ri = Some e" "length (re_topic e) \<le> max_topic_len (e_traits E)"
  shows "sessions_ok (e_traits E) (snd (snd (replay_one E ci si ri (index, paused, b))))"
proof -
  obtain s0 where s0: "session_at b si = Some s0" using s by blast
  have "sessions_ok (e_traits E) (upd_session si (\<lambda>s. s\<lparr>s_retain_cursor := k\<rparr>) (fst (try_send_to E ci pkt b)))" for k pkt
    by (rule upd_session_ok) (use ok s in \<open>auto intro: session_ok_cursor\<close>)
  then show ?thesis
    using ok s0 e enqueue_ok [OF T ok s0 e(2)]
    by (auto simp: replay_one_def Let_def notify_defs split: prod.split)
qed

lemma replay_fold_ok:
  assumes T: "traits_ok (e_traits E)" and ok: "sessions_ok (e_traits E) b" and s: "session_at b si \<noteq> None"
    and r: "retained_inv cap (max_topic_len (e_traits E)) mp (b_retained b)"
  shows "replay_inv (e_traits E) si b (retained_for_each (max_retained (e_traits E)) (\<lambda>(index, paused, b). b_retained b)
             (replay_one E ci si) (0, False, b))"
  unfolding retained_for_each_def pool_for_each_def
proof (rule fold_upt_invariant)
  fix ri st assume inv: "replay_inv (e_traits E) si b st"
  obtain index paused b' where st: "st = (index, paused, b')" by (metis prod_cases3)
  have d: "delivers b b'" "sessions_ok (e_traits E) b'" "session_at b' si \<noteq> None" using inv by (simp_all add: replay_inv_def st)
  have b': "b_retained b' = b_retained b" using d(1) by (simp add: delivers_def)
  note step = replay_one_delivers [of b' E ci si ri index paused]
  have "replay_inv (e_traits E) si b (replay_one E ci si ri st)" if "pool_at (b_retained b') ri = Some e" for e
  proof -
    have "length (re_topic e) \<le> max_topic_len (e_traits E)"
      using r that b' by (auto simp: retained_inv_def retained_entry_ok_def)
    then show ?thesis
      using replay_one_ok [OF T d(2,3) that, of ci index paused] delivers_trans [OF d(1) step] delivers_None [OF step, of si] d(3)
      by (simp add: replay_inv_def st)
  qed
  then show "replay_inv (e_traits E) si b (if pool_at ((\<lambda>(index, paused, b). b_retained b) st) ri \<noteq> None
      then replay_one E ci si ri st else st)"
    using inv by (auto simp: st)
qed (use ok s in \<open>simp add: replay_inv_def\<close>)

lemma replay_retained_ok:
  assumes "traits_ok (e_traits E)" "sessions_ok (e_traits E) b" "session_at b si \<noteq> None"
    "retained_inv cap (max_topic_len (e_traits E)) mp (b_retained b)"
  shows "delivers b (replay_retained E ci si b) \<and> sessions_ok (e_traits E) (replay_retained E ci si b)"
proof -
  obtain index paused b' where f: "retained_for_each (max_retained (e_traits E)) (\<lambda>(index, paused, b). b_retained b)
             (replay_one E ci si) (0, False, b) = (index, paused, b')" by (metis prod_cases3)
  have d: "delivers b b'" "sessions_ok (e_traits E) b'" "session_at b' si \<noteq> None"
    using replay_fold_ok [OF assms, of ci] by (simp_all add: f replay_inv_def)
  let ?b = "upd_session si (\<lambda>s. clear_retain_pending (s\<lparr>s_retain_cursor := 0\<rparr>)) b'"
  have "sessions_ok (e_traits E) ?b"
    by (rule upd_session_ok) (use d in \<open>auto intro: session_ok_cursor session_ok_clear\<close>)
  moreover have "delivers b ?b" by (rule delivers_trans [OF d(1) delivers_upd_session]) simp
  ultimately show ?thesis using d by (simp add: replay_retained_def f)
qed

end
