(* ===== verification/Broker_Inv.thy ===== *)
theory Broker_Inv
  imports Broker_Frame
begin

text \<open>
  The invariant \<open>wf_broker\<close> of the whole broker between two steps of a handler, its preservation
  by elementary updates and by delivery, and the teardown of a connection. With it the
  loop of \<open>flush_dead\<close> is defined: it ends because a teardown makes an active connection
  inactive and nothing else makes one active.
\<close>

section \<open>The invariant\<close>

definition conn_ok :: "traits \<Rightarrow> conn \<Rightarrow> bool" where
  "conn_ok T c \<longleftrightarrow> length (fp_body (cn_parser c)) = max_packet_size T
     \<and> (cn_active c \<and> \<not> cn_dead c \<longrightarrow> fp_inv (max_packet_size T) (cn_parser c)) \<and> (cn_dead c \<longrightarrow> cn_active c)
     \<and> (\<not> cn_active c \<longrightarrow> cn_session c = no_session)"

text \<open>A connected session and its connection name each other.\<close>

definition linked :: "('ctx, 'tr) broker \<Rightarrow> bool" where
  "linked b \<longleftrightarrow>
     (\<forall>si s. session_at b si = Some s \<longrightarrow> connected s \<longrightarrow>
        unat (s_conn s) < length (b_conns b) \<and> cn_session (conn_at b (unat (s_conn s))) = of_nat si)
     \<and> (\<forall>ci < length (b_conns b). cn_session (conn_at b ci) \<noteq> no_session \<longrightarrow>
        (\<exists>s. session_at b (unat (cn_session (conn_at b ci))) = Some s \<and> s_conn s = of_nat ci))"

definition wf_broker :: "traits \<Rightarrow> ('ctx, 'tr) broker \<Rightarrow> bool" where
  "wf_broker T b \<longleftrightarrow> traits_ok T \<and> length (b_conns b) = max_connections T
     \<and> pool_inv (max_sessions T) (b_sessions b)
     \<and> slot_pool.keyed s_client_id (b_sessions b)
     \<and> sessions_ok T b
     \<and> retained_inv (max_retained T) (max_topic_len T) (max_payload_len T) (b_retained b)
     \<and> (\<forall>ci < length (b_conns b). conn_ok T (conn_at b ci))
     \<and> linked b"

lemma wfD:
  "wf_broker T b \<Longrightarrow> length (b_conns b) = max_connections T" "wf_broker T b \<Longrightarrow> sessions_ok T b"
  "wf_broker T b \<Longrightarrow> pool_inv (max_sessions T) (b_sessions b)"
  "wf_broker T b \<Longrightarrow> retained_inv (max_retained T) (max_topic_len T) (max_payload_len T) (b_retained b)"
  "wf_broker T b \<Longrightarrow> ci < max_connections T \<Longrightarrow> conn_ok T (conn_at b ci)"
  "wf_broker T b \<Longrightarrow> slot_pool.keyed s_client_id (b_sessions b)" "wf_broker T b \<Longrightarrow> linked b"
  "wf_broker T b \<Longrightarrow> traits_ok T"
  by (auto simp: wf_broker_def)

lemma wf_init: "traits_ok T \<Longrightarrow> wf_broker T (broker_init T tr)"
  by (auto simp: wf_broker_def broker_init_def linked_def conn_ok_def conn_at_def new_conn_def session_at_def
      sessions_ok_def fp_init_def retained_inv_init slot_pool.keyed_def)

lemma core_sel:
  assumes "core s' = core s"
  shows "s_client_id s' = s_client_id s" "s_conn s' = s_conn s" "s_inbound_qos2 s' = s_inbound_qos2 s"
    "s_has_will s' = s_has_will s" "s_will_topic s' = s_will_topic s" "s_will_payload s' = s_will_payload s"
    "s_will_qos s' = s_will_qos s" "s_will_retain s' = s_will_retain s" "s_clean_session s' = s_clean_session s"
    "s_disconnect_ms s' = s_disconnect_ms s" "s_disconnect_order s' = s_disconnect_order s"
    "s_auth_ctx s' = s_auth_ctx s" "connected s' = connected s"
  using arg_cong [OF assms, of s_client_id] arg_cong [OF assms, of s_conn] arg_cong [OF assms, of s_inbound_qos2]
    arg_cong [OF assms, of s_has_will] arg_cong [OF assms, of s_will_topic] arg_cong [OF assms, of s_will_payload]
    arg_cong [OF assms, of s_will_qos] arg_cong [OF assms, of s_will_retain] arg_cong [OF assms, of s_clean_session]
    arg_cong [OF assms, of s_disconnect_ms] arg_cong [OF assms, of s_disconnect_order] arg_cong [OF assms, of s_auth_ctx]
  by (simp_all add: core_def clear_retain_pending_def connected_def)

lemma conn_le_sel:
  assumes "conn_le c c'"
  shows "cn_session c' = cn_session c" "cn_active c' = cn_active c" "cn_parser c' = cn_parser c"
    "cn_keepalive_s c' = cn_keepalive_s c" "cn_deadline_ms c' = cn_deadline_ms c"
    "cn_notify_transport c' = cn_notify_transport c" "cn_dead c \<Longrightarrow> cn_dead c'"
    "cn_dead c' \<Longrightarrow> cn_dead c \<or> cn_active c"
  using assms by (auto simp: conn_le_def)

lemma delivers_conn:
  assumes "delivers b b'"
  shows "cn_session (conn_at b' ci) = cn_session (conn_at b ci)" "cn_active (conn_at b' ci) = cn_active (conn_at b ci)"
    "cn_parser (conn_at b' ci) = cn_parser (conn_at b ci)" "cn_dead (conn_at b ci) \<Longrightarrow> cn_dead (conn_at b' ci)"
    "length (b_conns b') = length (b_conns b)" "cn_dead (conn_at b' ci) \<Longrightarrow> cn_dead (conn_at b ci) \<or> cn_active (conn_at b ci)"
  using assms conn_le_sel [of "conn_at b ci" "conn_at b' ci"] by (auto simp: delivers_def)

lemma linked_delivers:
  assumes "linked b" "delivers b b'" shows "linked b'"
  unfolding linked_def delivers_conn [OF assms(2)]
proof (intro conjI allI impI)
  fix si s' assume s': "session_at b' si = Some s'" "connected s'"
  obtain s where s: "session_at b si = Some s" "core s' = core s" using delivers_session_back [OF assms(2) s'(1)] by blast
  then show "unat (s_conn s') < length (b_conns b)" "cn_session (conn_at b (unat (s_conn s'))) = of_nat si"
    using assms(1) s' core_sel [OF s(2)] by (auto simp: linked_def)
next
  fix ci assume ci: "ci < length (b_conns b)" "cn_session (conn_at b ci) \<noteq> no_session"
  then obtain s where s: "session_at b (unat (cn_session (conn_at b ci))) = Some s" "s_conn s = of_nat ci"
    using assms(1) by (auto simp: linked_def)
  then show "\<exists>s. session_at b' (unat (cn_session (conn_at b ci))) = Some s \<and> s_conn s = of_nat ci"
    using delivers_session [OF assms(2) s(1)] core_sel(2) by metis
qed

lemma keyed_delivers:
  assumes "slot_pool.keyed s_client_id (b_sessions b)" "delivers b b'"
  shows "slot_pool.keyed s_client_id (b_sessions b')"
  unfolding slot_pool.keyed_def
proof (intro allI impI)
  fix i j x y assume p: "pool_at (b_sessions b') i = Some x" "pool_at (b_sessions b') j = Some y" "s_client_id x = s_client_id y"
  obtain x0 where "session_at b i = Some x0" "core x = core x0"
    using delivers_session_back [OF assms(2), of i x] p(1) by (auto simp: session_at_def)
  moreover obtain y0 where "session_at b j = Some y0" "core y = core y0"
    using delivers_session_back [OF assms(2), of j y] p(2) by (auto simp: session_at_def)
  ultimately show "i = j"
    using slot_pool.keyedD [OF assms(1), of i x0 j y0] p(3) core_sel(1) by (metis session_at_def)
qed

theorem wf_delivers:
  assumes "wf_broker T b" "delivers b b'" "sessions_ok T b'" shows "wf_broker T b'"
proof -
  have "conn_ok T (conn_at b' ci)" if "ci < length (b_conns b)" for ci
  proof -
    have "conn_ok T (conn_at b ci)" using assms(1) that by (simp add: wf_broker_def)
    then show ?thesis using delivers_conn(1-4,6) [OF assms(2), of ci] by (auto simp: conn_ok_def)
  qed
  then show ?thesis
    using assms linked_delivers [OF wfD(7) [OF assms(1)] assms(2)] keyed_delivers [OF wfD(6) [OF assms(1)] assms(2)]
    by (simp add: wf_broker_def delivers_conn(5) [OF assms(2)]) (simp add: delivers_def)
qed

section \<open>Elementary updates\<close>

lemma wf_notify [simp]: "wf_broker T (notify e b) = wf_broker T b"
  by (simp add: wf_broker_def linked_def)

lemma wf_cong:
  assumes "wf_broker T b" "b_conns b' = b_conns b" "b_sessions b' = b_sessions b" "b_retained b' = b_retained b" "b_stuck b' = b_stuck b"
  shows "wf_broker T b'"
proof -
  have "conn_at b' = conn_at b" "session_at b' = session_at b"
    using conn_at_cong [OF assms(2)] assms(3) by (auto simp: session_at_def fun_eq_iff)
  then have "linked b' = linked b" "sessions_ok T b' = sessions_ok T b" "conn_at b' = conn_at b"
    using assms(2,5) by (simp_all add: linked_def sessions_ok_def)
  then show ?thesis using assms by (simp add: wf_broker_def)
qed

lemma wf_transport_close [simp]: "wf_broker T b \<Longrightarrow> wf_broker T (transport_close E ci b)"
  by (erule wf_cong) (simp_all add: transport_close_def)

lemma wf_now [simp]: "wf_broker T b \<Longrightarrow> wf_broker T (b\<lparr>b_now_ms := t\<rparr>)"
  by (erule wf_cong) simp_all

lemma wf_retained:
  "wf_broker T b \<Longrightarrow> retained_inv (max_retained T) (max_topic_len T) (max_payload_len T) st \<Longrightarrow> wf_broker T (b\<lparr>b_retained := st\<rparr>)"
proof -
  assume wf: "wf_broker T b" and st: "retained_inv (max_retained T) (max_topic_len T) (max_payload_len T) st"
  have "conn_at (b\<lparr>b_retained := st\<rparr>) = conn_at b" "session_at (b\<lparr>b_retained := st\<rparr>) = session_at b"
    by (auto simp: session_at_def conn_at_def fun_eq_iff)
  then have "linked (b\<lparr>b_retained := st\<rparr>) = linked b" "sessions_ok T (b\<lparr>b_retained := st\<rparr>) = sessions_ok T b"
    "conn_at (b\<lparr>b_retained := st\<rparr>) = conn_at b" by (simp_all add: linked_def sessions_ok_def)
  then show ?thesis using wf st by (simp add: wf_broker_def)
qed

lemma wf_put:
  assumes wf: "wf_broker T b" and s: "session_at b si = Some s" and ok: "session_ok T s'"
    and same: "s_client_id s' = s_client_id s" "s_conn s' = s_conn s"
  shows "wf_broker T (put_session si s' b)"
proof -
  have p: "pool_at (b_sessions b) si = Some s" using s by (simp add: session_at_def)
  have "pool_inv (max_sessions T) (b_sessions (put_session si s' b))"
    using pool_inv_put [OF wfD(3) [OF wf] p] by (simp add: put_session_def)
  moreover have "slot_pool.keyed s_client_id (b_sessions (put_session si s' b))"
    using slot_pool.keyed_put_same [OF wfD(3) [OF wf] wfD(6) [OF wf] p same(1)] by (simp add: put_session_def)
  moreover have "linked (put_session si s' b)"
    using wfD(7) [OF wf] s same(2) by (auto simp: linked_def session_at_put connected_def split: if_splits)
  ultimately show ?thesis using wf sessions_ok_put [OF wfD(2) [OF wf] s ok] by (simp add: wf_broker_def)
qed

lemma wf_upd_session:
  assumes "wf_broker T b" "session_at b si \<noteq> None"
    and "\<And>s. session_ok T s \<Longrightarrow> session_ok T (f s)" "\<And>s. s_client_id (f s) = s_client_id s" "\<And>s. s_conn (f s) = s_conn s"
  shows "wf_broker T (upd_session si f b)"
  using assms wf_put [OF assms(1)] sessions_ok_at [OF wfD(2) [OF assms(1)]] by (auto simp: upd_session_Some)

lemma wf_upd_conn:
  assumes wf: "wf_broker T b" and f: "cn_session (f (conn_at b ci)) = cn_session (conn_at b ci)"
    "ci < max_connections T \<Longrightarrow> conn_ok T (f (conn_at b ci))"
  shows "wf_broker T (upd_conn ci f b)"
proof -
  have "linked (upd_conn ci f b)"
    using wfD(7) [OF wf] f(1) by (auto simp: linked_def conn_at_upd)
  moreover have "sessions_ok T (upd_conn ci f b)"
    by (rule sessions_ok_cong [OF wfD(2) [OF wf]]) simp_all
  ultimately show ?thesis using wf f(2) by (auto simp: wf_broker_def conn_at_upd)
qed

lemma wf_mark_dead: "wf_broker T b \<Longrightarrow> cn_active (conn_at b ci) \<Longrightarrow> wf_broker T (mark_dead ci b)"
  unfolding mark_dead_def by (rule wf_upd_conn) (auto simp: conn_ok_def dest: wfD(5))

lemma wf_send_to [simp]: "wf_broker T b \<Longrightarrow> wf_broker T (send_to E ci pkt b)"
  using wf_delivers [OF _ delivers_send_to] wfD(2) by fastforce

lemma wf_release:
  assumes wf: "wf_broker T b" and s: "session_at b si = Some s" "\<not> connected s"
  shows "wf_broker T (release_session si b)"
proof -
  have at: "session_at (release_session si b) = (session_at b)(si := None)"
    by (auto simp: session_at_def release_session_def fun_eq_iff)
  have c: "conn_at (release_session si b) = conn_at b" "b_conns (release_session si b) = b_conns b"
    by (auto simp: release_session_def intro: conn_at_cong)
  have "s_conn s \<noteq> of_nat ci" if "ci < length (b_conns b)" for ci
    using s(2) that wfD(1) [OF wf] wfD(8) [OF wf] of_nat_16_neq_max [of ci]
    by (simp add: connected_def no_conn_def traits_ok_def)
  then have "linked (release_session si b)"
    using wfD(7) [OF wf] s(1) by (fastforce simp: linked_def at c)
  moreover have "sessions_ok T (release_session si b)"
    using wfD(2) [OF wf] by (auto simp: sessions_ok_def at) (simp add: release_session_def)
  moreover have "slot_pool.keyed s_client_id (b_sessions (release_session si b))"
    using slot_pool.keyed_release [OF wfD(3) [OF wf] wfD(6) [OF wf]] by (simp add: release_session_def)
  ultimately show ?thesis
    using wf pool_inv_release [OF wfD(3) [OF wf]] c by (simp add: wf_broker_def) (simp add: release_session_def)
qed

section \<open>Retained store and will\<close>

lemma apply_retain_sel [simp]:
  "b_conns (fst (apply_retain E t p q b)) = b_conns b" "b_sessions (fst (apply_retain E t p q b)) = b_sessions b"
  "b_stuck (fst (apply_retain E t p q b)) = b_stuck b" "b_now_ms (fst (apply_retain E t p q b)) = b_now_ms b"
  "b_disconnect_order (fst (apply_retain E t p q b)) = b_disconnect_order b"
  "b_auto_id_counter (fst (apply_retain E t p q b)) = b_auto_id_counter b"
  by (auto simp: apply_retain_def Let_def notify_topic_def split: prod.split)

lemma conn_at_apply_retain [simp]: "conn_at (fst (apply_retain E t p q b)) = conn_at b"
  by (rule conn_at_cong) simp

lemma session_at_apply_retain [simp]: "session_at (fst (apply_retain E t p q b)) = session_at b"
  by (rule ext) (simp add: session_at_def)

lemma apply_retain_store:
  "b_retained (fst (apply_retain E t p q b)) =
    (if p = [] then retained_remove t (b_retained b)
     else fst (retained_set (max_topic_len (e_traits E)) (max_payload_len (e_traits E)) t p q (b_retained b)))"
  by (auto simp: apply_retain_def Let_def notify_topic_def split: prod.split)

lemma wf_apply_retain [simp]:
  assumes wf: "wf_broker (e_traits E) b" shows "wf_broker (e_traits E) (fst (apply_retain E t p q b))"
proof -
  let ?st = "b_retained (fst (apply_retain E t p q b))"
  have "retained_inv (max_retained (e_traits E)) (max_topic_len (e_traits E)) (max_payload_len (e_traits E)) ?st"
    using retained_remove_refines [OF wfD(4) [OF wf]] retained_set_refines [OF wfD(4) [OF wf], of t p q]
    by (auto simp: apply_retain_store) (metis prod.collapse)
  from wf_retained [OF wf this] show ?thesis by (rule wf_cong) simp_all
qed

lemma wf_route_publish:
  assumes wf: "wf_broker (e_traits E) b" and t: "length topic \<le> max_topic_len (e_traits E)"
  shows "wf_broker (e_traits E) (route_publish E topic payload q b)"
  using route_publish_ok [OF wfD(8) [OF wf] wfD(2) [OF wf] t] wf_delivers [OF wf] by blast

text \<open>Like \<open>delivers\<close>, but the retained store may change as well.\<close>

definition publishes :: "('ctx, 'tr) broker \<Rightarrow> ('ctx, 'tr) broker \<Rightarrow> bool" where
  "publishes b b' \<longleftrightarrow> delivers (b\<lparr>b_retained := b_retained b'\<rparr>) b'"

lemma retained_upd_at [simp]:
  "conn_at (b\<lparr>b_retained := r\<rparr>) = conn_at b" "session_at (b\<lparr>b_retained := r\<rparr>) = session_at b"
  by (auto simp: conn_at_def session_at_def fun_eq_iff)

lemma publishes_delivers: "delivers b b' \<Longrightarrow> publishes b b'"
  by (simp add: publishes_def delivers_def)

lemma publishes_refl [simp]: "publishes b b"
  by (simp add: publishes_delivers)

lemma publishes_trans: "publishes a b \<Longrightarrow> publishes b c \<Longrightarrow> publishes a c"
  unfolding publishes_def delivers_def by (auto intro: conn_le_trans)

lemma publishes_apply_retain [simp]: "publishes b (fst (apply_retain E t p q b))"
proof -
  have "\<exists>ext. b_trace (fst (apply_retain E t p q b)) = b_trace b @ ext"
    by (auto simp: apply_retain_def Let_def notify_topic_def notify_def split: prod.split)
  then show ?thesis by (simp add: publishes_def delivers_def)
qed

lemma publishes_will: "publishes b (publish_will E s b)"
  unfolding publish_will_def Let_def
  by (auto intro: publishes_trans [OF publishes_apply_retain] publishes_delivers delivers_route_publish)

lemma publishes_conn:
  assumes "publishes b b'"
  shows "cn_session (conn_at b' ci) = cn_session (conn_at b ci)" "cn_active (conn_at b' ci) = cn_active (conn_at b ci)"
    "cn_dead (conn_at b ci) \<Longrightarrow> cn_dead (conn_at b' ci)" "length (b_conns b') = length (b_conns b)"
  using delivers_conn(1-4,6) [OF assms [unfolded publishes_def], of ci] delivers_conn(5) [OF assms [unfolded publishes_def]]
  by simp_all

lemma publishes_session:
  assumes "publishes b b'" "session_at b si = Some s"
  shows "\<exists>s'. session_at b' si = Some s' \<and> core s' = core s"
  using delivers_session [OF assms(1) [unfolded publishes_def], of si s] assms(2) by simp

lemma wf_publish_will:
  assumes "wf_broker (e_traits E) b" "length (s_will_topic s) \<le> max_topic_len (e_traits E)"
  shows "wf_broker (e_traits E) (publish_will E s b)"
  using assms by (simp add: publish_will_def Let_def wf_route_publish)

section \<open>Teardown\<close>

text \<open>The state of a connection and of its session once they are separated.\<close>

definition detach_conn :: "conn \<Rightarrow> conn" where
  "detach_conn c = c\<lparr>cn_active := False, cn_dead := False, cn_session := no_session\<rparr>"

definition detach_session :: "u32 \<Rightarrow> u32 \<Rightarrow> 'ctx session \<Rightarrow> 'ctx session" where
  "detach_session now order s = s\<lparr>s_conn := no_conn, s_disconnect_ms := now, s_disconnect_order := order,
     s_has_will := False\<rparr>"

lemma linked_conn:
  assumes wf: "wf_broker T b" and ci: "ci < max_connections T" and si: "session_of b (conn_at b ci) = Some si"
  obtains s where "session_at b si = Some s" "s_conn s = of_nat ci" "cn_session (conn_at b ci) = of_nat si"
    "unat (s_conn s) = ci" "connected s" "session_ok T s"
proof -
  have u: "cn_session (conn_at b ci) \<noteq> no_session" "unat (cn_session (conn_at b ci)) = si"
    using si by (auto simp: session_of_def split: if_splits)
  then obtain s where s: "session_at b si = Some s" "s_conn s = of_nat ci"
    using wfD(7) [OF wf] wfD(1) [OF wf] ci by (auto simp: linked_def)
  have "ci < 65535" using ci wfD(8) [OF wf] by (simp add: traits_ok_def)
  then have "unat (s_conn s) = ci" "connected s"
    using s(2) of_nat_16_neq_max [of ci] by (simp_all add: connected_def no_conn_def unat_of_nat_16)
  moreover have "cn_session (conn_at b ci) = of_nat si" using u(2) by auto
  ultimately show ?thesis using that s sessions_ok_at [OF wfD(2) [OF wf] s(1)] by blast
qed

lemma session_of_None:
  assumes wf: "wf_broker T b" and ci: "ci < max_connections T" and si: "session_of b (conn_at b ci) = None"
  shows "cn_session (conn_at b ci) = no_session"
  using wfD(7) [OF wf] wfD(1) [OF wf] ci si by (auto simp: linked_def session_of_def split: if_splits)

lemma session_bound: "wf_broker T b \<Longrightarrow> session_at b si = Some s \<Longrightarrow> si < 65535"
  using pool_at_bound wfD(3) [of T b] wfD(8) [of T b] by (fastforce simp: session_at_def traits_ok_def pool_inv_def)

lemma wf_detach:
  assumes wf: "wf_broker T b" and ci: "ci < max_connections T" and si: "session_of b (conn_at b ci) = Some si"
    and s: "session_at b si = Some s"
  shows "wf_broker T (put_session si (detach_session now order s) (upd_conn ci detach_conn b))" (is "wf_broker T ?b")
proof -
  obtain l: "s_conn s = of_nat ci" "cn_session (conn_at b ci) = of_nat si" "session_ok T s"
    using linked_conn [OF wf ci si] s by auto
  have at: "session_at ?b = (session_at b)(si := Some (detach_session now order s))"
    using s by (simp add: session_at_put)
  have c: "conn_at (upd_conn ci detach_conn b) cj = (if cj = ci then detach_conn (conn_at b ci) else conn_at b cj)" for cj
    using ci wfD(1) [OF wf] by (simp add: conn_at_upd)
  have lin: "linked ?b"
    unfolding linked_def
  proof (intro conjI allI impI)
    fix sj s' assume s': "session_at ?b sj = Some s'" "connected s'"
    then have sj: "sj \<noteq> si" "session_at b sj = Some s'"
      unfolding at by (auto simp: detach_session_def connected_def split: if_splits)
    then have k: "unat (s_conn s') < length (b_conns b)" "cn_session (conn_at b (unat (s_conn s'))) = of_nat sj"
      using wfD(7) [OF wf] s'(2) by (auto simp: linked_def)
    have "unat (s_conn s') \<noteq> ci"
      using k(2) l(2) sj(1) session_bound [OF wf sj(2)] session_bound [OF wf s] of_nat_16_inj [of si sj] by auto
    then show "unat (s_conn s') < length (b_conns ?b)" "cn_session (conn_at ?b (unat (s_conn s'))) = of_nat sj"
      using k by (simp_all add: c)
  next
    fix cj assume cj: "cj < length (b_conns ?b)" "cn_session (conn_at ?b cj) \<noteq> no_session"
    then have ne: "cj \<noteq> ci" and cs: "cn_session (conn_at b cj) \<noteq> no_session"
      by (auto simp: c detach_conn_def split: if_splits)
    then obtain s' where k: "session_at b (unat (cn_session (conn_at b cj))) = Some s'" "s_conn s' = of_nat cj"
      using wfD(7) [OF wf] cj(1) by (auto simp: linked_def)
    have "cj < 65536" "ci < 65536" using cj(1) ci wfD(1) [OF wf] wfD(8) [OF wf] by (auto simp: traits_ok_def)
    then have "unat (cn_session (conn_at b cj)) \<noteq> si"
      using k s l(1) ne of_nat_16_inj [of ci cj] by auto
    then show "\<exists>s. session_at ?b (unat (cn_session (conn_at ?b cj))) = Some s \<and> s_conn s = of_nat cj"
      unfolding at using k ne by (simp add: c)
  qed
  have "session_ok T (detach_session now order s)"
    using l(3) by (simp add: session_ok_def detach_session_def)
  then have ok: "sessions_ok T ?b"
    unfolding sessions_ok_def at using wfD(2) [OF wf] by (auto simp: sessions_ok_def)
  have p: "pool_at (b_sessions b) si = Some s" using s by (simp add: session_at_def)
  have "pool_inv (max_sessions T) (b_sessions ?b)" "slot_pool.keyed s_client_id (b_sessions ?b)"
    using pool_inv_put [OF wfD(3) [OF wf] p]
      slot_pool.keyed_put_same [OF wfD(3) [OF wf] wfD(6) [OF wf] p, of "detach_session now order s"]
    by (simp_all add: put_session_def detach_session_def)
  moreover have "conn_ok T (conn_at ?b cj)" if "cj < length (b_conns ?b)" for cj
    using that wfD(5) [OF wf, of cj] wfD(1) [OF wf] ci by (auto simp: c conn_ok_def detach_conn_def)
  ultimately show ?thesis using wf lin ok by (simp add: wf_broker_def)
qed

lemma wf_detach_none:
  assumes wf: "wf_broker T b" and ci: "ci < max_connections T" and si: "session_of b (conn_at b ci) = None"
  shows "wf_broker T (upd_conn ci detach_conn b)"
  by (rule wf_upd_conn [OF wf])
    (use session_of_None [OF assms] wfD(5) [OF wf] in \<open>auto simp: detach_conn_def conn_ok_def\<close>)

text \<open>What is left of a teardown once connection and session are separated.\<close>

definition drop_clean :: "nat \<Rightarrow> 'ctx session \<Rightarrow> ('ctx, 'tr) broker \<Rightarrow> ('ctx, 'tr) broker" where
  "drop_clean si s b = (if s_clean_session s then release_session si b else b)"

definition detached :: "nat \<Rightarrow> nat \<Rightarrow> 'ctx session \<Rightarrow> ('ctx, 'tr) broker \<Rightarrow> ('ctx, 'tr) broker" where
  "detached ci si s b =
     put_session si (detach_session (b_now_ms b) (b_disconnect_order b + 1) s)
       ((upd_conn ci detach_conn b)\<lparr>b_disconnect_order := b_disconnect_order b + 1\<rparr>)"

definition will_sent :: "('ctx, 'tr) env \<Rightarrow> nat \<Rightarrow> nat \<Rightarrow> 'ctx session \<Rightarrow> ('ctx, 'tr) broker \<Rightarrow> ('ctx, 'tr) broker" where
  "will_sent E ci si s b =
    (if s_has_will s
     then publish_will E ((detach_session (b_now_ms b) (b_disconnect_order b + 1) s)\<lparr>s_has_will := True\<rparr>) (detached ci si s b)
     else detached ci si s b)"

definition closed :: "('ctx, 'tr) env \<Rightarrow> nat \<Rightarrow> bool \<Rightarrow> ('ctx, 'tr) broker \<Rightarrow> ('ctx, 'tr) broker" where
  "closed E ci to_notify b = (if to_notify then transport_close E ci b else b)"

lemma order_upd_at [simp]:
  "session_at (b\<lparr>b_disconnect_order := k\<rparr>) = session_at b" "conn_at (b\<lparr>b_disconnect_order := k\<rparr>) = conn_at b"
  by (auto simp: session_at_def conn_at_def fun_eq_iff)

lemma put_session_twice [simp]: "put_session si s (put_session si s' b) = put_session si s b"
  by (simp add: put_session_def pool_put_def)

lemma with_session_Some: "session_at b si = Some s \<Longrightarrow> with_session si b k = k s"
  by (simp add: with_session_def)

lemma teardown_None:
  "session_of b (conn_at b ci) = None \<Longrightarrow>
   teardown E ci b = closed E ci (cn_notify_transport (conn_at b ci))
     (upd_conn ci detach_conn (notify_conn E connection_closed ci b))"
  by (simp add: teardown_def closed_def detach_conn_def [abs_def] Let_def)

lemma teardown_Some:
  assumes si: "session_of b (conn_at b ci) = Some si" and s: "session_at b si = Some s"
    and b1: "b1 = will_sent E ci si s (notify_conn E connection_closed ci b)" and s1: "session_at b1 si = Some s1"
  shows "teardown E ci b = closed E ci (cn_notify_transport (conn_at b ci)) (drop_clean si s1 b1)"
proof -
  let ?n = "notify_conn E connection_closed ci b"
  let ?b0 = "(upd_conn ci detach_conn ?n)\<lparr>b_disconnect_order := b_disconnect_order ?n + 1\<rparr>"
  let ?t = "s\<lparr>s_conn := no_conn, s_disconnect_ms := b_now_ms ?n, s_disconnect_order := b_disconnect_order ?n + 1\<rparr>"
  have s0: "session_at ?b0 si = Some s" using s by (simp add: notify_conn_def)
  have t: "session_at (put_session si ?t ?b0) si = Some ?t" using s0 by (simp add: session_at_put [OF s0])
  have w: "?t\<lparr>s_has_will := False\<rparr> = detach_session (b_now_ms ?n) (b_disconnect_order ?n + 1) s"
    "s_has_will s \<Longrightarrow> ?t = (detach_session (b_now_ms ?n) (b_disconnect_order ?n + 1) s)\<lparr>s_has_will := True\<rparr>"
    "\<not> s_has_will s \<Longrightarrow> ?t = detach_session (b_now_ms ?n) (b_disconnect_order ?n + 1) s"
    by (simp_all add: detach_session_def)
  have e: "with_session si (put_session si ?t ?b0) (\<lambda>s. if s_has_will s
       then publish_will E s (put_session si (s\<lparr>s_has_will := False\<rparr>) (put_session si ?t ?b0))
       else put_session si ?t ?b0) = b1"
    unfolding with_session_Some [OF t] put_session_twice w(1) b1 will_sent_def detached_def
    using w(2,3) by simp
  show ?thesis
    using e s1 s0 unfolding detach_conn_def [abs_def]
    by (simp add: teardown_def si Let_def upd_session_Some with_session_Some [OF s1] drop_clean_def closed_def
       cong del: if_weak_cong)
qed

lemma publishes_will_sent: "publishes (detached ci si s b) (will_sent E ci si s b)"
  by (simp add: will_sent_def publishes_will)

lemma session_of_at: "session_of b c = Some si \<Longrightarrow> \<exists>s. session_at b si = Some s"
  by (auto simp: session_of_def split: if_splits)

lemma teardown_split:
  assumes si: "session_of b (conn_at b ci) = Some si" and s: "session_at b si = Some s"
  obtains b1 s1 where "b1 = will_sent E ci si s (notify_conn E connection_closed ci b)" "session_at b1 si = Some s1"
    "core s1 = core (detach_session (b_now_ms b) (b_disconnect_order b + 1) s)"
    "teardown E ci b = closed E ci (cn_notify_transport (conn_at b ci)) (drop_clean si s1 b1)"
proof -
  let ?n = "notify_conn E connection_closed ci b"
  have "session_at (detached ci si s ?n) si = Some (detach_session (b_now_ms b) (b_disconnect_order b + 1) s)"
    unfolding detached_def using s by (subst session_at_put [of _ _ s]) (simp_all add: notify_conn_def)
  then obtain s1 where "session_at (will_sent E ci si s ?n) si = Some s1"
    "core s1 = core (detach_session (b_now_ms b) (b_disconnect_order b + 1) s)"
    using publishes_session [OF publishes_will_sent] by blast
  then show ?thesis using that teardown_Some [OF si s refl] by blast
qed

lemma wf_order [simp]: "wf_broker T b \<Longrightarrow> wf_broker T (b\<lparr>b_disconnect_order := k\<rparr>)"
  by (erule wf_cong) simp_all

lemma wf_detached:
  assumes "wf_broker T b" "ci < max_connections T" "session_of b (conn_at b ci) = Some si" "session_at b si = Some s"
  shows "wf_broker T (detached ci si s b)"
proof -
  have "detached ci si s b = (put_session si (detach_session (b_now_ms b) (b_disconnect_order b + 1) s) (upd_conn ci detach_conn b))
     \<lparr>b_disconnect_order := b_disconnect_order b + 1\<rparr>"
    by (simp add: detached_def put_session_def)
  then show ?thesis using wf_detach [OF assms] by simp
qed

lemma session_of_cong [simp]: "session_of (notify e b) = session_of b"
  by (auto simp: session_of_def fun_eq_iff)

lemma wf_closed [simp]: "wf_broker T b \<Longrightarrow> wf_broker T (closed E ci n b)"
  by (simp add: closed_def)

lemma wf_teardown:
  assumes wf: "wf_broker (e_traits E) b" and ci: "ci < max_connections (e_traits E)"
  shows "wf_broker (e_traits E) (teardown E ci b)"
proof (cases "session_of b (conn_at b ci)")
  case None
  then show ?thesis using wf_detach_none [of _ "notify_conn E connection_closed ci b"] wf ci
    by (simp add: teardown_None notify_conn_def)
next
  case (Some si)
  obtain s where s: "session_at b si = Some s" using session_of_at [OF Some] by blast
  let ?n = "notify_conn E connection_closed ci b"
  obtain b1 s1 where t: "b1 = will_sent E ci si s ?n" "session_at b1 si = Some s1"
    "core s1 = core (detach_session (b_now_ms b) (b_disconnect_order b + 1) s)"
    "teardown E ci b = closed E ci (cn_notify_transport (conn_at b ci)) (drop_clean si s1 b1)"
    using teardown_split [OF Some s] by blast
  have d: "wf_broker (e_traits E) (detached ci si s ?n)"
    using wf_detached [of _ ?n] wf ci Some s by (simp add: notify_conn_def)
  have "session_ok (e_traits E) s" using sessions_ok_at [OF wfD(2) [OF wf] s] .
  then have "wf_broker (e_traits E) b1"
    using wf_publish_will [OF d] d by (auto simp: t(1) will_sent_def session_ok_def detach_session_def)
  moreover have "\<not> connected s1" using core_sel(13) [OF t(3)] by (simp add: detach_session_def connected_def)
  ultimately show ?thesis using wf_release [of _ b1 si s1] t(2) by (simp add: t(4) drop_clean_def)
qed

lemma closed_sel [simp]: "b_conns (closed E ci n b) = b_conns b" "b_sessions (closed E ci n b) = b_sessions b"
  by (simp_all add: closed_def transport_close_def)

lemma drop_clean_conns [simp]: "b_conns (drop_clean si s b) = b_conns b"
  by (simp add: drop_clean_def release_session_def)

lemma teardown_conn:
  fixes b :: "('ctx, 'tr) broker"
  shows "cn_active (conn_at (teardown E ci b) cj) \<longleftrightarrow> cj \<noteq> ci \<and> cn_active (conn_at b cj)"
  "cj \<noteq> ci \<Longrightarrow> cn_session (conn_at (teardown E ci b) cj) = cn_session (conn_at b cj)"
  "cj \<noteq> ci \<Longrightarrow> cn_dead (conn_at b cj) \<Longrightarrow> cn_dead (conn_at (teardown E ci b) cj)"
  "length (b_conns (teardown E ci b)) = length (b_conns b)"
proof -
  let ?n = "notify_conn E connection_closed ci b"
  have n: "\<not> cn_active (conn_at b cj)" if "length (b_conns b) \<le> cj" for cj
    using that by (simp add: conn_at_def new_conn_def)
  obtain b1 b2 :: "('ctx, 'tr) broker" where b: "b_conns b1 = b_conns (upd_conn ci detach_conn ?n)" "publishes b1 b2" "b_conns (teardown E ci b) = b_conns b2"
  proof (cases "session_of b (conn_at b ci)")
    case None
    then show ?thesis using that [of "upd_conn ci detach_conn ?n" "upd_conn ci detach_conn ?n"] by (simp add: teardown_None)
  next
    case (Some si)
    obtain s where s: "session_at b si = Some s" using session_of_at [OF Some] by blast
    show ?thesis
      by (rule teardown_split [OF Some s, of E], rule that [OF _ publishes_will_sent [of ci si s ?n E]])
        (simp_all add: detached_def)
  qed
  have c: "conn_at b1 = conn_at (upd_conn ci detach_conn ?n)" "conn_at (teardown E ci b) = conn_at b2"
    by (rule conn_at_cong [OF b(1)], rule conn_at_cong [OF b(3)])
  have up: "conn_at (upd_conn ci detach_conn ?n) cj = (if cj = ci \<and> ci < length (b_conns b) then detach_conn (conn_at b ci) else conn_at b cj)" for cj
    by (simp add: conn_at_upd notify_conn_def)
  show "cn_active (conn_at (teardown E ci b) cj) \<longleftrightarrow> cj \<noteq> ci \<and> cn_active (conn_at b cj)"
    using n [of cj] publishes_conn(2) [OF b(2), of cj] by (auto simp: c up detach_conn_def)
  show "cj \<noteq> ci \<Longrightarrow> cn_session (conn_at (teardown E ci b) cj) = cn_session (conn_at b cj)"
    using publishes_conn(1) [OF b(2), of cj] by (auto simp: c up)
  show "cj \<noteq> ci \<Longrightarrow> cn_dead (conn_at b cj) \<Longrightarrow> cn_dead (conn_at (teardown E ci b) cj)"
    using publishes_conn(3) [OF b(2), of cj] by (auto simp: c up)
  show "length (b_conns (teardown E ci b)) = length (b_conns b)"
    using publishes_conn(4) [OF b(2)] by (simp add: b notify_conn_def)
qed

section \<open>The flush loop\<close>

definition active_conns :: "('ctx, 'tr) broker \<Rightarrow> nat set" where
  "active_conns b = {ci. cn_active (conn_at b ci)}"

lemma finite_active [simp]: "finite (active_conns b)"
  by (rule finite_subset [of _ "{..<length (b_conns b)}"]) (auto simp: active_conns_def conn_at_def new_conn_def split: if_splits)

lemma active_teardown: "active_conns (teardown E ci b) = active_conns b - {ci}"
  by (auto simp: active_conns_def teardown_conn)

text \<open>A pass either changes nothing or leaves fewer active connections.\<close>

lemma flush_pass_active:
  "active_conns (snd (flush_pass E b)) \<subseteq> active_conns b \<and>
   (if fst (flush_pass E b) then active_conns (snd (flush_pass E b)) \<noteq> active_conns b else snd (flush_pass E b) = b)"
proof -
  let ?f = "\<lambda>i (again, b). if cn_active (conn_at b i) \<and> cn_dead (conn_at b i) then (True, teardown E i b) else (again, b)"
  let ?P = "\<lambda>(again, b'). active_conns b' \<subseteq> active_conns b \<and> (if again then active_conns b' \<noteq> active_conns b else b' = b)"
  have "?P (fold ?f [0..<max_connections (e_traits E)] (False, b))"
    by (rule fold_upt_invariant) (auto simp: active_teardown split: if_splits, auto simp: active_conns_def)
  then show ?thesis by (simp add: flush_pass_def case_prod_beta)
qed

function flush_dead :: "('ctx, 'tr) env \<Rightarrow> ('ctx, 'tr) broker \<Rightarrow> ('ctx, 'tr) broker" where
  "flush_dead E b = (case flush_pass E b of (again, b') \<Rightarrow> if again then flush_dead E b' else b')"
  by pat_completeness auto
termination
proof (relation "measure (\<lambda>(E, b). card (active_conns b))")
  fix E :: "('ctx, 'tr) env" and b again b' assume p: "(again, b') = flush_pass E b" and "again"
  then have "active_conns b' \<subset> active_conns b"
    using flush_pass_active [of E b] by (auto simp: p [symmetric])
  then show "((E, b'), (E, b)) \<in> measure (\<lambda>(E, b). card (active_conns b))"
    by (simp add: psubset_card_mono)
qed simp

declare flush_dead.simps [simp del]

lemma wf_flush_pass:
  assumes "wf_broker (e_traits E) b" shows "wf_broker (e_traits E) (snd (flush_pass E b))"
proof -
  have "case_prod (\<lambda>again. wf_broker (e_traits E)) (fold (\<lambda>i (again, b). if cn_active (conn_at b i) \<and> cn_dead (conn_at b i)
       then (True, teardown E i b) else (again, b)) [0..<max_connections (e_traits E)] (False, b))"
    by (rule fold_upt_invariant) (use assms in \<open>auto simp: wf_teardown split: prod.splits\<close>)
  then show ?thesis by (simp add: flush_pass_def case_prod_beta)
qed

lemma wf_flush_dead: "wf_broker (e_traits E) b \<Longrightarrow> wf_broker (e_traits E) (flush_dead E b)"
proof (induction E b rule: flush_dead.induct)
  case (1 E b)
  show ?case using 1(1) [OF prod.collapse] wf_flush_pass [OF 1(2)]
    by (simp add: flush_dead.simps [of E b] case_prod_beta)
qed

text \<open>A pass that finds nothing to tear down has seen every connection of the same state.\<close>

lemma flush_pass_quiet:
  assumes "\<not> fst (flush_pass E b)" "ci < max_connections (e_traits E)"
  shows "\<not> (cn_active (conn_at b ci) \<and> cn_dead (conn_at b ci))"
proof -
  let ?f = "\<lambda>i (again, b). if cn_active (conn_at b i) \<and> cn_dead (conn_at b i) then (True, teardown E i b) else (again, b)"
  have "fst (fold ?f xs (True, b'))" for xs b' by (induction xs arbitrary: b') auto
  then have "\<not> fst (fold ?f xs (False, b)) \<Longrightarrow> ci \<in> set xs \<Longrightarrow> \<not> (cn_active (conn_at b ci) \<and> cn_dead (conn_at b ci))" for xs
    by (induction xs) (auto split: if_splits)
  then show ?thesis using assms by (simp add: flush_pass_def)
qed

lemma flush_dead_quiet:
  "ci < max_connections (e_traits E) \<Longrightarrow> \<not> (cn_active (conn_at (flush_dead E b) ci) \<and> cn_dead (conn_at (flush_dead E b) ci))"
proof (induction E b rule: flush_dead.induct)
  case (1 E b)
  show ?case using 1(1) [OF prod.collapse] 1(2) flush_pass_quiet [of E b ci] flush_pass_active [of E b]
    by (simp add: flush_dead.simps [of E b] case_prod_beta)
qed

lemma flush_dead_active: "active_conns (flush_dead E b) \<subseteq> active_conns b"
proof (induction E b rule: flush_dead.induct)
  case (1 E b)
  show ?case using 1(1) [OF prod.collapse] flush_pass_active [of E b]
    by (auto simp: flush_dead.simps [of E b] case_prod_beta)
qed

end
