(* ===== verification/Broker_Sessions.thy ===== *)
theory Broker_Sessions
  imports Broker_Inv
begin

text \<open>
  Lifetime of sessions (\<open>broker/broker.hpp\<close>): expiry of disconnected sessions, the choice of
  the session to evict from a full pool, and the client identifiers the broker assigns.
  The search of \<open>generate_client_id\<close> has no bound of its own; it is modelled with one round
  per value of the 16 bit counter, and shown to return within them because the pool has
  fewer slots than that.
\<close>

section \<open>Model\<close>

definition expire_one :: "('ctx, 'tr) env \<Rightarrow> u32 \<Rightarrow> nat \<Rightarrow> ('ctx, 'tr) broker \<Rightarrow> ('ctx, 'tr) broker" where
  "expire_one E now_ms si b =
     with_session si b (\<lambda>s.
       if connected s then b
       else if deadline_passed now_ms (s_disconnect_ms s + session_expiry_ms (e_traits E))
       then release_session si (notify_session session_expired s b)
       else b)"

definition expire_sessions :: "('ctx, 'tr) env \<Rightarrow> u32 \<Rightarrow> ('ctx, 'tr) broker \<Rightarrow> ('ctx, 'tr) broker" where
  "expire_sessions E now_ms b =
    (if session_expiry_ms (e_traits E) = 0 then b
     else pool_for_each (max_sessions (e_traits E)) b_sessions (expire_one E now_ms) b)"

text \<open>The callback keeps a pointer to the oldest session so far, here its slot and its value.\<close>

definition older :: "'ctx session \<Rightarrow> 'ctx session \<Rightarrow> bool" where
  "older s t \<longleftrightarrow> sint (s_disconnect_order s - s_disconnect_order t) < 0"

definition oldest_step :: "('ctx, 'tr) broker \<Rightarrow> nat \<Rightarrow> (nat \<times> 'ctx session) option \<Rightarrow> (nat \<times> 'ctx session) option" where
  "oldest_step b si oldest =
    (case session_at b si of
       None \<Rightarrow> oldest
     | Some s \<Rightarrow>
         if connected s then oldest
         else case oldest of
                None \<Rightarrow> Some (si, s)
              | Some (oi, old) \<Rightarrow> if older s old then Some (si, s) else oldest)"

definition oldest_disconnected_session :: "traits \<Rightarrow> ('ctx, 'tr) broker \<Rightarrow> (nat \<times> 'ctx session) option" where
  "oldest_disconnected_session T b =
     pool_for_each (max_sessions T) (\<lambda>_. b_sessions b) (oldest_step b) None"

definition auto_id_prefix :: bytes where "auto_id_prefix = [0x6D, 0x6D, 0x71, 0x2D]"
definition auto_id_len_max :: nat where "auto_id_len_max = 4 + 5"

definition uses_reserved_prefix :: "bytes \<Rightarrow> bool" where
  "uses_reserved_prefix cid \<longleftrightarrow> \<not> length cid < length auto_id_prefix
     \<and> list_all (\<lambda>i. cid ! i = auto_id_prefix ! i) [0..<length auto_id_prefix]"

text \<open>
  The digits are produced from the last to the first into \<open>digits\<close> and copied out in
  reverse, so each is put before the ones already there.
\<close>

function digit_loop :: "u16 \<Rightarrow> bytes \<Rightarrow> bytes" where
  "digit_loop v digits =
    (let digits = (0x30 + ucast (v mod 10)) # digits; v = v div 10
     in if v \<noteq> 0 then digit_loop v digits else digits)"
  by pat_completeness auto
termination
proof (relation "measure (\<lambda>(v, digits). unat v)")
  fix v v' :: u16 and digits x :: bytes
  assume "x = (0x30 + ucast (v mod 10)) # digits" and v': "v' = v div 10" "v' \<noteq> 0"
  have "unat v' = unat v div 10" using v'(1) by (simp add: unat_div)
  moreover have "unat v' \<noteq> 0" using v'(2) by (metis unat_eq_0)
  ultimately show "((v', x), v, digits) \<in> measure (\<lambda>(v, digits). unat v)"
    by (cases "unat v = 0") auto
qed simp

declare digit_loop.simps [simp del]

definition auto_id :: "u16 \<Rightarrow> bytes" where
  "auto_id v = auto_id_prefix @ digit_loop v []"

definition find_client :: "bytes \<Rightarrow> ('ctx, 'tr) broker \<Rightarrow> nat option" where
  "find_client cid b = pool_find (\<lambda>s. span_eq (s_client_id s) cid) (b_sessions b)"

fun generate_loop :: "nat \<Rightarrow> (bytes \<Rightarrow> bool) \<Rightarrow> u16 \<Rightarrow> (bytes \<times> u16) option" where
  "generate_loop 0 taken counter = None"
| "generate_loop (Suc n) taken counter =
    (let counter = counter + 1; cid = auto_id counter
     in if taken cid then generate_loop n taken counter else Some (cid, counter))"

definition generate_client_id :: "('ctx, 'tr) broker \<Rightarrow> ('ctx, 'tr) broker \<times> bytes" where
  "generate_client_id b =
    (case generate_loop 65536 (\<lambda>cid. find_client cid b \<noteq> None) (b_auto_id_counter b) of
       None \<Rightarrow> (fail b, [])
     | Some (cid, counter) \<Rightarrow> (b\<lparr>b_auto_id_counter := counter\<rparr>, cid))"

section \<open>Identifiers\<close>

definition digits_value :: "bytes \<Rightarrow> nat" where
  "digits_value ds = foldl (\<lambda>n d. n * 10 + (unat d - 48)) 0 ds"

lemma foldl_digits: "foldl (\<lambda>n d. n * 10 + (unat d - 48)) a ds = a * 10 ^ length ds + digits_value ds"
proof -
  let ?f = "\<lambda>n d. n * 10 + (unat d - 48)"
  have "foldl ?f a ds = a * 10 ^ length ds + foldl ?f 0 ds"
    by (induction ds rule: rev_induct) (simp_all add: algebra_simps)
  then show ?thesis by (simp add: digits_value_def)
qed

lemma digits_value_Cons: "digits_value (x # ds) = (unat x - 48) * 10 ^ length ds + digits_value ds"
  using foldl_digits [of "unat x - 48" ds] by (simp add: digits_value_def)

lemma unat_digit_char: "unat (0x30 + ucast ((v :: u16) mod 10) :: byte) = 48 + unat v mod 10"
proof -
  have "unat (v mod 10) = unat v mod 10" by (simp add: unat_mod)
  moreover have "unat v mod 10 < 10" by simp
  ultimately have "unat (ucast (v mod 10) :: byte) = unat v mod 10"
    by (simp add: unsigned_ucast_eq take_bit_nat_eq_self)
  then show ?thesis using \<open>unat v mod 10 < 10\<close> by (simp add: unat_word_ariths)
qed

lemma ten_split: "(n :: nat) * p = (n div 10) * (10 * p) + (n mod 10) * p"
  by (metis add_mult_distrib div_mult_mod_eq mult.assoc)

lemma digit_loop_value:
  "digits_value (digit_loop v ds) = unat v * 10 ^ length ds + digits_value ds"
proof (induction v ds rule: digit_loop.induct)
  case (1 v ds)
  define d where "d = (0x30 + ucast (v mod 10) :: byte)"
  have c: "digits_value (d # ds) = (unat v mod 10) * 10 ^ length ds + digits_value ds"
    by (simp add: digits_value_Cons d_def unat_digit_char)
  have u: "unat (v div 10) = unat v div 10" by (simp add: unat_div)
  have s: "unat v * 10 ^ length ds = (unat v div 10) * 10 ^ Suc (length ds) + (unat v mod 10) * 10 ^ length ds"
    unfolding power_Suc by (rule ten_split)
  have l: "digit_loop v ds = (if v div 10 \<noteq> 0 then digit_loop (v div 10) (d # ds) else d # ds)"
    unfolding digit_loop.simps [of v ds] Let_def d_def ..
  show ?case
  proof (cases "v div 10 = 0")
    case True
    then have "unat v div 10 = 0" using u by simp
    then have "unat v mod 10 = unat v" by (metis div_mult_mod_eq add_0 mult_0)
    then show ?thesis using True c l by simp
  next
    case False
    then have "digits_value (digit_loop v ds) = unat (v div 10) * 10 ^ length (d # ds) + digits_value (d # ds)"
      using 1 [OF refl refl False] unfolding l d_def by (simp only: if_True if_not_P not_not simp_thms)
    then show ?thesis unfolding c u s by (simp only: list.size add.assoc add_0_right add_Suc_right)
  qed
qed

lemma auto_id_inj: "auto_id u = auto_id v \<longleftrightarrow> u = v"
proof
  assume "auto_id u = auto_id v"
  then have "digits_value (digit_loop u []) = digits_value (digit_loop v [])" by (simp add: auto_id_def)
  then show "u = v" by (simp add: digit_loop_value word_unat_eq_iff)
qed simp

lemma length_digit_loop: "unat v < 10 ^ k \<Longrightarrow> 0 < k \<Longrightarrow> length (digit_loop v ds) \<le> length ds + k"
proof (induction v ds arbitrary: k rule: digit_loop.induct)
  case (1 v ds)
  show ?case
  proof (cases "v div 10 = 0")
    case True
    then show ?thesis using 1(3) by (simp add: digit_loop.simps [of v ds] Let_def)
  next
    case False
    have u: "unat (v div 10) = unat v div 10" by (simp add: unat_div)
    then have nz: "10 \<le> unat v" using False by (metis unat_eq_0 div_less not_le)
    obtain j where k: "k = Suc j" using 1(3) by (cases k) auto
    then have "0 < j" using nz 1(2) by (cases j) auto
    then have "unat (v div 10) < 10 ^ j" using 1(2) u k by (simp add: div_less_iff_less_mult mult.commute)
    then show ?thesis using 1(1) [OF refl refl False, of j] False k \<open>0 < j\<close> by (simp add: digit_loop.simps [of v ds] Let_def)
  qed
qed

lemma digit_loop_chars: "\<forall>d \<in> set (digit_loop v ds). d \<in> set ds \<or> (48 \<le> unat d \<and> unat d \<le> 57)"
proof (induction v ds rule: digit_loop.induct)
  case (1 v ds)
  have d: "48 \<le> unat (0x30 + ucast (v mod 10) :: byte) \<and> unat (0x30 + ucast (v mod 10) :: byte) \<le> 57"
    unfolding unat_digit_char by simp
  show ?case using 1 [OF refl refl] d by (cases "v div 10 = 0") (auto simp: digit_loop.simps [of v ds] Let_def)
qed

text \<open>The buffer of \<open>auto_id_len_max\<close> bytes is wide enough, and the identifier is never empty.\<close>

lemma length_auto_id: "length (auto_id v) \<le> auto_id_len_max" "auto_id v \<noteq> []"
  using length_digit_loop [of v 5 "[]"] unat_lt_16 [of v]
  by (simp_all add: auto_id_def auto_id_prefix_def auto_id_len_max_def)

lemma auto_id_reserved: "uses_reserved_prefix (auto_id v)"
  by (simp add: uses_reserved_prefix_def auto_id_def list_all_iff nth_append)

section \<open>The generated identifier\<close>

lemma find_client_None: "find_client cid b = None \<longleftrightarrow> (\<forall>si s. session_at b si = Some s \<longrightarrow> s_client_id s \<noteq> cid)"
  by (simp add: find_client_def pool_find_None span_eq_iff session_at_def)

lemma find_client_Some: "find_client cid b = Some si \<Longrightarrow> \<exists>s. session_at b si = Some s \<and> s_client_id s = cid"
  by (auto simp: find_client_def span_eq_iff session_at_def dest!: pool_find_Some)

lemma generate_loop_None: "generate_loop n taken c = None \<Longrightarrow> k < n \<Longrightarrow> taken (auto_id (c + 1 + of_nat k))"
proof (induction n arbitrary: k c)
  case (Suc n)
  show ?case
  proof (cases k)
    case (Suc j)
    then show ?thesis using Suc.IH [of "c + 1" j] Suc.prems by (auto simp: Let_def algebra_simps split: if_splits)
  qed (use Suc.prems in \<open>auto simp: Let_def split: if_splits\<close>)
qed simp

lemma generate_loop_Some:
  "generate_loop n taken c = Some (cid, c') \<Longrightarrow> \<not> taken cid \<and> cid = auto_id c'"
  by (induction n arbitrary: c) (auto simp: Let_def split: if_splits)

lemma live_session_ids: "card {s_client_id s |si s. session_at b si = Some s} \<le> length (slots (b_sessions b))"
proof -
  have "{s_client_id s |si s. session_at b si = Some s} \<subseteq> (\<lambda>si. s_client_id (the (session_at b si))) ` {..<length (slots (b_sessions b))}"
    by (auto simp: session_at_def image_iff dest: pool_at_bound) (metis lessThan_iff option.sel pool_at_bound)
  then have "card {s_client_id s |si s. session_at b si = Some s} \<le> card {..<length (slots (b_sessions b))}"
    by (meson card_image_le card_mono finite_imageI finite_lessThan le_trans)
  then show ?thesis by simp
qed

lemma generate_loop_returns:
  assumes "length (slots (b_sessions b)) < 65536"
  shows "generate_loop 65536 (\<lambda>cid. find_client cid b \<noteq> None) c \<noteq> None"
proof
  assume n: "generate_loop 65536 (\<lambda>cid. find_client cid b \<noteq> None) c = None"
  let ?ids = "(\<lambda>k. auto_id (c + 1 + of_nat k)) ` {..<65536}"
  let ?live = "{s_client_id s |si s. session_at b si = Some s}"
  have "?ids \<subseteq> ?live"
  proof
    fix cid assume "cid \<in> ?ids"
    then obtain k where "k < 65536" "cid = auto_id (c + 1 + of_nat k)" by blast
    then have "find_client cid b \<noteq> None" using generate_loop_None [OF n] by simp
    then show "cid \<in> ?live" using find_client_Some by blast
  qed
  moreover have "?live \<subseteq> (\<lambda>si. s_client_id (the (session_at b si))) ` {..<length (slots (b_sessions b))}"
    by (auto simp: image_iff session_at_def dest: pool_at_bound) (metis lessThan_iff option.sel pool_at_bound)
  then have "finite ?live" by (rule finite_subset) simp
  ultimately have "card ?ids \<le> card ?live" by (intro card_mono)
  moreover have "inj_on (\<lambda>k. auto_id (c + 1 + of_nat k)) {..<65536}"
    by (rule inj_onI) (simp add: auto_id_inj of_nat_16_inj)
  then have "card ?ids = 65536" by (simp add: card_image)
  ultimately show False using assms live_session_ids [of b] by simp
qed

lemma generate_client_id_fresh:
  assumes "length (slots (b_sessions b)) < 65536"
  obtains c where "generate_client_id b = (b\<lparr>b_auto_id_counter := c\<rparr>, auto_id c)" "find_client (auto_id c) b = None"
proof -
  obtain cid c where g: "generate_loop 65536 (\<lambda>cid. find_client cid b \<noteq> None) (b_auto_id_counter b) = Some (cid, c)"
    using generate_loop_returns [OF assms, of "b_auto_id_counter b"]
    by (cases "generate_loop 65536 (\<lambda>cid. find_client cid b \<noteq> None) (b_auto_id_counter b)") auto
  then have "\<not> find_client cid b \<noteq> None \<and> cid = auto_id c" by (rule generate_loop_Some)
  then show ?thesis using g that [of c] by (auto simp: generate_client_id_def)
qed

section \<open>Expiry and eviction\<close>

lemma wf_expire_one: "wf_broker T b \<Longrightarrow> wf_broker T (expire_one E now_ms si b)"
  if "session_at b si \<noteq> None"
  using that wf_release [of T "notify e b" si for e]
  by (auto simp: expire_one_def with_session_def notify_session_def)

lemma wf_expire_sessions: "wf_broker T b \<Longrightarrow> wf_broker T (expire_sessions E now_ms b)"
  unfolding expire_sessions_def pool_for_each_def
  by (simp, intro impI, rule fold_upt_invariant) (auto simp: session_at_def intro: wf_expire_one)

lemma oldest_fold:
  "fold (\<lambda>si st. if pool_at (b_sessions b) si \<noteq> None then oldest_step b si st else st) xs None = Some (vi, v) \<Longrightarrow>
   session_at b vi = Some v \<and> \<not> connected v"
proof (induction xs arbitrary: vi v rule: rev_induct)
  case (snoc x xs)
  then show ?case by (auto simp: oldest_step_def split: if_splits option.splits)
qed simp

lemma oldest_disconnected:
  "oldest_disconnected_session T b = Some (vi, v) \<Longrightarrow> session_at b vi = Some v \<and> \<not> connected v"
  unfolding oldest_disconnected_session_def pool_for_each_def by (rule oldest_fold)

text \<open>
  The tickets are compared by signed difference. As long as all of them lie within half the
  range of some base, this is the order in which they were drawn.
\<close>

lemma sint_sub_small:
  fixes x y :: u32
  assumes "unat x < 2 ^ 31" "unat y < 2 ^ 31"
  shows "sint (x - y) = int (unat x) - int (unat y)"
proof -
  have e: "sint (word_of_int k :: u32) = signed_take_bit 31 k" for k by (simp add: signed_of_int)
  have s: "signed_take_bit 31 (int m - int n) = int m - int n" if "m < 2 ^ 31" "n < 2 ^ 31" for m n
    by (rule signed_take_bit_int_eq_self) (use that in auto)
  have "x - y = word_of_int (int (unat x) - int (unat y))" by simp
  then have "sint (x - y) = sint (word_of_int (int (unat x) - int (unat y)) :: u32)" by simp
  also have "\<dots> = signed_take_bit 31 (int (unat x) - int (unat y))" by (rule e)
  also have "\<dots> = int (unat x) - int (unat y)" by (rule s [OF assms])
  finally show ?thesis .
qed

definition ticket_age :: "u32 \<Rightarrow> 'ctx session \<Rightarrow> nat" where
  "ticket_age base s = unat (s_disconnect_order s - base)"

lemma older_iff:
  assumes "ticket_age base s < 2 ^ 31" "ticket_age base t < 2 ^ 31"
  shows "older s t \<longleftrightarrow> ticket_age base s < ticket_age base t"
proof -
  have "s_disconnect_order s - s_disconnect_order t = (s_disconnect_order s - base) - (s_disconnect_order t - base)"
    by simp
  then have "sint (s_disconnect_order s - s_disconnect_order t) = int (ticket_age base s) - int (ticket_age base t)"
    using sint_sub_small [OF assms [unfolded ticket_age_def]] by (simp only: ticket_age_def)
  then show ?thesis unfolding older_def by linarith
qed

definition waiting :: "('ctx, 'tr) broker \<Rightarrow> nat \<Rightarrow> 'ctx session \<Rightarrow> bool" where
  "waiting b si s \<longleftrightarrow> session_at b si = Some s \<and> \<not> connected s"

definition least_waiting :: "('ctx, 'tr) broker \<Rightarrow> u32 \<Rightarrow> nat set \<Rightarrow> (nat \<times> 'ctx session) option \<Rightarrow> bool" where
  "least_waiting b base X r \<longleftrightarrow>
    (case r of
       None \<Rightarrow> \<forall>si \<in> X. \<forall>s. \<not> waiting b si s
     | Some (vi, v) \<Rightarrow> waiting b vi v \<and> (\<forall>si \<in> X. \<forall>s. waiting b si s \<longrightarrow> ticket_age base v \<le> ticket_age base s))"

lemma least_step:
  assumes ages: "\<forall>si s. waiting b si s \<longrightarrow> ticket_age base s < 2 ^ 31" and least: "least_waiting b base X r"
  shows "least_waiting b base (insert x X) (oldest_step b x r)"
proof (cases "\<exists>s. waiting b x s")
  case False
  then have n: "\<not> waiting b x t" for t by blast
  then have e: "oldest_step b x r = r"
    by (cases "session_at b x") (simp_all add: oldest_step_def waiting_def)
  show ?thesis
  proof (cases r)
    case None
    then show ?thesis unfolding e using least n by (simp add: least_waiting_def)
  next
    case (Some y)
    then show ?thesis unfolding e using least n by (cases y) (simp add: least_waiting_def)
  qed
next
  case True
  then obtain s where s: "waiting b x s" by blast
  have u: "t = s" if "waiting b x t" for t using s that by (simp add: waiting_def)
  show ?thesis
  proof (cases r)
    case None
    then have "oldest_step b x r = Some (x, s)" using s by (simp add: oldest_step_def waiting_def)
    then show ?thesis using None least s by (auto simp: least_waiting_def waiting_def)
  next
    case (Some y)
    obtain oi old where y: "y = (oi, old)" by fastforce
    have w: "waiting b oi old" and le: "\<And>si t. si \<in> X \<Longrightarrow> waiting b si t \<Longrightarrow> ticket_age base old \<le> ticket_age base t"
      using least Some y by (auto simp: least_waiting_def)
    have o: "older s old \<longleftrightarrow> ticket_age base s < ticket_age base old" by (rule older_iff) (use ages s w in blast)+
    have st: "oldest_step b x r = (if older s old then Some (x, s) else Some (oi, old))"
      using s Some y by (simp add: oldest_step_def waiting_def)
    show ?thesis
    proof (cases "older s old")
      case True
      then have "ticket_age base s \<le> ticket_age base t" if "si \<in> insert x X" "waiting b si t" for si t
        using that o u [of t] le [of si t] by auto
      then show ?thesis using True st s by (auto simp: least_waiting_def)
    next
      case False
      then have "ticket_age base old \<le> ticket_age base t" if "si \<in> insert x X" "waiting b si t" for si t
        using that o u [of t] le [of si t] by auto
      then show ?thesis using False st w by (auto simp: least_waiting_def)
    qed
  qed
qed

lemma oldest_fold_least:
  assumes "\<forall>si s. waiting b si s \<longrightarrow> ticket_age base s < 2 ^ 31"
  shows "least_waiting b base (set xs)
    (fold (\<lambda>si st. if pool_at (b_sessions b) si \<noteq> None then oldest_step b si st else st) xs None)"
proof (induction xs rule: rev_induct)
  case Nil
  show ?case by (simp add: least_waiting_def)
next
  case (snoc x xs)
  have "(if pool_at (b_sessions b) x \<noteq> None then oldest_step b x r else r) = oldest_step b x r" for r
    by (auto simp: oldest_step_def session_at_def)
  then show ?case using least_step [OF assms snoc, of x] by simp
qed

text \<open>The session evicted is one that has been gone longest.\<close>

lemma oldest_is_least:
  assumes "pool_inv (max_sessions T) (b_sessions b)" "\<forall>si s. waiting b si s \<longrightarrow> ticket_age base s < 2 ^ 31"
  shows "least_waiting b base UNIV (oldest_disconnected_session T b)"
proof -
  have "si < max_sessions T" if "waiting b si s" for si s
    using that assms(1) pool_at_bound [of "b_sessions b" si s] by (simp add: waiting_def session_at_def pool_inv_def)
  moreover have "least_waiting b base {..<max_sessions T} (oldest_disconnected_session T b)"
    using oldest_fold_least [OF assms(2), of "[0..<max_sessions T]"]
    by (simp add: oldest_disconnected_session_def pool_for_each_def atLeast0LessThan)
  ultimately show ?thesis by (fastforce simp: least_waiting_def split: option.splits)
qed

section \<open>Properties\<close>

text \<open>C33: with fewer than 65536 session slots the search of \<open>generate_client_id\<close> ends within one round per
  counter value, and the identifier it returns is no live session's, is not empty, fits the buffer of
  \<open>auto_id_len_max\<close> bytes and lies in the reserved space no client may name.\<close>

theorem generate_client_id_terminates:
  assumes "length (slots (b_sessions b)) < 65536"
  shows "\<exists>c. generate_client_id b = (b\<lparr>b_auto_id_counter := c\<rparr>, auto_id c) \<and> find_client (auto_id c) b = None
     \<and> auto_id c \<noteq> [] \<and> length (auto_id c) \<le> auto_id_len_max \<and> uses_reserved_prefix (auto_id c)"
  using generate_client_id_fresh [OF assms] length_auto_id auto_id_reserved by metis

theorem generate_client_id_terminates_witness:
  "\<exists>c. generate_client_id (broker_init default_traits () :: (unit, unit) broker)
       = ((broker_init default_traits ())\<lparr>b_auto_id_counter := c\<rparr>, auto_id c)"
  using generate_client_id_terminates [of "broker_init default_traits () :: (unit, unit) broker"]
  by (auto simp: broker_init_def default_traits_def pool_init_def)

end
