(* ===== verification/Broker_Flush.thy ===== *)
theory Broker_Flush
  imports Broker_Inv
begin

text \<open>
  What tearing down dead connections does to the others: a connection without a session is
  left exactly as it is, a session keeps its client and either its connection or none, and
  the connections that were dead at the start are inactive at the end. This is what a
  CONNECT that takes a session over relies on, since it flushes before it goes on.
\<close>

lemma linkedD:
  "linked b \<Longrightarrow> session_at b si = Some s \<Longrightarrow> connected s \<Longrightarrow>
   unat (s_conn s) < length (b_conns b) \<and> cn_session (conn_at b (unat (s_conn s))) = of_nat si"
  by (simp add: linked_def)

section \<open>Connections without a session\<close>

lemma upd_session_conns [simp]: "b_conns (upd_session si f b) = b_conns b"
  by (simp add: upd_session_def with_session_def fail_def split: option.split)

lemma upd_pending_conns [simp]: "b_conns (upd_pending si i f b) = b_conns b" "b_conns (drop_pending si i b) = b_conns b"
  by (simp_all add: upd_pending_def drop_pending_def)

lemma try_send_conns [simp]: "b_conns (fst (try_send_to E ci pkt b)) = b_conns b"
  by (simp add: try_send_to_def transport_send_def Let_def split: prod.splits)

lemma pump_step_conns: "pump_step E si i b = (go_on, i', b') \<Longrightarrow> b_conns b' = b_conns b"
  by (auto simp: pump_step_def Let_def fail_def notify_drop_def split: option.splits if_splits prod.splits)

lemma pump_loop_conns [simp]: "b_conns (pump_loop E si i b) = b_conns b"
proof (induction E si i b rule: pump_loop.induct)
  case (1 E si i b)
  obtain go i' b' where p: "pump_step E si i b = (go, i', b')" by (metis prod_cases3)
  show ?case using 1 [OF p [symmetric] refl] pump_step_conns [OF p] p by (auto simp: pump_loop.simps [of E si i b])
qed

lemma enqueue_conns [simp]: "b_conns (enqueue E si topic payload q retain b) = b_conns b"
  by (simp add: enqueue_def with_session_def notify_drop_def fail_def pump_session_def Let_def split: option.split prod.split)

text \<open>No session is connected through \<open>ci\<close>.\<close>

definition unlinked :: "traits \<Rightarrow> nat \<Rightarrow> ('ctx, 'tr) broker \<Rightarrow> bool" where
  "unlinked T ci b \<longleftrightarrow> (\<forall>si s. session_at b si = Some s \<longrightarrow> conn_index T s \<noteq> ci)"

lemma conn_index_core: "core s' = core s \<Longrightarrow> conn_index T s' = conn_index T s"
  using core_sel(2,13) [of s' s] by (simp add: conn_index_def)

lemma unlinked_delivers: "unlinked T ci b \<Longrightarrow> delivers b b' \<Longrightarrow> unlinked T ci b'"
  unfolding unlinked_def using delivers_session_back conn_index_core by metis

lemma conn_at_send_to: "ci \<noteq> cj \<Longrightarrow> conn_at (send_to E cj pkt b) ci = conn_at b ci"
  by (simp add: send_to_def Let_def mark_dead_def conn_at_upd notify_conn_def split: prod.split)
    (metis conn_at_transport_send fst_conv)

lemma route_one_spares:
  assumes "unlinked (e_traits E) ci b" shows "conn_at (route_one E topic payload q si b) ci = conn_at b ci"
proof (cases "session_at b si")
  case None
  then show ?thesis by (simp add: route_one_def with_session_def fail_def conn_at_def)
next
  case (Some s)
  have e: "conn_at (enqueue E si topic payload q' r b) = conn_at b" for q' r by (rule conn_at_cong) simp
  have "conn_index (e_traits E) s \<noteq> ci" using assms Some by (simp add: unlinked_def)
  then show ?thesis using Some
    by (auto simp: route_one_def with_session_def notify_denied_def Let_def conn_at_send_to e split: prod.split)
qed

lemma route_publish_spares:
  assumes "unlinked (e_traits E) ci b"
  shows "conn_at (route_publish E topic payload q b) ci = conn_at b ci"
proof -
  have "unlinked (e_traits E) ci (route_publish E topic payload q b) \<and> conn_at (route_publish E topic payload q b) ci = conn_at b ci"
    unfolding route_publish_def pool_for_each_def
    by (rule fold_upt_invariant) (auto simp: assms route_one_spares intro: unlinked_delivers [OF _ delivers_route_one])
  then show ?thesis by blast
qed

lemma unlinked_retain: "unlinked T ci (fst (apply_retain E t p q b)) = unlinked T ci b"
  by (simp add: unlinked_def)

lemma publish_will_spares:
  "unlinked (e_traits E) ci b \<Longrightarrow> conn_at (publish_will E s b) ci = conn_at b ci"
  by (simp add: publish_will_def Let_def route_publish_spares unlinked_retain)

lemma wf_unlinked:
  assumes wf: "wf_broker T b" and ci: "ci < max_connections T" "cn_session (conn_at b ci) = no_session"
  shows "unlinked T ci b"
  unfolding unlinked_def
proof (intro allI impI)
  fix si s assume s: "session_at b si = Some s"
  have "(of_nat si :: u16) \<noteq> no_session"
    using of_nat_16_neq_max [OF session_bound [OF wf s]] by (simp add: no_session_def)
  then have "cn_session (conn_at b (unat (s_conn s))) \<noteq> no_session" if "connected s"
    using wfD(7) [OF wf] s that by (auto simp: linked_def)
  then show "conn_index T s \<noteq> ci" using ci by (auto simp: conn_index_def Let_def)
qed

section \<open>Teardown of another connection\<close>

lemma unlinked_detached:
  assumes "unlinked T ci b" "ci < max_connections T" "session_at b si = Some s"
  shows "unlinked T ci (detached cx si s b)"
proof -
  let ?d = "detach_session (b_now_ms b) (b_disconnect_order b + 1) s"
  have "session_at (detached cx si s b) = (session_at b)(si := Some ?d)"
    unfolding detached_def using assms(3) by (subst session_at_put [of _ _ s]) simp_all
  moreover have "conn_index T ?d = max_connections T" by (simp add: conn_index_def detach_session_def connected_def Let_def)
  ultimately show ?thesis using assms(1,2) by (auto simp: unlinked_def)
qed

lemma teardown_spares:
  assumes wf: "wf_broker (e_traits E) b" and ci: "ci < max_connections (e_traits E)" "cn_session (conn_at b ci) = no_session"
    and cx: "cx \<noteq> ci"
  shows "conn_at (teardown E cx b) ci = conn_at b ci"
proof (cases "session_of b (conn_at b cx)")
  case None
  have "conn_at (teardown E cx b) = conn_at (upd_conn cx detach_conn (notify_conn E connection_closed cx b))"
    by (rule conn_at_cong) (simp add: teardown_None [OF None])
  then show ?thesis using cx by (simp add: conn_at_upd notify_conn_def)
next
  case (Some si)
  obtain s where s: "session_at b si = Some s" using session_of_at [OF Some] by blast
  let ?n = "notify_conn E connection_closed cx b"
  have "unlinked (e_traits E) ci ?n" using wf_unlinked [OF wf ci] by (simp add: unlinked_def notify_conn_def)
  then have u: "unlinked (e_traits E) ci (detached cx si s ?n)"
    using unlinked_detached [of _ ci ?n si s cx] ci(1) s by (simp add: notify_conn_def)
  have d: "conn_at (detached cx si s ?n) ci = conn_at b ci"
    using cx by (simp add: detached_def conn_at_upd notify_conn_def)
  obtain b1 s1 where "b1 = will_sent E cx si s ?n"
    "teardown E cx b = closed E cx (cn_notify_transport (conn_at b cx)) (drop_clean si s1 b1)"
    using teardown_split [OF Some s] by metis
  then have "conn_at (teardown E cx b) ci = conn_at (will_sent E cx si s ?n) ci"
    using conn_at_cong [of "teardown E cx b" "will_sent E cx si s ?n"] by simp
  then show ?thesis using u d publish_will_spares [OF u] by (simp add: will_sent_def)
qed

section \<open>Sessions\<close>

text \<open>Sessions only go away or lose their connection.\<close>

definition sheds :: "('ctx, 'tr) broker \<Rightarrow> ('ctx, 'tr) broker \<Rightarrow> bool" where
  "sheds b b' \<longleftrightarrow> (\<forall>si s'. session_at b' si = Some s' \<longrightarrow>
     (\<exists>s. session_at b si = Some s \<and> s_client_id s' = s_client_id s \<and> (s_conn s' = s_conn s \<or> s_conn s' = no_conn)))"

lemma shedsD:
  "sheds b b' \<Longrightarrow> session_at b' si = Some s' \<Longrightarrow>
   \<exists>s. session_at b si = Some s \<and> s_client_id s' = s_client_id s \<and> (s_conn s' = s_conn s \<or> s_conn s' = no_conn)"
  by (simp add: sheds_def)

lemma sheds_refl [simp]: "sheds b b"
  by (simp add: sheds_def)

lemma sheds_trans: "sheds a b \<Longrightarrow> sheds b c \<Longrightarrow> sheds a c"
  unfolding sheds_def by metis

lemma sheds_publishes: "publishes b b' \<Longrightarrow> sheds b b'"
  unfolding sheds_def publishes_def
  using delivers_session_back [of "b\<lparr>b_retained := b_retained b'\<rparr>" b'] core_sel(1,2) by (metis retained_upd_at(2))

lemma sheds_drop_clean: "sheds b (drop_clean si s b)"
  by (auto simp: sheds_def drop_clean_def release_session_def session_at_def split: if_splits)

lemma sheds_detached: "session_at b si = Some s \<Longrightarrow> sheds b (detached ci si s b)"
  unfolding sheds_def detached_def
  by (subst session_at_put [of _ _ s]) (auto simp: detach_session_def)

lemma session_at_closed [simp]: "session_at (closed E ci n b) = session_at b"
  by (rule ext) (simp add: session_at_def)

lemma sheds_closed: "sheds b b' \<Longrightarrow> sheds b (closed E ci n b')"
  by (simp add: sheds_def)

lemma sheds_teardown: "sheds b (teardown E ci b)"
proof (cases "session_of b (conn_at b ci)")
  case None
  show ?thesis unfolding teardown_None [OF None] by (rule sheds_closed) (simp add: sheds_def notify_conn_def)
next
  case (Some si)
  obtain s where s: "session_at b si = Some s" using session_of_at [OF Some] by blast
  let ?n = "notify_conn E connection_closed ci b"
  have "sheds b ?n" by (simp add: sheds_def notify_conn_def)
  moreover have "sheds ?n (detached ci si s ?n)" by (rule sheds_detached) (simp add: s notify_conn_def)
  moreover have "sheds (detached ci si s ?n) (will_sent E ci si s ?n)" by (rule sheds_publishes [OF publishes_will_sent])
  moreover obtain s1 where "teardown E ci b = closed E ci (cn_notify_transport (conn_at b ci)) (drop_clean si s1 (will_sent E ci si s ?n))"
    using teardown_split [OF Some s] by metis
  ultimately show ?thesis using sheds_closed sheds_drop_clean sheds_trans by metis
qed

section \<open>The whole flush\<close>

lemma flush_pass_invariant:
  assumes step: "\<And>b ci. P b \<Longrightarrow> ci < max_connections (e_traits E) \<Longrightarrow> cn_active (conn_at b ci) \<Longrightarrow> cn_dead (conn_at b ci) \<Longrightarrow> P (teardown E ci b)"
    and P: "P b"
  shows "P (snd (flush_pass E b))"
proof -
  have "case_prod (\<lambda>again. P) (fold (\<lambda>i (again, b). if cn_active (conn_at b i) \<and> cn_dead (conn_at b i)
       then (True, teardown E i b) else (again, b)) [0..<max_connections (e_traits E)] (False, b))"
    by (rule fold_upt_invariant) (use step P in \<open>auto split: prod.splits\<close>)
  then show ?thesis by (simp add: flush_pass_def case_prod_beta)
qed

lemma flush_invariant:
  assumes step: "\<And>b ci. P b \<Longrightarrow> ci < max_connections (e_traits E) \<Longrightarrow> cn_active (conn_at b ci) \<Longrightarrow> cn_dead (conn_at b ci) \<Longrightarrow> P (teardown E ci b)"
  shows "P b \<Longrightarrow> P (flush_dead E b)"
  using step
proof (induction E b rule: flush_dead.induct)
  case (1 E b)
  have "P (snd (flush_pass E b))" using flush_pass_invariant [of P E b] 1(2,3) by blast
  then show ?case using 1(1) [OF prod.collapse] 1(3) by (simp add: flush_dead.simps [of E b] case_prod_beta)
qed

lemma flush_spares:
  fixes b :: "('ctx, 'tr) broker"
  assumes wf: "wf_broker (e_traits E) b" and ci: "ci < max_connections (e_traits E)" "cn_session (conn_at b ci) = no_session"
    "\<not> cn_dead (conn_at b ci)"
  shows "conn_at (flush_dead E b) ci = conn_at b ci"
proof -
  let ?P = "\<lambda>b'. wf_broker (e_traits E) b' \<and> conn_at b' ci = conn_at b ci"
  have "?P (flush_dead E b)"
  proof (rule flush_invariant [of ?P])
    fix b' :: "('ctx, 'tr) broker" and cx assume b': "?P b'" "cx < max_connections (e_traits E)" "cn_dead (conn_at b' cx)"
    then have "cx \<noteq> ci" using ci(3) by auto
    then show "?P (teardown E cx b')" using b' ci wf_teardown [of E b' cx] teardown_spares [of E b' ci cx] by auto
  qed (use wf in simp)
  then show ?thesis by blast
qed

lemma flush_sheds: "sheds b (flush_dead E b)"
  by (rule flush_invariant [of "sheds b"]) (use sheds_trans sheds_teardown in blast, simp)

lemma flush_kills:
  assumes "cn_dead (conn_at b cj)" "cj < max_connections (e_traits E)"
  shows "\<not> cn_active (conn_at (flush_dead E b) cj)"
proof -
  have step: "cn_active (conn_at (teardown E ci b) cj) \<longrightarrow> cn_dead (conn_at (teardown E ci b) cj)"
    if "cn_active (conn_at b cj) \<longrightarrow> cn_dead (conn_at b cj)" for ci b
    using that teardown_conn(1) [of E ci b cj] teardown_conn(3) [of cj ci b E] by blast
  have "cn_active (conn_at (flush_dead E b) cj) \<longrightarrow> cn_dead (conn_at (flush_dead E b) cj)"
    by (rule flush_invariant [where P = "\<lambda>b. cn_active (conn_at b cj) \<longrightarrow> cn_dead (conn_at b cj)"])
      (rule step, assumption, use assms(1) in simp)
  then show ?thesis using flush_dead_quiet [OF assms(2), of b] by blast
qed

end
