(* ===== verification/Broker_Connect.thy ===== *)
theory Broker_Connect
  imports Broker_Sessions Broker_Flush
begin

text \<open>
  CONNECT (\<open>broker/broker.hpp\<close>, \<open>refuse\<close> and \<open>handle_connect\<close>). The handler is cut along the
  steps of the code: \<open>connect_admit\<close> is the run of checks that may refuse the client, with the
  identifier and the security context they settle on; \<open>connect_takeover\<close> drops an older
  connection of the same client; \<open>connect_session\<close> finds or makes the session, evicting one
  when the pool is full; \<open>connect_attach\<close> ties session and connection together.
\<close>

section \<open>Model\<close>

definition refuse :: "('ctx, 'tr) env \<Rightarrow> nat \<Rightarrow> connack_code \<Rightarrow> bytes \<Rightarrow> ('ctx, 'tr) broker \<Rightarrow> ('ctx, 'tr) broker" where
  "refuse E ci code client_id b =
     mark_dead ci (send_to E ci (connack_pkt (e_traits E) False code) (notify_refused ci client_id code b))"

definition connect_admit :: "('ctx, 'tr) env \<Rightarrow> nat \<Rightarrow> connect_packet \<Rightarrow> ('ctx, 'tr) broker
    \<Rightarrow> ('ctx, 'tr) broker \<times> (bytes \<times> 'ctx) option" where
  "connect_admit E ci p b =
    (if \<not> cp_protocol_name_ok p then (violation ci Err_malformed b, None)
     else if cp_protocol_level p \<noteq> protocol_level_311 then (refuse E ci unacceptable_protocol [] b, None)
     else if cp_client_id p = [] \<and> \<not> cp_clean_session p
     then (refuse E ci identifier_rejected (cp_client_id p) b, None)
     else
       let (b, client_id) = (if cp_client_id p = [] then generate_client_id b else (b, cp_client_id p))
       in if length client_id > max_client_id_len (e_traits E)
          then (refuse E ci identifier_rejected client_id b, None)
          else if \<not> utf8_valid client_id \<or> (cp_has_username p \<and> \<not> utf8_valid (cp_username p))
          then (violation ci Err_malformed b, None)
          else if cp_client_id p \<noteq> [] \<and> uses_reserved_prefix client_id
          then (refuse E ci identifier_rejected client_id b, None)
          else if cp_has_will p \<and> \<not> topic_name_valid (cp_will_topic p)
          then (violation ci Err_malformed b, None)
          else if cp_has_will p \<and> (length (cp_will_topic p) > max_topic_len (e_traits E)
                   \<or> length (cp_will_payload p) > max_payload_len (e_traits E))
          then (refuse E ci server_unavailable client_id b, None)
          else
            let (ac, auth_ctx) =
                  sec_authenticate (e_sec E) client_id
                    (if cp_has_username p then Some (cp_username p) else None)
                    (if cp_has_password p then Some (cp_password p) else None) (sec_ctx (e_sec E))
            in if ac \<noteq> accepted then (refuse E ci ac client_id b, None)
               else (b, Some (client_id, auth_ctx)))"

definition connect_takeover :: "('ctx, 'tr) env \<Rightarrow> bytes \<Rightarrow> ('ctx, 'tr) broker \<Rightarrow> ('ctx, 'tr) broker \<times> nat option" where
  "connect_takeover E client_id b =
    (case find_client client_id b of
       None \<Rightarrow> (b, None)
     | Some si \<Rightarrow>
         (case session_at b si of
            None \<Rightarrow> (fail b, None)
          | Some s \<Rightarrow>
              if connected s then
                let b = notify_session session_taken_over s b;
                    b = mark_dead (unat (s_conn s)) b;
                    b = flush_dead E b
                in (b, find_client client_id b)
              else (b, Some si)))"

definition alloc_session :: "('ctx, 'tr) env \<Rightarrow> ('ctx, 'tr) broker \<Rightarrow> ('ctx, 'tr) broker \<times> nat option" where
  "alloc_session E b =
    (let (sessions, s) = pool_alloc (new_session (sec_ctx (e_sec E))) (b_sessions b)
     in (b\<lparr>b_sessions := sessions\<rparr>, s))"

definition alloc_or_evict :: "('ctx, 'tr) env \<Rightarrow> ('ctx, 'tr) broker \<Rightarrow> ('ctx, 'tr) broker \<times> nat option" where
  "alloc_or_evict E b =
    (case alloc_session E b of
       (b, Some si) \<Rightarrow> (b, Some si)
     | (b, None) \<Rightarrow>
         (case oldest_disconnected_session (e_traits E) b of
            None \<Rightarrow> (b, None)
          | Some (vi, victim) \<Rightarrow> alloc_session E (release_session vi (notify_session session_evicted victim b))))"

text \<open>The state, whether the session was there before, and the session unless the pool is full.\<close>

definition connect_session :: "('ctx, 'tr) env \<Rightarrow> bytes \<Rightarrow> bool \<Rightarrow> nat option \<Rightarrow> ('ctx, 'tr) broker
    \<Rightarrow> ('ctx, 'tr) broker \<times> bool \<times> nat option" where
  "connect_session E client_id clean existing b =
    (case (clean, existing) of
       (False, Some si) \<Rightarrow> (b, True, Some si)
     | _ \<Rightarrow>
         let b = (case existing of None \<Rightarrow> b | Some si \<Rightarrow> release_session si b)
         in case alloc_or_evict E b of
              (b, None) \<Rightarrow> (b, False, None)
            | (b, Some si) \<Rightarrow>
                (upd_session si (\<lambda>s. s\<lparr>s_client_id :=
                   fst (fixed_assign (max_client_id_len (e_traits E)) client_id (s_client_id s))\<rparr>) b, False, Some si))"

definition arm_session :: "traits \<Rightarrow> nat \<Rightarrow> connect_packet \<Rightarrow> 'ctx \<Rightarrow> 'ctx session \<Rightarrow> 'ctx session" where
  "arm_session T ci p auth_ctx s =
    (let s = s\<lparr>s_clean_session := cp_clean_session p, s_conn := of_nat ci, s_auth_ctx := auth_ctx,
               s_has_will := cp_has_will p\<rparr>
     in if cp_has_will p
        then s\<lparr>s_will_topic := fst (fixed_assign (max_topic_len T) (cp_will_topic p) (s_will_topic s)),
               s_will_payload := fst (fixed_assign (max_payload_len T) (cp_will_payload p) (s_will_payload s)),
               s_will_qos := cp_will_qos p, s_will_retain := cp_will_retain p\<rparr>
        else s)"

definition connect_attach :: "('ctx, 'tr) env \<Rightarrow> nat \<Rightarrow> connect_packet \<Rightarrow> 'ctx \<Rightarrow> bool \<Rightarrow> nat \<Rightarrow> ('ctx, 'tr) broker \<Rightarrow> ('ctx, 'tr) broker" where
  "connect_attach E ci p auth_ctx session_present si b =
    (let b = upd_session si (arm_session (e_traits E) ci p auth_ctx) b;
         b = upd_conn ci (\<lambda>c. refresh_deadline (e_traits E) (b_now_ms b)
               (c\<lparr>cn_session := of_nat si, cn_keepalive_s := cp_keepalive_s p\<rparr>)) b;
         b = with_session si b (\<lambda>s. notify_session (if session_present then session_resumed else session_created) s b);
         b = send_to E ci (connack_pkt (e_traits E) session_present accepted) b
     in if session_present then resume_session E si b else b)"

definition handle_connect :: "('ctx, 'tr) env \<Rightarrow> nat \<Rightarrow> bytes \<Rightarrow> ('ctx, 'tr) broker \<Rightarrow> ('ctx, 'tr) broker" where
  "handle_connect E ci body b =
    (if cn_session (conn_at b ci) \<noteq> no_session then violation ci Err_state b
     else case parse_connect body of
            Inl _ \<Rightarrow> violation ci Err_malformed b
          | Inr p \<Rightarrow>
              (case connect_admit E ci p b of
                 (b, None) \<Rightarrow> b
               | (b, Some (client_id, auth_ctx)) \<Rightarrow>
                   let (b, existing) = connect_takeover E client_id b;
                       (b, session_present, s) = connect_session E client_id (cp_clean_session p) existing b
                   in case s of
                        None \<Rightarrow> refuse E ci server_unavailable client_id b
                      | Some si \<Rightarrow> connect_attach E ci p auth_ctx session_present si b))"

section \<open>Serving a connection\<close>

text \<open>The state in which a handler runs on connection \<open>ci\<close>, and which it leaves.\<close>

definition serving :: "traits \<Rightarrow> nat \<Rightarrow> ('ctx, 'tr) broker \<Rightarrow> bool" where
  "serving T ci b \<longleftrightarrow> wf_broker T b \<and> ci < max_connections T \<and> cn_active (conn_at b ci)"

lemma servingD: "serving T ci b \<Longrightarrow> wf_broker T b" "serving T ci b \<Longrightarrow> ci < max_connections T"
  "serving T ci b \<Longrightarrow> cn_active (conn_at b ci)"
  by (simp_all add: serving_def)

lemma serving_notify [simp]: "serving T ci (notify e b) = serving T ci b"
  by (simp add: serving_def)

lemma serving_mark_dead: "serving T ci b \<Longrightarrow> serving T ci (mark_dead ci b)"
  by (auto simp: serving_def wf_mark_dead) (simp add: mark_dead_def conn_at_upd)

lemma serving_delivers:
  "serving T ci b \<Longrightarrow> delivers b b' \<Longrightarrow> sessions_ok T b' \<Longrightarrow> serving T ci b'"
  using wf_delivers [of T b b'] delivers_conn(2) [of b b' ci] by (simp add: serving_def)

lemma serving_send_to: "serving T ci b \<Longrightarrow> serving T ci (send_to E cj pkt b)"
  using serving_delivers [OF _ delivers_send_to] wfD(2) servingD(1) by (metis sessions_ok_send_to)

lemma serving_violation: "serving T ci b \<Longrightarrow> serving T ci (violation ci e b)"
  unfolding violation_def by (rule serving_mark_dead) (simp add: notify_violation_def)

lemma serving_refuse: "serving T ci b \<Longrightarrow> serving T ci (refuse E ci code client_id b)"
  unfolding refuse_def by (intro serving_mark_dead serving_send_to) (simp add: notify_refused_def)

lemma session_at_mark_dead [simp]: "session_at (mark_dead ci b) = session_at b"
  by (simp add: mark_dead_def)

lemma dead_mark: "ci < length (b_conns b) \<Longrightarrow> cn_dead (conn_at (mark_dead ci b) ci)"
  by (simp add: mark_dead_def conn_at_upd)

lemma send_to_conns [simp]: "length (b_conns (send_to E ci pkt b)) = length (b_conns b)"
  using delivers_conn(5) [OF delivers_send_to] .

lemma session_at_send_to [simp]: "session_at (send_to E ci pkt b) = session_at b"
  by (rule ext) (auto simp: session_at_def send_to_def transport_send_def mark_dead_def notify_conn_def Let_def split: prod.splits)

section \<open>Preservation\<close>

lemma wf_counter: "wf_broker T b \<Longrightarrow> wf_broker T (b\<lparr>b_auto_id_counter := c\<rparr>)"
  by (erule wf_cong) simp_all

lemma counter_upd_at [simp]:
  "session_at (b\<lparr>b_auto_id_counter := c\<rparr>) = session_at b" "conn_at (b\<lparr>b_auto_id_counter := c\<rparr>) = conn_at b"
  by (auto simp: session_at_def conn_at_def fun_eq_iff)

lemma serving_counter: "serving T ci b \<Longrightarrow> serving T ci (b\<lparr>b_auto_id_counter := c\<rparr>)"
  by (simp add: serving_def wf_counter)

definition will_fits :: "traits \<Rightarrow> connect_packet \<Rightarrow> bool" where
  "will_fits T p \<longleftrightarrow> (cp_has_will p \<longrightarrow> topic_name_valid (cp_will_topic p)
     \<and> length (cp_will_topic p) \<le> max_topic_len T \<and> length (cp_will_payload p) \<le> max_payload_len T)"

lemma chosen_id:
  assumes "serving T ci b" "cp_client_id p = [] \<longrightarrow> cp_clean_session p"
  obtains c cid where "(if cp_client_id p = [] then generate_client_id b else (b, cp_client_id p)) = (b\<lparr>b_auto_id_counter := c\<rparr>, cid)"
    "cid \<noteq> []" "cp_client_id p = [] \<Longrightarrow> find_client cid b = None"
proof (cases "cp_client_id p = []")
  case True
  have "length (slots (b_sessions b)) < 65536"
    using wfD(3,8) [OF servingD(1) [OF assms(1)]] by (simp add: pool_inv_def traits_ok_def)
  from generate_client_id_fresh [OF this] show ?thesis using that True length_auto_id(2) by metis
next
  case False
  then show ?thesis using that [of "b_auto_id_counter b" "cp_client_id p"] by simp
qed

lemma admit:
  assumes s: "serving (e_traits E) ci b" and a: "connect_admit E ci p b = (b', r)"
  shows "case r of None \<Rightarrow> serving (e_traits E) ci b'
     | Some (cid, ctx) \<Rightarrow> (\<exists>c. b' = b\<lparr>b_auto_id_counter := c\<rparr>) \<and> cid \<noteq> []
         \<and> length cid \<le> max_client_id_len (e_traits E) \<and> will_fits (e_traits E) p"
proof (cases "cp_client_id p = [] \<longrightarrow> cp_clean_session p")
  case False
  then show ?thesis using a s
    by (auto simp: connect_admit_def serving_violation serving_refuse split: if_splits)
next
  case True
  obtain c cid where c: "(if cp_client_id p = [] then generate_client_id b else (b, cp_client_id p)) = (b\<lparr>b_auto_id_counter := c\<rparr>, cid)"
    "cid \<noteq> []" using chosen_id [OF s True] by metis
  have sc: "serving (e_traits E) ci (b\<lparr>b_auto_id_counter := c\<rparr>)" by (rule serving_counter [OF s])
  show ?thesis using a s sc True c(2) unfolding connect_admit_def c(1) Let_def prod.case
    by (auto simp: serving_violation serving_refuse will_fits_def split: if_splits prod.splits)
qed

text \<open>Connection \<open>ci\<close> is open, has no session yet and is not being dropped.\<close>

definition fresh_conn :: "traits \<Rightarrow> nat \<Rightarrow> ('ctx, 'tr) broker \<Rightarrow> bool" where
  "fresh_conn T ci b \<longleftrightarrow> serving T ci b \<and> cn_session (conn_at b ci) = no_session \<and> \<not> cn_dead (conn_at b ci)"

text \<open>No session of that client, or one that nobody is connected to.\<close>

definition free_client :: "bytes \<Rightarrow> nat option \<Rightarrow> ('ctx, 'tr) broker \<Rightarrow> bool" where
  "free_client cid existing b \<longleftrightarrow> existing = find_client cid b
     \<and> (\<forall>si s. session_at b si = Some s \<longrightarrow> s_client_id s = cid \<longrightarrow> \<not> connected s)"

lemma takeover_disconnects:
  assumes f: "fresh_conn (e_traits E) ci b" and s: "session_at b si = Some s" "connected s"
  shows "fresh_conn (e_traits E) ci (flush_dead E (mark_dead (unat (s_conn s)) b))"
    and "session_at (flush_dead E (mark_dead (unat (s_conn s)) b)) sj = Some t \<Longrightarrow> s_client_id t = s_client_id s \<Longrightarrow> \<not> connected t"
proof -
  let ?cj = "unat (s_conn s)" and ?T = "e_traits E"
  let ?b = "mark_dead ?cj b" let ?b' = "flush_dead E ?b"
  have wf: "wf_broker ?T b" using f by (simp add: fresh_conn_def serving_def)
  have ci: "ci < max_connections ?T" "cn_session (conn_at b ci) = no_session" "\<not> cn_dead (conn_at b ci)" "cn_active (conn_at b ci)"
    using f by (simp_all add: fresh_conn_def serving_def)
  have cj: "?cj < max_connections ?T" "cn_session (conn_at b ?cj) = of_nat si"
    using wfD(7) [OF wf] wfD(1) [OF wf] s by (auto simp: linked_def)
  have ns: "(of_nat si :: u16) \<noteq> no_session"
    using of_nat_16_neq_max [OF session_bound [OF wf s(1)]] by (simp add: no_session_def)
  then have act: "cn_active (conn_at b ?cj)" and ne: "ci \<noteq> ?cj"
    using wfD(5) [OF wf cj(1)] cj(2) ci(2) by (auto simp: conn_ok_def)
  have wf1: "wf_broker ?T ?b" by (rule wf_mark_dead [OF wf act])
  have same: "conn_at ?b ci = conn_at b ci" using ne by (simp add: mark_dead_def conn_at_upd)
  have "conn_at ?b' ci = conn_at b ci" using flush_spares [OF wf1 ci(1)] ci same by simp
  then show "fresh_conn ?T ci ?b'" using wf_flush_dead [OF wf1] ci by (simp add: fresh_conn_def serving_def)
  assume t: "session_at ?b' sj = Some t" "s_client_id t = s_client_id s"
  then obtain s0 where s0: "session_at b sj = Some s0" "s_client_id s0 = s_client_id s" "s_conn t = s_conn s0 \<or> s_conn t = no_conn"
    using shedsD [OF flush_sheds t(1)] by auto
  then have "sj = si" using slot_pool.keyedD [OF wfD(6) [OF wf], of sj s0 si s] s(1) by (simp add: session_at_def)
  then have "s0 = s" using s0(1) s(1) by simp
  have "cn_dead (conn_at ?b ?cj)" using cj(1) wfD(1) [OF wf] by (simp add: dead_mark)
  then have "\<not> cn_active (conn_at ?b' ?cj)" by (rule flush_kills [OF _ cj(1)])
  then have "cn_session (conn_at ?b' ?cj) = no_session"
    using wfD(5) [OF wf_flush_dead [OF wf1] cj(1)] by (simp add: conn_ok_def)
  then have "\<not> (connected t \<and> s_conn t = s_conn s)"
    using linkedD [OF wfD(7) [OF wf_flush_dead [OF wf1]] t(1)] ns \<open>sj = si\<close> by auto
  then show "\<not> connected t" using s0(3) \<open>s0 = s\<close> by (auto simp: connected_def)
qed

lemma takeover:
  assumes f: "fresh_conn (e_traits E) ci b" and t: "connect_takeover E cid b = (b', existing)"
  shows "fresh_conn (e_traits E) ci b' \<and> free_client cid existing b'"
proof (cases "find_client cid b")
  case None
  then show ?thesis using f t find_client_None [of cid b] by (auto simp: connect_takeover_def free_client_def)
next
  case (Some si)
  then obtain s where s: "session_at b si = Some s" "s_client_id s = cid" using find_client_Some by blast
  have wf: "wf_broker (e_traits E) b" using f by (simp add: fresh_conn_def serving_def)
  show ?thesis
  proof (cases "connected s")
    case True
    let ?n = "notify_session session_taken_over s b"
    have n: "fresh_conn (e_traits E) ci ?n" "session_at ?n si = Some s"
      using f s by (simp_all add: fresh_conn_def notify_session_def)
    show ?thesis
      using t takeover_disconnects [OF n True] Some s True by (auto simp: connect_takeover_def Let_def free_client_def)
  next
    case False
    have "si' = si" if "session_at b si' = Some s'" "s_client_id s' = cid" for si' s'
      using slot_pool.keyedD [OF wfD(6) [OF wf], of si' s' si s] that s by (simp add: session_at_def)
    then have "\<not> connected s'" if "session_at b si' = Some s'" "s_client_id s' = cid" for si' s'
      using that s False by fastforce
    then show ?thesis using t Some s False f by (auto simp: connect_takeover_def free_client_def)
  qed
qed

lemma wf_new_session:
  assumes wf: "wf_broker T b" and al: "pool_alloc d (b_sessions b) = (p, Some si)"
    and s: "session_ok T s" "\<not> connected s" "find_client (s_client_id s) b = None"
  shows "wf_broker T (put_session si s (b\<lparr>b_sessions := p\<rparr>))"
    and "session_at (put_session si s (b\<lparr>b_sessions := p\<rparr>)) = (session_at b)(si := Some s)"
proof -
  let ?b = "put_session si s (b\<lparr>b_sessions := p\<rparr>)"
  note a = pool_alloc_Some [OF wfD(3) [OF wf] al]
  have p: "pool_at p si = Some d" using a by simp
  show at: "session_at ?b = (session_at b)(si := Some s)"
    using a pool_at_bound [OF p] by (auto simp: session_at_def put_session_def fun_eq_iff)
  have c: "conn_at ?b = conn_at b" "b_conns ?b = b_conns b" by (auto simp: put_session_def intro: conn_at_cong)
  have n: "session_at b si = None" using a by (simp add: session_at_def)
  have "linked ?b"
    unfolding linked_def c at
  proof (intro conjI allI impI)
    fix sj t assume t: "((session_at b)(si := Some s)) sj = Some t" "connected t"
    then have "session_at b sj = Some t" using s(2) by (auto split: if_splits)
    then show "unat (s_conn t) < length (b_conns b)" "cn_session (conn_at b (unat (s_conn t))) = of_nat sj"
      using linkedD [OF wfD(7) [OF wf]] t(2) by blast+
  next
    fix ci assume "ci < length (b_conns b)" "cn_session (conn_at b ci) \<noteq> no_session"
    then obtain t where "session_at b (unat (cn_session (conn_at b ci))) = Some t" "s_conn t = of_nat ci"
      using wfD(7) [OF wf] by (auto simp: linked_def)
    then show "\<exists>t. ((session_at b)(si := Some s)) (unat (cn_session (conn_at b ci))) = Some t \<and> s_conn t = of_nat ci"
      using n by auto
  qed
  moreover have "sessions_ok T ?b"
    unfolding sessions_ok_def at using wfD(2) [OF wf] s(1) by (auto simp: sessions_ok_def)
  moreover have "slot_pool.keyed s_client_id (b_sessions ?b)"
    using slot_pool.keyed_alloc_put [OF wfD(3) [OF wf] wfD(6) [OF wf] al, of s] s(3)
    by (simp add: put_session_def find_client_None session_at_def)
  moreover have "pool_inv (max_sessions T) (b_sessions ?b)"
    using pool_inv_put [of _ p si d s] a p by (simp add: put_session_def)
  moreover have "conn_ok T (conn_at ?b ci)" if "ci < length (b_conns ?b)" for ci
    using that wf unfolding c by (simp add: wf_broker_def)
  ultimately show "wf_broker T ?b" using wf by (simp add: wf_broker_def)
qed

lemma session_ok_new:
  "cid \<noteq> [] \<Longrightarrow> length cid \<le> max_client_id_len T \<Longrightarrow> session_ok T ((new_session ctx)\<lparr>s_client_id := cid\<rparr>)"
  by (simp add: session_ok_def new_session_def pending_ok_Nil)

lemma alloc_named:
  assumes wf: "wf_broker (e_traits E) b" and a: "alloc_session E b = (b', Some si)"
    and cid: "cid \<noteq> []" "length cid \<le> max_client_id_len (e_traits E)" "find_client cid b = None"
    and b'': "b'' = upd_session si (\<lambda>s. s\<lparr>s_client_id := fst (fixed_assign (max_client_id_len (e_traits E)) cid (s_client_id s))\<rparr>) b'"
  shows "wf_broker (e_traits E) b''" "b_conns b'' = b_conns b"
    "session_at b'' = (session_at b)(si := Some ((new_session (sec_ctx (e_sec E)))\<lparr>s_client_id := cid\<rparr>))"
proof -
  let ?d = "new_session (sec_ctx (e_sec E))"
  obtain p where p: "pool_alloc ?d (b_sessions b) = (p, Some si)" "b' = b\<lparr>b_sessions := p\<rparr>"
    using a by (auto simp: alloc_session_def split: prod.splits)
  have "session_at b' si = Some ?d" using pool_alloc_Some [OF wfD(3) [OF wf] p(1)] p(2) by (simp add: session_at_def)
  then have e: "b'' = put_session si (?d\<lparr>s_client_id := cid\<rparr>) (b\<lparr>b_sessions := p\<rparr>)"
    using cid(2) by (simp add: b'' upd_session_Some fixed_assign_fits p(2))
  have n: "\<not> connected (?d\<lparr>s_client_id := cid\<rparr>)" by (simp add: connected_def new_session_def)
  show "wf_broker (e_traits E) b''" "session_at b'' = (session_at b)(si := Some (?d\<lparr>s_client_id := cid\<rparr>))"
    unfolding e using wf_new_session [OF wf p(1) session_ok_new [OF cid(1,2)] n] cid(3) by simp_all
  show "b_conns b'' = b_conns b" by (simp add: e)
qed

lemma release_conns [simp]: "b_conns (release_session si b) = b_conns b"
  by (simp add: release_session_def)

lemma session_at_release: "session_at (release_session si b) = (session_at b)(si := None)"
  by (auto simp: session_at_def release_session_def fun_eq_iff)

lemma alloc_session_None: "wf_broker T b \<Longrightarrow> alloc_session E b = (b', None) \<Longrightarrow> b' = b"
  using pool_alloc_None [OF wfD(3), of T b] by (auto simp: alloc_session_def split: prod.splits)

text \<open>What was free of the client stays so when other sessions go away.\<close>

lemma find_client_release: "find_client cid b = None \<Longrightarrow> find_client cid (release_session si b) = None"
  by (auto simp: find_client_None session_at_release)

lemma alloc_or_evict_from:
  assumes wf: "wf_broker (e_traits E) b" and a: "alloc_or_evict E b = (b', r)" and n: "find_client cid b = None"
  shows "case r of None \<Rightarrow> b' = b
    | Some si \<Rightarrow> \<exists>b0. wf_broker (e_traits E) b0 \<and> b_conns b0 = b_conns b \<and> find_client cid b0 = None \<and> alloc_session E b0 = (b', Some si)"
proof (cases "alloc_session E b")
  case (Pair b1 r1)
  show ?thesis
  proof (cases r1)
    case (Some si)
    then show ?thesis using Pair a wf n by (auto simp: alloc_or_evict_def)
  next
    case None
    then have b1: "b1 = b" using alloc_session_None [OF wf] Pair by simp
    show ?thesis
    proof (cases "oldest_disconnected_session (e_traits E) b")
      case None
      then show ?thesis using Pair \<open>r1 = None\<close> a b1 by (auto simp: alloc_or_evict_def)
    next
      case (Some v)
      obtain vi victim where v: "v = (vi, victim)" by fastforce
      have o: "session_at b vi = Some victim" "\<not> connected victim" using oldest_disconnected Some v by blast+
      let ?n = "notify_session session_evicted victim b"
      let ?b0 = "release_session vi ?n"
      have "wf_broker (e_traits E) ?b0"
        by (rule wf_release [OF _ _ o(2)]) (use wf o in \<open>simp_all add: notify_session_def\<close>)
      moreover have "find_client cid ?b0 = None"
        by (rule find_client_release) (use n in \<open>simp add: notify_session_def find_client_None\<close>)
      moreover have "b_conns ?b0 = b_conns b" by (simp add: notify_session_def)
      moreover have e: "alloc_session E ?b0 = (b', r)" using Pair \<open>r1 = None\<close> a b1 Some v by (simp add: alloc_or_evict_def)
      moreover have "r \<noteq> None"
      proof -
        have "vi < max_sessions (e_traits E)"
          using slot_pool.at_bound [OF wfD(3) [OF wf], of vi] o(1) by (simp add: session_at_def)
        then show ?thesis
          using slot_pool.alloc_after_release [OF wfD(3) [OF wf], of vi victim "new_session (sec_ctx (e_sec E))"] o(1) e
          by (auto simp: session_at_def alloc_session_def release_session_def notify_session_def split: prod.splits)
      qed
      ultimately show ?thesis by (auto split: option.splits)
    qed
  qed
qed

lemma fresh_conn_cong:
  "fresh_conn T ci b \<Longrightarrow> wf_broker T b' \<Longrightarrow> b_conns b' = b_conns b \<Longrightarrow> fresh_conn T ci b'"
  using conn_at_cong [of b' b] by (simp add: fresh_conn_def serving_def)

lemma connect_session_ok:
  assumes f: "fresh_conn (e_traits E) ci b" and free: "free_client cid existing b"
    and cid: "cid \<noteq> []" "length cid \<le> max_client_id_len (e_traits E)"
    and c: "connect_session E cid clean existing b = (b', present, r)"
  shows "fresh_conn (e_traits E) ci b'
    \<and> (\<forall>si. r = Some si \<longrightarrow> (\<exists>s. session_at b' si = Some s \<and> \<not> connected s \<and> s_client_id s = cid))"
proof (cases "\<not> clean \<and> existing \<noteq> None")
  case True
  then obtain si where si: "existing = Some si" by blast
  then obtain s where "session_at b si = Some s" "s_client_id s = cid"
    using free find_client_Some [of cid b si] by (auto simp: free_client_def)
  then show ?thesis using True si c f free by (auto simp: connect_session_def free_client_def)
next
  case False
  let ?b1 = "case existing of None \<Rightarrow> b | Some si \<Rightarrow> release_session si b"
  have wf: "wf_broker (e_traits E) b" using f by (simp add: fresh_conn_def serving_def)
  have b1c: "wf_broker (e_traits E) ?b1 \<and> b_conns ?b1 = b_conns b \<and> find_client cid ?b1 = None"
  proof (cases existing)
    case None
    show ?thesis using None wf free by (simp add: free_client_def)
  next
    case (Some si)
    then obtain s where s: "session_at b si = Some s" "s_client_id s = cid" "\<not> connected s"
      using free find_client_Some [of cid b si] by (auto simp: free_client_def)
    have "sj = si" if "session_at b sj = Some t" "s_client_id t = cid" for sj t
      using slot_pool.keyedD [OF wfD(6) [OF wf], of sj t si s] that s by (simp add: session_at_def)
    then have "find_client cid (release_session si b) = None"
      unfolding find_client_None session_at_release by auto
    then show ?thesis using Some wf_release [OF wf s(1,3)] by simp
  qed
  then have b1: "wf_broker (e_traits E) ?b1" "b_conns ?b1 = b_conns b" "find_client cid ?b1 = None" by blast+
  obtain b2 r2 where a: "alloc_or_evict E ?b1 = (b2, r2)" by fastforce
  have cs: "connect_session E cid clean existing b =
     (case r2 of None \<Rightarrow> (b2, False, None) | Some si \<Rightarrow> (upd_session si (\<lambda>s. s\<lparr>s_client_id :=
        fst (fixed_assign (max_client_id_len (e_traits E)) cid (s_client_id s))\<rparr>) b2, False, Some si))"
    using False a by (cases clean; cases existing) (simp_all add: connect_session_def split: option.split)
  show ?thesis
  proof (cases r2)
    case None
    then have "b2 = ?b1" using alloc_or_evict_from [OF b1(1) a b1(3)] by simp
    then have "b' = ?b1" "r = None" using None c cs by simp_all
    then show ?thesis using fresh_conn_cong [OF f b1(1,2)] by simp
  next
    case (Some si)
    then obtain b0 where b0: "wf_broker (e_traits E) b0" "b_conns b0 = b_conns ?b1" "find_client cid b0 = None" "alloc_session E b0 = (b2, Some si)"
      using alloc_or_evict_from [OF b1(1) a b1(3)] by auto
    have b': "b' = upd_session si (\<lambda>s. s\<lparr>s_client_id := fst (fixed_assign (max_client_id_len (e_traits E)) cid (s_client_id s))\<rparr>) b2" "r = Some si"
      using Some c cs by simp_all
    note al = alloc_named [OF b0(1,4) cid b0(3) b'(1)]
    show ?thesis using fresh_conn_cong [OF f al(1)] al(2,3) b0(2) b1(2) b'(2) by (simp add: connected_def new_session_def)
  qed
qed

lemma session_ok_arm:
  "session_ok T s \<Longrightarrow> will_fits T p \<Longrightarrow> of_nat ci \<noteq> no_conn \<Longrightarrow> session_ok T (arm_session T ci p ctx s)"
  by (auto simp: session_ok_def arm_session_def will_fits_def connected_def fixed_assign_fits Let_def)

lemma arm_sel [simp]: "s_client_id (arm_session T ci p ctx s) = s_client_id s" "s_conn (arm_session T ci p ctx s) = of_nat ci"
  by (simp_all add: arm_session_def Let_def)

text \<open>Tying a free session to a fresh connection.\<close>

lemma wf_attach:
  assumes f: "fresh_conn T ci b" and s: "session_at b si = Some s" "\<not> connected s"
    and s': "session_ok T s'" "s_client_id s' = s_client_id s" "s_conn s' = of_nat ci"
    and g: "cn_session (g (conn_at b ci)) = of_nat si" "cn_active (g (conn_at b ci))" "\<not> cn_dead (g (conn_at b ci))"
      "cn_parser (g (conn_at b ci)) = cn_parser (conn_at b ci)"
  shows "wf_broker T (upd_conn ci g (put_session si s' b))"
proof -
  let ?b = "upd_conn ci g (put_session si s' b)"
  have wf: "wf_broker T b" and ci: "ci < max_connections T" "cn_session (conn_at b ci) = no_session" "cn_active (conn_at b ci)" "\<not> cn_dead (conn_at b ci)"
    using f by (simp_all add: fresh_conn_def serving_def)
  have at: "session_at (put_session si s' b) = (session_at b)(si := Some s')" using s(1) by (simp add: session_at_put)
  have c: "conn_at (upd_conn ci g (put_session si x b)) cj = (if cj = ci then g (conn_at b ci) else conn_at b cj)" for cj x
    using ci(1) wfD(1) [OF wf] by (simp add: conn_at_upd)
  have len: "length (b_conns ?b) = length (b_conns b)" by simp
  have big: "ci < 65535" "si < 65535" using ci(1) wfD(8) [OF wf] session_bound [OF wf s(1)] by (simp_all add: traits_ok_def)
  have u: "unat (of_nat ci :: u16) = ci" "unat (of_nat si :: u16) = si" using big by (simp_all add: unat_of_nat_16)
  have "linked ?b"
    unfolding linked_def len
  proof (intro conjI allI impI)
    fix sj t assume t: "session_at ?b sj = Some t" "connected t"
    show "unat (s_conn t) < length (b_conns b)" "cn_session (conn_at ?b (unat (s_conn t))) = of_nat sj"
    proof -
      have "unat (s_conn t) < length (b_conns b) \<and> cn_session (conn_at ?b (unat (s_conn t))) = of_nat sj"
      proof (cases "sj = si")
        case True
        then show ?thesis using t s'(3) u ci(1) wfD(1) [OF wf] g(1) by (simp add: at c)
      next
        case False
        then have tb: "session_at b sj = Some t" using t(1) by (simp add: at)
        note l = linkedD [OF wfD(7) [OF wf] tb t(2)]
        have "unat (s_conn t) \<noteq> ci"
          using l ci(2) of_nat_16_neq_max [OF session_bound [OF wf tb]] by (auto simp: no_session_def)
        then show ?thesis using l by (simp add: c)
      qed
      then show "unat (s_conn t) < length (b_conns b)" "cn_session (conn_at ?b (unat (s_conn t))) = of_nat sj" by blast+
    qed
  next
    fix cj assume cj: "cj < length (b_conns b)" "cn_session (conn_at ?b cj) \<noteq> no_session"
    show "\<exists>t. session_at ?b (unat (cn_session (conn_at ?b cj))) = Some t \<and> s_conn t = of_nat cj"
    proof (cases "cj = ci")
      case True
      then show ?thesis using g(1) u s'(3) by (simp add: c at)
    next
      case False
      then obtain t where t: "session_at b (unat (cn_session (conn_at b cj))) = Some t" "s_conn t = of_nat cj"
        using cj wfD(7) [OF wf] by (auto simp: linked_def c)
      have "cj < 65535" using cj(1) wfD(1,8) [OF wf] by (simp add: traits_ok_def)
      then have "connected t" using t(2) of_nat_16_neq_max [of cj] by (simp add: connected_def no_conn_def)
      then have "unat (cn_session (conn_at b cj)) \<noteq> si" using t(1) s by auto
      then show ?thesis using t False by (simp add: c at)
    qed
  qed
  moreover have "sessions_ok T ?b"
    using sessions_ok_put [OF wfD(2) [OF wf] s(1) s'(1)] by (rule sessions_ok_cong) simp_all
  moreover have "slot_pool.keyed s_client_id (b_sessions ?b)" "pool_inv (max_sessions T) (b_sessions ?b)"
    using slot_pool.keyed_put_same [OF wfD(3) [OF wf] wfD(6) [OF wf], of si s s'] s(1) s'(2)
      pool_inv_put [OF wfD(3) [OF wf], of si s s'] by (simp_all add: put_session_def session_at_def)
  moreover have "conn_ok T (conn_at ?b cj)" if "cj < length (b_conns ?b)" for cj
    using that wfD(5) [OF wf, of cj] wfD(1) [OF wf] wfD(5) [OF wf ci(1)] g ci
    by (auto simp: c conn_ok_def)
  ultimately show ?thesis using wf by (simp add: wf_broker_def)
qed

lemma refresh_sel [simp]:
  "cn_session (refresh_deadline T now c) = cn_session c" "cn_active (refresh_deadline T now c) = cn_active c"
  "cn_dead (refresh_deadline T now c) = cn_dead c" "cn_parser (refresh_deadline T now c) = cn_parser c"
  by (simp_all add: refresh_deadline_def)

lemma serving_attach:
  assumes f: "fresh_conn (e_traits E) ci b" and s: "session_at b si = Some s" "\<not> connected s" and p: "will_fits (e_traits E) p"
  shows "serving (e_traits E) ci (connect_attach E ci p ctx present si b)"
proof -
  let ?T = "e_traits E"
  let ?s = "arm_session ?T ci p ctx s"
  let ?g = "\<lambda>c. refresh_deadline ?T (b_now_ms b) (c\<lparr>cn_session := of_nat si, cn_keepalive_s := cp_keepalive_s p\<rparr>)"
  let ?b1 = "upd_conn ci ?g (put_session si ?s b)"
  have wf: "wf_broker ?T b" and ci: "ci < max_connections ?T" "cn_active (conn_at b ci)" "\<not> cn_dead (conn_at b ci)"
    using f by (simp_all add: fresh_conn_def serving_def)
  have "ci < 65535" using ci(1) wfD(8) [OF wf] by (simp add: traits_ok_def)
  then have "session_ok ?T ?s"
    using session_ok_arm [OF sessions_ok_at [OF wfD(2) [OF wf] s(1)] p] of_nat_16_neq_max [of ci] by (simp add: no_conn_def)
  then have "wf_broker ?T ?b1" using wf_attach [OF f s, of ?s ?g] ci by simp
  then have b1: "serving ?T ci ?b1" using ci wfD(1) [OF wf] by (simp add: serving_def conn_at_upd)
  have at: "session_at ?b1 si = Some ?s" using s(1) by (simp add: session_at_put)
  have sent: "serving ?T ci (send_to E ci pkt (notify_session k ?s ?b1))" for pkt k
    by (rule serving_send_to) (use b1 in \<open>simp add: notify_session_def\<close>)
  moreover have "session_at (send_to E ci pkt (notify_session k ?s ?b1)) si \<noteq> None" for pkt k
    using at by (simp add: notify_session_def)
  ultimately have "serving ?T ci (resume_session E si (send_to E ci pkt (notify_session k ?s ?b1)))" for pkt k
    using serving_delivers [OF _ delivers_resume_session] resume_session_ok [OF wfD(8) [OF wf]] wfD(2) servingD(1) by blast
  then show ?thesis
    using sent at by (simp add: connect_attach_def upd_session_Some [OF s(1)] Let_def with_session_Some [OF at])
qed

theorem serving_connect:
  assumes s: "serving (e_traits E) ci b" and d: "\<not> cn_dead (conn_at b ci)"
  shows "serving (e_traits E) ci (handle_connect E ci body b)"
proof (cases "cn_session (conn_at b ci) \<noteq> no_session \<or> (\<exists>e. parse_connect body = Inl e)")
  case True
  then show ?thesis using serving_violation [OF s] by (auto simp: handle_connect_def)
next
  case False
  then obtain p where p: "parse_connect body = Inr p" "cn_session (conn_at b ci) = no_session" by (metis sum.exhaust)
  obtain b1 r where a: "connect_admit E ci p b = (b1, r)" by fastforce
  show ?thesis
  proof (cases r)
    case None
    then show ?thesis using admit [OF s a] p a by (simp add: handle_connect_def)
  next
    case (Some cc)
    obtain cid ctx where cc: "cc = (cid, ctx)" by fastforce
    obtain c where c: "b1 = b\<lparr>b_auto_id_counter := c\<rparr>" "cid \<noteq> []" "length cid \<le> max_client_id_len (e_traits E)" "will_fits (e_traits E) p"
      using admit [OF s a] Some cc by auto
    have f: "fresh_conn (e_traits E) ci b1" using serving_counter [OF s] p(2) d by (simp add: fresh_conn_def c(1))
    obtain b2 ex where t: "connect_takeover E cid b1 = (b2, ex)" by fastforce
    obtain b3 present r3 where cs: "connect_session E cid (cp_clean_session p) ex b2 = (b3, present, r3)" by (metis prod_cases3)
    note f2 = takeover [OF f t]
    note f3 = connect_session_ok [OF conjunct1 [OF f2] conjunct2 [OF f2] c(2,3) cs]
    have h: "handle_connect E ci body b = (case r3 of None \<Rightarrow> refuse E ci server_unavailable cid b3
        | Some si \<Rightarrow> connect_attach E ci p ctx present si b3)"
      using p a Some cc t cs by (simp add: handle_connect_def)
    show ?thesis
      using h f3 serving_refuse [of "e_traits E" ci b3] serving_attach [of E ci b3 _ _ p ctx present] c(4)
      by (auto simp: fresh_conn_def split: option.splits)
  qed
qed

end
