(* ===== verification/Packets_Accept.thy ===== *)
theory Packets_Accept
  imports Packets
begin

unbundle bit_operations_syntax

text \<open>
  Which bodies the parsers of \<open>protocol/packets.hpp\<close> accept: PUBLISH, the packets that
  carry only a packet identifier, and the SUBSCRIBE and UNSUBSCRIBE topic lists, each as
  an equivalence between a parser's success and the layout of the packet.
\<close>

section \<open>PUBLISH and packet identifiers\<close>

text \<open>An accepted PUBLISH body is exactly the layout of [MQTT-3.3].\<close>

definition publish_ok :: "byte \<Rightarrow> publish_packet \<Rightarrow> bool" where
  "publish_ok first_byte p \<longleftrightarrow>
     qos_code (pp_qos p) = publish_qos_raw (packet_flags first_byte)
     \<and> (pp_dup p \<longleftrightarrow> packet_flags first_byte AND publish_dup_bit \<noteq> 0)
     \<and> (pp_retain p \<longleftrightarrow> packet_flags first_byte AND publish_retain_bit \<noteq> 0)
     \<and> (if pp_qos p = at_most_once then \<not> pp_dup p \<and> pp_packet_id p = 0 else pp_packet_id p \<noteq> 0)
     \<and> length (pp_topic p) \<le> max_utf8_len"

lemma parse_publish_step:
  assumes "r_utf8 (reader_init body) = (topic, r1)"
    "(if publish_qos_raw (packet_flags fb) \<noteq> 0 then r_u16 r1 else (0, r1)) = (pid, r2)"
    "publish_qos_raw (packet_flags fb) \<le> 2"
  shows "parse_publish fb body =
    (let q = qos_cast (publish_qos_raw (packet_flags fb))
     in if q = at_most_once \<and> packet_flags fb AND publish_dup_bit \<noteq> 0 then Inl Err_malformed
     else if \<not> r_ok r2 then Inl Err_truncated
     else if q \<noteq> at_most_once \<and> pid = 0 then Inl Err_malformed
     else Inr \<lparr>pp_topic = topic, pp_payload = r_rest r2, pp_packet_id = pid, pp_qos = q,
          pp_retain = (packet_flags fb AND publish_retain_bit \<noteq> 0),
          pp_dup = (packet_flags fb AND publish_dup_bit \<noteq> 0)\<rparr>)"
proof -
  have "qos_cast (publish_qos_raw (packet_flags fb)) \<noteq> at_most_once \<longleftrightarrow> publish_qos_raw (packet_flags fb) \<noteq> 0"
    by (simp add: qos_cast_def)
  then show ?thesis
    using assms unfolding parse_publish_def Let_def by (auto simp: r_take_rest_def split: prod.splits)
qed

theorem parse_publish_iff:
  "parse_publish fb body = Inr p \<longleftrightarrow>
     publish_ok fb p \<and> body = publish_body (pp_topic p) (pp_payload p) (pp_qos p) (pp_packet_id p)"
proof (cases "publish_qos_raw (packet_flags fb) \<le> 2")
  case False
  then have "parse_publish fb body = Inl Err_malformed" by (simp add: parse_publish_def Let_def not_le)
  moreover have "\<not> publish_ok fb p"
    using qos_code_le [of "pp_qos p"] False unfolding publish_ok_def by metis
  ultimately show ?thesis by simp
next
  case True
  have q: "qos_code q = publish_qos_raw (packet_flags fb) \<longleftrightarrow> q = qos_cast (publish_qos_raw (packet_flags fb))" for q
    using qos_code_cast [OF True] by (metis qos_cast_code)
  have q0: "publish_qos_raw (packet_flags fb) = 0 \<longleftrightarrow> qos_cast (publish_qos_raw (packet_flags fb)) = at_most_once"
    by (simp add: qos_cast_def)
  obtain topic r1 where 1: "r_utf8 (reader_init body) = (topic, r1)" by fastforce
  obtain pid r2 where 2: "(if publish_qos_raw (packet_flags fb) \<noteq> 0 then r_u16 r1 else (0, r1)) = (pid, r2)"
    by fastforce
  note step = parse_publish_step [OF 1 2 True]
  show ?thesis
  proof
    assume l: "parse_publish fb body = Inr p"
    then have p: "r_ok r2" "p = \<lparr>pp_topic = topic, pp_payload = r_rest r2, pp_packet_id = pid,
          pp_qos = qos_cast (publish_qos_raw (packet_flags fb)),
          pp_retain = (packet_flags fb AND publish_retain_bit \<noteq> 0),
          pp_dup = (packet_flags fb AND publish_dup_bit \<noteq> 0)\<rparr>"
      unfolding step Let_def by (auto split: if_splits)
    have "r_ok r1 \<and> r_rest r1 = (if publish_qos_raw (packet_flags fb) \<noteq> 0 then u16_bytes pid else []) @ r_rest r2"
      using 2 p(1) r_u16D [of r1 pid r2] by (auto split: if_splits)
    moreover from this have "length topic \<le> max_utf8_len \<and> body = utf8_bytes topic @ r_rest r1"
      using r_utf8D [OF 1] by (simp add: reader_init_def)
    moreover have "if publish_qos_raw (packet_flags fb) = 0 then packet_flags fb AND publish_dup_bit = 0 \<and> pid = 0 else pid \<noteq> 0"
      using l 2 unfolding step Let_def q0 by (auto split: if_splits)
    ultimately show "publish_ok fb p \<and> body = publish_body (pp_topic p) (pp_payload p) (pp_qos p) (pp_packet_id p)"
      by (simp add: publish_ok_def publish_body_def p(2) q q0)
  next
    assume r: "publish_ok fb p \<and> body = publish_body (pp_topic p) (pp_payload p) (pp_qos p) (pp_packet_id p)"
    have f: "pp_qos p = qos_cast (publish_qos_raw (packet_flags fb))" "length (pp_topic p) \<le> max_utf8_len"
      using r by (simp_all add: publish_ok_def q)
    have "topic = pp_topic p" "r1 = \<lparr>r_rest = (if pp_qos p \<noteq> at_most_once then u16_bytes (pp_packet_id p) else []) @ pp_payload p, r_ok = True\<rparr>"
      using 1 r f(2) by (simp_all add: publish_body_def reader_init_def wire_simps)
    moreover from this have "r2 = \<lparr>r_rest = pp_payload p, r_ok = True\<rparr>" "pid = (if pp_qos p \<noteq> at_most_once then pp_packet_id p else 0)"
      using 2 by (simp_all add: q0 f(1) [symmetric] wire_simps split: if_splits)
    ultimately show "parse_publish fb body = Inr p"
      using r unfolding step Let_def f(1) [symmetric] by (cases p) (auto simp: publish_ok_def)
  qed
qed

lemma parse_packet_id_only_iff:
  "parse_packet_id_only body = Inr pid \<longleftrightarrow> body = u16_bytes pid \<and> pid \<noteq> 0"
proof -
  obtain v r where 1: "r_u16 (reader_init body) = (v, r)" by fastforce
  show ?thesis
  proof
    assume "parse_packet_id_only body = Inr pid"
    then have "r_ok r" "r_rest r = []" "pid = v" "v \<noteq> 0"
      by (auto simp: parse_packet_id_only_def 1 r_at_end_def split: if_splits)
    then show "body = u16_bytes pid \<and> pid \<noteq> 0" using r_u16D [OF 1] by (simp add: reader_init_def)
  next
    assume "body = u16_bytes pid \<and> pid \<noteq> 0"
    then show "parse_packet_id_only body = Inr pid"
      by (simp add: parse_packet_id_only_def reader_init_def wire_simps r_at_end_def)
  qed
qed

section \<open>Topic lists\<close>

definition topic_list_bytes :: "bool \<Rightarrow> (bytes \<times> qos) list \<Rightarrow> bytes" where
  "topic_list_bytes with_qos xs =
     concat (map (\<lambda>(flt, q). utf8_bytes flt @ (if with_qos then [qos_code q] else [])) xs)"

definition entry_ok :: "bool \<Rightarrow> bytes \<times> qos \<Rightarrow> bool" where
  "entry_ok with_qos e \<longleftrightarrow> length (fst e) \<le> max_utf8_len \<and> (\<not> with_qos \<longrightarrow> snd e = at_most_once)"

function tl_entries :: "topic_list_parser \<Rightarrow> (bytes \<times> qos) list \<times> err" where
  "tl_entries p =
    (case tl_next p of
       (None, p') \<Rightarrow> ([], tl_err p')
     | (Some x, p') \<Rightarrow> (let (xs, e) = tl_entries p' in (x # xs, e)))"
  by pat_completeness auto
termination
  by (relation "measure (\<lambda>p. r_remaining (tl_r p))") (auto dest!: tl_next_remaining [OF sym])

declare tl_entries.simps [simp del]

lemma tl_while_entries:
  "snd (tl_while f p st) = fold (\<lambda>(flt, q). f flt q) (fst (tl_entries p)) st
   \<and> tl_err (fst (tl_while f p st)) = snd (tl_entries p)"
proof (induction f p st rule: tl_while.induct)
  case (1 f p st)
  show ?case
    using 1 by (simp add: tl_while.simps [of f p st] tl_entries.simps [of p]
        split: prod.splits option.splits)
qed

lemma tl_next_packet_id [simp]: "tl_packet_id (snd (tl_next p)) = tl_packet_id p"
  by (auto simp: tl_next_def Let_def split: prod.splits)

lemma tl_next_SomeD:
  assumes "tl_next p = (Some (flt, q), p')"
  shows "r_ok (tl_r p') \<and> tl_err p' = Err_ok \<and> tl_with_qos p' = tl_with_qos p \<and> tl_count p' \<noteq> 0
    \<and> entry_ok (tl_with_qos p) (flt, q)
    \<and> r_rest (tl_r p) = utf8_bytes flt @ (if tl_with_qos p then [qos_code q] else []) @ r_rest (tl_r p')"
proof -
  obtain s r where 1: "r_utf8 (tl_r p) = (s, r)" by fastforce
  obtain v r' where 2: "(if tl_with_qos p then r_u8 r else (0, r)) = (v, r')" by fastforce
  have n: "r_ok r'" "flt = s" "v \<le> 2" "q = qos_cast v" "tl_err p = Err_ok"
    "p' = p\<lparr>tl_r := r', tl_count := tl_count p + 1\<rparr>"
    using assms by (auto simp: tl_next_def 1 2 Let_def split: if_splits)
  have "r_ok r \<and> r_rest r = (if tl_with_qos p then [qos_code q] else []) @ r_rest r'"
    using 2 n r_u8D [of r v r'] qos_code_cast [OF n(3)] by (auto split: if_splits)
  moreover have "\<not> tl_with_qos p \<Longrightarrow> q = at_most_once" using 2 n(4) by (simp add: qos_cast_def)
  ultimately show ?thesis using r_utf8D [OF 1] n by (simp add: entry_ok_def)
qed

lemma tl_next_enc:
  assumes "tl_err p = Err_ok" "entry_ok (tl_with_qos p) (flt, q)"
    "tl_r p = \<lparr>r_rest = utf8_bytes flt @ (if tl_with_qos p then [qos_code q] else []) @ t, r_ok = True\<rparr>"
  shows "tl_next p = (Some (flt, q), p\<lparr>tl_r := \<lparr>r_rest = t, r_ok = True\<rparr>, tl_count := tl_count p + 1\<rparr>)"
proof -
  have "length flt \<le> max_utf8_len" "utf8_bytes flt \<noteq> []" "\<not> tl_with_qos p \<Longrightarrow> q = at_most_once"
    using assms(2) by (auto simp: entry_ok_def utf8_bytes_def u16_bytes_def)
  then show ?thesis
    using assms(1,3) qos_code_le [of q, folded not_less]
    by (auto simp: tl_next_def r_at_end_def wire_simps Let_def qos_cast_def [of 0] simp del: not_less)
qed

lemma tl_entries_sound:
  "tl_entries p = (xs, Err_ok) \<Longrightarrow> tl_err p = Err_ok \<and> (r_ok (tl_r p) \<longrightarrow>
     r_rest (tl_r p) = topic_list_bytes (tl_with_qos p) xs \<and> list_all (entry_ok (tl_with_qos p)) xs
     \<and> (tl_count p = 0 \<longrightarrow> xs \<noteq> []))"
proof (induction p arbitrary: xs rule: tl_entries.induct)
  case (1 p)
  show ?case
  proof (cases "tl_next p")
    case (Pair x p')
    show ?thesis
    proof (cases x)
      case None
      then have x: "xs = []" "tl_err p' = Err_ok" using 1(2) Pair by (simp_all add: tl_entries.simps [of p])
      then show ?thesis using Pair None
        by (auto simp: tl_next_def Let_def r_at_end_def topic_list_bytes_def split: if_splits prod.splits)
    next
      case (Some e)
      obtain flt q where e: "e = (flt, q)" by fastforce
      obtain ys where ys: "tl_entries p' = (ys, Err_ok)" "xs = (flt, q) # ys"
        using 1(2) Pair Some e by (auto simp: tl_entries.simps [of p] split: prod.splits)
      have "tl_err p = Err_ok" using Pair Some by (auto simp: tl_next_def split: if_splits)
      then show ?thesis
        using tl_next_SomeD [of p flt q p'] 1(1) [OF Pair [symmetric] Some ys(1)] Pair Some e ys(2)
        by (simp add: topic_list_bytes_def)
    qed
  qed
qed

lemma tl_entries_complete:
  "tl_err p = Err_ok \<Longrightarrow> tl_r p = \<lparr>r_rest = topic_list_bytes (tl_with_qos p) xs, r_ok = True\<rparr> \<Longrightarrow>
   list_all (entry_ok (tl_with_qos p)) xs \<Longrightarrow> tl_count p \<noteq> 0 \<or> xs \<noteq> [] \<Longrightarrow>
   tl_entries p = (xs, Err_ok)"
proof (induction xs arbitrary: p)
  case Nil
  then show ?case
    by (simp add: tl_entries.simps [of p] tl_next_def r_at_end_def topic_list_bytes_def)
next
  case (Cons e xs)
  obtain flt q where e: "e = (flt, q)" by fastforce
  have "tl_next p = (Some e, p\<lparr>tl_r := \<lparr>r_rest = topic_list_bytes (tl_with_qos p) xs, r_ok = True\<rparr>, tl_count := tl_count p + 1\<rparr>)"
    using tl_next_enc [of p flt q "topic_list_bytes (tl_with_qos p) xs"] Cons.prems e
    by (simp add: topic_list_bytes_def)
  then show ?case using Cons by (simp add: tl_entries.simps [of p])
qed

theorem topic_list_iff:
  "tl_entries (tl_init body wq) = (xs, Err_ok) \<longleftrightarrow>
     (\<exists>pid. pid \<noteq> 0 \<and> xs \<noteq> [] \<and> list_all (entry_ok wq) xs \<and> body = u16_bytes pid @ topic_list_bytes wq xs)"
proof
  assume l: "tl_entries (tl_init body wq) = (xs, Err_ok)"
  obtain pid r where 1: "r_u16 (reader_init body) = (pid, r)" by fastforce
  have i: "tl_init body wq = \<lparr>tl_r = r, tl_packet_id = pid, tl_count = 0, tl_err = (if \<not> r_ok r then Err_truncated
      else if pid = 0 then Err_malformed else Err_ok), tl_with_qos = wq\<rparr>" by (simp add: tl_init_def 1)
  show "\<exists>pid. pid \<noteq> 0 \<and> xs \<noteq> [] \<and> list_all (entry_ok wq) xs \<and> body = u16_bytes pid @ topic_list_bytes wq xs"
    using tl_entries_sound [OF l] r_u16D [OF 1] by (auto simp: i reader_init_def split: if_splits)
next
  assume "\<exists>pid. pid \<noteq> 0 \<and> xs \<noteq> [] \<and> list_all (entry_ok wq) xs \<and> body = u16_bytes pid @ topic_list_bytes wq xs"
  then show "tl_entries (tl_init body wq) = (xs, Err_ok)"
    by (auto simp: tl_init_def reader_init_def wire_simps intro!: tl_entries_complete)
qed

section \<open>Properties\<close>

text \<open>\<open>parse_publish\<close> accepts exactly the bodies that encode a PUBLISH packet under the flags of
  the first byte: QoS at most 2, no DUP at QoS 0, a non-zero identifier above QoS 0.\<close>

theorem parse_publish_correct:
  "parse_publish fb body = Inr p \<longleftrightarrow>
     publish_ok fb p \<and> body = publish_body (pp_topic p) (pp_payload p) (pp_qos p) (pp_packet_id p)"
  by (rule parse_publish_iff)

text \<open>Walking a SUBSCRIBE or UNSUBSCRIBE body with \<open>TopicListParser\<close> ends without error exactly
  when the body is a non-zero identifier and a non-empty list of encoded entries, and then \<open>next\<close>
  has returned those entries in order.\<close>

theorem topic_list_correct:
  "tl_entries (tl_init body wq) = (xs, Err_ok) \<longleftrightarrow>
     (\<exists>pid. pid \<noteq> 0 \<and> xs \<noteq> [] \<and> list_all (entry_ok wq) xs \<and> body = u16_bytes pid @ topic_list_bytes wq xs)"
  by (rule topic_list_iff)

end
