(* ===== verification/Broker_Packets.thy ===== *)
theory Broker_Packets
  imports Broker_Connect Packets_Accept
begin

text \<open>
  The packet handlers of a connected client and the dispatcher \<open>on_packet\<close>
  (\<open>broker/broker.hpp\<close>). A handler that dereferences \<open>session_of(c)\<close> is stuck when there is no
  session; \<open>on_packet\<close> only calls it when there is one, which is part of what is shown: every
  packet leaves a well-formed broker that still serves the connection.
\<close>

section \<open>PUBLISH and its acknowledgements\<close>

text \<open>Remember an inbound QoS 2 identifier; whether the message is to be delivered.\<close>

definition note_inbound_qos2 :: "('ctx, 'tr) env \<Rightarrow> nat \<Rightarrow> nat \<Rightarrow> u16 \<Rightarrow> 'ctx session \<Rightarrow> ('ctx, 'tr) broker
    \<Rightarrow> ('ctx, 'tr) broker \<times> bool" where
  "note_inbound_qos2 E ci si pid s b =
    (if has_inbound_qos2 pid s then (b, False)
     else
       let full = (length (s_inbound_qos2 s) = max_inbound_qos2 (e_traits E));
           b = (if full then notify_conn E inbound_qos2_evicted ci b else b);
           ids = (if full then sv_remove_ordered 0 (s_inbound_qos2 s) else s_inbound_qos2 s)
       in (put_session si (s\<lparr>s_inbound_qos2 := fst (sv_push_back (max_inbound_qos2 (e_traits E)) pid ids)\<rparr>) b, True))"

definition accept_publish :: "('ctx, 'tr) env \<Rightarrow> 'ctx session \<Rightarrow> publish_packet \<Rightarrow> ('ctx, 'tr) broker \<Rightarrow> ('ctx, 'tr) broker" where
  "accept_publish E s p b =
    (if \<not> sec_publish (e_sec E) (s_auth_ctx s) (pp_topic p) then notify_denied publish_denied s (pp_topic p) b
     else
       let b = (if pp_retain p then fst (apply_retain E (pp_topic p) (pp_payload p) (pp_qos p) b) else b)
       in route_publish E (pp_topic p) (pp_payload p) (pp_qos p) b)"

definition handle_publish :: "('ctx, 'tr) env \<Rightarrow> nat \<Rightarrow> byte \<Rightarrow> bytes \<Rightarrow> ('ctx, 'tr) broker \<Rightarrow> ('ctx, 'tr) broker" where
  "handle_publish E ci first_byte body b =
     with_session_of ci b (\<lambda>si s.
       case parse_publish first_byte body of
         Inl _ \<Rightarrow> violation ci Err_malformed b
       | Inr p \<Rightarrow>
           if \<not> topic_name_valid (pp_topic p) then violation ci Err_malformed b
           else if length (pp_topic p) > max_topic_len (e_traits E) then violation ci Err_oversize b
           else
             let (b, deliver) = (if pp_qos p = exactly_once then note_inbound_qos2 E ci si (pp_packet_id p) s b
                                 else (b, True));
                 b = (if deliver then accept_publish E s p b else b)
             in if pp_qos p = at_least_once then send_to E ci (id_pkt (e_traits E) PT_puback (pp_packet_id p)) b
                else if pp_qos p = exactly_once then send_to E ci (id_pkt (e_traits E) PT_pubrec (pp_packet_id p)) b
                else b)"

text \<open>Run \<open>k\<close> with the packet identifier that is the whole body.\<close>

definition with_packet_id :: "nat \<Rightarrow> bytes \<Rightarrow> ('ctx, 'tr) broker \<Rightarrow> (u16 \<Rightarrow> ('ctx, 'tr) broker) \<Rightarrow> ('ctx, 'tr) broker" where
  "with_packet_id ci body b k =
    (case parse_packet_id_only body of Inl _ \<Rightarrow> violation ci Err_malformed b | Inr pid \<Rightarrow> k pid)"

definition handle_puback :: "('ctx, 'tr) env \<Rightarrow> nat \<Rightarrow> bytes \<Rightarrow> ('ctx, 'tr) broker \<Rightarrow> ('ctx, 'tr) broker" where
  "handle_puback E ci body b =
     with_packet_id ci body b (\<lambda>pid.
       with_session_of ci b (\<lambda>si s.
         case find_pending pid awaiting_puback awaiting_puback s of
           None \<Rightarrow> b
         | Some i \<Rightarrow> drop_pending si i b))"

definition handle_pubrec :: "('ctx, 'tr) env \<Rightarrow> nat \<Rightarrow> bytes \<Rightarrow> ('ctx, 'tr) broker \<Rightarrow> ('ctx, 'tr) broker" where
  "handle_pubrec E ci body b =
     with_packet_id ci body b (\<lambda>pid.
       with_session_of ci b (\<lambda>si s.
         case find_pending pid awaiting_pubrec awaiting_pubcomp s of
           None \<Rightarrow> b
         | Some i \<Rightarrow>
             send_to E ci (id_pkt (e_traits E) PT_pubrel pid)
               (upd_pending si i (\<lambda>m. m\<lparr>om_state := awaiting_pubcomp\<rparr>) b)))"

definition handle_pubcomp :: "('ctx, 'tr) env \<Rightarrow> nat \<Rightarrow> bytes \<Rightarrow> ('ctx, 'tr) broker \<Rightarrow> ('ctx, 'tr) broker" where
  "handle_pubcomp E ci body b =
     with_packet_id ci body b (\<lambda>pid.
       with_session_of ci b (\<lambda>si s.
         case find_pending pid awaiting_pubcomp awaiting_pubcomp s of
           None \<Rightarrow> b
         | Some i \<Rightarrow> drop_pending si i b))"

definition handle_pubrel :: "('ctx, 'tr) env \<Rightarrow> nat \<Rightarrow> bytes \<Rightarrow> ('ctx, 'tr) broker \<Rightarrow> ('ctx, 'tr) broker" where
  "handle_pubrel E ci body b =
     with_packet_id ci body b (\<lambda>pid.
       with_session_of ci b (\<lambda>si s.
         send_to E ci (id_pkt (e_traits E) PT_pubcomp pid) (put_session si (remove_inbound_qos2 pid s) b)))"

section \<open>SUBSCRIBE and UNSUBSCRIBE\<close>

text \<open>The validating pass over the entries.\<close>

function check_filters :: "topic_list_parser \<Rightarrow> err" where
  "check_filters p =
    (case tl_next p of
       (None, p') \<Rightarrow> tl_err p'
     | (Some (flt, q), p') \<Rightarrow> if \<not> topic_filter_valid flt then Err_malformed else check_filters p')"
  by pat_completeness auto
termination
  by (relation "measure (\<lambda>p. r_remaining (tl_r p))") (auto dest!: tl_next_remaining [OF sym])

declare check_filters.simps [simp del]

definition grant :: "nat \<Rightarrow> qos \<Rightarrow> 'ctx session \<Rightarrow> 'ctx session" where
  "grant i requested s = s\<lparr>s_subs := (s_subs s)[i := (s_subs s ! i)\<lparr>sub_granted := requested\<rparr>]\<rparr>"

definition subscribe_one :: "traits \<Rightarrow> bytes \<Rightarrow> qos \<Rightarrow> 'ctx session \<Rightarrow> 'ctx session \<times> byte \<times> nat option" where
  "subscribe_one T flt requested s =
    (if length flt > max_topic_len T then (s, suback_failure, None)
     else case find_sub flt s of
            Some i \<Rightarrow> (grant i requested s, qos_code requested, Some i)
          | None \<Rightarrow>
              (case sv_emplace_back (max_subscriptions_per_session T) new_subscription (s_subs s) of
                 (subs, None) \<Rightarrow> (s, suback_failure, None)
               | (subs, Some i) \<Rightarrow>
                   (grant i requested (s\<lparr>s_subs := subs[i := (subs ! i)\<lparr>sub_filter :=
                      fst (fixed_assign (max_topic_len T) flt (sub_filter (subs ! i)))\<rparr>]\<rparr>),
                    qos_code requested, Some i)))"

definition mark_retain_pending :: "nat \<Rightarrow> 'ctx session \<Rightarrow> 'ctx session" where
  "mark_retain_pending i s = s\<lparr>s_subs := (s_subs s)[i := (s_subs s ! i)\<lparr>sub_retain_pending := True\<rparr>]\<rparr>"

definition subscribe_entry :: "('ctx, 'tr) env \<Rightarrow> nat \<Rightarrow> bytes \<Rightarrow> qos \<Rightarrow> writer \<times> ('ctx, 'tr) broker \<Rightarrow> writer \<times> ('ctx, 'tr) broker" where
  "subscribe_entry E si flt requested st =
    (let (w, b) = st
     in case session_at b si of
          None \<Rightarrow> (w, fail b)
        | Some s \<Rightarrow>
            if \<not> sec_subscribe (e_sec E) (s_auth_ctx s) flt
            then (w_u8 suback_failure w, notify_denied subscribe_denied s flt b)
            else
              let (s, code, sub) = subscribe_one (e_traits E) flt requested s;
                  s = (case sub of None \<Rightarrow> s | Some i \<Rightarrow> mark_retain_pending i s)
              in (w_u8 code w, put_session si s b))"

definition handle_subscribe :: "('ctx, 'tr) env \<Rightarrow> nat \<Rightarrow> bytes \<Rightarrow> ('ctx, 'tr) broker \<Rightarrow> ('ctx, 'tr) broker" where
  "handle_subscribe E ci body b =
     with_session_of ci b (\<lambda>si s.
       let e = check_filters (tl_init body True)
       in if e \<noteq> Err_ok then violation ci e b
          else
            let b = put_session si (clear_retain_pending s) b;
                entries = tl_init body True;
                w = w_u16 (tl_packet_id entries)
                      (writer_init (out_buf (e_traits E)) packet_overhead (out_size (e_traits E) - packet_overhead));
                (_, w, b) = tl_while (subscribe_entry E si) entries (w, b)
            in if \<not> w_ok w then violation ci Err_oversize b
               else
                 let b = send_to E ci (snd (frame_packet (w_mem w) (make_first_byte PT_suback 0) (w_len w))) b
                 in with_session si b (\<lambda>s.
                      if any_retain_pending s
                      then replay_retained E ci si (put_session si (s\<lparr>s_retain_cursor := 0\<rparr>) b)
                      else b))"

definition unsubscribe_one :: "bytes \<Rightarrow> 'ctx session \<Rightarrow> 'ctx session" where
  "unsubscribe_one flt s =
    (case find_index (\<lambda>sub. span_eq (sub_filter sub) flt) (s_subs s) of
       None \<Rightarrow> s
     | Some i \<Rightarrow> s\<lparr>s_subs := sv_remove_ordered i (s_subs s)\<rparr>)"

definition handle_unsubscribe :: "('ctx, 'tr) env \<Rightarrow> nat \<Rightarrow> bytes \<Rightarrow> ('ctx, 'tr) broker \<Rightarrow> ('ctx, 'tr) broker" where
  "handle_unsubscribe E ci body b =
     with_session_of ci b (\<lambda>si s.
       let e = check_filters (tl_init body False)
       in if e \<noteq> Err_ok then violation ci e b
          else
            let (entries, b) = tl_while (\<lambda>flt _ b. upd_session si (unsubscribe_one flt) b) (tl_init body False) b
            in send_to E ci (id_pkt (e_traits E) PT_unsuback (tl_packet_id entries)) b)"

definition handle_disconnect :: "nat \<Rightarrow> bytes \<Rightarrow> ('ctx, 'tr) broker \<Rightarrow> ('ctx, 'tr) broker" where
  "handle_disconnect ci body b =
    (if body \<noteq> [] then violation ci Err_malformed b
     else with_session_of ci b (\<lambda>si s. mark_dead ci (put_session si (s\<lparr>s_has_will := False\<rparr>) b)))"

section \<open>Dispatch\<close>

definition dispatch :: "('ctx, 'tr) env \<Rightarrow> nat \<Rightarrow> byte \<Rightarrow> bytes \<Rightarrow> ('ctx, 'tr) broker \<Rightarrow> ('ctx, 'tr) broker" where
  "dispatch E ci first_byte body b =
    (case packet_type_of first_byte of
       PT_connect \<Rightarrow> handle_connect E ci body b
     | PT_publish \<Rightarrow> handle_publish E ci first_byte body b
     | PT_pubrel \<Rightarrow> handle_pubrel E ci body b
     | PT_puback \<Rightarrow> handle_puback E ci body b
     | PT_pubrec \<Rightarrow> handle_pubrec E ci body b
     | PT_pubcomp \<Rightarrow> handle_pubcomp E ci body b
     | PT_subscribe \<Rightarrow> handle_subscribe E ci body b
     | PT_unsubscribe \<Rightarrow> handle_unsubscribe E ci body b
     | PT_pingreq \<Rightarrow>
         if body \<noteq> [] then violation ci Err_malformed b else send_to E ci (pingresp_pkt (e_traits E)) b
     | PT_disconnect \<Rightarrow> handle_disconnect ci body b
     | _ \<Rightarrow> violation ci Err_malformed b)"

definition on_packet :: "('ctx, 'tr) env \<Rightarrow> nat \<Rightarrow> byte \<Rightarrow> bytes \<Rightarrow> ('ctx, 'tr) broker \<Rightarrow> bool \<times> ('ctx, 'tr) broker" where
  "on_packet E ci first_byte body b =
    (if \<not> fixed_flags_valid (packet_type_of first_byte) (packet_flags first_byte)
     then (False, violation ci Err_malformed b)
     else if cn_session (conn_at b ci) = no_session \<and> packet_type_of first_byte \<noteq> PT_connect
     then (False, violation ci Err_state b)
     else let b = dispatch E ci first_byte body b in (\<not> cn_dead (conn_at b ci), b))"

section \<open>The invariant is kept\<close>

lemma serving_session:
  assumes sv: "serving T ci b" and ne: "cn_session (conn_at b ci) \<noteq> no_session"
  obtains si s where "session_of b (conn_at b ci) = Some si" "session_at b si = Some s" "session_ok T s"
    "s_conn s = of_nat ci" "\<And>k. with_session_of ci b k = k si s"
proof -
  obtain si where si: "session_of b (conn_at b ci) = Some si"
    using ne session_of_None [OF servingD(1,2) [OF sv]] by (cases "session_of b (conn_at b ci)") auto
  obtain s where s: "session_at b si = Some s" "s_conn s = of_nat ci" "session_ok T s"
    by (rule linked_conn [OF servingD(1,2) [OF sv] si])
  show ?thesis
    by (rule that [OF si s(1,3,2)]) (simp add: with_session_of_def with_session_def si s(1))
qed

lemma serving_put:
  assumes "serving T ci b" "session_at b si = Some s" "session_ok T s'"
    "s_client_id s' = s_client_id s" "s_conn s' = s_conn s"
  shows "serving T ci (put_session si s' b)"
  using assms wf_put [OF servingD(1) [OF assms(1)] assms(2-)] by (simp add: serving_def)

lemma serving_route:
  "serving (e_traits E) ci b \<Longrightarrow> length topic \<le> max_topic_len (e_traits E) \<Longrightarrow>
   serving (e_traits E) ci (route_publish E topic payload q b)"
  using route_publish_ok [of E b topic payload q] serving_delivers [of "e_traits E" ci b] wfD(2,8) servingD(1) by blast

lemma serving_retain: "serving (e_traits E) ci b \<Longrightarrow> serving (e_traits E) ci (fst (apply_retain E t p q b))"
  by (simp add: serving_def)

lemma session_ok_inbound:
  "session_ok T s \<Longrightarrow> length ids \<le> max_inbound_qos2 T \<Longrightarrow> distinct ids \<Longrightarrow> session_ok T (s\<lparr>s_inbound_qos2 := ids\<rparr>)"
  by (simp add: session_ok_def connected_def)

lemma sv_remove_subset: "set (sv_remove_ordered i xs) \<subseteq> set xs"
  by (auto simp: sv_remove_ordered_eq dest: in_set_takeD in_set_dropD)

lemma sv_remove_distinct: "distinct xs \<Longrightarrow> distinct (sv_remove_ordered i xs)"
  by (simp add: sv_remove_ordered_eq set_take_disj_set_drop_if_distinct)

lemma sv_remove_length: "length (sv_remove_ordered i xs) \<le> length xs"
  by (simp add: sv_remove_ordered_eq)

lemma sv_remove_map: "map f (sv_remove_ordered i xs) = sv_remove_ordered i (map f xs)"
  by (simp add: sv_remove_ordered_eq take_map drop_map)

lemma note_inbound_qos2_session:
  assumes T: "traits_ok T" and ok: "session_ok T s" and new: "\<not> has_inbound_qos2 pid s"
    and ids: "ids = (if length (s_inbound_qos2 s) = max_inbound_qos2 T then sv_remove_ordered 0 (s_inbound_qos2 s) else s_inbound_qos2 s)"
  shows "sv_push_back (max_inbound_qos2 T) pid ids = (ids @ [pid], True)"
    "session_ok T (s\<lparr>s_inbound_qos2 := ids @ [pid]\<rparr>)"
proof -
  have k: "length (s_inbound_qos2 s) \<le> max_inbound_qos2 T" "distinct (s_inbound_qos2 s)" "0 < max_inbound_qos2 T"
    using ok T by (simp_all add: session_ok_def traits_ok_def)
  have "pid \<notin> set (s_inbound_qos2 s)" using new by (auto simp: has_inbound_qos2_def list_ex_iff)
  then have "length ids < max_inbound_qos2 T \<and> distinct ids \<and> pid \<notin> set ids"
    using k by (auto simp: ids sv_remove_ordered_eq distinct_tl dest: in_set_dropD)
  then show "sv_push_back (max_inbound_qos2 T) pid ids = (ids @ [pid], True)"
    "session_ok T (s\<lparr>s_inbound_qos2 := ids @ [pid]\<rparr>)"
    using session_ok_inbound [OF ok, of "ids @ [pid]"] by (simp_all add: sv_push_back_def)
qed

lemma serving_note:
  assumes sv: "serving (e_traits E) ci b" and s: "session_at b si = Some s" "session_ok (e_traits E) s"
  shows "serving (e_traits E) ci (fst (note_inbound_qos2 E ci si pid s b))"
proof (cases "has_inbound_qos2 pid s")
  case False
  let ?b = "if length (s_inbound_qos2 s) = max_inbound_qos2 (e_traits E) then notify_conn E inbound_qos2_evicted ci b else b"
  have b: "serving (e_traits E) ci ?b" "session_at ?b si = Some s" using sv s(1) by (simp_all add: notify_conn_def)
  note n = note_inbound_qos2_session [OF wfD(8) [OF servingD(1) [OF sv]] s(2) False refl]
  show ?thesis using serving_put [OF b n(2)] False by (simp add: note_inbound_qos2_def n(1) Let_def)
qed (use sv in \<open>simp add: note_inbound_qos2_def\<close>)

lemma serving_accept:
  "serving (e_traits E) ci b \<Longrightarrow> length (pp_topic p) \<le> max_topic_len (e_traits E) \<Longrightarrow>
   serving (e_traits E) ci (accept_publish E s p b)"
  by (auto simp: accept_publish_def Let_def notify_denied_def intro: serving_route serving_retain)

lemma serving_publish:
  assumes sv: "serving (e_traits E) ci b" and ne: "cn_session (conn_at b ci) \<noteq> no_session"
  shows "serving (e_traits E) ci (handle_publish E ci fb body b)"
proof -
  obtain si s where s: "session_at b si = Some s" "session_ok (e_traits E) s" "\<And>k. with_session_of ci b k = k si s"
    using serving_session [OF assms] by metis
  show ?thesis
    using sv serving_note [OF sv s(1,2)]
    by (auto simp: handle_publish_def s(3) Let_def split: sum.split prod.split
        intro!: serving_violation serving_send_to serving_accept) (metis fst_conv)+
qed

lemma find_pendingD:
  assumes "find_pending pid a c s = Some i"
  shows "i < length (s_pending s)" "om_packet_id (s_pending s ! i) = pid"
    "om_state (s_pending s ! i) = a \<or> om_state (s_pending s ! i) = c"
  using assms by (auto simp: find_pending_def dest: find_index_Some)

lemma serving_drop:
  assumes sv: "serving T ci b" and s: "session_at b si = Some s" "session_ok T s" "i < length (s_pending s)"
  shows "serving T ci (drop_pending si i b)"
  unfolding drop_pending_def upd_session_Some [OF s(1)]
  by (rule serving_put [OF sv s(1)])
    (auto intro!: session_ok_pending [OF s(2)] pending_ok_remove [OF session_ok_pendingD [OF s(2)] s(3)])

lemma serving_released:
  assumes sv: "serving T ci b" and s: "session_at b si = Some s" "session_ok T s"
    and i: "i < length (s_pending s)" "om_state (s_pending s ! i) = awaiting_pubrec \<or> om_state (s_pending s ! i) = awaiting_pubcomp"
  shows "serving T ci (upd_pending si i (\<lambda>m. m\<lparr>om_state := awaiting_pubcomp\<rparr>) b)"
  unfolding upd_pending_def upd_session_Some [OF s(1)]
proof (rule serving_put [OF sv s(1)])
  have "msg_ok (max_topic_len T) (max_payload_len T) ((s_pending s ! i)\<lparr>om_state := awaiting_pubcomp\<rparr>)"
    using msg_ok_at [OF s(2) i(1)] i(2) by (auto simp: msg_ok_def)
  from pending_ok_update [OF session_ok_pendingD [OF s(2)] i(1) this]
  show "session_ok T (s\<lparr>s_pending := (s_pending s)[i := (s_pending s ! i)\<lparr>om_state := awaiting_pubcomp\<rparr>]\<rparr>)"
    using i(2) by (auto intro!: session_ok_pending [OF s(2)])
qed simp_all

lemma session_ok_remove_inbound: "session_ok T s \<Longrightarrow> session_ok T (remove_inbound_qos2 pid s)"
  by (auto simp: remove_inbound_qos2_def session_ok_def connected_def sv_remove_distinct
      intro: le_trans [OF sv_remove_length] split: option.split)

lemma remove_inbound_sel [simp]:
  "s_client_id (remove_inbound_qos2 pid s) = s_client_id s" "s_conn (remove_inbound_qos2 pid s) = s_conn s"
  by (simp_all add: remove_inbound_qos2_def split: option.split)

lemma serving_acks:
  assumes sv: "serving (e_traits E) ci b" and ne: "cn_session (conn_at b ci) \<noteq> no_session"
  shows "serving (e_traits E) ci (handle_puback E ci body b)" "serving (e_traits E) ci (handle_pubrec E ci body b)"
    "serving (e_traits E) ci (handle_pubcomp E ci body b)" "serving (e_traits E) ci (handle_pubrel E ci body b)"
proof -
  obtain si s where s: "session_at b si = Some s" "session_ok (e_traits E) s" "\<And>k. with_session_of ci b k = k si s"
    using serving_session [OF assms] by metis
  note i = serving_drop [OF sv s(1,2) find_pendingD(1)] serving_released [OF sv s(1,2) find_pendingD(1,3)]
    serving_put [OF sv s(1) session_ok_remove_inbound [OF s(2)]]
  show "serving (e_traits E) ci (handle_puback E ci body b)" "serving (e_traits E) ci (handle_pubrec E ci body b)"
    "serving (e_traits E) ci (handle_pubcomp E ci body b)" "serving (e_traits E) ci (handle_pubrel E ci body b)"
    using sv by (auto simp: handle_puback_def handle_pubrec_def handle_pubcomp_def handle_pubrel_def with_packet_id_def s(3)
        intro!: serving_violation serving_send_to i split: sum.split option.split)
qed

lemma serving_disconnect:
  assumes sv: "serving T ci b" and ne: "cn_session (conn_at b ci) \<noteq> no_session"
  shows "serving T ci (handle_disconnect ci body b)"
proof -
  obtain si s where s: "session_at b si = Some s" "session_ok T s" "\<And>k. with_session_of ci b k = k si s"
    using serving_session [OF assms] by metis
  have "session_ok T (s\<lparr>s_has_will := False\<rparr>)" using s(2) by (simp add: session_ok_def)
  from serving_put [OF sv s(1) this] show ?thesis
    using sv by (auto simp: handle_disconnect_def s(3) intro: serving_violation serving_mark_dead)
qed

section \<open>Filters\<close>

lemma check_filters_entries:
  "check_filters p = Err_ok \<longleftrightarrow>
   snd (tl_entries p) = Err_ok \<and> list_all (topic_filter_valid \<circ> fst) (fst (tl_entries p))"
proof (induction p rule: check_filters.induct)
  case (1 p)
  show ?case using 1
    by (auto simp: check_filters.simps [of p] tl_entries.simps [of p] split: prod.splits option.splits)
qed

lemma session_ok_subs:
  "session_ok T s \<Longrightarrow> length subs \<le> max_subscriptions_per_session T \<Longrightarrow> distinct (map sub_filter subs) \<Longrightarrow>
   list_all (\<lambda>sub. length (sub_filter sub) \<le> max_topic_len T \<and> topic_filter_valid (sub_filter sub)) subs \<Longrightarrow>
   session_ok T (s\<lparr>s_subs := subs\<rparr>)"
  by (simp add: session_ok_def connected_def)

lemma same_filters_ok:
  "session_ok T s \<Longrightarrow> map sub_filter subs = map sub_filter (s_subs s) \<Longrightarrow> session_ok T (s\<lparr>s_subs := subs\<rparr>)"
proof (rule session_ok_subs)
  assume ok: "session_ok T s" and m: "map sub_filter subs = map sub_filter (s_subs s)"
  show "length subs \<le> max_subscriptions_per_session T" using ok map_eq_imp_length_eq [OF m] by (simp add: session_ok_def)
  show "distinct (map sub_filter subs)" using ok m by (simp add: session_ok_def)
  have "list_all (\<lambda>f. length f \<le> max_topic_len T \<and> topic_filter_valid f) (map sub_filter subs)"
    using ok unfolding m by (simp add: session_ok_def list.pred_map o_def)
  then show "list_all (\<lambda>sub. length (sub_filter sub) \<le> max_topic_len T \<and> topic_filter_valid (sub_filter sub)) subs"
    by (simp add: list.pred_map o_def)
qed

lemma map_filter_upd: "sub_filter x = sub_filter (xs ! i) \<Longrightarrow> map sub_filter (xs[i := x]) = map sub_filter xs"
  by (cases "i < length xs") (auto simp: map_update list_update_same_conv list_update_beyond)

lemma session_ok_grant: "session_ok T s \<Longrightarrow> session_ok T (grant i q s)"
  unfolding grant_def by (erule same_filters_ok) (rule map_filter_upd, simp)

lemma session_ok_mark: "session_ok T s \<Longrightarrow> session_ok T (mark_retain_pending i s)"
  unfolding mark_retain_pending_def by (erule same_filters_ok) (rule map_filter_upd, simp)

lemma find_sub_None: "find_sub flt s = None \<longleftrightarrow> flt \<notin> sub_filter ` set (s_subs s)"
  by (auto simp: find_sub_def find_index_None span_eq_iff)

lemma subscribe_one_eq:
  assumes "length flt \<le> max_topic_len T" "find_sub flt s = None" "length (s_subs s) \<le> max_subscriptions_per_session T"
  shows "subscribe_one T flt q s =
    (if length (s_subs s) = max_subscriptions_per_session T then (s, suback_failure, None)
     else (s\<lparr>s_subs := s_subs s @ [\<lparr>sub_filter = flt, sub_granted = q, sub_retain_pending = False\<rparr>]\<rparr>,
           qos_code q, Some (length (s_subs s))))"
  using assms by (simp add: subscribe_one_def sv_emplace_back_def grant_def fixed_assign_fits new_subscription_def)

lemma session_ok_subscribe_one:
  assumes ok: "session_ok T s" and v: "topic_filter_valid flt"
  shows "session_ok T (fst (subscribe_one T flt q s))"
proof (cases "length flt \<le> max_topic_len T \<and> find_sub flt s = None")
  case True
  have k: "length (s_subs s) \<le> max_subscriptions_per_session T" using ok by (simp add: session_ok_def)
  have "session_ok T (s\<lparr>s_subs := s_subs s @ [\<lparr>sub_filter = flt, sub_granted = q, sub_retain_pending = False\<rparr>]\<rparr>)"
    if "length (s_subs s) \<noteq> max_subscriptions_per_session T"
    by (rule session_ok_subs [OF ok]) (use ok v True k that find_sub_None [of flt s] in \<open>auto simp: session_ok_def\<close>)
  then show ?thesis using ok True k by (simp add: subscribe_one_eq)
qed (use ok in \<open>auto simp: subscribe_one_def session_ok_grant split: option.split\<close>)

lemma subscribe_one_sel:
  "s_client_id (fst (subscribe_one T flt q s)) = s_client_id s" "s_conn (fst (subscribe_one T flt q s)) = s_conn s"
  by (simp_all add: subscribe_one_def grant_def split: option.split prod.split)

lemma mark_sel [simp]:
  "s_client_id (mark_retain_pending i s) = s_client_id s" "s_conn (mark_retain_pending i s) = s_conn s"
  by (simp_all add: mark_retain_pending_def)

lemma subscribe_entry_ok:
  assumes sv: "serving (e_traits E) ci b" and si: "session_at b si \<noteq> None" and v: "topic_filter_valid flt"
  shows "serving (e_traits E) ci (snd (subscribe_entry E si flt q (w, b)))
     \<and> session_at (snd (subscribe_entry E si flt q (w, b))) si \<noteq> None"
proof -
  obtain s where s: "session_at b si = Some s" using si by blast
  obtain s' code sub where one: "subscribe_one (e_traits E) flt q s = (s', code, sub)" by (metis prod_cases3)
  have ok: "session_ok (e_traits E) s" by (rule sessions_ok_at [OF wfD(2) [OF servingD(1) [OF sv]] s])
  have s': "session_ok (e_traits E) s'" "s_client_id s' = s_client_id s" "s_conn s' = s_conn s"
    using session_ok_subscribe_one [OF ok v, of q] subscribe_one_sel [of "e_traits E" flt q s] by (simp_all add: one)
  show ?thesis
    using sv s serving_put [OF sv s s'] serving_put [OF sv s session_ok_mark [OF s'(1)]] s'(2,3)
    by (auto simp: subscribe_entry_def one notify_denied_def session_at_put split: option.split)
qed

lemma subscribe_entries_ok:
  assumes "serving (e_traits E) ci b" "session_at b si \<noteq> None" "list_all (topic_filter_valid \<circ> fst) xs"
    "fold (\<lambda>(flt, q). subscribe_entry E si flt q) xs (w, b) = (w', b')"
  shows "serving (e_traits E) ci b' \<and> session_at b' si \<noteq> None"
  using assms
proof (induction xs arbitrary: w b)
  case (Cons x xs)
  obtain w1 b1 where st: "subscribe_entry E si (fst x) (snd x) (w, b) = (w1, b1)" by fastforce
  have "serving (e_traits E) ci b1 \<and> session_at b1 si \<noteq> None"
    using subscribe_entry_ok [OF Cons.prems(1,2), of "fst x" "snd x" w] Cons.prems(3) by (simp add: st)
  then show ?case using Cons.IH [of b1 w1] Cons.prems(3,4) by (simp add: split_beta st)
qed simp

lemma session_ok_unsubscribe: "session_ok T s \<Longrightarrow> session_ok T (unsubscribe_one flt s)"
  unfolding unsubscribe_one_def
  by (auto simp: sv_remove_map sv_remove_distinct session_ok_def list_all_iff connected_def
      dest!: subsetD [OF sv_remove_subset] intro: le_trans [OF sv_remove_length] split: option.split)

lemma unsubscribe_sel [simp]:
  "s_client_id (unsubscribe_one flt s) = s_client_id s" "s_conn (unsubscribe_one flt s) = s_conn s"
  by (simp_all add: unsubscribe_one_def split: option.split)

lemma unsubscribe_entries_ok:
  "serving T ci b \<Longrightarrow> session_at b si \<noteq> None \<Longrightarrow>
   serving T ci (fold (\<lambda>(flt, q). upd_session si (unsubscribe_one flt)) xs b)"
proof (induction xs arbitrary: b)
  case (Cons x xs)
  obtain s where s: "session_at b si = Some s" using Cons.prems(2) by blast
  have "session_ok T (unsubscribe_one (fst x) s)"
    by (rule session_ok_unsubscribe) (rule sessions_ok_at [OF wfD(2) [OF servingD(1) [OF Cons.prems(1)]] s])
  from serving_put [OF Cons.prems(1) s this] show ?case
    using Cons.IH [of "put_session si (unsubscribe_one (fst x) s) b"] s
    by (simp add: split_beta upd_session_Some session_at_put)
qed simp

lemma serving_unsubscribe:
  assumes sv: "serving (e_traits E) ci b" and ne: "cn_session (conn_at b ci) \<noteq> no_session"
  shows "serving (e_traits E) ci (handle_unsubscribe E ci body b)"
proof -
  obtain si s where s: "session_at b si = Some s" "session_ok (e_traits E) s" "\<And>k. with_session_of ci b k = k si s"
    using serving_session [OF assms] by metis
  let ?run = "tl_while (\<lambda>flt _ b. upd_session si (unsubscribe_one flt) b) (tl_init body False) b"
  have "serving (e_traits E) ci (snd ?run)"
    using unsubscribe_entries_ok [OF sv, of si "fst (tl_entries (tl_init body False))"] s(1)
      tl_while_entries [of "\<lambda>flt _ b. upd_session si (unsubscribe_one flt) b" "tl_init body False" b] by simp
  then show ?thesis using sv
    by (auto simp: handle_unsubscribe_def s(3) Let_def split_beta intro: serving_violation serving_send_to)
qed

lemma serving_replay:
  assumes sv: "serving (e_traits E) ci b" and si: "session_at b si \<noteq> None"
  shows "serving (e_traits E) ci (replay_retained E cj si b)"
proof -
  note wf = servingD(1) [OF sv]
  show ?thesis
    using replay_retained_ok [OF wfD(8) [OF wf] wfD(2) [OF wf] si wfD(4) [OF wf]] serving_delivers [OF sv] by blast
qed

lemma serving_subscribe:
  assumes sv: "serving (e_traits E) ci b" and ne: "cn_session (conn_at b ci) \<noteq> no_session"
  shows "serving (e_traits E) ci (handle_subscribe E ci body b)"
proof -
  let ?T = "e_traits E" let ?p = "tl_init body True"
  obtain si s where s: "session_at b si = Some s" "session_ok ?T s" "\<And>k. with_session_of ci b k = k si s"
    using serving_session [OF assms] by metis
  let ?b0 = "put_session si (clear_retain_pending s) b"
  let ?w0 = "w_u16 (tl_packet_id ?p) (writer_init (out_buf ?T) packet_overhead (out_size ?T - packet_overhead))"
  have b0: "serving ?T ci ?b0" "session_at ?b0 si \<noteq> None"
    using serving_put [OF sv s(1) session_ok_clear [OF s(2)]] s(1) by (simp_all add: clear_retain_pending_def session_at_put)
  obtain p' w b1 where run: "tl_while (subscribe_entry E si) ?p (?w0, ?b0) = (p', w, b1)" by (metis prod_cases3)
  show ?thesis
  proof (cases "check_filters ?p = Err_ok")
    case True
    have "serving ?T ci b1 \<and> session_at b1 si \<noteq> None"
      using subscribe_entries_ok [OF b0, of "fst (tl_entries ?p)" ?w0 w b1] True
        tl_while_entries [of "subscribe_entry E si" ?p "(?w0, ?b0)"] by (simp add: run check_filters_entries)
    then obtain s1 where b1: "serving ?T ci b1" "session_at b1 si = Some s1" by blast
    define b2 where "b2 = send_to E ci (snd (frame_packet (w_mem w) (make_first_byte PT_suback 0) (w_len w))) b1"
    have b2: "serving ?T ci b2" "session_at b2 si = Some s1" using b1 by (simp_all add: b2_def serving_send_to)
    have "serving ?T ci (put_session si (s1\<lparr>s_retain_cursor := 0\<rparr>) b2)"
      by (rule serving_put [OF b2]) (use sessions_ok_at [OF wfD(2) b2(2)] servingD(1) [OF b2(1)] session_ok_cursor in auto)
    from serving_replay [OF this, of si ci] show ?thesis
      using True b1(1) b2 by (simp add: handle_subscribe_def s(3) Let_def run b2_def [symmetric] with_session_def
          serving_violation session_at_put)
  qed (use sv in \<open>simp add: handle_subscribe_def s(3) serving_violation\<close>)
qed

lemma serving_dispatch:
  assumes sv: "serving (e_traits E) ci b" and d: "\<not> cn_dead (conn_at b ci)"
    and ne: "cn_session (conn_at b ci) = no_session \<Longrightarrow> packet_type_of fb = PT_connect"
  shows "serving (e_traits E) ci (dispatch E ci fb body b)"
proof (cases "packet_type_of fb = PT_connect")
  case True
  then show ?thesis using serving_connect [OF sv d] by (simp add: dispatch_def)
next
  case False
  then have "cn_session (conn_at b ci) \<noteq> no_session" using ne by blast
  note h = serving_publish [OF sv this] serving_acks [OF sv this] serving_subscribe [OF sv this]
    serving_unsubscribe [OF sv this] serving_disconnect [OF sv this]
  show ?thesis using sv False
    by (simp add: dispatch_def h serving_violation serving_send_to split: packet_type.split)
qed

theorem serving_on_packet:
  assumes "serving (e_traits E) ci b" "\<not> cn_dead (conn_at b ci)"
  shows "serving (e_traits E) ci (snd (on_packet E ci fb body b))"
  using assms serving_dispatch [OF assms, of fb body] by (auto simp: on_packet_def Let_def serving_violation)

lemma dead_violation: "ci < length (b_conns b) \<Longrightarrow> cn_dead (conn_at (violation ci e b) ci)"
  by (simp add: violation_def notify_violation_def dead_mark)

lemma on_packet_stops:
  "ci < length (b_conns b) \<Longrightarrow> fst (on_packet E ci fb body b) \<longleftrightarrow> \<not> cn_dead (conn_at (snd (on_packet E ci fb body b)) ci)"
  by (simp add: on_packet_def Let_def dead_violation)

text \<open>The broker is a client of the framer: the laws of \<open>frame_client\<close> hold of its packet callback.\<close>

interpretation fed: frame_client "on_packet E ci" "\<lambda>b. cn_dead (conn_at b ci)" "serving (e_traits E) ci"
  for E :: "('ctx, 'tr) env" and ci
proof
  fix st st' :: "('ctx, 'tr) broker" and fb body go_on
  assume sv: "serving (e_traits E) ci st" "\<not> cn_dead (conn_at st ci)" and o: "on_packet E ci fb body st = (go_on, st')"
  have "ci < length (b_conns st)" using servingD(2) [OF sv(1)] wfD(1) [OF servingD(1) [OF sv(1)]] by simp
  from on_packet_stops [OF this, of E fb body] show "go_on \<longleftrightarrow> \<not> cn_dead (conn_at st' ci)" by (simp add: o)
  show "serving (e_traits E) ci st'" using serving_on_packet [OF sv, of fb body] by (simp add: o)
qed

end
