(* ===== verification/Broker_Api.thy ===== *)
theory Broker_Api
  imports Broker_Packets
begin

text \<open>
  The entry points of the broker (\<open>broker/broker.hpp\<close>): what a transport calls when a connection
  is opened, delivers bytes or is closed, the clock \<open>tick\<close>, and \<open>publish\<close> for the embedding
  application; and the states a sequence of such calls can reach. Every call may come
  with another security policy and another transport behaviour, since the application can
  reconfigure both between calls; only the capacities are fixed.
\<close>

section \<open>Model\<close>

definition conn_open :: "('ctx, 'tr) env \<Rightarrow> nat \<Rightarrow> u32 \<Rightarrow> ('ctx, 'tr) broker \<Rightarrow> err \<times> ('ctx, 'tr) broker" where
  "conn_open E ci now_ms b =
    (if ci \<ge> max_connections (e_traits E) \<or> cn_active (conn_at b ci) then (Err_state, b)
     else
       let b = upd_conn ci (\<lambda>c. (conn_reset c)\<lparr>cn_active := True,
                 cn_deadline_ms := now_ms + connect_timeout_ms (e_traits E)\<rparr>) b
       in (Err_ok, notify_conn E connection_opened ci b))"

definition conn_closed :: "('ctx, 'tr) env \<Rightarrow> nat \<Rightarrow> ('ctx, 'tr) broker \<Rightarrow> ('ctx, 'tr) broker" where
  "conn_closed E ci b =
    (if ci \<ge> max_connections (e_traits E) \<or> \<not> cn_active (conn_at b ci) then b
     else flush_dead E (upd_conn ci (\<lambda>c. c\<lparr>cn_notify_transport := False, cn_dead := True\<rparr>) b))"

text \<open>The parser of the connection works in place; no handler looks at it, so it is put back after the feed.\<close>

definition conn_data :: "('ctx, 'tr) env \<Rightarrow> nat \<Rightarrow> bytes \<Rightarrow> u32 \<Rightarrow> ('ctx, 'tr) broker \<Rightarrow> err \<times> ('ctx, 'tr) broker" where
  "conn_data E ci data now_ms b =
    (if ci \<ge> max_connections (e_traits E) \<or> \<not> cn_active (conn_at b ci) then (Err_state, b)
     else if cn_dead (conn_at b ci) then (Err_ok, b)
     else
       let b = b\<lparr>b_now_ms := now_ms\<rparr>;
           b = (if cn_session (conn_at b ci) \<noteq> no_session
                then upd_conn ci (refresh_deadline (e_traits E) now_ms) b else b);
           (e, p, b) = feed (max_packet_size (e_traits E)) (on_packet E ci) (cn_parser (conn_at b ci)) data b;
           b = upd_conn ci (\<lambda>c. c\<lparr>cn_parser := p\<rparr>) b;
           b = (if e \<noteq> Err_ok then mark_dead ci (notify_violation ci e b) else b)
       in (e, flush_dead E b))"

definition tick_conn :: "('ctx, 'tr) env \<Rightarrow> u32 \<Rightarrow> nat \<Rightarrow> ('ctx, 'tr) broker \<Rightarrow> ('ctx, 'tr) broker" where
  "tick_conn E now_ms i b =
    (let c = conn_at b i
     in if \<not> cn_active c \<or> cn_dead c then b
        else
          let armed = (if cn_session c = no_session then connect_timeout_ms (e_traits E) > 0
                       else cn_keepalive_s c > 0 \<or> max_idle_ms (e_traits E) > 0)
          in if armed \<and> deadline_passed now_ms (cn_deadline_ms c)
             then mark_dead i (notify_conn E (if cn_session c = no_session then connect_timeout
                                              else if cn_keepalive_s c > 0 then keepalive_timeout
                                              else idle_timeout) i b)
             else b)"

definition tick_session :: "('ctx, 'tr) env \<Rightarrow> nat \<Rightarrow> ('ctx, 'tr) broker \<Rightarrow> ('ctx, 'tr) broker" where
  "tick_session E si b =
     with_session si b (\<lambda>s.
       let ci = unat (s_conn s)
       in if \<not> connected s \<or> ci \<ge> max_connections (e_traits E) \<or> cn_dead (conn_at b ci) then b
          else pump_session E si (if any_retain_pending s then replay_retained E ci si b else b))"

definition tick :: "('ctx, 'tr) env \<Rightarrow> u32 \<Rightarrow> ('ctx, 'tr) broker \<Rightarrow> ('ctx, 'tr) broker" where
  "tick E now_ms b =
    (let b = b\<lparr>b_now_ms := now_ms\<rparr>;
         b = fold (tick_conn E now_ms) [0..<max_connections (e_traits E)] b;
         b = pool_for_each (max_sessions (e_traits E)) b_sessions (tick_session E) b;
         b = flush_dead E b
     in expire_sessions E now_ms b)"

definition publish :: "('ctx, 'tr) env \<Rightarrow> bytes \<Rightarrow> bytes \<Rightarrow> qos \<Rightarrow> bool \<Rightarrow> ('ctx, 'tr) broker \<Rightarrow> err \<times> ('ctx, 'tr) broker" where
  "publish E topic payload q retain b =
    (if \<not> topic_name_valid topic then (Err_malformed, b)
     else if length topic > max_topic_len (e_traits E) then (Err_oversize, b)
     else if 2 + length topic + (if q = at_most_once then 0 else 2) + length payload
               > out_size (e_traits E) - packet_overhead then (Err_oversize, b)
     else
       let result = (if q \<noteq> at_most_once \<and> length payload > max_payload_len (e_traits E) then Err_oversize else Err_ok);
           (b, result) = (if retain
                          then (let (b, kept) = apply_retain E topic payload q b
                                in (b, if \<not> kept \<and> result = Err_ok then Err_capacity else result))
                          else (b, result));
           b = route_publish E topic payload q b
       in (result, flush_dead E b))"

definition retained_count :: "('ctx, 'tr) broker \<Rightarrow> nat" where
  "retained_count b = retained_size (b_retained b)"

text \<open>Sequences of calls. Between two calls the transport may change its own state.\<close>

inductive api_step :: "traits \<Rightarrow> ('ctx, 'tr) broker \<Rightarrow> ('ctx, 'tr) broker \<Rightarrow> bool" for T where
  step_open: "e_traits E = T \<Longrightarrow> api_step T b (snd (conn_open E ci now_ms b))"
| step_closed: "e_traits E = T \<Longrightarrow> api_step T b (conn_closed E ci b)"
| step_data: "e_traits E = T \<Longrightarrow> api_step T b (snd (conn_data E ci data now_ms b))"
| step_tick: "e_traits E = T \<Longrightarrow> api_step T b (tick E now_ms b)"
| step_publish: "e_traits E = T \<Longrightarrow> api_step T b (snd (publish E topic payload q retain b))"
| step_transport: "api_step T b (b\<lparr>b_tr := tr\<rparr>)"

inductive reachable :: "traits \<Rightarrow> ('ctx, 'tr) broker \<Rightarrow> bool" for T where
  reach_init: "reachable T (broker_init T tr)"
| reach_step: "reachable T b \<Longrightarrow> api_step T b b' \<Longrightarrow> reachable T b'"

section \<open>The invariant is kept\<close>

text \<open>No connection waits to be torn down.\<close>

definition quiet :: "('ctx, 'tr) broker \<Rightarrow> bool" where
  "quiet b \<longleftrightarrow> (\<forall>ci < length (b_conns b). \<not> cn_dead (conn_at b ci))"

lemma flush_dead_settles:
  assumes wf: "wf_broker (e_traits E) b" shows "wf_broker (e_traits E) (flush_dead E b) \<and> quiet (flush_dead E b)"
proof -
  have wf': "wf_broker (e_traits E) (flush_dead E b)" by (rule wf_flush_dead [OF wf])
  have "\<not> cn_dead (conn_at (flush_dead E b) ci)" if "ci < length (b_conns (flush_dead E b))" for ci
    using that wfD(1) [OF wf'] wfD(5) [OF wf', of ci] flush_dead_quiet [of ci E b] by (auto simp: conn_ok_def)
  then show ?thesis using wf' by (simp add: quiet_def)
qed

lemma wf_conn_open:
  assumes wf: "wf_broker (e_traits E) b" shows "wf_broker (e_traits E) (snd (conn_open E ci now_ms b))"
proof -
  let ?f = "\<lambda>c. (conn_reset c)\<lparr>cn_active := True, cn_deadline_ms := now_ms + connect_timeout_ms (e_traits E)\<rparr>"
  have "wf_broker (e_traits E) (upd_conn ci ?f b)" if "ci < max_connections (e_traits E)" "\<not> cn_active (conn_at b ci)"
    by (rule wf_upd_conn [OF wf])
      (use that wfD(5) [OF wf, of ci] fp_inv_length [OF fp_inv_reset] in \<open>auto simp: conn_reset_def conn_ok_def fp_inv_reset\<close>)
  then show ?thesis using wf by (simp add: conn_open_def Let_def notify_conn_def)
qed

lemma quiet_conn_open: "quiet b \<Longrightarrow> quiet (snd (conn_open E ci now_ms b))"
  by (simp add: conn_open_def quiet_def Let_def notify_conn_def conn_at_upd conn_reset_def)

lemma conn_closed_settles:
  assumes wf: "wf_broker (e_traits E) b" and q: "quiet b"
  shows "wf_broker (e_traits E) (conn_closed E ci b) \<and> quiet (conn_closed E ci b)"
proof -
  have "wf_broker (e_traits E) (upd_conn ci (\<lambda>c. c\<lparr>cn_notify_transport := False, cn_dead := True\<rparr>) b)"
    if "cn_active (conn_at b ci)"
    by (rule wf_upd_conn [OF wf]) (use that wfD(5) [OF wf, of ci] in \<open>auto simp: conn_ok_def\<close>)
  from flush_dead_settles [OF this] show ?thesis using wf q by (simp add: conn_closed_def)
qed

lemma upd_conn_fuse: "upd_conn ci f (upd_conn ci g b) = upd_conn ci (\<lambda>c. f (g c)) b"
  by (auto simp: upd_conn_def conn_at_def list_update_beyond)

lemma upd_conn_notify: "upd_conn ci f (notify e b) = notify e (upd_conn ci f b)"
  by (simp add: upd_conn_def notify_def conn_at_def)

lemma wf_parser:
  assumes wf: "wf_broker T b" and f: "fp_inv (max_packet_size T) (cn_parser (conn_at b ci))" "ci < max_connections T"
    and p: "feed (max_packet_size T) h (cn_parser (conn_at b ci)) data st = (e, p, st')"
    and b1: "wf_broker T b1" "cn_active (conn_at b1 ci)"
  shows "wf_broker T (let b1 = upd_conn ci (\<lambda>c. c\<lparr>cn_parser := p\<rparr>) b1
                      in if e \<noteq> Err_ok then mark_dead ci (notify_violation ci e b1) else b1)"
proof (cases "e = Err_ok")
  case True
  have "wf_broker T (upd_conn ci (\<lambda>c. c\<lparr>cn_parser := p\<rparr>) b1)"
    by (rule wf_upd_conn [OF b1(1)])
      (use wfD(5) [OF b1(1) f(2)] feed_body [OF f(1) p] fp_inv_feed [OF f(1) p [unfolded True]] in \<open>auto simp: conn_ok_def\<close>)
  then show ?thesis using True by simp
next
  case False
  have "wf_broker T (upd_conn ci (\<lambda>c. c\<lparr>cn_parser := p, cn_dead := True\<rparr>) b1)"
    by (rule wf_upd_conn [OF b1(1)]) (use wfD(5) [OF b1(1) f(2)] feed_body [OF f(1) p] b1(2) in \<open>auto simp: conn_ok_def\<close>)
  then show ?thesis using False by (simp add: mark_dead_def notify_violation_def upd_conn_notify upd_conn_fuse Let_def)
qed

text \<open>The state in which \<open>conn_data\<close> feeds the parser.\<close>

definition stamped :: "('ctx, 'tr) env \<Rightarrow> nat \<Rightarrow> u32 \<Rightarrow> ('ctx, 'tr) broker \<Rightarrow> ('ctx, 'tr) broker" where
  "stamped E ci now_ms b =
    (let b = b\<lparr>b_now_ms := now_ms\<rparr>
     in if cn_session (conn_at b ci) \<noteq> no_session then upd_conn ci (refresh_deadline (e_traits E) now_ms) b else b)"

lemma now_upd_at [simp]: "conn_at (b\<lparr>b_now_ms := t\<rparr>) = conn_at b" "session_at (b\<lparr>b_now_ms := t\<rparr>) = session_at b"
  by (auto simp: conn_at_def session_at_def fun_eq_iff)

lemma stamped_conn:
  "cn_session (conn_at (stamped E ci now_ms b) cj) = cn_session (conn_at b cj)"
  "cn_active (conn_at (stamped E ci now_ms b) cj) = cn_active (conn_at b cj)"
  "cn_dead (conn_at (stamped E ci now_ms b) cj) = cn_dead (conn_at b cj)"
  "cn_parser (conn_at (stamped E ci now_ms b) cj) = cn_parser (conn_at b cj)"
  by (auto simp: stamped_def Let_def conn_at_upd)

lemma serving_stamped:
  assumes wf: "wf_broker (e_traits E) b" and c: "ci < max_connections (e_traits E)" "cn_active (conn_at b ci)"
  shows "serving (e_traits E) ci (stamped E ci now_ms b)"
proof -
  have "wf_broker (e_traits E) (upd_conn ci (refresh_deadline (e_traits E) now_ms) (b\<lparr>b_now_ms := now_ms\<rparr>))"
    by (rule wf_upd_conn) (use wf wfD(5) [OF wf c(1)] in \<open>auto simp: conn_ok_def\<close>)
  then have "wf_broker (e_traits E) (stamped E ci now_ms b)" using wf by (simp add: stamped_def Let_def)
  then show ?thesis using c by (simp add: serving_def stamped_conn)
qed

lemma conn_data_feed:
  assumes c: "ci < max_connections (e_traits E)" "cn_active (conn_at b ci)" "\<not> cn_dead (conn_at b ci)"
    and f: "feed (max_packet_size (e_traits E)) (on_packet E ci) (cn_parser (conn_at b ci)) data (stamped E ci now_ms b) = (e, p, b')"
  shows "conn_data E ci data now_ms b =
    (e, flush_dead E (let b = upd_conn ci (\<lambda>c. c\<lparr>cn_parser := p\<rparr>) b'
                      in if e \<noteq> Err_ok then mark_dead ci (notify_violation ci e b) else b))"
  using c f [folded stamped_conn(4) [of E ci now_ms b ci]] unfolding stamped_def
  by (simp add: conn_data_def Let_def del: now_upd_at)

lemma conn_data_settles:
  assumes wf: "wf_broker (e_traits E) b" and q: "quiet b"
  shows "wf_broker (e_traits E) (snd (conn_data E ci data now_ms b)) \<and> quiet (snd (conn_data E ci data now_ms b))"
proof (cases "ci < max_connections (e_traits E) \<and> cn_active (conn_at b ci) \<and> \<not> cn_dead (conn_at b ci)")
  case True
  then have c: "ci < max_connections (e_traits E)" "cn_active (conn_at b ci)" "\<not> cn_dead (conn_at b ci)" by simp_all
  let ?b = "stamped E ci now_ms b"
  obtain e p b' where f: "feed (max_packet_size (e_traits E)) (on_packet E ci) (cn_parser (conn_at b ci)) data ?b = (e, p, b')"
    by (metis prod_cases3)
  have i: "fp_inv (max_packet_size (e_traits E)) (cn_parser (conn_at b ci))" using wfD(5) [OF wf c(1)] c by (simp add: conn_ok_def)
  have "serving (e_traits E) ci b'"
    using fed.feed_inv [OF i serving_stamped [OF wf c(1,2)] _ f] c(3) by (simp add: stamped_conn)
  then show ?thesis
    using flush_dead_settles [OF wf_parser [OF wf i c(1) f]] by (simp add: conn_data_feed [OF c f] serving_def)
qed (use wf q in \<open>auto simp: conn_data_def\<close>)

lemma wf_tick_conn: "wf_broker (e_traits E) b \<Longrightarrow> wf_broker (e_traits E) (tick_conn E now_ms i b)"
  by (auto simp: tick_conn_def Let_def notify_conn_def intro!: wf_mark_dead)

lemma wf_tick_session:
  assumes wf: "wf_broker (e_traits E) b" and s: "session_at b si \<noteq> None"
  shows "wf_broker (e_traits E) (tick_session E si b)"
proof -
  have pump: "wf_broker (e_traits E) (pump_session E si b')" if "wf_broker (e_traits E) b'" "session_at b' si \<noteq> None" for b'
    by (rule wf_delivers [OF that(1) delivers_pump_session pump_session_ok [OF wfD(8) [OF that(1)] wfD(2) [OF that(1)] that(2)]])
  have d: "delivers b (replay_retained E cj si b) \<and> sessions_ok (e_traits E) (replay_retained E cj si b)" for cj
    by (rule replay_retained_ok [OF wfD(8) [OF wf] wfD(2) [OF wf] s wfD(4) [OF wf]])
  have "wf_broker (e_traits E) (replay_retained E cj si b) \<and> session_at (replay_retained E cj si b) si \<noteq> None" for cj
    using wf_delivers [OF wf conjunct1 [OF d] conjunct2 [OF d]] delivers_None [OF conjunct1 [OF d]] s by simp
  then show ?thesis using wf s by (auto simp: tick_session_def with_session_def Let_def intro!: pump)
qed

lemma wf_tick_body:
  assumes "wf_broker (e_traits E) b"
  shows "wf_broker (e_traits E) (pool_for_each (max_sessions (e_traits E)) b_sessions (tick_session E)
    (fold (tick_conn E now_ms) [0..<max_connections (e_traits E)] (b\<lparr>b_now_ms := now_ms\<rparr>)))"
  unfolding pool_for_each_def
proof (rule fold_upt_invariant)
  show "wf_broker (e_traits E) (fold (tick_conn E now_ms) [0..<max_connections (e_traits E)] (b\<lparr>b_now_ms := now_ms\<rparr>))"
    by (rule fold_upt_invariant) (use assms in \<open>auto intro: wf_tick_conn\<close>)
qed (auto simp: session_at_def intro!: wf_tick_session)

lemma expire_conns [simp]: "b_conns (expire_sessions E now_ms b) = b_conns b"
  unfolding expire_sessions_def pool_for_each_def
  by (simp, intro impI, rule fold_upt_invariant)
    (auto simp: expire_one_def with_session_def fail_def notify_session_def split: option.split)

lemma quiet_expire [simp]: "quiet (expire_sessions E now_ms b) = quiet b"
  unfolding quiet_def by (simp add: conn_at_cong [OF expire_conns])

lemma tick_settles:
  assumes "wf_broker (e_traits E) b"
  shows "wf_broker (e_traits E) (tick E now_ms b) \<and> quiet (tick E now_ms b)"
  using flush_dead_settles [OF wf_tick_body [OF assms], of now_ms]
  by (simp add: tick_def Let_def wf_expire_sessions)

lemma publish_settles:
  assumes wf: "wf_broker (e_traits E) b" and q: "quiet b"
  shows "wf_broker (e_traits E) (snd (publish E topic payload qs retain b)) \<and> quiet (snd (publish E topic payload qs retain b))"
proof -
  have r: "wf_broker (e_traits E) (flush_dead E (route_publish E topic payload qs b'))
      \<and> quiet (flush_dead E (route_publish E topic payload qs b'))"
    if "wf_broker (e_traits E) b'" "length topic \<le> max_topic_len (e_traits E)" for b'
    by (rule flush_dead_settles [OF wf_route_publish [OF that]])
  show ?thesis using wf q r [of b] r [of "fst (apply_retain E topic payload qs b)"]
    by (auto simp: publish_def Let_def split_beta)
qed

theorem api_step_settles:
  "api_step T b b' \<Longrightarrow> wf_broker T b \<Longrightarrow> quiet b \<Longrightarrow> wf_broker T b' \<and> quiet b'"
proof (induction rule: api_step.induct)
  case (step_transport b tr)
  have "conn_at (b\<lparr>b_tr := tr\<rparr>) = conn_at b" by (rule conn_at_cong) simp
  then show ?case using step_transport wf_cong [of T b "b\<lparr>b_tr := tr\<rparr>"] by (simp add: quiet_def)
next
  case (step_open E b ci now_ms)
  then show ?case using wf_conn_open [of E b ci now_ms] quiet_conn_open [of b E ci now_ms] by simp
next
  case (step_closed E b ci)
  then show ?case using conn_closed_settles [of E b ci] by simp
next
  case (step_data E b ci data now_ms)
  then show ?case using conn_data_settles [of E b ci data now_ms] by simp
next
  case (step_tick E b now_ms)
  then show ?case using tick_settles [of E b now_ms] by simp
next
  case (step_publish E b topic payload q retain)
  then show ?case using publish_settles [of E b topic payload q retain] by simp
qed

lemma quiet_init: "quiet (broker_init T tr)"
  by (simp add: quiet_def broker_init_def conn_at_def new_conn_def)

theorem reachable_settled: "reachable T b \<Longrightarrow> traits_ok T \<Longrightarrow> wf_broker T b \<and> quiet b"
  by (induction rule: reachable.induct) (auto simp: wf_init quiet_init dest: api_step_settles)

end
