(* ===== verification/Broker_Sample.thy ===== *)
theory Broker_Sample
  imports Broker_Api
begin

text \<open>
  A small concrete broker in use, on which the theorems about well-formed brokers are
  applied: two connections, of which the first belongs to client \<open>a\<close> and the second has not
  sent its CONNECT yet, and a persistent session of client \<open>b\<close>, who is away. Both clients
  subscribed to topic \<open>x\<close>, \<open>a\<close> at QoS 0 and \<open>b\<close> at QoS 1; each has
  one message queued.
\<close>

definition sample_traits :: traits where
  "sample_traits = \<lparr>max_connections = 2, max_sessions = 2, max_subscriptions_per_session = 2,
     max_topic_len = 8, max_client_id_len = 16, max_packet_size = 32, max_payload_len = 8,
     max_retained = 1, max_pending_per_session = 2, max_inbound_qos2 = 1,
     connect_timeout_ms = 1000, max_idle_ms = 0, session_expiry_ms = 0\<rparr>"

definition sample_env :: "(unit, unit) env" where
  "sample_env = \<lparr>e_traits = sample_traits, e_sec = allow_all, e_send = (\<lambda>tr ci pkt. (tr, True)), e_close = (\<lambda>tr ci. tr)\<rparr>"

definition sample_msg :: out_msg where
  "sample_msg = new_out_msg\<lparr>om_topic := [0x78], om_payload := [1], om_qos := at_least_once\<rparr>"

definition sample_a :: "unit session" where
  "sample_a = (new_session ())\<lparr>s_client_id := [0x61], s_conn := 0, s_pending := [sample_msg], s_inbound_qos2 := [7],
     s_subs := [\<lparr>sub_filter = [0x78], sub_granted = at_most_once, sub_retain_pending = False\<rparr>]\<rparr>"

definition sample_b :: "unit session" where
  "sample_b = (new_session ())\<lparr>s_client_id := [0x62], s_clean_session := False, s_pending := [sample_msg],
     s_subs := [\<lparr>sub_filter = [0x78], sub_granted = at_least_once, sub_retain_pending = False\<rparr>]\<rparr>"

definition sample_conn :: "u16 \<Rightarrow> conn" where
  "sample_conn si = (new_conn 32)\<lparr>cn_active := True, cn_session := si\<rparr>"

definition sample_broker :: "(unit, unit) broker" where
  "sample_broker = (broker_init sample_traits ())\<lparr>b_conns := [sample_conn 0, sample_conn no_session],
     b_sessions := \<lparr>slots = [Some sample_a, Some sample_b], live = 2\<rparr>\<rparr>"

lemmas sample_defs = sample_traits_def sample_env_def sample_a_def sample_b_def sample_msg_def sample_conn_def
  sample_broker_def new_session_def new_out_msg_def new_conn_def broker_init_def no_session_def no_conn_def

lemma sample_traits_ok [simp]: "traits_ok sample_traits"
  by (simp add: traits_ok_def traits_asserted_def sample_traits_def max_duration_ms_def)

lemma sample_caps [simp]:
  "max_connections sample_traits = 2" "max_sessions sample_traits = 2" "max_subscriptions_per_session sample_traits = 2"
  "max_topic_len sample_traits = 8" "max_packet_size sample_traits = 32" "max_payload_len sample_traits = 8"
  "max_pending_per_session sample_traits = 2" "max_inbound_qos2 sample_traits = 1" "connect_timeout_ms sample_traits = 1000"
  by (simp_all add: sample_traits_def)

lemma sample_conn_sel [simp]:
  "cn_active (sample_conn si)" "\<not> cn_dead (sample_conn si)" "cn_session (sample_conn si) = si"
  "cn_deadline_ms (sample_conn si) = 0" "cn_parser (sample_conn si) = fp_init 32"
  by (simp_all add: sample_conn_def new_conn_def)

lemma sample_session_sel [simp]:
  "s_conn sample_a = 0" "connected sample_a" "\<not> connected sample_b" "\<not> s_clean_session sample_b"
  "s_pending sample_a = [sample_msg]" "s_pending sample_b = [sample_msg]" "s_auth_ctx sample_a = ()"
  "s_inbound_qos2 sample_a = [7]" "\<not> s_has_will sample_a" "conn_index sample_traits sample_a = 0"
  "s_subs sample_a = [\<lparr>sub_filter = [0x78], sub_granted = at_most_once, sub_retain_pending = False\<rparr>]"
  by (simp_all add: sample_a_def sample_b_def new_session_def connected_def no_conn_def conn_index_def Let_def)

lemma sample_env_sel [simp]: "e_sec sample_env = allow_all" "e_send sample_env tr ci pkt = (tr, True)"
  by (simp_all add: sample_env_def)

lemma sample_traits_env [simp]: "e_traits sample_env = sample_traits"
  by (simp add: sample_env_def)

lemma sample_at [simp]:
  "session_at sample_broker si = (if si = 0 then Some sample_a else if si = 1 then Some sample_b else None)"
  "conn_at sample_broker ci = (if ci = 0 then sample_conn 0 else if ci = 1 then sample_conn no_session else new_conn 0)"
  "length (b_conns sample_broker) = 2"
  by (auto simp: session_at_def pool_at_def conn_at_def sample_broker_def nth_Cons' less_Suc_eq numeral_2_eq_2)

lemma sample_filter: "topic_filter_valid [0x78]" "topic_name_valid [0x78]"
  by (simp_all add: topic_eval topic_name_valid_def)

lemma sample_session_of [simp]: "session_of sample_broker (sample_conn 0) = Some 0"
  by (simp add: session_of_def no_session_def)

lemma sample_session_ok: "session_ok sample_traits sample_a" "session_ok sample_traits sample_b"
  by (simp_all add: session_ok_def sample_defs connected_def pending_ok_def msg_ok_def in_flight_ids_def
      sample_filter)

lemma sample_conn_ok: "conn_ok sample_traits (sample_conn si)"
proof -
  have "fp_reset (fp_init 32) = fp_init 32" by (simp add: fp_reset_def fp_init_def)
  then have "fp_inv 32 (fp_init 32)" using fp_inv_reset [of "fp_init 32" 32] by (simp add: fp_init_def)
  then show ?thesis by (simp add: conn_ok_def sample_conn_def new_conn_def sample_traits_def fp_init_def)
qed

lemma sample_wf: "wf_broker sample_traits sample_broker"
proof -
  have "linked sample_broker"
    by (auto simp: linked_def sample_a_def sample_b_def sample_conn_def new_session_def new_conn_def connected_def
        no_conn_def no_session_def less_2_cases_iff split: if_splits)
  moreover have "sessions_ok sample_traits sample_broker"
    using sample_session_ok by (auto simp: sessions_ok_def split: if_splits) (simp add: sample_broker_def broker_init_def)
  moreover have "slot_pool.keyed s_client_id (b_sessions sample_broker)"
    unfolding slot_pool.keyed_def
    by (auto simp: sample_broker_def pool_at_def nth_Cons' sample_a_def sample_b_def split: if_splits)
  ultimately show ?thesis
    using sample_conn_ok by (simp add: wf_broker_def) (simp add: sample_broker_def sample_traits_def broker_init_def
        pool_inv_def retained_inv_init)
qed

lemma sample_quiet: "quiet sample_broker"
  by (simp add: quiet_def sample_conn_def new_conn_def)

lemma reachable_open:
  "reachable sample_traits (snd (conn_open sample_env 0 0 (broker_init sample_traits ())))"
  by (rule reach_step [OF reach_init step_open]) simp

end
