(* ===== verification/Broker_Routing.thy ===== *)
theory Broker_Routing
  imports Broker_Sample
begin

text \<open>
  What a publish does to each session (\<open>route_publish\<close>, \<open>enqueue\<close>, \<open>pump_session\<close> of
  \<open>broker/broker.hpp\<close>). Routing to one session leaves every other session and every other
  connection alone, so the effect on a session is that of its own turn: nothing, one
  packet on its connection, or one entry at the end of its queue. Flushing the queue of a
  connection whose transport accepts what it is given sends every queued entry, once and
  in the order they were queued.
\<close>

section \<open>Locality\<close>

lemma pool_put_other: "si \<noteq> sj \<Longrightarrow> pool_at (pool_put sj s p) si = pool_at p si"
  by (simp add: pool_at_def pool_put_def)

lemma upd_session_other: "si \<noteq> sj \<Longrightarrow> session_at (upd_session sj f b) si = session_at b si"
  by (auto simp: upd_session_def with_session_def session_at_def put_session_def fail_def pool_put_other split: option.split)

lemma put_session_other: "si \<noteq> sj \<Longrightarrow> session_at (put_session sj s b) si = session_at b si"
  by (auto simp: session_at_def put_session_def pool_put_other)

lemmas pending_other = upd_pending_def drop_pending_def upd_session_other put_session_other

lemma session_at_fail [simp]: "session_at (fail b) = session_at b"
  by (rule ext) (simp add: session_at_def fail_def)

lemma pump_step_other: "pump_step E sj i b = (go_on, i', b') \<Longrightarrow> si \<noteq> sj \<Longrightarrow> session_at b' si = session_at b si"
  by (auto simp: pump_step_def Let_def notify_drop_def pending_other session_at_try split: option.splits if_splits prod.splits)

lemma pump_loop_other: "si \<noteq> sj \<Longrightarrow> session_at (pump_loop E sj i b) si = session_at b si"
proof (induction E sj i b rule: pump_loop.induct)
  case (1 E sj i b)
  obtain go i' b' where p: "pump_step E sj i b = (go, i', b')" by (metis prod_cases3)
  show ?case using 1(1) [OF p [symmetric] refl _ 1(2)] pump_step_other [OF p 1(2)] p
    by (auto simp: pump_loop.simps [of E sj i b])
qed

lemma enqueue_other: "si \<noteq> sj \<Longrightarrow> session_at (enqueue E sj topic payload q retain b) si = session_at b si"
  by (simp add: enqueue_def with_session_def notify_drop_def pump_session_def pump_loop_other put_session_other Let_def
      split: option.split prod.split)

lemma route_one_other: "si \<noteq> sj \<Longrightarrow> session_at (route_one E topic payload q sj b) si = session_at b si"
  by (auto simp: route_one_def with_session_def notify_denied_def enqueue_other Let_def split: option.split prod.split)

section \<open>What a connection is sent\<close>

text \<open>The packets handed to the transport for one connection, in order.\<close>

definition packets_to :: "nat \<Rightarrow> action list \<Rightarrow> bytes list" where
  "packets_to ci tr = concat (map (\<lambda>a. case a of Sent cj pkt ok \<Rightarrow> if cj = ci then [pkt] else [] | _ \<Rightarrow> []) tr)"

lemma packets_to_simps [simp]:
  "packets_to ci [] = []" "packets_to ci (as @ bs) = packets_to ci as @ packets_to ci bs"
  "packets_to ci (Noted e # as) = packets_to ci as" "packets_to ci (Closed cj # as) = packets_to ci as"
  "packets_to ci (Sent cj pkt ok # as) = (if cj = ci then pkt # packets_to ci as else packets_to ci as)"
  by (simp_all add: packets_to_def)

abbreviation sent_on :: "nat \<Rightarrow> ('ctx, 'tr) broker \<Rightarrow> bytes list" where
  "sent_on ci b \<equiv> packets_to ci (b_trace b)"

lemma sent_on_notify [simp]: "sent_on ci (notify e b) = sent_on ci b"
  by (simp add: notify_def)

lemma sent_on_try: "cj \<noteq> ci \<Longrightarrow> sent_on ci (fst (try_send_to E cj pkt b)) = sent_on ci b"
  by (simp add: try_send_to_def transport_send_def Let_def split: prod.split)

lemma sent_on_send: "cj \<noteq> ci \<Longrightarrow> sent_on ci (send_to E cj pkt b) = sent_on ci b"
  by (auto simp: send_to_def transport_send_def mark_dead_def notify_conn_def Let_def split: prod.split)

lemma sent_on_upd [simp]:
  "b_trace (fail b) = b_trace b" "b_trace (upd_session si f b) = b_trace b"
  "b_trace (upd_pending si i g b) = b_trace b" "b_trace (drop_pending si i b) = b_trace b"
  by (simp_all add: fail_def upd_session_def with_session_def upd_pending_def drop_pending_def split: option.split)

lemma alloc_conn_index: "alloc_packet_id s = Some (pid, s') \<Longrightarrow> conn_index T s' = conn_index T s"
  by (rule conn_index_core [OF alloc_core])

lemma pump_step_sent:
  "pump_step E sj i b = (go_on, i', b') \<Longrightarrow> session_at b sj = Some s \<Longrightarrow> conn_index (e_traits E) s \<noteq> ci \<Longrightarrow>
   sent_on ci b' = sent_on ci b"
  by (auto simp: pump_step_def Let_def notify_drop_def sent_on_try alloc_conn_index split: option.splits if_splits prod.splits)

lemma pump_loop_sent:
  "session_at b sj = Some s \<Longrightarrow> conn_index (e_traits E) s \<noteq> ci \<Longrightarrow> sent_on ci (pump_loop E sj i b) = sent_on ci b"
proof (induction E sj i b arbitrary: s rule: pump_loop.induct)
  case (1 E sj i b)
  obtain go i' b' where p: "pump_step E sj i b = (go, i', b')" by (metis prod_cases3)
  obtain s' where "session_at b' sj = Some s'" "core s' = core s"
    using delivers_session [OF delivers_pump_step [OF p] 1(2)] by blast
  then show ?case using 1(1) [OF p [symmetric] refl, of s'] pump_step_sent [OF p 1(2,3)] p 1(3) conn_index_core [of s' s]
    by (auto simp: pump_loop.simps [of E sj i b])
qed

lemma enqueue_sent:
  assumes s: "session_at b sj = Some s" and c: "conn_index (e_traits E) s \<noteq> ci"
  shows "sent_on ci (enqueue E sj topic payload q retain b) = sent_on ci b"
proof -
  have "sent_on ci (pump_session E sj (put_session sj (s\<lparr>s_pending := ps\<rparr>) b)) = sent_on ci b" for ps
    using pump_loop_sent [of "put_session sj (s\<lparr>s_pending := ps\<rparr>) b" sj "s\<lparr>s_pending := ps\<rparr>" E ci 0] s c
    by (simp add: pump_session_def session_at_put conn_index_def connected_def)
  then show ?thesis using s
    by (auto simp: enqueue_def with_session_def notify_drop_def Let_def split: option.split prod.split)
qed

lemma route_one_sent:
  "session_at b sj = Some s \<Longrightarrow> conn_index (e_traits E) s \<noteq> ci \<Longrightarrow>
   sent_on ci (route_one E topic payload q sj b) = sent_on ci b"
  by (auto simp: route_one_def with_session_def notify_denied_def enqueue_sent sent_on_send Let_def split: option.split prod.split)

section \<open>The turn of one session\<close>

text \<open>Session \<open>si\<close> is the only one that can be connected through \<open>ci\<close>.\<close>

definition owns :: "traits \<Rightarrow> nat \<Rightarrow> nat \<Rightarrow> ('ctx, 'tr) broker \<Rightarrow> bool" where
  "owns T si ci b \<longleftrightarrow> (\<forall>sj s. sj \<noteq> si \<longrightarrow> session_at b sj = Some s \<longrightarrow> conn_index T s \<noteq> ci)"

lemma owns_delivers: "owns T si ci b \<Longrightarrow> delivers b b' \<Longrightarrow> owns T si ci b'"
  unfolding owns_def using delivers_session_back conn_index_core by metis

lemma wf_owns:
  assumes wf: "wf_broker T b" and s: "session_at b si = Some s" "conn_index T s = ci" "ci < max_connections T"
  shows "owns T si ci b"
  unfolding owns_def
proof (intro allI impI notI)
  fix sj s' assume s': "sj \<noteq> si" "session_at b sj = Some s'" "conn_index T s' = ci"
  have u: "connected s" "unat (s_conn s) = ci" "connected s'" "unat (s_conn s') = ci"
    using s(2,3) s'(3) by (auto simp: conn_index_def Let_def split: if_splits)
  then have "(of_nat si :: u16) = of_nat sj"
    using linkedD [OF wfD(7) [OF wf] s(1)] linkedD [OF wfD(7) [OF wf] s'(2)] by simp
  then show False
    using s'(1) of_nat_16_inj [of si sj] session_bound [OF wf s(1)] session_bound [OF wf s'(2)] by simp
qed

lemma route_one_alone:
  assumes "owns (e_traits E) si ci b" "sj \<noteq> si" "session_at b sj \<noteq> None"
  shows "conn_at (route_one E topic payload q sj b) ci = conn_at b ci"
    "sent_on ci (route_one E topic payload q sj b) = sent_on ci b"
proof -
  obtain s where s: "session_at b sj = Some s" using assms(3) by blast
  have c: "conn_index (e_traits E) s \<noteq> ci" using assms(1,2) s by (simp add: owns_def)
  have e: "conn_at (enqueue E sj topic payload q' r b) = conn_at b" for q' r by (rule conn_at_cong) simp
  show "conn_at (route_one E topic payload q sj b) ci = conn_at b ci" using s c
    by (auto simp: route_one_def with_session_def notify_denied_def Let_def conn_at_send_to e split: prod.split)
  show "sent_on ci (route_one E topic payload q sj b) = sent_on ci b" by (rule route_one_sent [OF s c])
qed

definition turn :: "('ctx, 'tr) env \<Rightarrow> bytes \<Rightarrow> bytes \<Rightarrow> qos \<Rightarrow> nat \<Rightarrow> ('ctx, 'tr) broker \<Rightarrow> ('ctx, 'tr) broker" where
  "turn E topic payload q sj b = (if pool_at (b_sessions b) sj \<noteq> None then route_one E topic payload q sj b else b)"

lemma turn_other:
  assumes "sj \<noteq> si"
  shows "session_at (turn E topic payload q sj b) si = session_at b si" "delivers b (turn E topic payload q sj b)"
    "owns (e_traits E) si ci b \<Longrightarrow> conn_at (turn E topic payload q sj b) ci = conn_at b ci
       \<and> sent_on ci (turn E topic payload q sj b) = sent_on ci b"
  using assms route_one_alone [of E si ci b sj] by (auto simp: turn_def route_one_other delivers_route_one session_at_def [symmetric])

lemma turns_other:
  "si \<notin> set xs \<Longrightarrow> session_at (fold (turn E topic payload q) xs b) si = session_at b si
     \<and> delivers b (fold (turn E topic payload q) xs b)
     \<and> (owns (e_traits E) si ci b \<longrightarrow> conn_at (fold (turn E topic payload q) xs b) ci = conn_at b ci
          \<and> sent_on ci (fold (turn E topic payload q) xs b) = sent_on ci b)"
proof (induction xs arbitrary: b)
  case (Cons sj xs)
  let ?b = "turn E topic payload q sj b"
  have "sj \<noteq> si" using Cons.prems by auto
  note t = turn_other [OF this, where E = E and topic = topic and payload = payload and q = q and b = b]
  show ?case
    using Cons.IH [of ?b] Cons.prems t owns_delivers [OF _ t(2), of "e_traits E" si ci] delivers_trans [OF t(2)] by auto
qed simp

lemma upt_split: "si < n \<Longrightarrow> [0..<n] = [0..<si] @ si # [Suc si..<n]"
  using upt_add_eq_append [of 0 si "n - si"] upt_conv_Cons [of si n] by simp

text \<open>The effect of a publish on a session and its connection is that of one turn, in a state where both are as before.\<close>

lemma route_turn:
  assumes wf: "wf_broker (e_traits E) b" and s: "session_at b si = Some s"
  obtains b1 where "delivers b b1" "session_at b1 si = Some s"
    "session_at (route_publish E topic payload q b) si = session_at (route_one E topic payload q si b1) si"
    "\<And>ci. owns (e_traits E) si ci b \<Longrightarrow> conn_at b1 ci = conn_at b ci \<and> sent_on ci b1 = sent_on ci b
       \<and> sent_on ci (route_publish E topic payload q b) = sent_on ci (route_one E topic payload q si b1)"
proof -
  let ?f = "turn E topic payload q"
  have "si < max_sessions (e_traits E)"
    using slot_pool.at_bound [OF wfD(3) [OF wf]] s by (simp add: session_at_def)
  then have split: "route_publish E topic payload q b = fold ?f [Suc si..<max_sessions (e_traits E)] (?f si (fold ?f [0..<si] b))"
    by (simp add: route_publish_def pool_for_each_def upt_split turn_def [abs_def])
  define b1 where "b1 = fold ?f [0..<si] b"
  note pre = turns_other [of si "[0..<si]" E topic payload q b, folded b1_def]
  have f: "?f si b1 = route_one E topic payload q si b1" using pre s by (simp add: turn_def session_at_def)
  have o: "owns (e_traits E) si ci (?f si b1)" if "owns (e_traits E) si ci b" for ci
    using owns_delivers [OF that] pre delivers_trans delivers_route_one [of b1] unfolding f by (metis atLeastLessThan_iff less_irrefl set_upt)
  note post = turns_other [of si "[Suc si..<max_sessions (e_traits E)]" E topic payload q "?f si b1"]
  show ?thesis
  proof (rule that [of b1])
    show "delivers b b1" "session_at b1 si = Some s" using pre s by simp_all
    show "session_at (route_publish E topic payload q b) si = session_at (route_one E topic payload q si b1) si"
      using post by (simp add: split f b1_def [symmetric])
    show "conn_at b1 ci = conn_at b ci \<and> sent_on ci b1 = sent_on ci b
       \<and> sent_on ci (route_publish E topic payload q b) = sent_on ci (route_one E topic payload q si b1)"
      if "owns (e_traits E) si ci b" for ci
      using post [of ci] pre [of ci] o [OF that] that by (simp add: split f b1_def [symmetric])
  qed
qed

section \<open>What each session gets\<close>

text \<open>The largest quality of service among the matching subscriptions, if any.\<close>

definition best_grant :: "bytes \<Rightarrow> subscription list \<Rightarrow> qos option" where
  "best_grant topic subs =
    (let hits = filter (\<lambda>sub. topic_matches (sub_filter sub) topic) subs
     in if hits = [] then None else Some (Max (set (map sub_granted hits))))"

definition deliverable :: "('ctx, 'tr) env \<Rightarrow> bytes \<Rightarrow> qos \<Rightarrow> 'ctx session \<Rightarrow> qos option" where
  "deliverable E topic q s =
    (case best_grant topic (s_subs s) of
       None \<Rightarrow> None
     | Some g \<Rightarrow> if sec_receive (e_sec E) (s_auth_ctx s) topic then Some (min q g) else None)"

lemma qos_min_eq: "qos_min a b = min a b" and qos_max_eq: "qos_max a b = max a b"
  by (auto simp: qos_min_def qos_max_def min_def max_def)

lemma at_most_once_least: "at_most_once \<le> (q :: qos)"
  by (cases q) (simp_all add: less_eq_qos_def)

lemma granted_for_append:
  "granted_for hit (subs @ [sub]) =
    (if hit sub then (True, qos_max (snd (granted_for hit subs)) (sub_granted sub)) else granted_for hit subs)"
  by (simp add: granted_for_def split: prod.split)

lemma granted_for_best:
  "granted_for (\<lambda>sub. topic_matches (sub_filter sub) topic) subs =
    (case best_grant topic subs of None \<Rightarrow> (False, at_most_once) | Some g \<Rightarrow> (True, g))"
proof (induction subs rule: rev_induct)
  case Nil
  show ?case by (simp add: granted_for_def best_grant_def)
next
  case (snoc sub subs)
  let ?hits = "filter (\<lambda>sub. topic_matches (sub_filter sub) topic) subs"
  have "max at_most_once (sub_granted sub) = sub_granted sub" using at_most_once_least by (simp add: max_def)
  moreover have "Max (insert g (sub_granted ` set hs)) = max g (Max (sub_granted ` set hs))" if "hs \<noteq> []" for g hs
    using that by (intro Max_insert) simp_all
  ultimately show ?case
    using snoc by (cases "?hits = []") (auto simp: granted_for_append best_grant_def Let_def qos_max_eq max.commute simp del: set_filter)
qed

lemma route_one_eq:
  assumes "session_at b si = Some s"
  shows "route_one E topic payload q si b =
    (case best_grant topic (s_subs s) of
       None \<Rightarrow> b
     | Some g \<Rightarrow>
         case deliverable E topic q s of
           None \<Rightarrow> notify_denied receive_denied s topic b
         | Some eff \<Rightarrow>
             let online = (case conn_of_session (e_traits E) s b of None \<Rightarrow> False | Some oc \<Rightarrow> \<not> cn_dead oc)
             in if eff = at_most_once
                then (if online then send_to E (conn_index (e_traits E) s)
                                       (publish_pkt (e_traits E) topic payload at_most_once False False 0) b else b)
                else if online \<or> \<not> s_clean_session s then enqueue E si topic payload eff False b else b)"
  using assms by (auto simp: route_one_def with_session_def granted_for_best deliverable_def qos_min_eq Let_def split: option.split)

text \<open>The queue of a session that is away, after a publish.\<close>

definition kept_for :: "('ctx, 'tr) env \<Rightarrow> bytes \<Rightarrow> bytes \<Rightarrow> qos \<Rightarrow> 'ctx session \<Rightarrow> 'ctx session" where
  "kept_for E topic payload q s =
    (case deliverable E topic q s of
       None \<Rightarrow> s
     | Some eff \<Rightarrow>
         if eff \<noteq> at_most_once \<and> length payload \<le> max_payload_len (e_traits E)
            \<and> length (s_pending s) < max_pending_per_session (e_traits E)
         then s\<lparr>s_pending := s_pending s @ [queued_msg topic payload eff False]\<rparr> else s)"

lemma offline_conn: "\<not> connected s \<Longrightarrow> conn_of_session T s b = None"
  by (simp add: conn_of_session_def conn_index_def Let_def)

lemma enqueue_offline:
  assumes s: "session_at b si = Some s" "\<not> connected s" "length (s_pending s) \<le> max_pending_per_session (e_traits E)"
    and t: "length topic \<le> max_topic_len (e_traits E)"
  shows "session_at (enqueue E si topic payload eff retain b) si =
    Some (if length payload \<le> max_payload_len (e_traits E) \<and> length (s_pending s) < max_pending_per_session (e_traits E)
          then s\<lparr>s_pending := s_pending s @ [queued_msg topic payload eff retain]\<rparr> else s)"
  using s t by (auto simp: enqueue_eq [OF s(1) t] notify_drop_def offline_conn session_at_put connected_def)

lemma route_offline:
  assumes wf: "wf_broker (e_traits E) b" and s: "session_at b si = Some s" "\<not> connected s" "\<not> s_clean_session s"
    and t: "length topic \<le> max_topic_len (e_traits E)"
  shows "session_at (route_publish E topic payload q b) si = Some (kept_for E topic payload q s)"
proof -
  obtain b1 where b1: "session_at b1 si = Some s"
    "session_at (route_publish E topic payload q b) si = session_at (route_one E topic payload q si b1) si"
    using route_turn [OF wf s(1)] by metis
  have "length (s_pending s) \<le> max_pending_per_session (e_traits E)"
    using sessions_ok_at [OF wfD(2) [OF wf] s(1)] by (simp add: session_ok_def pending_ok_def)
  note q = enqueue_offline [OF b1(1) s(2) this t, of payload _ False]
  show ?thesis using b1(1) s(3)
    by (simp add: b1(2) route_one_eq [OF b1(1)] kept_for_def deliverable_def notify_denied_def q offline_conn [OF s(2)] split: option.split)
qed

text \<open>One packet for a subscriber that is here, at QoS 0.\<close>

lemma route_online:
  assumes wf: "wf_broker (e_traits E) b" and s: "session_at b si = Some s" "conn_index (e_traits E) s = ci"
    and c: "ci < max_connections (e_traits E)" "\<not> cn_dead (conn_at b ci)" "cn_active (conn_at b ci)"
    and d: "deliverable E topic q s = None \<or> deliverable E topic q s = Some at_most_once"
  shows "sent_on ci (route_publish E topic payload q b) = sent_on ci b @
    (if deliverable E topic q s = None then []
     else filter (\<lambda>p. p \<noteq> []) [publish_pkt (e_traits E) topic payload at_most_once False False 0])
     \<and> session_at (route_publish E topic payload q b) si = Some s"
proof -
  obtain b1 where b1: "session_at b1 si = Some s"
    "session_at (route_publish E topic payload q b) si = session_at (route_one E topic payload q si b1) si"
    "conn_at b1 ci = conn_at b ci" "sent_on ci b1 = sent_on ci b"
    "sent_on ci (route_publish E topic payload q b) = sent_on ci (route_one E topic payload q si b1)"
    using route_turn [OF wf s(1)] wf_owns [OF wf s c(1)] by metis
  have "sent_on ci (send_to E ci pkt b1) = sent_on ci b1 @ filter (\<lambda>p. p \<noteq> []) [pkt]" for pkt
    using c b1(3) by (auto simp: send_to_def transport_send_def mark_dead_def notify_conn_def Let_def split: prod.split)
  then show ?thesis using d b1(1,3,4) s(2) c
    by (auto simp: b1(2,5) route_one_eq [OF b1(1)] deliverable_def notify_denied_def conn_of_session_def Let_def split: option.splits)
qed

section \<open>Properties\<close>

text \<open>C8: a publish puts one message at the end of the queue of every absent persistent session that may
  receive the topic and matches it above QoS 0, at the smaller of the published and the largest granted
  QoS, if there is room and the payload fits; the session is otherwise unchanged.\<close>

theorem publish_offline_correct:
  assumes "wf_broker (e_traits E) b" "session_at b si = Some s" "\<not> connected s" "\<not> s_clean_session s"
    "length topic \<le> max_topic_len (e_traits E)"
  shows "session_at (route_publish E topic payload q b) si = Some (kept_for E topic payload q s)"
  by (rule route_offline [OF assms])

theorem publish_offline_correct_witness:
  "session_at (route_publish sample_env [0x78] [2] exactly_once sample_broker) 1
     = Some (kept_for sample_env [0x78] [2] exactly_once sample_b)"
  by (rule publish_offline_correct) (simp_all add: sample_wf)

text \<open>C24: a publish that a connected session is to get at QoS 0 is handed to its connection as exactly one
  PUBLISH packet, however many of its subscriptions match, and one it does not match or may not
  receive is not sent at all.\<close>

theorem publish_online_correct:
  assumes "wf_broker (e_traits E) b" "session_at b si = Some s" "conn_index (e_traits E) s = ci"
    "ci < max_connections (e_traits E)" "\<not> cn_dead (conn_at b ci)" "cn_active (conn_at b ci)"
    "deliverable E topic q s = None \<or> deliverable E topic q s = Some at_most_once"
  shows "sent_on ci (route_publish E topic payload q b) = sent_on ci b @
    (if deliverable E topic q s = None then []
     else filter (\<lambda>p. p \<noteq> []) [publish_pkt (e_traits E) topic payload at_most_once False False 0])
     \<and> session_at (route_publish E topic payload q b) si = Some s"
  by (rule route_online [OF assms])

theorem publish_online_correct_witness:
  "deliverable sample_env [0x78] exactly_once sample_a = Some at_most_once \<and>
   sent_on 0 (route_publish sample_env [0x78] [2] exactly_once sample_broker) = sent_on 0 sample_broker @
     filter (\<lambda>p. p \<noteq> []) [publish_pkt sample_traits [0x78] [2] at_most_once False False 0]"
proof -
  have d: "deliverable sample_env [0x78] exactly_once sample_a = Some at_most_once"
    by (simp add: deliverable_def best_grant_def allow_all_def topic_eval min_def
        at_most_once_least Let_def less_eq_qos_def)
  show ?thesis
    using d publish_online_correct [of sample_env sample_broker 0 sample_a 0 "[0x78]" exactly_once "[2]"]
    by (simp add: sample_wf)
qed

end
