(* ===== verification/Broker_Queue.thy ===== *)
theory Broker_Queue
  imports Broker_Routing
begin

text \<open>
  Flushing the outbound queue of a session (\<open>pump_session\<close> of \<open>broker/broker.hpp\<close>) over a
  transport that accepts what it is handed: every queued message is sent, once, in queue
  order, under the identifier it is then tracked by, and what was in flight stays as it was.
\<close>

section \<open>Packets that always fit\<close>

text \<open>The wire format can express every stored message: a topic has a 16 bit length, a packet a 28 bit one.\<close>

definition codable :: "traits \<Rightarrow> bool" where
  "codable T \<longleftrightarrow> max_topic_len T \<le> max_utf8_len \<and> stored_body_max T \<le> max_remaining_length"

lemma out_buf_length [simp]: "length (out_buf T) = out_size T"
  by (simp add: out_buf_def)

lemma out_size_stored: "packet_overhead + stored_body_max T \<le> out_size T"
  by (simp add: out_size_def)

lemma packet_bytes_nonempty [simp]: "packet_bytes fb body \<noteq> []"
  by (simp add: packet_bytes_def)

lemma publish_pkt_stored:
  assumes "codable T" "length topic \<le> max_topic_len T" "length payload \<le> max_payload_len T"
  shows "publish_pkt T topic payload q retain dup pid =
    packet_bytes (make_first_byte PT_publish (publish_flags q retain dup)) (publish_body topic payload q pid)"
proof -
  have "length (publish_body topic payload q pid) \<le> stored_body_max T"
    using assms(2,3) by (simp add: publish_body_def utf8_bytes_def u16_bytes_def stored_body_max_def)
  then show ?thesis
    using assms(1,2) build_publish_bytes [of "out_size T" "out_buf T" topic payload q retain dup pid] out_size_stored [of T]
    by (simp add: publish_pkt_def codable_def Let_def)
qed

lemma id_pkt_bytes:
  "id_pkt T type pid = packet_bytes (make_first_byte type (if type = PT_pubrel then 2 else 0)) (u16_bytes pid)"
  using build_packet_id_only_bytes [of "out_size T" "out_buf T" type pid] out_size_stored [of T]
  by (simp add: id_pkt_def stored_body_max_def)

section \<open>One round\<close>

definition accepts :: "('ctx, 'tr) env \<Rightarrow> bool" where
  "accepts E \<longleftrightarrow> (\<forall>tr ci pkt. snd (e_send E tr ci pkt))"

text \<open>Entry \<open>m\<close> of the queue before and \<open>m'\<close> after its round, and what the round sends.\<close>

definition flown :: "out_msg \<Rightarrow> out_msg \<Rightarrow> bool" where
  "flown m m' \<longleftrightarrow> om_topic m' = om_topic m \<and> om_payload m' = om_payload m \<and> om_qos m' = om_qos m
     \<and> om_retain m' = om_retain m \<and> om_dup m' = om_dup m
     \<and> (if om_state m = queued then om_state m' = in_flight_state (om_qos m) \<and> om_packet_id m' \<noteq> 0
        else om_state m' = om_state m \<and> om_packet_id m' = om_packet_id m)"

definition emitted :: "traits \<Rightarrow> out_msg \<Rightarrow> out_msg \<Rightarrow> bytes list" where
  "emitted T m m' =
    (if om_state m = queued
     then [publish_pkt T (om_topic m) (om_payload m) (om_qos m) (om_retain m) (om_dup m) (om_packet_id m')]
     else if om_state m = awaiting_pubcomp \<and> om_resend_pubrel m then [id_pkt T PT_pubrel (om_packet_id m)]
     else [])"

definition alive :: "traits \<Rightarrow> nat \<Rightarrow> ('ctx, 'tr) broker \<Rightarrow> bool" where
  "alive T ci b \<longleftrightarrow> ci < max_connections T \<and> cn_active (conn_at b ci) \<and> \<not> cn_dead (conn_at b ci)"

lemma try_send_accepted:
  assumes "accepts E" "alive (e_traits E) ci b" "pkt \<noteq> []"
  obtains tr where "try_send_to E ci pkt b = (b\<lparr>b_tr := tr, b_trace := b_trace b @ [Sent ci pkt True]\<rparr>, True)"
proof -
  obtain tr where e: "e_send E (b_tr b) ci pkt = (tr, True)"
    using assms(1) by (metis accepts_def prod.collapse)
  show ?thesis
    by (rule that [of tr]) (use assms(2,3) in \<open>simp add: try_send_to_def transport_send_def alive_def e\<close>)
qed

lemma tr_upd_at [simp]:
  "session_at (b\<lparr>b_tr := tr, b_trace := t\<rparr>) = session_at b" "conn_at (b\<lparr>b_tr := tr, b_trace := t\<rparr>) = conn_at b"
  by (auto simp: session_at_def conn_at_def fun_eq_iff)

lemma conn_of_alive: "conn_index T s = ci \<Longrightarrow> alive T ci b \<Longrightarrow> conn_of_session T s b = Some (conn_at b ci)"
  by (simp add: conn_of_session_def alive_def Let_def)

text \<open>What a round leaves when it succeeds.\<close>

definition round_done :: "('ctx, 'tr) env \<Rightarrow> nat \<Rightarrow> nat \<Rightarrow> nat \<Rightarrow> 'ctx session \<Rightarrow> ('ctx, 'tr) broker \<Rightarrow> ('ctx, 'tr) broker \<Rightarrow> bool" where
  "round_done E ci si i s b b' \<longleftrightarrow> b_conns b' = b_conns b \<and> (\<exists>m' s'. session_at b' si = Some s' \<and> core s' = core s
     \<and> s_pending s' = (s_pending s)[i := m'] \<and> flown (s_pending s ! i) m'
     \<and> sent_on ci b' = sent_on ci b @ emitted (e_traits E) (s_pending s ! i) m')"

lemma round_pubrel:
  assumes acc: "accepts E" "alive (e_traits E) ci b" and s: "session_at b si = Some s" "conn_index (e_traits E) s = ci" "i < length (s_pending s)"
    and m: "om_state (s_pending s ! i) = awaiting_pubcomp" "om_resend_pubrel (s_pending s ! i)"
  shows "\<exists>b'. pump_step E si i b = (True, Suc i, b') \<and> round_done E ci si i s b b'"
proof -
  let ?pkt = "id_pkt (e_traits E) PT_pubrel (om_packet_id (s_pending s ! i))"
  obtain tr where t: "try_send_to E ci ?pkt b = (b\<lparr>b_tr := tr, b_trace := b_trace b @ [Sent ci ?pkt True]\<rparr>, True)"
    using try_send_accepted [OF acc, of ?pkt] by (auto simp: id_pkt_bytes)
  show ?thesis using acc(2) s m
    by (auto simp: pump_step_def conn_of_alive t Let_def alive_def round_done_def upd_pending_def upd_session_Some [of _ si s]
        session_at_put [of _ si s] flown_def emitted_def intro!: exI [of _ "(s_pending s ! i)\<lparr>om_resend_pubrel := False\<rparr>"])
qed

lemma round_queued:
  assumes acc: "accepts E" "alive (e_traits E) ci b" and T: "traits_ok (e_traits E)" "codable (e_traits E)"
    and s: "session_at b si = Some s" "conn_index (e_traits E) s = ci" "session_ok (e_traits E) s" "i < length (s_pending s)"
    and m: "om_state (s_pending s ! i) = queued"
  shows "\<exists>b'. pump_step E si i b = (True, Suc i, b') \<and> round_done E ci si i s b b'"
proof -
  let ?m = "s_pending s ! i"
  obtain pid where pid: "alloc_packet_id s = Some (pid, s\<lparr>s_last_packet_id := pid\<rparr>)" "pid \<noteq> 0"
    using alloc_id_Some [OF T(1) s(3)] by blast
  let ?s = "s\<lparr>s_last_packet_id := pid\<rparr>" let ?b = "put_session si ?s b"
  let ?pkt = "publish_pkt (e_traits E) (om_topic ?m) (om_payload ?m) (om_qos ?m) (om_retain ?m) (om_dup ?m) pid"
  have "length (om_topic ?m) \<le> max_topic_len (e_traits E)" "length (om_payload ?m) \<le> max_payload_len (e_traits E)"
    using msg_ok_at [OF s(3,4)] by (simp_all add: msg_ok_def)
  then have ne: "?pkt \<noteq> []" by (simp add: publish_pkt_stored [OF T(2)])
  have c: "alive (e_traits E) ci ?b" "conn_index (e_traits E) ?s = ci"
    using acc(2) s(2) by (simp_all add: alive_def conn_index_def connected_def)
  obtain tr where t: "try_send_to E ci ?pkt ?b = (?b\<lparr>b_tr := tr, b_trace := b_trace ?b @ [Sent ci ?pkt True]\<rparr>, True)"
    using try_send_accepted [OF acc(1) c(1) ne] by blast
  have at: "session_at ?b = (session_at b)(si := Some ?s)" using s(1) by (rule session_at_put)
  show ?thesis using acc(2) s m ne pid(2)
    by (auto simp: pump_step_def conn_of_alive t Let_def alive_def round_done_def upd_pending_def upd_session_Some [of _ si ?s]
        session_at_put [of _ si ?s] at c(2) pid(1) flown_def emitted_def
        intro!: exI [of _ "?m\<lparr>om_packet_id := pid, om_state := in_flight_state (om_qos ?m)\<rparr>"])
qed

lemma round_skip:
  assumes a: "alive (e_traits E) ci b"
    and s: "session_at b si = Some s" "conn_index (e_traits E) s = ci" "i < length (s_pending s)"
    and m: "om_state (s_pending s ! i) \<noteq> queued" "\<not> (om_state (s_pending s ! i) = awaiting_pubcomp \<and> om_resend_pubrel (s_pending s ! i))"
  shows "\<exists>b'. pump_step E si i b = (True, Suc i, b') \<and> round_done E ci si i s b b'"
  using assms by (auto simp: pump_step_def conn_of_alive alive_def round_done_def flown_def emitted_def Let_def
      intro!: exI [of _ "s_pending s ! i"])

lemma pump_round:
  assumes "accepts E" "alive (e_traits E) ci b" "traits_ok (e_traits E)" "codable (e_traits E)"
    and "session_at b si = Some s" "conn_index (e_traits E) s = ci" "session_ok (e_traits E) s" "i < length (s_pending s)"
  shows "\<exists>b'. pump_step E si i b = (True, Suc i, b') \<and> round_done E ci si i s b b'"
  using round_queued [OF assms] round_pubrel [OF assms(1,2,5,6,8)] round_skip [OF assms(2,5,6,8)] by blast

section \<open>The loop\<close>

definition pumped :: "('ctx, 'tr) env \<Rightarrow> nat \<Rightarrow> nat \<Rightarrow> nat \<Rightarrow> 'ctx session \<Rightarrow> ('ctx, 'tr) broker \<Rightarrow> ('ctx, 'tr) broker \<Rightarrow> bool" where
  "pumped E ci si i s b b' \<longleftrightarrow> (\<exists>s'. session_at b' si = Some s' \<and> core s' = core s
     \<and> take i (s_pending s') = take i (s_pending s)
     \<and> list_all2 flown (drop i (s_pending s)) (drop i (s_pending s'))
     \<and> sent_on ci b' = sent_on ci b @ concat (map2 (emitted (e_traits E)) (drop i (s_pending s)) (drop i (s_pending s'))))"

lemma pumped_step:
  assumes r: "round_done E ci si i s b b1" and s1: "session_at b1 si = Some s1" and i: "i < length (s_pending s)"
    and p: "pumped E ci si (Suc i) s1 b1 b'"
  shows "pumped E ci si i s b b'"
proof -
  obtain m where m: "core s1 = core s" "s_pending s1 = (s_pending s)[i := m]" "flown (s_pending s ! i) m"
    "sent_on ci b1 = sent_on ci b @ emitted (e_traits E) (s_pending s ! i) m"
    using r s1 by (auto simp: round_done_def)
  obtain s' where s': "session_at b' si = Some s'" "core s' = core s1" "take (Suc i) (s_pending s') = take (Suc i) (s_pending s1)"
    "list_all2 flown (drop (Suc i) (s_pending s1)) (drop (Suc i) (s_pending s'))"
    "sent_on ci b' = sent_on ci b1 @ concat (map2 (emitted (e_traits E)) (drop (Suc i) (s_pending s1)) (drop (Suc i) (s_pending s')))"
    using p by (auto simp: pumped_def)
  have "length (take (Suc i) (s_pending s')) = Suc i" unfolding s'(3) using m(2) i by simp
  then have l: "i < length (s_pending s')" by simp
  have "take (Suc i) (s_pending s') ! i = m" unfolding s'(3) using m(2) i by simp
  then have n: "s_pending s' ! i = m" by simp
  have d: "drop i (s_pending s) = s_pending s ! i # drop (Suc i) (s_pending s)" "drop i (s_pending s') = m # drop (Suc i) (s_pending s')"
    using i l n Cons_nth_drop_Suc [of i] by metis+
  have "take i (s_pending s') = take i (s_pending s)" using arg_cong [OF s'(3), of "take i"] m(2) by (simp add: min_def)
  then show ?thesis using s' m d by (auto simp: pumped_def)
qed

lemma alive_cong: "b_conns b' = b_conns b \<Longrightarrow> alive T ci b' = alive T ci b"
  using conn_at_cong [of b' b] by (simp add: alive_def)

lemma pump_loop_accepts:
  "accepts E \<Longrightarrow> alive (e_traits E) ci b \<Longrightarrow> traits_ok (e_traits E) \<Longrightarrow> codable (e_traits E) \<Longrightarrow>
   loop_inv (e_traits E) si i b \<Longrightarrow> session_at b si = Some s \<Longrightarrow> conn_index (e_traits E) s = ci \<Longrightarrow>
   pumped E ci si i s b (pump_loop E si i b)"
proof (induction E si i b arbitrary: s rule: pump_loop.induct)
  case (1 E si i b)
  note prems = 1(2-)
  show ?case
  proof (cases "i < length (s_pending s)")
    case False
    then show ?thesis using prems by (simp add: pump_loop.simps [of E si i b] pump_step_def pumped_def)
  next
    case True
    have ok: "session_ok (e_traits E) s" by (rule sessions_ok_at [OF loop_invD [OF prems(5)] prems(6)])
    obtain b1 where b1: "pump_step E si i b = (True, Suc i, b1)" "round_done E ci si i s b b1"
      using pump_round [OF prems(1-4,6,7) ok True] by blast
    then obtain s1 where s1: "session_at b1 si = Some s1" "core s1 = core s" by (auto simp: round_done_def)
    have a: "alive (e_traits E) ci b1" using b1(2) alive_cong [of b1 b] prems(2) by (simp add: round_done_def)
    have "loop_inv (e_traits E) si (Suc i) b1" using pump_step_ok [OF prems(3,5) b1(1)] by simp
    then have "pumped E ci si (Suc i) s1 b1 (pump_loop E si (Suc i) b1)"
      using 1(1) [OF b1(1) [symmetric] refl _ prems(1) a prems(3,4) _ s1(1)] conn_index_core [OF s1(2)] prems(7) by simp
    then show ?thesis using pumped_step [OF b1(2) s1(1) True] b1(1) by (simp add: pump_loop.simps [of E si i b])
  qed
qed

section \<open>Properties\<close>

text \<open>C9: over a live connection whose transport accepts every packet, \<open>pump_session\<close> sends each queued
  message once and in queue order, under a fresh non-zero identifier, repeats the PUBREL of entries that
  ask for it, and leaves no entry queued; entries already in flight keep their identifier and state.\<close>

theorem pump_session_flushes:
  assumes "accepts E" "alive (e_traits E) ci b" "wf_broker (e_traits E) b" "codable (e_traits E)"
    "session_at b si = Some s" "conn_index (e_traits E) s = ci"
  shows "\<exists>s'. session_at (pump_session E si b) si = Some s'
     \<and> list_all2 flown (s_pending s) (s_pending s')
     \<and> sent_on ci (pump_session E si b) =
         sent_on ci b @ concat (map2 (emitted (e_traits E)) (s_pending s) (s_pending s'))"
  using pump_loop_accepts [OF assms(1,2) wfD(8) [OF assms(3)] assms(4) _ assms(5,6), of 0] wfD(2) [OF assms(3)] assms(5)
  by (auto simp: pumped_def pump_session_def loop_inv_def sent_before_def)

theorem pump_session_flushes_witness:
  "\<exists>s'. session_at (pump_session sample_env 0 sample_broker) 0 = Some s'
     \<and> list_all2 flown (s_pending sample_a) (s_pending s')
     \<and> sent_on 0 (pump_session sample_env 0 sample_broker) =
         sent_on 0 sample_broker @ concat (map2 (emitted sample_traits) (s_pending sample_a) (s_pending s'))"
  using pump_session_flushes [of sample_env 0 sample_broker 0 sample_a]
  by (simp add: sample_wf accepts_def alive_def codable_def stored_body_max_def max_utf8_len_def max_remaining_length_def)

end
