(* ===== verification/Broker_Subs.thy ===== *)
theory Broker_Subs
  imports Broker_Queue
begin

text \<open>
  SUBSCRIBE and UNSUBSCRIBE as operations on an abstract table from filters to granted QoS.
  The concrete table is an array in the session, updated in place while the SUBACK is
  streamed into the output buffer; the theorems show that it refines the abstract one, that
  the SUBACK carries one return code per entry in order, and that a packet that is not a
  well-formed list of valid filters changes nothing but the fate of its connection.
\<close>

section \<open>The abstract table\<close>

type_synonym sub_map = "bytes \<rightharpoonup> qos"

definition sub_table :: "'ctx session \<Rightarrow> sub_map" where
  "sub_table s = map_of (map (\<lambda>sub. (sub_filter sub, sub_granted sub)) (s_subs s))"

definition grant_spec :: "traits \<Rightarrow> (bytes \<Rightarrow> bool) \<Rightarrow> bytes \<times> qos \<Rightarrow> sub_map \<times> bytes \<Rightarrow> sub_map \<times> bytes" where
  "grant_spec T may e st =
    (let (flt, q) = e; (m, codes) = st
     in if may flt \<and> length flt \<le> max_topic_len T \<and> (m flt \<noteq> None \<or> card (dom m) < max_subscriptions_per_session T)
        then (m(flt \<mapsto> q), codes @ [qos_code q])
        else (m, codes @ [suback_failure]))"

lemma dom_sub_table: "dom (sub_table s) = sub_filter ` set (s_subs s)"
  by (simp add: sub_table_def dom_map_of_conv_image_fst image_image)

lemma card_sub_table: "distinct (map sub_filter (s_subs s)) \<Longrightarrow> card (dom (sub_table s)) = length (s_subs s)"
  using distinct_card [of "map sub_filter (s_subs s)"] by (simp add: dom_sub_table)

lemma find_sub_table: "find_sub flt s = None \<longleftrightarrow> sub_table s flt = None"
  using dom_sub_table [of s] find_sub_None [of flt s] by (metis domIff)

lemma sub_table_append:
  "flt \<notin> sub_filter ` set (s_subs s) \<Longrightarrow> sub_filter sub = flt \<Longrightarrow>
   sub_table (s\<lparr>s_subs := s_subs s @ [sub]\<rparr>) = (sub_table s)(flt \<mapsto> sub_granted sub)"
  using map_of_SomeD [of "map (\<lambda>sub. (sub_filter sub, sub_granted sub)) (s_subs s)" flt]
  by (auto simp: sub_table_def map_add_def fun_eq_iff image_iff split: option.split)

lemma map_of_upd:
  assumes "distinct (map fst xs)" "i < length xs" "fst (xs ! i) = k"
  shows "map_of (xs[i := (k, v)]) = (map_of xs)(k \<mapsto> v)"
  using assms
proof (induction xs arbitrary: i)
  case (Cons x xs)
  have "map_of xs = (map_of xs)(fst x := None)" using Cons.prems(1) by (auto simp: fun_eq_iff map_of_eq_None_iff)
  then show ?case using Cons by (cases i) (fastforce simp: fun_upd_twist fun_eq_iff image_iff)+
qed simp

lemma sub_table_grant:
  assumes d: "distinct (map sub_filter (s_subs s))" and f: "find_sub flt s = Some i"
  shows "sub_table (grant i q s) = (sub_table s)(flt \<mapsto> q)"
proof -
  have i: "i < length (s_subs s)" "sub_filter (s_subs s ! i) = flt"
    using find_index_Some [OF f [unfolded find_sub_def]] by (simp_all add: span_eq_iff)
  then show ?thesis
    using map_of_upd [of "map (\<lambda>sub. (sub_filter sub, sub_granted sub)) (s_subs s)" i flt q] d
    by (simp add: sub_table_def grant_def map_update o_def)
qed

lemma sub_table_same:
  "map (\<lambda>sub. (sub_filter sub, sub_granted sub)) (s_subs s') = map (\<lambda>sub. (sub_filter sub, sub_granted sub)) (s_subs s) \<Longrightarrow>
   sub_table s' = sub_table s"
  by (simp add: sub_table_def)

lemma sub_table_mark [simp]: "sub_table (mark_retain_pending i s) = sub_table s"
  by (rule sub_table_same) (cases "i < length (s_subs s)";
    auto simp: mark_retain_pending_def map_update list_update_same_conv list_update_beyond)

lemma sub_table_clear [simp]: "sub_table (clear_retain_pending s) = sub_table s"
  by (rule sub_table_same) (simp add: clear_retain_pending_def)

lemma sub_table_core: "core s' = core s \<Longrightarrow> sub_table s' = sub_table s"
proof -
  have c: "sub_table (core t) = sub_table t" for t :: "'a session" by (simp add: core_def) (simp add: sub_table_def)
  assume "core s' = core s"
  then show ?thesis using c [of s'] c [of s] by simp
qed

section \<open>Refinement of SUBSCRIBE\<close>

lemma subscribe_one_refines:
  assumes ok: "session_ok T s" and one: "subscribe_one T flt q s = (s', code, sub)"
  shows "grant_spec T (\<lambda>_. True) (flt, q) (sub_table s, codes) = (sub_table s', codes @ [code])
     \<and> s_auth_ctx s' = s_auth_ctx s"
proof -
  have d: "distinct (map sub_filter (s_subs s))" "length (s_subs s) \<le> max_subscriptions_per_session T"
    using ok by (simp_all add: session_ok_def)
  show ?thesis
  proof (cases "find_sub flt s")
    case None
    then have "flt \<notin> sub_filter ` set (s_subs s)" by (simp add: find_sub_None)
    then show ?thesis
      using one d None sub_table_append [of flt s "\<lparr>sub_filter = flt, sub_granted = q, sub_retain_pending = False\<rparr>"]
        find_sub_table [of flt s] card_sub_table [OF d(1)] subscribe_one_eq [OF _ None d(2), of q]
      by (cases "length flt \<le> max_topic_len T") (auto simp: grant_spec_def subscribe_one_def split: if_splits)
  next
    case (Some i)
    then show ?thesis
      using one sub_table_grant [OF d(1) Some, of q] find_sub_table [of flt s]
      by (cases "length flt \<le> max_topic_len T") (auto simp: grant_spec_def subscribe_one_def grant_def)
  qed
qed

text \<open>The loop state (writer and broker) and the abstract one.\<close>

definition granting :: "('ctx, 'tr) env \<Rightarrow> nat \<Rightarrow> nat \<Rightarrow> 'ctx session \<Rightarrow> writer \<Rightarrow> ('ctx, 'tr) broker \<Rightarrow> writer \<times> ('ctx, 'tr) broker \<Rightarrow> sub_map \<times> bytes \<Rightarrow> bool" where
  "granting E ci si s0 w0 b0 st spec \<longleftrightarrow>
     serving (e_traits E) ci (snd st) \<and> b_conns (snd st) = b_conns b0 \<and> sent_on ci (snd st) = sent_on ci b0
     \<and> fst st = fold w_u8 (snd spec) w0
     \<and> (\<exists>s. session_at (snd st) si = Some s \<and> s_auth_ctx s = s_auth_ctx s0 \<and> sub_table s = fst spec)"

lemma grant_spec_denied: "\<not> may flt \<Longrightarrow> grant_spec T may (flt, q) (m, codes) = (m, codes @ [suback_failure])"
  by (simp add: grant_spec_def)

lemma grant_spec_may: "may flt \<Longrightarrow> grant_spec T may (flt, q) st = grant_spec T (\<lambda>_. True) (flt, q) st"
  by (simp add: grant_spec_def)

lemma granting_step:
  assumes g: "granting E ci si s0 w0 b0 (w, b) (m, codes)" and v: "topic_filter_valid flt"
  shows "granting E ci si s0 w0 b0 (subscribe_entry E si flt q (w, b))
    (grant_spec (e_traits E) (sec_subscribe (e_sec E) (s_auth_ctx s0)) (flt, q) (m, codes))"
proof -
  let ?T = "e_traits E" and ?may = "sec_subscribe (e_sec E) (s_auth_ctx s0)"
  obtain s where s: "session_at b si = Some s" "s_auth_ctx s = s_auth_ctx s0" "sub_table s = m"
    and sv: "serving ?T ci b" and w: "w = fold w_u8 codes w0" and bc: "b_conns b = b_conns b0" "sent_on ci b = sent_on ci b0"
    using g by (auto simp: granting_def)
  have sv': "serving ?T ci (snd (subscribe_entry E si flt q (w, b)))"
    using subscribe_entry_ok [OF sv _ v, of si q w] s(1) by simp
  show ?thesis
  proof (cases "?may flt")
    case False
    then show ?thesis using s sv w bc
      by (simp add: granting_def subscribe_entry_def notify_denied_def grant_spec_denied)
  next
    case True
    obtain s' code sub where one: "subscribe_one ?T flt q s = (s', code, sub)" by (metis prod_cases3)
    have ok: "session_ok ?T s" by (rule sessions_ok_at [OF wfD(2) [OF servingD(1) [OF sv]] s(1)])
    have r: "grant_spec ?T ?may (flt, q) (m, codes) = (sub_table s', codes @ [code])" "s_auth_ctx s' = s_auth_ctx s"
      using subscribe_one_refines [OF ok one, of codes] grant_spec_may [of ?may flt] True s(3) by simp_all
    show ?thesis using s sv' w bc True
      by (auto simp: granting_def subscribe_entry_def one r session_at_put [of _ _ s] mark_retain_pending_def
          sub_table_mark [unfolded mark_retain_pending_def] split: option.split)
  qed
qed

lemma granting_fold:
  "granting E ci si s0 w0 b0 st spec \<Longrightarrow> list_all (topic_filter_valid \<circ> fst) xs \<Longrightarrow>
   granting E ci si s0 w0 b0 (fold (\<lambda>(flt, q). subscribe_entry E si flt q) xs st)
     (fold (grant_spec (e_traits E) (sec_subscribe (e_sec E) (s_auth_ctx s0))) xs spec)"
proof (induction xs arbitrary: st spec)
  case (Cons x xs)
  then show ?case
    using granting_step [of E ci si s0 w0 b0 "fst st" "snd st" "fst spec" "snd spec" "fst x" "snd x"] by (simp add: split_beta)
qed simp

section \<open>The acknowledgement\<close>

lemma emits_fold_u8: "emits (fold w_u8 codes) codes"
proof (induction codes)
  case (Cons c codes)
  then show ?case using emits_seq [OF emits_u8 [of c] Cons] by (simp add: o_def)
qed (use emits_id in \<open>simp add: id_def\<close>)

definition suback_packet :: "u16 \<Rightarrow> bytes \<Rightarrow> bytes" where
  "suback_packet pid codes = packet_bytes (make_first_byte PT_suback 0) (u16_bytes pid @ codes)"

lemma suback_written:
  assumes fit: "2 + length codes \<le> max_packet_size T" "2 + length codes \<le> max_remaining_length"
    and w: "w = fold w_u8 codes (w_u16 pid (writer_init (out_buf T) packet_overhead (out_size T - packet_overhead)))"
  shows "w_ok w" "snd (frame_packet (w_mem w) (make_first_byte PT_suback 0) (w_len w)) = suback_packet pid codes"
proof -
  have o: "packet_overhead + (2 + length codes) \<le> out_size T" using fit(1) by (simp add: out_size_def)
  have "snd (if \<not> w_ok w then (w_mem w, []) else frame_packet (w_mem w) (make_first_byte PT_suback 0) (w_len w)) = suback_packet pid codes"
    using framed_body [OF emits_seq [OF emits_u16 [of pid] emits_fold_u8 [of codes]], of "out_size T" "out_buf T" w] o fit(2) w
    by (simp add: suback_packet_def u16_bytes_def)
  moreover have "suback_packet pid codes \<noteq> []" by (simp add: suback_packet_def)
  ultimately show "w_ok w" "snd (frame_packet (w_mem w) (make_first_byte PT_suback 0) (w_len w)) = suback_packet pid codes"
    by (auto split: if_splits)
qed

lemma length_codes: "length (snd (fold (grant_spec T may) xs (m, codes))) = length codes + length xs"
  by (induction xs arbitrary: m codes) (auto simp: grant_spec_def Let_def)

lemma length_topic_list: "length xs \<le> length (topic_list_bytes True xs)"
  by (induction xs) (auto simp: topic_list_bytes_def)

lemma tl_packet_id_enc: "tl_packet_id (tl_init (u16_bytes pid @ rest) wq) = pid"
  by (simp add: tl_init_def reader_init_def wire_simps)

text \<open>The well-formed bodies: an identifier and at least one entry, each with a valid filter.\<close>

definition filter_list :: "bool \<Rightarrow> bytes \<Rightarrow> u16 \<Rightarrow> (bytes \<times> qos) list \<Rightarrow> bool" where
  "filter_list wq body pid xs \<longleftrightarrow> pid \<noteq> 0 \<and> xs \<noteq> [] \<and> list_all (entry_ok wq) xs
     \<and> list_all (topic_filter_valid \<circ> fst) xs \<and> body = u16_bytes pid @ topic_list_bytes wq xs"

lemma filter_list_entries: "filter_list wq body pid xs \<Longrightarrow> tl_entries (tl_init body wq) = (xs, Err_ok)"
  unfolding filter_list_def topic_list_iff by blast

lemma check_filters_iff: "check_filters (tl_init body wq) = Err_ok \<longleftrightarrow> (\<exists>pid xs. filter_list wq body pid xs)"
proof
  assume "check_filters (tl_init body wq) = Err_ok"
  then show "\<exists>pid xs. filter_list wq body pid xs"
    using topic_list_iff [of body wq "fst (tl_entries (tl_init body wq))"]
    by (auto simp: check_filters_entries filter_list_def prod_eq_iff)
qed (auto simp: check_filters_entries filter_list_entries, simp add: filter_list_def)

lemma delivers_trace: "delivers b b' \<Longrightarrow> \<exists>ext. b_trace b' = b_trace b @ ext"
  by (auto simp: delivers_def)

lemma alive_serving: "alive T ci b \<Longrightarrow> wf_broker T b \<Longrightarrow> serving T ci b"
  by (simp add: alive_def serving_def)

lemma send_alive: "alive (e_traits E) ci b \<Longrightarrow> pkt \<noteq> [] \<Longrightarrow> sent_on ci (send_to E ci pkt b) = sent_on ci b @ [pkt]"
  by (auto simp: send_to_def transport_send_def alive_def mark_dead_def notify_conn_def Let_def split: prod.split)

lemma replay_table:
  assumes sv: "serving (e_traits E) ci b" and s: "session_at b si = Some s"
  shows "\<exists>s' ext. session_at (replay_retained E ci si (put_session si (s\<lparr>s_retain_cursor := 0\<rparr>) b)) si = Some s'
    \<and> sub_table s' = sub_table s
    \<and> b_trace (replay_retained E ci si (put_session si (s\<lparr>s_retain_cursor := 0\<rparr>) b)) = b_trace b @ ext"
proof -
  let ?s = "s\<lparr>s_retain_cursor := 0\<rparr>" let ?b = "put_session si ?s b"
  have "session_ok (e_traits E) ?s"
    by (rule session_ok_cursor) (rule sessions_ok_at [OF wfD(2) [OF servingD(1) [OF sv]] s])
  then have b: "serving (e_traits E) ci ?b" "session_at ?b si = Some ?s"
    using serving_put [OF sv s] session_at_put [OF s] by simp_all
  note wf = servingD(1) [OF b(1)]
  have d: "delivers ?b (replay_retained E ci si ?b)"
    using replay_retained_ok [OF wfD(8) [OF wf] wfD(2) [OF wf] _ wfD(4) [OF wf]] b(2) by blast
  obtain s' where s': "session_at (replay_retained E ci si ?b) si = Some s'" "core s' = core ?s"
    using delivers_session [OF d b(2)] by blast
  have "sub_table s' = sub_table s" by (rule sub_table_core) (use s'(2) in simp)
  then show ?thesis using s'(1) delivers_trace [OF d] by auto
qed

lemma subscribe_refines:
  assumes wf: "wf_broker (e_traits E) b" and a: "alive (e_traits E) ci b"
    and s: "session_of b (conn_at b ci) = Some si" "session_at b si = Some s"
    and body: "filter_list True body pid xs" "length body \<le> max_packet_size (e_traits E)" "length body \<le> max_remaining_length"
    and spec: "fold (grant_spec (e_traits E) (sec_subscribe (e_sec E) (s_auth_ctx s))) xs (sub_table s, []) = (m, codes)"
  shows "\<exists>s' more. session_at (handle_subscribe E ci body b) si = Some s' \<and> sub_table s' = m
     \<and> sent_on ci (handle_subscribe E ci body b) = sent_on ci b @ [suback_packet pid codes] @ more"
proof -
  let ?T = "e_traits E" let ?p = "tl_init body True"
  have sv: "serving ?T ci b" by (rule alive_serving [OF a wf])
  let ?b0 = "put_session si (clear_retain_pending s) b"
  let ?w0 = "w_u16 pid (writer_init (out_buf ?T) packet_overhead (out_size ?T - packet_overhead))"
  obtain p' w b1 where run: "tl_while (subscribe_entry E si) ?p (?w0, ?b0) = (p', w, b1)" by (metis prod_cases3)
  have ok: "session_ok ?T s" by (rule sessions_ok_at [OF wfD(2) [OF wf] s(2)])
  have "serving ?T ci ?b0" using serving_put [OF sv s(2) session_ok_clear [OF ok]] by (simp add: clear_retain_pending_def)
  then have g0: "granting E ci si s ?w0 b (?w0, ?b0) (sub_table s, [])"
    using s(2) by (simp add: granting_def session_at_put) (simp add: clear_retain_pending_def)
  have e: "tl_entries ?p = (xs, Err_ok)" by (rule filter_list_entries [OF body(1)])
  have "fold (\<lambda>(flt, q). subscribe_entry E si flt q) xs (?w0, ?b0) = (w, b1)"
    using tl_while_entries [of "subscribe_entry E si" ?p "(?w0, ?b0)"] run e by simp
  then have g: "granting E ci si s ?w0 b (w, b1) (m, codes)"
    using granting_fold [OF g0, of xs] body(1) spec by (simp add: filter_list_def)
  then obtain s1 where s1: "session_at b1 si = Some s1" "sub_table s1 = m" by (auto simp: granting_def)
  have "length codes = length xs" using length_codes [of ?T _ xs "sub_table s" "[]"] spec by (metis add_0 list.size(3) snd_conv)
  then have "2 + length codes \<le> length body"
    using body(1) length_topic_list [of xs] by (simp add: filter_list_def u16_bytes_def)
  then have w: "w_ok w" "snd (frame_packet (w_mem w) (make_first_byte PT_suback 0) (w_len w)) = suback_packet pid codes"
    using suback_written [of codes ?T w pid] body(2,3) g by (simp_all add: granting_def)
  define b2 where "b2 = send_to E ci (suback_packet pid codes) b1"
  let ?b3 = "put_session si (s1\<lparr>s_retain_cursor := 0\<rparr>) b2"
  have b1: "serving ?T ci b1" "alive ?T ci b1" "sent_on ci b1 = sent_on ci b"
    using g a alive_cong [of b1 b] by (auto simp: granting_def)
  have b2: "serving ?T ci b2" "session_at b2 si = Some s1" "sent_on ci b2 = sent_on ci b @ [suback_packet pid codes]"
    using b1 s1 send_alive [OF b1(2), of "suback_packet pid codes"] by (simp_all add: b2_def serving_send_to suback_packet_def)
  have "check_filters ?p = Err_ok" using body(1) by (auto simp: check_filters_iff)
  moreover have "tl_packet_id ?p = pid" using body(1) by (simp add: filter_list_def tl_packet_id_enc)
  ultimately have h: "handle_subscribe E ci body b = (if any_retain_pending s1 then replay_retained E ci si ?b3 else b2)"
    using s b2(2) w run by (simp add: handle_subscribe_def with_session_of_def with_session_def Let_def b2_def)
  show ?thesis using replay_table [OF b2(1,2)] b2 s1 h by (cases "any_retain_pending s1") auto
qed

section \<open>UNSUBSCRIBE\<close>

lemma map_of_remove:
  assumes "distinct (map fst xs)" "i < length xs"
  shows "map_of (take i xs @ drop (Suc i) xs) = (map_of xs)(fst (xs ! i) := None)"
  using assms
proof (induction xs arbitrary: i)
  case (Cons x xs)
  have n: "map_of xs (fst x) = None" using Cons.prems(1) by (simp add: map_of_eq_None_iff)
  show ?case
  proof (cases i)
    case 0
    then show ?thesis using n by (auto simp: fun_eq_iff)
  next
    case (Suc j)
    have "fst (xs ! j) \<in> fst ` set xs" using Cons.prems(2) Suc by (intro imageI nth_mem) simp
    then have "fst (xs ! j) \<noteq> fst x" using Cons.prems(1) by (metis distinct.simps(2) list.set_map list.simps(9))
    then show ?thesis using Cons.IH [of j] Cons.prems Suc by (auto simp: fun_eq_iff)
  qed
qed simp

lemma unsubscribe_table:
  assumes "distinct (map sub_filter (s_subs s))"
  shows "sub_table (unsubscribe_one flt s) = (sub_table s)(flt := None)"
proof (cases "find_sub flt s")
  case None
  then show ?thesis using find_sub_table [of flt s]
    by (simp add: unsubscribe_one_def find_sub_def fun_upd_idem)
next
  case (Some i)
  have i: "i < length (s_subs s)" "sub_filter (s_subs s ! i) = flt"
    using find_index_Some [OF Some [unfolded find_sub_def]] by (simp_all add: span_eq_iff)
  have f: "find_index (\<lambda>sub. span_eq (sub_filter sub) flt) (s_subs s) = Some i" using Some by (simp add: find_sub_def)
  show ?thesis
    using map_of_remove [of "map (\<lambda>sub. (sub_filter sub, sub_granted sub)) (s_subs s)" i] i assms
    by (simp add: unsubscribe_one_def f sub_table_def sv_remove_ordered_eq take_map drop_map o_def)
qed

definition drop_spec :: "bytes \<times> qos \<Rightarrow> sub_map \<Rightarrow> sub_map" where
  "drop_spec e m = m(fst e := None)"

lemma unsubscribe_fold:
  "serving T ci b \<Longrightarrow> session_at b si = Some s \<Longrightarrow>
   \<exists>s'. session_at (fold (\<lambda>(flt, q). upd_session si (unsubscribe_one flt)) xs b) si = Some s'
     \<and> sub_table s' = fold drop_spec xs (sub_table s)
     \<and> b_trace (fold (\<lambda>(flt, q). upd_session si (unsubscribe_one flt)) xs b) = b_trace b
     \<and> b_conns (fold (\<lambda>(flt, q). upd_session si (unsubscribe_one flt)) xs b) = b_conns b"
proof (induction xs arbitrary: b s)
  case (Cons x xs)
  let ?s = "unsubscribe_one (fst x) s" let ?b = "put_session si ?s b"
  have ok: "session_ok T s" by (rule sessions_ok_at [OF wfD(2) [OF servingD(1) [OF Cons.prems(1)]] Cons.prems(2)])
  have sv: "serving T ci ?b" using serving_put [OF Cons.prems session_ok_unsubscribe [OF ok]] by simp
  have t: "sub_table ?s = drop_spec x (sub_table s)"
    using ok unsubscribe_table [of s "fst x"] by (simp add: session_ok_def drop_spec_def)
  show ?case using Cons.IH [OF sv, of ?s] session_at_put [OF Cons.prems(2), of ?s] t
    by (simp add: split_beta upd_session_Some [OF Cons.prems(2)])
qed simp

lemma tl_while_packet_id: "tl_packet_id (fst (tl_while f p st)) = tl_packet_id p"
proof (induction f p st rule: tl_while.induct)
  case (1 f p st)
  obtain x p' where n: "tl_next p = (x, p')" by fastforce
  then have "tl_packet_id p' = tl_packet_id p" using tl_next_packet_id [of p] by simp
  then show ?case using 1 n by (auto simp: tl_while.simps [of f p st] split: option.splits)
qed

lemma unsubscribe_refines:
  assumes wf: "wf_broker (e_traits E) b" and a: "alive (e_traits E) ci b"
    and s: "session_of b (conn_at b ci) = Some si" "session_at b si = Some s" and body: "filter_list False body pid xs"
  shows "(\<exists>s'. session_at (handle_unsubscribe E ci body b) si = Some s' \<and> sub_table s' = fold drop_spec xs (sub_table s))
     \<and> sent_on ci (handle_unsubscribe E ci body b) = sent_on ci b @ [packet_bytes (make_first_byte PT_unsuback 0) (u16_bytes pid)]"
proof -
  let ?p = "tl_init body False" let ?f = "\<lambda>flt _ b. upd_session si (unsubscribe_one flt) b"
  have e: "tl_entries ?p = (xs, Err_ok)" by (rule filter_list_entries [OF body])
  have p: "tl_packet_id (fst (tl_while ?f ?p b)) = pid"
    using body tl_while_packet_id [of ?f ?p b] by (simp add: filter_list_def tl_packet_id_enc)
  define b1 where "b1 = snd (tl_while ?f ?p b)"
  have "b1 = fold (\<lambda>(flt, q). upd_session si (unsubscribe_one flt)) xs b"
    using tl_while_entries [of ?f ?p b] e by (simp add: b1_def)
  then obtain s' where b1: "session_at b1 si = Some s'" "sub_table s' = fold drop_spec xs (sub_table s)"
    "b_trace b1 = b_trace b" "b_conns b1 = b_conns b"
    using unsubscribe_fold [OF alive_serving [OF a wf] s(2), of xs] by auto
  have al: "alive (e_traits E) ci b1" using a alive_cong [OF b1(4)] by simp
  have "check_filters ?p = Err_ok" using body by (auto simp: check_filters_iff)
  then have h: "handle_unsubscribe E ci body b = send_to E ci (id_pkt (e_traits E) PT_unsuback pid) b1"
    using s p by (simp add: handle_unsubscribe_def with_session_of_def with_session_def split_beta b1_def)
  show ?thesis using b1 send_alive [OF al, of "id_pkt (e_traits E) PT_unsuback pid"] by (simp add: h id_pkt_bytes)
qed

section \<open>Rejection\<close>

lemma rejected_lists:
  assumes s: "session_of b (conn_at b ci) = Some si" "session_at b si = Some s"
  shows "(\<nexists>pid xs. filter_list True body pid xs) \<Longrightarrow> \<exists>e. handle_subscribe E ci body b = violation ci e b"
    "(\<nexists>pid xs. filter_list False body pid xs) \<Longrightarrow> \<exists>e. handle_unsubscribe E ci body b = violation ci e b"
  using s by (auto simp: handle_subscribe_def handle_unsubscribe_def with_session_of_def with_session_def Let_def
      check_filters_iff [symmetric])

section \<open>Properties\<close>

text \<open>C3: a SUBSCRIBE whose body is an identifier and a non-empty list of valid filters updates the session's
  table as if the entries were granted one by one on an abstract map - refused when the policy says so, the
  filter is too long or the table is full - and is answered by one SUBACK with the return code of every
  entry in order; the SUBACK always fits the output buffer.\<close>

theorem subscribe_correct:
  assumes "wf_broker (e_traits E) b" "alive (e_traits E) ci b"
    "session_of b (conn_at b ci) = Some si" "session_at b si = Some s"
    "filter_list True body pid xs" "length body \<le> max_packet_size (e_traits E)" "length body \<le> max_remaining_length"
    "fold (grant_spec (e_traits E) (sec_subscribe (e_sec E) (s_auth_ctx s))) xs (sub_table s, []) = (m, codes)"
  shows "\<exists>s' more. session_at (handle_subscribe E ci body b) si = Some s' \<and> sub_table s' = m
     \<and> sent_on ci (handle_subscribe E ci body b) = sent_on ci b @ [suback_packet pid codes] @ more"
  by (rule subscribe_refines [OF assms])

lemma sample_alive: "alive sample_traits 0 sample_broker"
  by (simp add: alive_def)

lemma sample_filters:
  "filter_list True [0, 1, 0, 1, 0x79, 1] 1 [([0x79], at_least_once)]" "filter_list False [0, 1, 0, 1, 0x78] 1 [([0x78], at_most_once)]"
  by (simp_all add: filter_list_def entry_ok_def topic_list_bytes_def utf8_bytes_def u16_bytes_def topic_eval)

theorem subscribe_correct_witness:
  "\<exists>s' more. session_at (handle_subscribe sample_env 0 [0, 1, 0, 1, 0x79, 1] sample_broker) 0 = Some s'
     \<and> sub_table s' = [[0x78] \<mapsto> at_most_once, [0x79] \<mapsto> at_least_once]
     \<and> sent_on 0 (handle_subscribe sample_env 0 [0, 1, 0, 1, 0x79, 1] sample_broker)
         = sent_on 0 sample_broker @ [suback_packet 1 [1]] @ more"
proof -
  have "fold (grant_spec sample_traits (sec_subscribe allow_all ())) [([0x79], at_least_once)] (sub_table sample_a, [])
      = ([[0x78] \<mapsto> at_most_once, [0x79] \<mapsto> at_least_once], [1])"
    by (simp add: grant_spec_def allow_all_def sub_table_def)
  then show ?thesis
    using subscribe_correct [of sample_env sample_broker 0 0 sample_a _ 1 "[([0x79], at_least_once)]", OF _ _ _ _ sample_filters(1)]
    by (simp add: sample_wf sample_alive max_remaining_length_def)
qed

text \<open>C29: an UNSUBSCRIBE with such a body removes exactly the listed filters from the table and is answered by
  one UNSUBACK with its identifier.\<close>

theorem unsubscribe_correct:
  assumes "wf_broker (e_traits E) b" "alive (e_traits E) ci b"
    "session_of b (conn_at b ci) = Some si" "session_at b si = Some s" "filter_list False body pid xs"
  shows "(\<exists>s'. session_at (handle_unsubscribe E ci body b) si = Some s' \<and> sub_table s' = fold drop_spec xs (sub_table s))
     \<and> sent_on ci (handle_unsubscribe E ci body b) = sent_on ci b @ [packet_bytes (make_first_byte PT_unsuback 0) (u16_bytes pid)]"
  by (rule unsubscribe_refines [OF assms])

theorem unsubscribe_correct_witness:
  "(\<exists>s'. session_at (handle_unsubscribe sample_env 0 [0, 1, 0, 1, 0x78] sample_broker) 0 = Some s' \<and> sub_table s' = Map.empty)
     \<and> sent_on 0 (handle_unsubscribe sample_env 0 [0, 1, 0, 1, 0x78] sample_broker)
         = sent_on 0 sample_broker @ [packet_bytes (make_first_byte PT_unsuback 0) (u16_bytes 1)]"
  using unsubscribe_correct [of sample_env sample_broker 0 0 sample_a _ 1 "[([0x78], at_most_once)]", OF _ _ _ _ sample_filters(2)]
  by (simp add: sample_wf sample_alive drop_spec_def sub_table_def)

text \<open>C30: a SUBSCRIBE body that is anything else - truncated, empty, with a zero identifier, a bad QoS or one
  invalid filter anywhere in the list - changes no session, no retained message and sends nothing; its
  connection is marked for closing.\<close>

theorem malformed_subscribe_no_effect:
  assumes "session_of b (conn_at b ci) = Some si" "session_at b si = Some s" "ci < length (b_conns b)"
    "\<nexists>pid xs. filter_list True body pid xs"
  shows "session_at (handle_subscribe E ci body b) = session_at b
     \<and> b_retained (handle_subscribe E ci body b) = b_retained b
     \<and> sent_on cj (handle_subscribe E ci body b) = sent_on cj b
     \<and> cn_dead (conn_at (handle_subscribe E ci body b) ci)"
  using rejected_lists(1) [OF assms(1,2,4), of E] dead_violation [OF assms(3)]
  by (auto simp: violation_def notify_violation_def) (simp_all add: mark_dead_def)

theorem malformed_subscribe_no_effect_witness:
  "session_at (handle_subscribe sample_env 0 [0] sample_broker) = session_at sample_broker
     \<and> cn_dead (conn_at (handle_subscribe sample_env 0 [0] sample_broker) 0)"
proof -
  have n: "\<nexists>pid xs. filter_list True [0] pid xs" by (simp add: filter_list_def u16_bytes_def)
  show ?thesis using malformed_subscribe_no_effect [OF _ _ _ n, of sample_broker 0 0 sample_a sample_env] by simp
qed

end
