(* ===== verification/Broker_Inbound.thy ===== *)
theory Broker_Inbound
  imports Broker_Subs
begin

text \<open>
  Guarantees of the inbound side (\<open>broker/broker.hpp\<close>): a connection gets a session only when
  its CONNECT passed the checks and the security policy accepted its credentials, and then
  under the identifier and with the context the policy was asked about; a QoS 2 PUBLISH leaves
  its identifier in the table until its PUBREL; a will is published when its connection is lost,
  and DISCONNECT discards it.
\<close>

section \<open>CONNECT\<close>

text \<open>What the policy was asked, and accepted.\<close>

definition authenticated :: "('ctx, 'tr) env \<Rightarrow> connect_packet \<Rightarrow> bytes \<Rightarrow> 'ctx \<Rightarrow> bool" where
  "authenticated E p cid ctx \<longleftrightarrow>
     cp_protocol_name_ok p \<and> cp_protocol_level p = protocol_level_311
     \<and> (if cp_client_id p = [] then cp_clean_session p \<and> (\<exists>c. cid = auto_id c)
        else cid = cp_client_id p \<and> \<not> uses_reserved_prefix cid)
     \<and> sec_authenticate (e_sec E) cid (if cp_has_username p then Some (cp_username p) else None)
         (if cp_has_password p then Some (cp_password p) else None) (sec_ctx (e_sec E)) = (accepted, ctx)"

lemma cn_session_violation [simp]: "cn_session (conn_at (violation ci e b) cj) = cn_session (conn_at b cj)"
  by (simp add: violation_def mark_dead_def conn_at_upd notify_violation_def)

lemma cn_session_refuse [simp]: "cn_session (conn_at (refuse E ci code cid b) cj) = cn_session (conn_at b cj)"
  using delivers_conn(1) [OF delivers_send_to [of "notify_refused ci cid code b" E ci "connack_pkt (e_traits E) False code"], of cj]
  by (auto simp: refuse_def mark_dead_def conn_at_upd notify_refused_def)

lemma generated:
  assumes "serving T ci b" shows "\<exists>c c'. generate_client_id b = (b\<lparr>b_auto_id_counter := c\<rparr>, auto_id c')"
proof -
  have "length (slots (b_sessions b)) < 65536"
    using wfD(3,8) [OF servingD(1) [OF assms]] by (simp add: pool_inv_def traits_ok_def)
  from generate_client_id_fresh [OF this] show ?thesis by metis
qed

lemma admit_authenticated:
  assumes s: "serving (e_traits E) ci b" and a: "connect_admit E ci p b = (b', r)"
  shows "case r of None \<Rightarrow> cn_session (conn_at b' ci) = cn_session (conn_at b ci)
     | Some (cid, ctx) \<Rightarrow> authenticated E p cid ctx"
proof -
  obtain c c' where g: "generate_client_id b = (b\<lparr>b_auto_id_counter := c\<rparr>, auto_id c')" using generated [OF s] by blast
  show ?thesis using a
    by (auto simp: connect_admit_def g authenticated_def Let_def split: if_splits prod.splits)
qed

lemma attach_session:
  assumes f: "fresh_conn (e_traits E) ci b" and s: "session_at b si = Some s"
  shows "\<exists>s'. session_of (connect_attach E ci p ctx present si b) (conn_at (connect_attach E ci p ctx present si b) ci) = Some si
     \<and> session_at (connect_attach E ci p ctx present si b) si = Some s'
     \<and> s_client_id s' = s_client_id s \<and> s_auth_ctx s' = ctx"
proof -
  let ?s = "arm_session (e_traits E) ci p ctx s"
  let ?g = "\<lambda>c. refresh_deadline (e_traits E) (b_now_ms b) (c\<lparr>cn_session := of_nat si, cn_keepalive_s := cp_keepalive_s p\<rparr>)"
  let ?b1 = "upd_conn ci ?g (put_session si ?s b)"
  have wf: "wf_broker (e_traits E) b" "ci < length (b_conns b)" using f wfD(1) [of "e_traits E" b] by (auto simp: fresh_conn_def serving_def)
  have at: "session_at ?b1 si = Some ?s" using s by (simp add: session_at_put)
  have c: "cn_session (conn_at ?b1 ci) = of_nat si" using wf(2) by (simp add: conn_at_upd)
  have d: "delivers ?b1 (connect_attach E ci p ctx present si b)"
    by (auto simp: connect_attach_def upd_session_Some [OF s] Let_def with_session_Some [OF at] notify_session_def
        intro: delivers_trans [OF delivers_notify delivers_send_to] delivers_trans [OF delivers_trans [OF delivers_notify delivers_send_to] delivers_resume_session])
  obtain s' where s': "session_at (connect_attach E ci p ctx present si b) si = Some s'" "core s' = core ?s"
    using delivers_session [OF d at] by blast
  have "s_auth_ctx ?s = ctx" by (simp add: arm_session_def Let_def)
  moreover have "(of_nat si :: u16) \<noteq> no_session" "unat (of_nat si :: u16) = si"
    using session_bound [OF wf(1) s] of_nat_16_neq_max [of si] by (simp_all add: no_session_def unat_of_nat_16)
  ultimately show ?thesis
    using s' core_sel(1,12) [OF s'(2)] delivers_conn(1) [OF d, of ci] c by (simp add: session_of_def)
qed

lemma connect_authenticated_session:
  assumes s: "serving (e_traits E) ci b" and d: "\<not> cn_dead (conn_at b ci)" "cn_session (conn_at b ci) = no_session"
    and out: "b' = handle_connect E ci body b" "cn_session (conn_at b' ci) \<noteq> no_session"
  shows "\<exists>p cid ctx si s'. parse_connect body = Inr p \<and> authenticated E p cid ctx
     \<and> session_of b' (conn_at b' ci) = Some si \<and> session_at b' si = Some s'
     \<and> s_client_id s' = cid \<and> s_auth_ctx s' = ctx"
proof -
  obtain p where p: "parse_connect body = Inr p"
    using out d by (cases "parse_connect body") (auto simp: handle_connect_def)
  obtain b1 r where a: "connect_admit E ci p b = (b1, r)" by fastforce
  obtain cid ctx where r: "r = Some (cid, ctx)"
    using out d p a admit_authenticated [OF s a] by (cases r) (auto simp: handle_connect_def)
  have au: "authenticated E p cid ctx" using admit_authenticated [OF s a] r by simp
  obtain c where c: "b1 = b\<lparr>b_auto_id_counter := c\<rparr>" "cid \<noteq> []" "length cid \<le> max_client_id_len (e_traits E)"
    using admit [OF s a] r by auto
  have f: "fresh_conn (e_traits E) ci b1" using serving_counter [OF s] d by (simp add: fresh_conn_def c(1))
  obtain b2 ex where t: "connect_takeover E cid b1 = (b2, ex)" by fastforce
  obtain b3 present r3 where cs: "connect_session E cid (cp_clean_session p) ex b2 = (b3, present, r3)" by (metis prod_cases3)
  note f2 = takeover [OF f t]
  note f3 = connect_session_ok [OF conjunct1 [OF f2] conjunct2 [OF f2] c(2,3) cs]
  have h: "b' = (case r3 of None \<Rightarrow> refuse E ci server_unavailable cid b3 | Some si \<Rightarrow> connect_attach E ci p ctx present si b3)"
    using out(1) p a r t cs d(2) by (simp add: handle_connect_def)
  obtain si where si: "r3 = Some si" using h out(2) f3 by (cases r3) (auto simp: fresh_conn_def)
  then obtain s3 where s3: "session_at b3 si = Some s3" "s_client_id s3 = cid" using f3 by blast
  show ?thesis using attach_session [OF conjunct1 [OF f3] s3(1), of p ctx present] h si p au s3(2) by auto
qed

section \<open>QoS 2\<close>

text \<open>A QoS 2 PUBLISH that the handler does not reject.\<close>

definition qos2_publish :: "traits \<Rightarrow> byte \<Rightarrow> bytes \<Rightarrow> u16 \<Rightarrow> bool" where
  "qos2_publish T fb body pid \<longleftrightarrow>
    (case parse_publish fb body of
       Inl _ \<Rightarrow> False
     | Inr p \<Rightarrow> pp_qos p = exactly_once \<and> pp_packet_id p = pid \<and> topic_name_valid (pp_topic p)
                \<and> length (pp_topic p) \<le> max_topic_len T)"

definition session_on :: "nat \<Rightarrow> nat \<Rightarrow> 'ctx session \<Rightarrow> ('ctx, 'tr) broker \<Rightarrow> bool" where
  "session_on ci si s b \<longleftrightarrow> session_of b (conn_at b ci) = Some si \<and> session_at b si = Some s"

lemma with_session_on: "session_on ci si s b \<Longrightarrow> with_session_of ci b k = k si s"
  by (simp add: session_on_def with_session_of_def with_session_def)

lemma session_on_ok: "wf_broker T b \<Longrightarrow> session_on ci si s b \<Longrightarrow> session_ok T s"
  by (rule sessions_ok_at [OF wfD(2), of T b si]) (simp_all add: session_on_def)

lemma session_on_notify [simp]: "session_on ci si s (notify e b) = session_on ci si s b"
  by (simp add: session_on_def session_of_def)

lemma session_on_put: "session_on ci si s b \<Longrightarrow> session_on ci si s' (put_session si s' b)"
  by (auto simp: session_on_def session_of_def session_at_put split: if_splits)

lemma session_on_publishes:
  assumes "session_on ci si s b" "publishes b b'"
  shows "\<exists>s'. session_on ci si s' b' \<and> core s' = core s"
proof -
  have s: "session_at b si = Some s" "cn_session (conn_at b ci) \<noteq> no_session" "unat (cn_session (conn_at b ci)) = si"
    using assms(1) by (auto simp: session_on_def session_of_def split: if_splits)
  obtain s' where "session_at b' si = Some s'" "core s' = core s" using publishes_session [OF assms(2) s(1)] by blast
  then show ?thesis using s publishes_conn(1) [OF assms(2), of ci] by (auto simp: session_on_def session_of_def)
qed

lemma publishes_accept: "publishes b (accept_publish E s p b)"
  by (auto simp: accept_publish_def Let_def notify_denied_def
      intro: publishes_trans [OF publishes_apply_retain] publishes_delivers delivers_route_publish)

lemma redelivered:
  assumes s: "session_on ci si s b" "has_inbound_qos2 pid s" and q: "qos2_publish (e_traits E) fb body pid"
  shows "handle_publish E ci fb body b = send_to E ci (id_pkt (e_traits E) PT_pubrec pid) b"
  using q s(2) by (auto simp: handle_publish_def with_session_on [OF s(1)] qos2_publish_def note_inbound_qos2_def Let_def
      split: sum.splits)

lemma publish_notes:
  assumes T: "traits_ok (e_traits E)" and s: "session_on ci si s b" "session_ok (e_traits E) s"
    and q: "qos2_publish (e_traits E) fb body pid"
  shows "\<exists>s'. session_on ci si s' (handle_publish E ci fb body b) \<and> has_inbound_qos2 pid s'"
proof -
  obtain p where p: "parse_publish fb body = Inr p" "pp_qos p = exactly_once" "pp_packet_id p = pid" "topic_name_valid (pp_topic p)"
    "length (pp_topic p) \<le> max_topic_len (e_traits E)" using q by (auto simp: qos2_publish_def split: sum.splits)
  obtain b1 dl where n: "note_inbound_qos2 E ci si pid s b = (b1, dl)" by fastforce
  have "\<exists>s1. session_on ci si s1 b1 \<and> has_inbound_qos2 pid s1"
  proof (cases "has_inbound_qos2 pid s")
    case True
    then show ?thesis using n s(1) by (auto simp: note_inbound_qos2_def)
  next
    case False
    note t = note_inbound_qos2_session [OF T s(2) False refl]
    have "session_on ci si s (if full then notify_conn E inbound_qos2_evicted ci b else b)" for full
      using s(1) by (simp add: notify_conn_def)
    from session_on_put [OF this] show ?thesis using n False
      by (fastforce simp: note_inbound_qos2_def Let_def t(1) has_inbound_qos2_def)
  qed
  then obtain s1 where s1: "session_on ci si s1 b1" "has_inbound_qos2 pid s1" by blast
  let ?b2 = "if dl then accept_publish E s p b1 else b1"
  have "publishes b1 (send_to E ci (id_pkt (e_traits E) PT_pubrec pid) ?b2)"
    by (rule publishes_trans [OF _ publishes_delivers [OF delivers_send_to]]) (simp add: publishes_accept)
  then obtain s2 where s2: "session_on ci si s2 (send_to E ci (id_pkt (e_traits E) PT_pubrec pid) ?b2)" "core s2 = core s1"
    using session_on_publishes [OF s1(1)] by blast
  moreover have "handle_publish E ci fb body b = send_to E ci (id_pkt (e_traits E) PT_pubrec pid) ?b2"
    using p n by (simp add: handle_publish_def with_session_on [OF s(1)] Let_def)
  ultimately show ?thesis using s1(2) core_sel(3) [OF s2(2)] by (auto simp: has_inbound_qos2_def)
qed

lemma sv_remove_set:
  assumes "distinct xs" "i < length xs" shows "set (sv_remove_ordered i xs) = set xs - {xs ! i}"
proof -
  have xs: "xs = take i xs @ xs ! i # drop (Suc i) xs" using assms(2) by (rule id_take_nth_drop)
  have "distinct (take i xs @ xs ! i # drop (Suc i) xs)" using assms(1) xs by simp
  moreover have "set xs = insert (xs ! i) (set (take i xs) \<union> set (drop (Suc i) xs))" using arg_cong [OF xs, of set] by simp
  ultimately show ?thesis by (auto simp: sv_remove_ordered_eq)
qed

lemma remove_inbound_set:
  "distinct (s_inbound_qos2 s) \<Longrightarrow> set (s_inbound_qos2 (remove_inbound_qos2 pid s)) = set (s_inbound_qos2 s) - {pid}"
  using find_index_None [of "\<lambda>v. v = pid" "s_inbound_qos2 s"]
  by (cases "find_index (\<lambda>v. v = pid) (s_inbound_qos2 s)")
    (auto simp: remove_inbound_qos2_def sv_remove_set dest: find_index_Some)

lemma released:
  assumes s: "session_on ci si s b" "distinct (s_inbound_qos2 s)" and pid: "pid \<noteq> 0"
  shows "\<exists>s'. session_on ci si s' (handle_pubrel E ci (u16_bytes pid) b) \<and> \<not> has_inbound_qos2 pid s'
     \<and> (\<forall>q. q \<noteq> pid \<longrightarrow> has_inbound_qos2 q s' = has_inbound_qos2 q s)"
proof -
  let ?s = "remove_inbound_qos2 pid s"
  have p: "parse_packet_id_only (u16_bytes pid) = Inr pid" using pid by (simp add: parse_packet_id_only_iff)
  have "set (s_inbound_qos2 ?s) = set (s_inbound_qos2 s) - {pid}" by (rule remove_inbound_set [OF s(2)])
  then have h: "has_inbound_qos2 q ?s \<longleftrightarrow> q \<noteq> pid \<and> has_inbound_qos2 q s" for q
    by (auto simp: has_inbound_qos2_def list_ex_iff)
  have "\<exists>s'. session_on ci si s' (handle_pubrel E ci (u16_bytes pid) b) \<and> core s' = core ?s"
    using session_on_publishes [OF session_on_put [OF s(1)] publishes_delivers [OF delivers_send_to]]
    by (simp add: handle_pubrel_def with_packet_id_def p with_session_on [OF s(1)])
  then show ?thesis using h core_sel(3) by (metis has_inbound_qos2_def)
qed

section \<open>Wills\<close>

lemma detached_other:
  assumes "session_at b si = Some s" "sj \<noteq> si"
  shows "session_at (detached ci si s b) sj = session_at b sj"
  using assms by (simp add: detached_def put_session_other)

lemma detached_rest [simp]:
  "b_retained (detached ci si s b) = b_retained b" "b_trace (detached ci si s b) = b_trace b"
  by (simp_all add: detached_def)

lemma dropped_other:
  "sj \<noteq> si \<Longrightarrow> session_at (drop_clean si s b) sj = session_at b sj"
  by (simp add: drop_clean_def session_at_release)

lemma dropped_rest [simp]:
  "b_retained (closed E ci n (drop_clean si s b)) = b_retained b"
  "b_trace (closed E ci n (drop_clean si s b)) = b_trace b @ (if n then [Closed ci] else [])"
  "conn_at (closed E ci n (drop_clean si s b)) = conn_at b"
  by (simp_all add: closed_def drop_clean_def release_session_def transport_close_def conn_at_def fun_eq_iff)

lemma retain_sent: "sent_on cj (fst (apply_retain E topic payload q b)) = sent_on cj b"
  by (auto simp: apply_retain_def Let_def notify_topic_def notify_def split: prod.split)

lemma detached_conn: "cj \<noteq> ci \<Longrightarrow> conn_at (detached ci si s b) cj = conn_at b cj"
  by (simp add: detached_def conn_at_upd)

text \<open>Without a will, a teardown reaches nobody else.\<close>

lemma teardown_silent:
  assumes s: "session_on ci si s b" "\<not> s_has_will s"
  shows "b_retained (teardown E ci b) = b_retained b
     \<and> (\<exists>e. b_trace (teardown E ci b) = b_trace b @ Noted e # (if cn_notify_transport (conn_at b ci) then [Closed ci] else []))
     \<and> (\<forall>cj. cj \<noteq> ci \<longrightarrow> conn_at (teardown E ci b) cj = conn_at b cj)
     \<and> (\<forall>sj. sj \<noteq> si \<longrightarrow> session_at (teardown E ci b) sj = session_at b sj)"
proof -
  have so: "session_of b (conn_at b ci) = Some si" "session_at b si = Some s" using s(1) by (simp_all add: session_on_def)
  let ?n = "notify_conn E connection_closed ci b"
  obtain b1 s1 where t: "b1 = will_sent E ci si s ?n"
    "teardown E ci b = closed E ci (cn_notify_transport (conn_at b ci)) (drop_clean si s1 b1)"
    using teardown_split [OF so] by metis
  have "b1 = detached ci si s ?n" using t(1) s(2) by (simp add: will_sent_def)
  moreover obtain e where "?n = notify e b" by (simp add: notify_conn_def)
  ultimately show ?thesis using detached_other [of "notify e b" si s] detached_conn [of _ ci si s "notify e b"] so(2)
    by (simp add: t(2) dropped_other) (simp add: notify_def)
qed

text \<open>A will the policy lets through is routed like any publish, once the session is detached.\<close>

lemma teardown_will:
  assumes wf: "wf_broker (e_traits E) b" and ci: "ci < max_connections (e_traits E)"
    and s: "session_on ci si s b" "s_has_will s" "sec_publish (e_sec E) (s_auth_ctx s) (s_will_topic s)"
  obtains r n s1 where "teardown E ci b =
      closed E ci n (drop_clean si s1 (route_publish E (s_will_topic s) (s_will_payload s) (s_will_qos s) r))"
    "wf_broker (e_traits E) r" "\<And>sj. sj \<noteq> si \<Longrightarrow> session_at r sj = session_at b sj"
    "\<And>cj. cj \<noteq> ci \<Longrightarrow> conn_at r cj = conn_at b cj" "\<And>cj. sent_on cj r = sent_on cj b"
    "b_retained r = (if s_will_retain s then b_retained (fst (apply_retain E (s_will_topic s) (s_will_payload s) (s_will_qos s) b))
       else b_retained b)"
proof -
  have so: "session_of b (conn_at b ci) = Some si" "session_at b si = Some s" using s(1) by (simp_all add: session_on_def)
  obtain e where n: "notify_conn E connection_closed ci b = notify e b" by (simp add: notify_conn_def)
  let ?d = "detached ci si s (notify e b)"
  let ?r = "if s_will_retain s then fst (apply_retain E (s_will_topic s) (s_will_payload s) (s_will_qos s) ?d) else ?d"
  obtain b1 s1 where b1: "b1 = will_sent E ci si s (notify e b)"
    "teardown E ci b = closed E ci (cn_notify_transport (conn_at b ci)) (drop_clean si s1 b1)"
    using teardown_split [OF so] n by metis
  have w: "b1 = route_publish E (s_will_topic s) (s_will_payload s) (s_will_qos s) ?r"
    using b1(1) s(2,3) by (simp add: will_sent_def publish_will_def detach_session_def Let_def)
  have d: "wf_broker (e_traits E) ?d" using wf_detached [of _ "notify e b"] wf ci so by simp
  show ?thesis
  proof (rule that [OF b1(2) [unfolded w]])
    show "wf_broker (e_traits E) ?r" using d by simp
    show "session_at ?r sj = session_at b sj" if "sj \<noteq> si" for sj using detached_other [of "notify e b" si s sj ci] that so(2) by simp
    show "conn_at ?r cj = conn_at b cj" if "cj \<noteq> ci" for cj using detached_conn [OF that, of si s "notify e b"] by simp
    show "sent_on cj ?r = sent_on cj b" for cj by (simp add: retain_sent)
    show "b_retained ?r = (if s_will_retain s then b_retained (fst (apply_retain E (s_will_topic s) (s_will_payload s) (s_will_qos s) b))
       else b_retained b)" by (simp add: apply_retain_store)
  qed
qed

lemma will_topic_fits:
  "wf_broker T b \<Longrightarrow> session_on ci si s b \<Longrightarrow> s_has_will s \<Longrightarrow> length (s_will_topic s) \<le> max_topic_len T"
  by (drule (1) session_on_ok) (simp add: session_ok_def)

text \<open>The connection of another session is another connection.\<close>

lemma conn_elsewhere:
  assumes wf: "wf_broker T b" and s: "session_on ci si s b" and t: "session_at b sj = Some t" "conn_index T t < max_connections T" "sj \<noteq> si"
  shows "conn_index T t \<noteq> ci"
proof
  assume c: "conn_index T t = ci"
  have "connected t" "unat (s_conn t) = ci" using c t(2) by (auto simp: conn_index_def Let_def split: if_splits)
  then have "cn_session (conn_at b ci) = of_nat sj" using linkedD [OF wfD(7) [OF wf] t(1)] by simp
  moreover have "unat (cn_session (conn_at b ci)) = si" using s by (auto simp: session_on_def session_of_def split: if_splits)
  ultimately show False using t(3) unat_of_nat_16 session_bound [OF wf t(1)] by simp
qed

text \<open>What the will does to another session: what a publish does, at one turn.\<close>

lemma will_reaches:
  assumes wf: "wf_broker (e_traits E) b" and ci: "ci < max_connections (e_traits E)"
    and s: "session_on ci si s b" "s_has_will s" "sec_publish (e_sec E) (s_auth_ctx s) (s_will_topic s)"
    and t: "sj \<noteq> si" "session_at b sj = Some t"
  shows "\<not> connected t \<Longrightarrow> \<not> s_clean_session t
      \<Longrightarrow> session_at (teardown E ci b) sj = Some (kept_for E (s_will_topic s) (s_will_payload s) (s_will_qos s) t)"
    "conn_index (e_traits E) t = cj \<Longrightarrow> cj < max_connections (e_traits E)
      \<Longrightarrow> \<exists>b1. session_at b1 sj = Some t \<and> conn_at b1 cj = conn_at b cj \<and> sent_on cj b1 = sent_on cj b
        \<and> session_at (teardown E ci b) sj = session_at (route_one E (s_will_topic s) (s_will_payload s) (s_will_qos s) sj b1) sj
        \<and> sent_on cj (teardown E ci b) = sent_on cj (route_one E (s_will_topic s) (s_will_payload s) (s_will_qos s) sj b1)"
    "conn_index (e_traits E) t = cj \<Longrightarrow> cj < max_connections (e_traits E) \<Longrightarrow> cn_active (conn_at b cj) \<Longrightarrow> \<not> cn_dead (conn_at b cj)
      \<Longrightarrow> deliverable E (s_will_topic s) (s_will_qos s) t = None \<or> deliverable E (s_will_topic s) (s_will_qos s) t = Some at_most_once
      \<Longrightarrow> sent_on cj (teardown E ci b) = sent_on cj b @ (if deliverable E (s_will_topic s) (s_will_qos s) t = None then []
          else filter (\<lambda>p. p \<noteq> []) [publish_pkt (e_traits E) (s_will_topic s) (s_will_payload s) at_most_once False False 0])"
    "b_retained (teardown E ci b) = (if s_will_retain s
      then b_retained (fst (apply_retain E (s_will_topic s) (s_will_payload s) (s_will_qos s) b)) else b_retained b)"
proof -
  obtain r n s1 where r: "teardown E ci b =
      closed E ci n (drop_clean si s1 (route_publish E (s_will_topic s) (s_will_payload s) (s_will_qos s) r))"
    "wf_broker (e_traits E) r" "\<And>sj. sj \<noteq> si \<Longrightarrow> session_at r sj = session_at b sj"
    "\<And>cj. cj \<noteq> ci \<Longrightarrow> conn_at r cj = conn_at b cj" "\<And>cj. sent_on cj r = sent_on cj b"
    "b_retained r = (if s_will_retain s then b_retained (fst (apply_retain E (s_will_topic s) (s_will_payload s) (s_will_qos s) b))
       else b_retained b)"
    using teardown_will [OF wf ci s] by metis
  have rt: "session_at r sj = Some t" using r(3) [OF t(1)] t(2) by simp
  show "session_at (teardown E ci b) sj = Some (kept_for E (s_will_topic s) (s_will_payload s) (s_will_qos s) t)"
    if "\<not> connected t" "\<not> s_clean_session t"
    using route_offline [OF r(2) rt that will_topic_fits [OF wf s(1,2)]] t(1) by (simp add: r(1) dropped_other)
  show "b_retained (teardown E ci b) = (if s_will_retain s
      then b_retained (fst (apply_retain E (s_will_topic s) (s_will_payload s) (s_will_qos s) b)) else b_retained b)"
    using delivers_route_publish [of r E "s_will_topic s" "s_will_payload s" "s_will_qos s"] r(6) by (simp add: r(1) delivers_def)
  assume c: "conn_index (e_traits E) t = cj" "cj < max_connections (e_traits E)"
  have cj: "cj \<noteq> ci" using conn_elsewhere [OF wf s(1) t(2) _ t(1)] c by simp
  obtain b1 where b1: "session_at b1 sj = Some t"
    "session_at (route_publish E (s_will_topic s) (s_will_payload s) (s_will_qos s) r) sj
       = session_at (route_one E (s_will_topic s) (s_will_payload s) (s_will_qos s) sj b1) sj"
    "conn_at b1 cj = conn_at r cj" "sent_on cj b1 = sent_on cj r"
    "sent_on cj (route_publish E (s_will_topic s) (s_will_payload s) (s_will_qos s) r)
       = sent_on cj (route_one E (s_will_topic s) (s_will_payload s) (s_will_qos s) sj b1)"
    using route_turn [OF r(2) rt] wf_owns [OF r(2) rt c] by metis
  show "sent_on cj (teardown E ci b) = sent_on cj b @ (if deliverable E (s_will_topic s) (s_will_qos s) t = None then []
          else filter (\<lambda>p. p \<noteq> []) [publish_pkt (e_traits E) (s_will_topic s) (s_will_payload s) at_most_once False False 0])"
    if "cn_active (conn_at b cj)" "\<not> cn_dead (conn_at b cj)"
      "deliverable E (s_will_topic s) (s_will_qos s) t = None \<or> deliverable E (s_will_topic s) (s_will_qos s) t = Some at_most_once"
    using route_online [OF r(2) rt c, of "s_will_topic s" "s_will_qos s" "s_will_payload s"] that r(4) [OF cj] r(5) by (auto simp: r(1))
  show "\<exists>b1. session_at b1 sj = Some t \<and> conn_at b1 cj = conn_at b cj \<and> sent_on cj b1 = sent_on cj b
        \<and> session_at (teardown E ci b) sj = session_at (route_one E (s_will_topic s) (s_will_payload s) (s_will_qos s) sj b1) sj
        \<and> sent_on cj (teardown E ci b) = sent_on cj (route_one E (s_will_topic s) (s_will_payload s) (s_will_qos s) sj b1)"
    using b1 t(1) r(4) [OF cj] r(5) by (intro exI [of _ b1]) (simp add: r(1) dropped_other)
qed

lemma disconnect_session:
  assumes "session_on ci si s b"
  shows "session_on ci si (s\<lparr>s_has_will := False\<rparr>) (handle_disconnect ci [] b)
     \<and> b_retained (handle_disconnect ci [] b) = b_retained b \<and> b_trace (handle_disconnect ci [] b) = b_trace b
     \<and> cn_notify_transport (conn_at (handle_disconnect ci [] b) ci) = cn_notify_transport (conn_at b ci)
     \<and> (\<forall>cj. cj \<noteq> ci \<longrightarrow> conn_at (handle_disconnect ci [] b) cj = conn_at b cj)
     \<and> (\<forall>sj. sj \<noteq> si \<longrightarrow> session_at (handle_disconnect ci [] b) sj = session_at b sj)"
proof -
  have "session_on ci si (s\<lparr>s_has_will := False\<rparr>) (put_session si (s\<lparr>s_has_will := False\<rparr>) b)"
    by (rule session_on_put [OF assms])
  then have "session_on ci si (s\<lparr>s_has_will := False\<rparr>) (mark_dead ci (put_session si (s\<lparr>s_has_will := False\<rparr>) b))"
    by (auto simp: session_on_def session_of_def mark_dead_def conn_at_upd split: if_splits)
  then show ?thesis
    by (simp add: handle_disconnect_def with_session_on [OF assms] put_session_other) (simp add: mark_dead_def conn_at_upd)
qed

section \<open>Properties\<close>

text \<open>C4: a connection has a session after a CONNECT only if the packet parsed, names MQTT 3.1.1 and the security
  policy accepted it; the session then carries the identifier the policy was asked about - the client's own,
  outside the reserved space, or one the broker generated - and the context the policy returned.\<close>

theorem connect_authenticated:
  assumes "serving (e_traits E) ci b" "\<not> cn_dead (conn_at b ci)" "cn_session (conn_at b ci) = no_session"
  shows "let b' = handle_connect E ci body b in
    cn_session (conn_at b' ci) = no_session
    \<or> (\<exists>p cid ctx si s'. parse_connect body = Inr p \<and> authenticated E p cid ctx
        \<and> session_of b' (conn_at b' ci) = Some si \<and> session_at b' si = Some s'
        \<and> s_client_id s' = cid \<and> s_auth_ctx s' = ctx)"
  using connect_authenticated_session [OF assms refl, of body] by (auto simp: Let_def)

theorem connect_authenticated_witness:
  "let b' = handle_connect sample_env 1 [0, 4, 0x4D, 0x51, 0x54, 0x54, 4, 2, 0, 0, 0, 1, 0x63] sample_broker in
    cn_session (conn_at b' 1) = no_session
    \<or> (\<exists>p cid ctx si s'. parse_connect [0, 4, 0x4D, 0x51, 0x54, 0x54, 4, 2, 0, 0, 0, 1, 0x63] = Inr p
        \<and> authenticated sample_env p cid ctx
        \<and> session_of b' (conn_at b' 1) = Some si \<and> session_at b' si = Some s'
        \<and> s_client_id s' = cid \<and> s_auth_ctx s' = ctx)"
  by (rule connect_authenticated) (simp_all add: serving_def sample_wf)

lemma sample_session_on: "session_on 0 0 sample_a sample_broker"
  by (simp add: session_on_def)

lemma sample_qos2: "qos2_publish sample_traits 0x34 (publish_body [0x78] [2] exactly_once 9) 9"
proof -
  let ?p = "\<lparr>pp_topic = [0x78], pp_payload = [2], pp_packet_id = 9, pp_qos = exactly_once, pp_retain = False, pp_dup = False\<rparr>"
  have "parse_publish 0x34 (publish_body [0x78] [2] exactly_once 9) = Inr ?p"
    by (simp add: parse_publish_iff publish_ok_def header_bits max_utf8_len_def publish_qos_raw_def packet_flags_def)
  then show ?thesis by (simp add: qos2_publish_def sample_filter)
qed

text \<open>A PUBREL forgets its identifier and no other, so that the next PUBLISH under it is a new message.\<close>

theorem pubrel_releases:
  assumes "wf_broker (e_traits E) b" "session_on ci si s b" "pid \<noteq> 0"
  shows "\<exists>s'. session_on ci si s' (handle_pubrel E ci (u16_bytes pid) b) \<and> \<not> has_inbound_qos2 pid s'
     \<and> (\<forall>q. q \<noteq> pid \<longrightarrow> has_inbound_qos2 q s' = has_inbound_qos2 q s)"
proof -
  have "distinct (s_inbound_qos2 s)"
    using session_on_ok [OF assms(1,2)] by (simp add: session_ok_def)
  then show ?thesis by (rule released [OF assms(2) _ assms(3)])
qed

text \<open>C27: when a connection is torn down while its session still holds a will the policy lets through, the will is
  published as any message is: it replaces the retained message of its topic if it asks to be retained; an absent
  persistent subscriber keeps it as a publish would leave it; a connected subscriber that gets it at QoS 0 is sent
  it once, and for any other connected session routing takes its one turn, on the session and the connection as they were.\<close>

theorem will_on_teardown:
  assumes "wf_broker (e_traits E) b" "ci < max_connections (e_traits E)"
    "session_on ci si s b" "s_has_will s" "sec_publish (e_sec E) (s_auth_ctx s) (s_will_topic s)"
    "sj \<noteq> si" "session_at b sj = Some t"
  shows "b_retained (teardown E ci b) = (if \<not> s_will_retain s then b_retained b
      else if s_will_payload s = [] then retained_remove (s_will_topic s) (b_retained b)
      else fst (retained_set (max_topic_len (e_traits E)) (max_payload_len (e_traits E)) (s_will_topic s) (s_will_payload s)
        (s_will_qos s) (b_retained b)))
    \<and> (\<not> connected t \<longrightarrow> \<not> s_clean_session t
      \<longrightarrow> session_at (teardown E ci b) sj = Some (kept_for E (s_will_topic s) (s_will_payload s) (s_will_qos s) t))
    \<and> (conn_index (e_traits E) t = cj \<longrightarrow> cj < max_connections (e_traits E)
      \<longrightarrow> (\<exists>b1. session_at b1 sj = Some t \<and> conn_at b1 cj = conn_at b cj \<and> sent_on cj b1 = sent_on cj b
        \<and> session_at (teardown E ci b) sj = session_at (route_one E (s_will_topic s) (s_will_payload s) (s_will_qos s) sj b1) sj
        \<and> sent_on cj (teardown E ci b) = sent_on cj (route_one E (s_will_topic s) (s_will_payload s) (s_will_qos s) sj b1))
      \<and> (cn_active (conn_at b cj) \<longrightarrow> \<not> cn_dead (conn_at b cj)
        \<longrightarrow> deliverable E (s_will_topic s) (s_will_qos s) t = None \<or> deliverable E (s_will_topic s) (s_will_qos s) t = Some at_most_once
        \<longrightarrow> sent_on cj (teardown E ci b) = sent_on cj b @ (if deliverable E (s_will_topic s) (s_will_qos s) t = None then []
          else filter (\<lambda>p. p \<noteq> []) [publish_pkt (e_traits E) (s_will_topic s) (s_will_payload s) at_most_once False False 0])))"
proof (intro conjI impI)
  note w = will_reaches [OF assms]
  show "b_retained (teardown E ci b) = (if \<not> s_will_retain s then b_retained b
      else if s_will_payload s = [] then retained_remove (s_will_topic s) (b_retained b)
      else fst (retained_set (max_topic_len (e_traits E)) (max_payload_len (e_traits E)) (s_will_topic s) (s_will_payload s)
        (s_will_qos s) (b_retained b)))" unfolding w(4) by (simp add: apply_retain_store)
qed (rule will_reaches [OF assms]; assumption)+

lemma sample_b_gets: "deliverable sample_env [0x78] at_least_once sample_b = Some at_least_once"
proof -
  have "s_subs sample_b = [\<lparr>sub_filter = [0x78], sub_granted = at_least_once, sub_retain_pending = False\<rparr>]"
    by (simp add: sample_b_def new_session_def)
  then show ?thesis by (simp add: deliverable_def best_grant_def allow_all_def topic_eval)
qed

theorem will_on_teardown_witness:
  "session_at (teardown sample_env 0 (put_session 0 (sample_a\<lparr>s_has_will := True, s_will_topic := [0x78], s_will_payload := [7],
       s_will_qos := at_least_once, s_will_retain := True\<rparr>) sample_broker)) 1
     = Some (sample_b\<lparr>s_pending := s_pending sample_b @ [queued_msg [0x78] [7] at_least_once False]\<rparr>)
   \<and> b_retained (teardown sample_env 0 (put_session 0 (sample_a\<lparr>s_has_will := True, s_will_topic := [0x78], s_will_payload := [7],
       s_will_qos := at_least_once, s_will_retain := True\<rparr>) sample_broker))
     = fst (retained_set (max_topic_len sample_traits) (max_payload_len sample_traits) [0x78] [7] at_least_once (b_retained sample_broker))"
proof -
  let ?s = "sample_a\<lparr>s_has_will := True, s_will_topic := [0x78], s_will_payload := [7], s_will_qos := at_least_once, s_will_retain := True\<rparr>"
  let ?b = "put_session 0 ?s sample_broker"
  have "session_ok sample_traits ?s"
    using sample_session_ok(1) by (simp add: session_ok_def connected_def no_conn_def sample_filter)
  then have wf: "wf_broker sample_traits ?b" using wf_put [OF sample_wf, of 0 sample_a ?s] by simp
  have k: "kept_for sample_env [0x78] [7] at_least_once sample_b = sample_b\<lparr>s_pending := s_pending sample_b @ [queued_msg [0x78] [7] at_least_once False]\<rparr>"
    by (simp add: kept_for_def sample_b_gets)
  have o: "session_on 0 0 ?s ?b" by (rule session_on_put [OF sample_session_on])
  have b: "b_retained ?b = b_retained sample_broker" "session_at ?b 1 = Some sample_b" by (simp_all add: put_session_other)
  have p: "sec_publish (e_sec sample_env) (s_auth_ctx ?s) (s_will_topic ?s)" by (simp add: allow_all_def)
  note w = will_on_teardown [where cj = 1, OF _ _ o _ p _ b(2)]
  show ?thesis using w wf k b(1) by simp
qed

text \<open>C28: after a DISCONNECT the teardown of the connection publishes nothing, whatever will the session held:
  the transport is asked for nothing but to close this connection, if it was not the transport that closed it,
  and every other connection, every other session and every retained message is as before.\<close>

theorem disconnect_discards_will:
  assumes "session_on ci si s b"
  shows "b_retained (teardown E ci (handle_disconnect ci [] b)) = b_retained b
     \<and> sent_on cj (teardown E ci (handle_disconnect ci [] b)) = sent_on cj b
     \<and> (\<exists>e. b_trace (teardown E ci (handle_disconnect ci [] b)) =
           b_trace b @ Noted e # (if cn_notify_transport (conn_at b ci) then [Closed ci] else []))
     \<and> (\<forall>cj. cj \<noteq> ci \<longrightarrow> conn_at (teardown E ci (handle_disconnect ci [] b)) cj = conn_at b cj)
     \<and> (\<forall>sj. sj \<noteq> si \<longrightarrow> session_at (teardown E ci (handle_disconnect ci [] b)) sj = session_at b sj)"
  using disconnect_session [OF assms] teardown_silent [of ci si "s\<lparr>s_has_will := False\<rparr>" "handle_disconnect ci [] b" E] by auto

theorem disconnect_discards_will_witness:
  "sent_on 1 (teardown sample_env 0 (handle_disconnect 0 [] sample_broker)) = sent_on 1 sample_broker
     \<and> conn_at (teardown sample_env 0 (handle_disconnect 0 [] sample_broker)) 1 = conn_at sample_broker 1
     \<and> session_at (teardown sample_env 0 (handle_disconnect 0 [] sample_broker)) 1 = Some sample_b"
  using disconnect_discards_will [OF sample_session_on, of sample_env 1] by simp

text \<open>The session evicted from a full pool is one that waits for its client and was left the longest ago,
  by the order of disconnections, even when the 32 bit ticket counter has wrapped around, as long as the
  waiting sessions' tickets span less than \<open>2 ^ 31\<close>; there is none only if every session is connected.\<close>

theorem oldest_session_correct:
  assumes "pool_inv (max_sessions T) (b_sessions b)" "\<forall>si s. waiting b si s \<longrightarrow> ticket_age base s < 2 ^ 31"
  shows "case oldest_disconnected_session T b of
      None \<Rightarrow> \<forall>si s. \<not> waiting b si s
    | Some (vi, v) \<Rightarrow> waiting b vi v \<and> (\<forall>si s. waiting b si s \<longrightarrow> ticket_age base v \<le> ticket_age base s)"
  using oldest_is_least [OF assms] by (auto simp: least_waiting_def split: option.splits)

end
