(* ===== verification/Broker_Time.thy ===== *)
theory Broker_Time
  imports Broker_Inbound
begin

text \<open>
  Timeouts (\<open>deadline_passed\<close>, \<open>keepalive_window_ms\<close>, \<open>refresh_deadline\<close>, \<open>tick\<close> of
  \<open>broker/broker.hpp\<close>). The clock is a 32 bit millisecond counter that wraps around every 49
  days; a comparison is right as long as the two times lie less than \<open>2 ^ 31\<close> ms apart, which
  every window of the broker does.
\<close>

section \<open>Comparing times\<close>

lemma deadline_passed_time:
  assumes "\<bar>t - d\<bar> < 2 ^ 31"
  shows "deadline_passed (word_of_int t) (word_of_int d) \<longleftrightarrow> d \<le> t"
proof -
  have e: "sint (word_of_int k :: u32) = signed_take_bit 31 k" for k by (simp add: signed_of_int)
  have "word_of_int t - word_of_int d = (word_of_int (t - d) :: u32)" by simp
  then have "sint (word_of_int t - word_of_int d :: u32) = signed_take_bit 31 (t - d)" by (simp only: e)
  also have "\<dots> = t - d" by (rule signed_take_bit_int_eq_self) (use assms in auto)
  finally show ?thesis by (simp add: deadline_passed_def)
qed

lemma keepalive_window: "keepalive_window_ms k = word_of_int (1500 * int (unat k))"
  by (simp add: keepalive_window_ms_def of_int_mult)

text \<open>A connection with a keep-alive of \<open>k\<close> seconds is overdue \<open>1.5 k\<close> seconds after its last traffic, not earlier.\<close>

lemma refreshed_deadline:
  assumes k: "cn_keepalive_s c > 0" and x: "0 \<le> x" "x < 2 ^ 31"
  shows "deadline_passed (word_of_int (t + x)) (cn_deadline_ms (refresh_deadline T (word_of_int t) c)) \<longleftrightarrow>
    1500 * int (unat (cn_keepalive_s c)) \<le> x"
proof -
  let ?w = "1500 * int (unat (cn_keepalive_s c))"
  have "0 \<le> ?w" "?w < 2 ^ 31" using uint_lt2p [of "cn_keepalive_s c"] by simp_all
  moreover have "cn_deadline_ms (refresh_deadline T (word_of_int t) c) = word_of_int (t + ?w)"
    using k by (simp add: refresh_deadline_def keepalive_window)
  moreover have "\<bar>(t + x) - (t + w)\<bar> < 2 ^ 31 \<and> (t + w \<le> t + x \<longleftrightarrow> w \<le> x)" if "0 \<le> w" "w < 2 ^ 31" for w
    using x that by (simp add: abs_less_iff)
  ultimately show ?thesis using deadline_passed_time [of "t + x" "t + ?w"] by (simp only:)
qed

section \<open>The clock tick\<close>

definition overdue :: "traits \<Rightarrow> u32 \<Rightarrow> conn \<Rightarrow> bool" where
  "overdue T now_ms c \<longleftrightarrow> cn_active c \<and> deadline_passed now_ms (cn_deadline_ms c)
     \<and> (if cn_session c = no_session then connect_timeout_ms T > 0 else cn_keepalive_s c > 0 \<or> max_idle_ms T > 0)"

lemma tick_conn_other: "i \<noteq> ci \<Longrightarrow> conn_at (tick_conn E now_ms i b) ci = conn_at b ci"
  by (simp add: tick_conn_def Let_def mark_dead_def conn_at_upd notify_conn_def)

lemma tick_conn_delivers: "delivers b (tick_conn E now_ms i b)"
  by (auto simp: tick_conn_def Let_def notify_conn_def
      intro: delivers_trans [OF delivers_notify delivers_mark_dead])

lemma tick_conns_other: "ci \<notin> set xs \<Longrightarrow> conn_at (fold (tick_conn E now_ms) xs b) ci = conn_at b ci"
  by (induction xs arbitrary: b) (auto simp: tick_conn_other)

lemma tick_conns_delivers: "delivers b (fold (tick_conn E now_ms) xs b)"
  by (induction xs arbitrary: b) (auto intro: delivers_trans [OF tick_conn_delivers])

lemma tick_conn_overdue:
  assumes "overdue (e_traits E) now_ms (conn_at b ci)" "ci < length (b_conns b)"
  shows "cn_dead (conn_at (tick_conn E now_ms ci b) ci)"
  using assms by (auto simp: tick_conn_def overdue_def Let_def mark_dead_def conn_at_upd notify_conn_def split: if_splits)

lemma tick_conns_overdue:
  assumes o: "overdue (e_traits E) now_ms (conn_at b ci)" and n: "ci < n" "ci < length (b_conns b)"
  shows "cn_dead (conn_at (fold (tick_conn E now_ms) [0..<n] b) ci)"
proof -
  let ?b = "fold (tick_conn E now_ms) [0..<ci] b"
  have b: "conn_at ?b ci = conn_at b ci" "length (b_conns ?b) = length (b_conns b)"
    using tick_conns_other [of ci "[0..<ci]" E now_ms b] delivers_conn(5) [OF tick_conns_delivers [of b E now_ms "[0..<ci]"]] by simp_all
  have "cn_dead (conn_at (tick_conn E now_ms ci ?b) ci)" by (rule tick_conn_overdue) (use o n b in simp_all)
  then show ?thesis
    using delivers_conn(4) [OF tick_conns_delivers] by (simp add: upt_split [OF n(1)])
qed

lemma tick_session_delivers:
  assumes wf: "wf_broker (e_traits E) b" and s: "session_at b si \<noteq> None"
  shows "delivers b (tick_session E si b)"
proof -
  have "delivers b (replay_retained E cj si b)" for cj
    using replay_retained_ok [OF wfD(8) [OF wf] wfD(2) [OF wf] s wfD(4) [OF wf]] by blast
  from delivers_trans [OF this delivers_pump_session] show ?thesis using s
    by (auto simp: tick_session_def with_session_def Let_def)
qed

lemma tick_sessions_delivers:
  fixes b :: "('ctx, 'tr) broker"
  assumes wf: "wf_broker (e_traits E) b"
  shows "delivers b (pool_for_each (max_sessions (e_traits E)) b_sessions (tick_session E) b)"
proof -
  let ?P = "\<lambda>b' :: ('ctx, 'tr) broker. wf_broker (e_traits E) b' \<and> delivers b b'"
  have "?P (pool_for_each (max_sessions (e_traits E)) b_sessions (tick_session E) b)"
    unfolding pool_for_each_def
  proof (rule fold_upt_invariant)
    fix si and b' :: "('ctx, 'tr) broker" assume p: "?P b'"
    show "?P (if pool_at (b_sessions b') si \<noteq> None then tick_session E si b' else b')"
      using p wf_tick_session [of E b' si] delivers_trans [OF _ tick_session_delivers [of E b' si]] by (simp add: session_at_def)
  qed (use wf in simp)
  then show ?thesis by blast
qed

lemma tick_closes:
  assumes wf: "wf_broker (e_traits E) b" and ci: "ci < max_connections (e_traits E)"
    and o: "overdue (e_traits E) now_ms (conn_at b ci)"
  shows "\<not> cn_active (conn_at (tick E now_ms b) ci)"
proof -
  let ?b = "fold (tick_conn E now_ms) [0..<max_connections (e_traits E)] (b\<lparr>b_now_ms := now_ms\<rparr>)"
  let ?b' = "pool_for_each (max_sessions (e_traits E)) b_sessions (tick_session E) ?b"
  have "wf_broker (e_traits E) ?b" by (rule fold_upt_invariant) (use wf in \<open>auto intro: wf_tick_conn\<close>)
  from tick_sessions_delivers [OF this] have "cn_dead (conn_at ?b' ci)"
    using tick_conns_overdue [of E now_ms "b\<lparr>b_now_ms := now_ms\<rparr>" ci] o ci wfD(1) [OF wf] delivers_conn(4) by auto
  from flush_kills [OF this ci] show ?thesis
    using conn_at_cong [OF expire_conns [of E now_ms "flush_dead E ?b'"]] by (simp add: tick_def Let_def)
qed

section \<open>Properties\<close>

text \<open>C32: a connection that declared a keep-alive of \<open>k\<close> seconds is past its deadline exactly from \<open>1.5 k\<close> seconds
  after its last traffic on, even when the millisecond clock has wrapped around in between.\<close>

theorem keepalive_deadline_correct:
  assumes "cn_keepalive_s c > 0" "0 \<le> x" "x < 2 ^ 31"
  shows "deadline_passed (word_of_int (t + x)) (cn_deadline_ms (refresh_deadline T (word_of_int t) c)) \<longleftrightarrow>
    1500 * int (unat (cn_keepalive_s c)) \<le> x"
  by (rule refreshed_deadline [OF assms])

theorem keepalive_deadline_correct_witness:
  "deadline_passed (word_of_int (0xFFFFFFFF + 1500)) (cn_deadline_ms (refresh_deadline sample_traits (word_of_int 0xFFFFFFFF)
     ((sample_conn 0)\<lparr>cn_keepalive_s := 1\<rparr>))) \<longleftrightarrow> 1500 * int (unat (1 :: u16)) \<le> 1500"
  using keepalive_deadline_correct [where c = "(sample_conn 0)\<lparr>cn_keepalive_s := 1\<rparr>" and x = 1500 and t = "0xFFFFFFFF" and T = sample_traits] by simp

text \<open>C31: a tick closes every connection that is past its deadline: one that has not sent its CONNECT in time,
  broke its keep-alive, or idled too long.\<close>

theorem tick_closes_overdue:
  assumes "wf_broker (e_traits E) b" "ci < max_connections (e_traits E)" "overdue (e_traits E) now_ms (conn_at b ci)"
  shows "\<not> cn_active (conn_at (tick E now_ms b) ci)"
  by (rule tick_closes [OF assms])

theorem tick_closes_overdue_witness: "\<not> cn_active (conn_at (tick sample_env 5 sample_broker) 1)"
  using tick_closes_overdue [of sample_env sample_broker 1 5]
  by (simp add: sample_wf overdue_def deadline_passed_def)

end
