(* ===== verification/Broker_Talks.thy ===== *)
theory Broker_Talks
  imports Broker_Sample
begin

text \<open>
  The broker as a client of its transport (the rules of \<open>transport.hpp\<close>). Whatever an entry
  point of the broker does to the transport is a sequence of calls of \<open>send\<close> and \<open>close\<close>, the one
  recorded in the trace, and the sequence obeys the protocol of the interface: \<open>send\<close> and \<open>close\<close>
  are called only on a connection that is open, and nothing is sent after \<open>close\<close>.
\<close>

section \<open>Transcripts and their protocol\<close>

text \<open>Replaying recorded calls on a transport; \<open>None\<close> when a recorded answer is not the one given.\<close>

fun transcript :: "('tr \<Rightarrow> nat \<Rightarrow> bytes \<Rightarrow> 'tr \<times> bool) \<Rightarrow> ('tr \<Rightarrow> nat \<Rightarrow> 'tr) \<Rightarrow> action list \<Rightarrow> 'tr \<Rightarrow> 'tr option" where
  "transcript snd_op close_op [] tr = Some tr"
| "transcript snd_op close_op (Sent ci pkt ok # as) tr =
    (case snd_op tr ci pkt of (tr', r) \<Rightarrow> if r = ok then transcript snd_op close_op as tr' else None)"
| "transcript snd_op close_op (Closed ci # as) tr = transcript snd_op close_op as (close_op tr ci)"
| "transcript snd_op close_op (Noted e # as) tr = transcript snd_op close_op as tr"

text \<open>
  The connections left open by a sequence of calls; \<open>None\<close> when a call is made on a closed one, or
  when a connection is announced, which only the transport can bring about.
\<close>

fun protocol :: "action list \<Rightarrow> nat set \<Rightarrow> nat set option" where
  "protocol [] S = Some S"
| "protocol (Sent ci pkt ok # as) S = (if ci \<in> S then protocol as S else None)"
| "protocol (Closed ci # as) S = (if ci \<in> S then protocol as (S - {ci}) else None)"
| "protocol (Noted e # as) S = (if ev_kind e = connection_opened then None else protocol as S)"

text \<open>The bytes the transport has accepted on a connection since it was last opened.\<close>

definition opened_at :: "nat \<Rightarrow> event \<Rightarrow> bool" where
  "opened_at ci e \<longleftrightarrow> ev_kind e = connection_opened \<and> ev_ci e = Some ci"

definition accepted_step :: "nat \<Rightarrow> action \<Rightarrow> bytes \<Rightarrow> bytes" where
  "accepted_step ci a out =
    (case a of
       Sent cj pkt ok \<Rightarrow> if ok \<and> cj = ci then out @ pkt else out
     | Closed cj \<Rightarrow> out
     | Noted e \<Rightarrow> if opened_at ci e then [] else out)"

definition accepted_on :: "nat \<Rightarrow> action list \<Rightarrow> bytes" where
  "accepted_on ci as = fold (accepted_step ci) as []"

text \<open>The connections the broker takes to be open in the transport.\<close>

definition open_conns :: "('ctx, 'tr) broker \<Rightarrow> nat set" where
  "open_conns b = {ci. cn_active (conn_at b ci) \<and> cn_notify_transport (conn_at b ci)}"

definition heard :: "('ctx, 'tr) broker \<Rightarrow> bool" where
  "heard b \<longleftrightarrow> (\<forall>ci. cn_active (conn_at b ci) \<longrightarrow> \<not> cn_dead (conn_at b ci) \<longrightarrow> cn_notify_transport (conn_at b ci))"

text \<open>From \<open>b\<close> to \<open>b'\<close> the broker has made the calls its trace records, on connections of \<open>S\<close>.\<close>

definition obeys :: "('ctx, 'tr) env \<Rightarrow> nat set \<Rightarrow> ('ctx, 'tr) broker \<Rightarrow> ('ctx, 'tr) broker \<Rightarrow> bool" where
  "obeys E S b b' \<longleftrightarrow> (\<exists>as. b_trace b' = b_trace b @ as
     \<and> transcript (e_send E) (e_close E) as (b_tr b) = Some (b_tr b') \<and> protocol as S = Some (open_conns b'))"

definition talks :: "('ctx, 'tr) env \<Rightarrow> ('ctx, 'tr) broker \<Rightarrow> ('ctx, 'tr) broker \<Rightarrow> bool" where
  "talks E b b' \<longleftrightarrow> (heard b \<longrightarrow> heard b' \<and> obeys E (open_conns b) b b')"

lemma transcript_append:
  "transcript s c (as @ bs) tr = (case transcript s c as tr of None \<Rightarrow> None | Some tr' \<Rightarrow> transcript s c bs tr')"
  by (induction s c as tr rule: transcript.induct) (auto split: prod.split)

lemma protocol_append:
  "protocol (as @ bs) S = (case protocol as S of None \<Rightarrow> None | Some S' \<Rightarrow> protocol bs S')"
  by (induction as S rule: protocol.induct) auto

lemma protocol_insert: "protocol as S = Some S' \<Longrightarrow> ci \<notin> S \<Longrightarrow> protocol as (insert ci S) = Some (insert ci S')"
proof (induction as S rule: protocol.induct)
  case (3 cj as S)
  then have "insert ci S - {cj} = insert ci (S - {cj})" by (auto split: if_splits)
  then show ?case using 3 by (auto split: if_splits)
qed (auto split: if_splits)

lemma protocol_shrinks: "protocol as S = Some S' \<Longrightarrow> S' \<subseteq> S"
  by (induction as S rule: protocol.induct) (auto split: if_splits)

lemma obeysI:
  "b_trace b' = b_trace b @ as \<Longrightarrow> transcript (e_send E) (e_close E) as (b_tr b) = Some (b_tr b') \<Longrightarrow>
   protocol as S = Some (open_conns b') \<Longrightarrow> obeys E S b b'"
  by (auto simp: obeys_def)

lemma obeys_trans:
  assumes "obeys E S a b" "obeys E (open_conns b) b c" shows "obeys E S a c"
proof -
  obtain as where as: "b_trace b = b_trace a @ as" "transcript (e_send E) (e_close E) as (b_tr a) = Some (b_tr b)"
    "protocol as S = Some (open_conns b)" using assms(1) by (auto simp: obeys_def)
  obtain bs where "b_trace c = b_trace b @ bs" "transcript (e_send E) (e_close E) bs (b_tr b) = Some (b_tr c)"
    "protocol bs (open_conns b) = Some (open_conns c)" using assms(2) by (auto simp: obeys_def)
  with as show ?thesis by (intro obeysI [of _ _ "as @ bs"]) (simp_all add: transcript_append protocol_append)
qed

lemma talks_refl [simp]: "talks E b b"
  by (auto simp: talks_def intro: obeysI [of _ _ "[]"])

lemma talks_trans: "talks E a b \<Longrightarrow> talks E b c \<Longrightarrow> talks E a c"
  by (auto simp: talks_def intro: obeys_trans)

named_theorems talk \<open>steps after which the broker has still only talked to its transport\<close>

text \<open>Updates that do not concern the transport.\<close>

lemma talks_quiet:
  assumes "talks E a b" "b_conns c = b_conns b" "b_tr c = b_tr b" "b_trace c = b_trace b"
  shows "talks E a c"
proof -
  have "conn_at c = conn_at b" by (rule conn_at_cong) (rule assms(2))
  then have "talks E b c" using assms(3,4) by (auto simp: talks_def open_conns_def heard_def intro!: obeysI [of _ _ "[]"])
  then show ?thesis by (rule talks_trans [OF assms(1)])
qed

lemma talks_upd_conn:
  assumes "talks E a b" and f: "\<And>c. cn_active (f c) = cn_active c" "\<And>c. cn_notify_transport (f c) = cn_notify_transport c"
    "\<And>c. cn_dead c \<Longrightarrow> cn_dead (f c)"
  shows "talks E a (upd_conn ci f b)"
proof (rule talks_trans [OF assms(1)])
  have "open_conns (upd_conn ci f b) = open_conns b" by (auto simp: open_conns_def conn_at_upd f)
  moreover have "heard b \<Longrightarrow> heard (upd_conn ci f b)" using f by (auto simp: heard_def conn_at_upd)
  ultimately show "talks E b (upd_conn ci f b)" by (auto simp: talks_def intro!: obeysI [of _ _ "[]"])
qed

lemma talks_notify [talk]:
  assumes "talks E a b" "ev_kind e \<noteq> connection_opened" shows "talks E a (notify e b)"
proof (rule talks_trans [OF assms(1)])
  show "talks E b (notify e b)" using assms(2)
    by (auto simp: talks_def open_conns_def heard_def notify_def conn_at_def intro!: obeysI [of _ _ "[Noted e]"])
qed

lemma talks_notes [talk]:
  assumes "talks E a b"
  shows "k \<noteq> connection_opened \<Longrightarrow> talks E a (notify_conn E' k ci b)" "talks E a (notify_violation ci e b)"
    "talks E a (notify_refused ci cid code b)" "k \<noteq> connection_opened \<Longrightarrow> talks E a (notify_session k s b)"
    "k \<noteq> connection_opened \<Longrightarrow> talks E a (notify_denied k s t b)"
    "k \<noteq> connection_opened \<Longrightarrow> talks E a (notify_topic k t b)" "talks E a (notify_drop s t q e b)"
  using assms by (simp_all add: notify_defs new_event_def talk)

section \<open>Everything the broker does\<close>

lemma talks_sessions [talk]:
  assumes "talks E a b"
  shows "talks E a (put_session si s b)" "talks E a (release_session si b)" "talks E a (upd_session si f b)"
    "talks E a (fail b)" "talks E a (drop_pending si i b)" "talks E a (upd_pending si i g b)"
    "talks E a (b\<lparr>b_retained := r\<rparr>)" "talks E a (b\<lparr>b_sessions := p\<rparr>)" "talks E a (b\<lparr>b_now_ms := t\<rparr>)"
    "talks E a (b\<lparr>b_disconnect_order := o'\<rparr>)" "talks E a (b\<lparr>b_auto_id_counter := k\<rparr>)"
  by (rule talks_quiet [OF assms], (simp_all add: put_session_def release_session_def upd_session_def with_session_def fail_def
      drop_pending_def upd_pending_def split: option.split)[3])+

lemma talks_mark_dead [talk]: "talks E a b \<Longrightarrow> talks E a (mark_dead ci b)"
  unfolding mark_dead_def by (rule talks_upd_conn) simp_all

lemma refresh_notify [simp]: "cn_notify_transport (refresh_deadline T t c) = cn_notify_transport c"
  by (simp add: refresh_deadline_def)

lemma talks_refresh [talk]: "talks E a b \<Longrightarrow> talks E a (upd_conn ci (refresh_deadline T t) b)"
  by (rule talks_upd_conn) simp_all

lemma talks_transport_send:
  assumes "talks E a b" "cn_active (conn_at b ci)" "\<not> cn_dead (conn_at b ci)"
  shows "talks E a (fst (transport_send E ci pkt b))"
proof (rule talks_trans [OF assms(1)])
  obtain tr r where s: "e_send E (b_tr b) ci pkt = (tr, r)" by fastforce
  have c: "conn_at (b\<lparr>b_tr := tr, b_trace := t\<rparr>) = conn_at b" for t by (rule conn_at_cong) simp
  show "talks E b (fst (transport_send E ci pkt b))"
    using assms(2,3) unfolding talks_def transport_send_def s
    by (auto simp: open_conns_def heard_def c s intro!: obeysI [of _ _ "[Sent ci pkt r]"])
qed

lemma talks_try_send [talk]: "talks E a b \<Longrightarrow> talks E a (fst (try_send_to E ci pkt b))"
  by (simp add: try_send_to_def Let_def talks_transport_send)

lemma talks_send_to [talk]: "talks E a b \<Longrightarrow> talks E a (send_to E ci pkt b)"
  using talks_transport_send [of E a b ci pkt]
  by (auto simp: send_to_def Let_def split: prod.split intro!: talk)

lemma talks_violation [talk]: "talks E a b \<Longrightarrow> talks E a (violation ci e b)"
  by (simp add: violation_def talk)

lemma talks_with_session [talk]:
  assumes "talks E a b" "\<And>s. session_at b si = Some s \<Longrightarrow> talks E a (k s)"
  shows "talks E a (with_session si b k)"
  using assms by (auto simp: with_session_def split: option.split intro: talk)

lemma talks_with_session_of [talk]:
  assumes "talks E a b" "\<And>si s. talks E a (k si s)" shows "talks E a (with_session_of ci b k)"
  using assms by (auto simp: with_session_of_def split: option.split intro: talk)

subsection \<open>Queues, routing and replay\<close>

lemma talks_pump_step: "talks E a b \<Longrightarrow> talks E a (snd (snd (pump_step E si i b)))"
  by (auto simp: pump_step_def Let_def split: option.split prod.split intro!: talk)

lemma talks_pump_loop: "talks E a b \<Longrightarrow> talks E a (pump_loop E si i b)"
proof (induction E si i b rule: pump_loop.induct)
  case (1 E si i b)
  obtain go j b' where s: "pump_step E si i b = (go, j, b')" by (metis prod_cases3)
  then show ?case using talks_pump_step [OF 1(2), of si i] 1(1) [OF s [symmetric]] by (simp add: pump_loop.simps [of E si i b])
qed

lemma talks_pump_session [talk]: "talks E a b \<Longrightarrow> talks E a (pump_session E si b)"
  by (simp add: pump_session_def talks_pump_loop)

lemma talks_resume_step: "talks E a b \<Longrightarrow> talks E a (snd (snd (resume_step E si i b)))"
  by (auto simp: resume_step_def Let_def split: option.split prod.split intro!: talk)

lemma talks_resume_loop: "talks E a b \<Longrightarrow> talks E a (resume_loop E si i b)"
proof (induction E si i b rule: resume_loop.induct)
  case (1 E si i b)
  obtain go j b' where s: "resume_step E si i b = (go, j, b')" by (metis prod_cases3)
  then show ?case using talks_resume_step [OF 1(2), of si i] 1(1) [OF s [symmetric]] by (simp add: resume_loop.simps [of E si i b])
qed

lemma talks_resume_session [talk]: "talks E a b \<Longrightarrow> talks E a (resume_session E si b)"
  by (simp add: resume_session_def talks_resume_loop)

lemma talks_enqueue [talk]: "talks E a b \<Longrightarrow> talks E a (enqueue E si topic payload q retain b)"
  by (auto simp: enqueue_def Let_def split: option.split prod.split intro!: talk)

lemma talks_apply_retain [talk]: "talks E a b \<Longrightarrow> talks E a (fst (apply_retain E topic payload q b))"
  by (auto simp: apply_retain_def Let_def split: prod.split intro!: talk)

lemma talks_route_one: "talks E a b \<Longrightarrow> talks E a (route_one E topic payload q si b)"
  by (auto simp: route_one_def Let_def split: prod.split intro!: talk)

lemma talks_pool_for_each:
  assumes "\<And>i b. talks E a b \<Longrightarrow> talks E a (f i b)" "talks E a b"
  shows "talks E a (pool_for_each n get f b)"
  unfolding pool_for_each_def by (rule fold_upt_invariant) (use assms in auto)

lemma talks_route_publish [talk]: "talks E a b \<Longrightarrow> talks E a (route_publish E topic payload q b)"
  unfolding route_publish_def by (rule talks_pool_for_each) (rule talks_route_one)

lemma talks_replay_one: "talks E a (snd (snd st)) \<Longrightarrow> talks E a (snd (snd (replay_one E ci si ri st)))"
  by (cases st) (auto simp: replay_one_def Let_def split: option.split prod.split intro!: talk)

lemma talks_replay_retained [talk]: "talks E a b \<Longrightarrow> talks E a (replay_retained E ci si b)"
proof -
  assume b: "talks E a b"
  let ?r = "retained_for_each (max_retained (e_traits E)) (\<lambda>(index, paused, b). b_retained b) (replay_one E ci si) (0, False, b)"
  have "talks E a (snd (snd ?r))"
    unfolding retained_for_each_def pool_for_each_def
    by (rule fold_upt_invariant) (use b in \<open>auto intro: talks_replay_one\<close>)
  then show ?thesis unfolding replay_retained_def by (auto split: prod.split intro!: talk)
qed

lemma talks_publish_will [talk]: "talks E a b \<Longrightarrow> talks E a (publish_will E s b)"
  by (auto simp: publish_will_def Let_def intro!: talk)

subsection \<open>Teardown\<close>

text \<open>
  The connection is given up before its session's will is routed and the transport is told to close
  it after, so nothing is sent on it in between.
\<close>

lemma teardown_steps:
  "teardown E ci b =
    closed E ci (cn_notify_transport (conn_at b ci))
      (case session_of b (conn_at b ci) of
         None \<Rightarrow> upd_conn ci detach_conn (notify_conn E connection_closed ci b)
       | Some si \<Rightarrow>
           let b1 = upd_conn ci detach_conn (notify_conn E connection_closed ci b);
               order = b_disconnect_order b1 + 1; b1 = b1\<lparr>b_disconnect_order := order\<rparr>;
               b1 = upd_session si (\<lambda>s. s\<lparr>s_conn := no_conn, s_disconnect_ms := b_now_ms b1, s_disconnect_order := order\<rparr>) b1;
               b1 = with_session si b1 (\<lambda>s. if s_has_will s then publish_will E s (put_session si (s\<lparr>s_has_will := False\<rparr>) b1) else b1)
           in with_session si b1 (\<lambda>s. if s_clean_session s then release_session si b1 else b1))"
  unfolding teardown_def closed_def detach_conn_def [abs_def] Let_def by (rule refl)

lemma heard_detach: "heard b \<Longrightarrow> heard (upd_conn ci detach_conn b)"
  by (auto simp: heard_def conn_at_upd detach_conn_def)

lemma open_conns_detach: "open_conns (upd_conn ci detach_conn b) = open_conns b - {ci}"
proof -
  have "\<not> cn_active (conn_at b ci)" if "\<not> ci < length (b_conns b)" using that by (simp add: conn_at_def new_conn_def)
  then show ?thesis by (auto simp: open_conns_def conn_at_upd detach_conn_def split: if_splits)
qed

lemma talks_detached:
  assumes n: "talks E (upd_conn ci detach_conn b) b1"
  shows "talks E b (closed E ci (ci \<in> open_conns b) b1)"
  unfolding talks_def
proof (intro impI)
  assume h: "heard b"
  obtain as where as: "b_trace b1 = b_trace b @ as" "transcript (e_send E) (e_close E) as (b_tr b) = Some (b_tr b1)"
    "protocol as (open_conns b - {ci}) = Some (open_conns b1)" "heard b1"
    using n heard_detach [OF h] by (auto simp: talks_def obeys_def open_conns_detach)
  show "heard (closed E ci (ci \<in> open_conns b) b1) \<and> obeys E (open_conns b) b (closed E ci (ci \<in> open_conns b) b1)"
  proof (cases "ci \<in> open_conns b")
    case True
    have "conn_at (transport_close E ci b1) = conn_at b1" by (rule conn_at_cong) (simp add: transport_close_def)
    then have c: "open_conns (transport_close E ci b1) = open_conns b1" "heard (transport_close E ci b1) = heard b1"
      by (simp_all add: open_conns_def heard_def)
    have "ci \<notin> open_conns b1" using protocol_shrinks [OF as(3)] by auto
    moreover have "protocol as (open_conns b) = Some (insert ci (open_conns b1))"
      using protocol_insert [OF as(3), of ci] True by (simp add: insert_absorb)
    ultimately have "obeys E (open_conns b) b (transport_close E ci b1)"
      using as by (intro obeysI [of _ _ "as @ [Closed ci]"])
        (simp_all add: c transcript_append protocol_append, simp_all add: transport_close_def)
    then show ?thesis using as(4) True by (simp add: closed_def c)
  next
    case False
    then show ?thesis using as by (auto simp: closed_def intro: obeysI)
  qed
qed

lemma talks_teardown [talk]:
  assumes "talks E a b" "cn_active (conn_at b ci)" shows "talks E a (teardown E ci b)"
proof (rule talks_trans [OF assms(1)])
  let ?b = "notify_conn E connection_closed ci b"
  have l: "cn_notify_transport (conn_at b ci) \<longleftrightarrow> ci \<in> open_conns ?b" using assms(2) by (simp add: open_conns_def notify_conn_def)
  have "talks E ?b (teardown E ci b)"
    unfolding teardown_steps l
    by (rule talks_detached) (auto simp: Let_def split: option.split intro!: talk)
  then show "talks E b (teardown E ci b)" by (rule talks_trans [rotated]) (simp add: talk)
qed

lemma talks_flush_pass: "talks E a b \<Longrightarrow> talks E a (snd (flush_pass E b))"
  unfolding flush_pass_def by (rule fold_upt_invariant [where P = "\<lambda>st. talks E a (snd st)"]) (auto intro: talk)

lemma talks_flush_dead [talk]: "talks E a b \<Longrightarrow> talks E a (flush_dead E b)"
proof (induction E b rule: flush_dead.induct)
  case (1 E b)
  obtain again b' where s: "flush_pass E b = (again, b')" by fastforce
  then show ?case using talks_flush_pass [OF 1(2)] 1(1) [OF s [symmetric]] by (simp add: flush_dead.simps [of E b])
qed

subsection \<open>Packet handlers\<close>

lemma talks_refuse [talk]: "talks E a b \<Longrightarrow> talks E a (refuse E ci code cid b)"
  by (simp add: refuse_def talk)

lemma talks_generate [talk]: "talks E a b \<Longrightarrow> talks E a (fst (generate_client_id b))"
  by (auto simp: generate_client_id_def split: option.split intro: talk)

lemma talks_connect_admit: "talks E a b \<Longrightarrow> talks E a (fst (connect_admit E ci p b))"
  by (simp add: connect_admit_def Let_def split_beta talk)

lemma talks_connect_takeover: "talks E a b \<Longrightarrow> talks E a (fst (connect_takeover E cid b))"
  by (auto simp: connect_takeover_def Let_def split: option.split intro!: talk)

lemma talks_alloc_session: "talks E a b \<Longrightarrow> talks E a (fst (alloc_session E b))"
  by (auto simp: alloc_session_def split: prod.split intro: talk)

lemma talks_alloc_or_evict: "talks E a b \<Longrightarrow> talks E a (fst (alloc_or_evict E b))"
  using talks_alloc_session [of E a b]
  by (auto simp: alloc_or_evict_def split: prod.split option.split intro!: talks_alloc_session talk)

lemma talks_connect_session: "talks E a b \<Longrightarrow> talks E a (fst (connect_session E cid clean existing b))"
  using talks_alloc_or_evict [of E a b] talks_alloc_or_evict [of E a "release_session (the existing) b"]
  by (auto simp: connect_session_def Let_def talk split: prod.split option.split bool.split intro!: talk)

lemma talks_connect_attach [talk]: "talks E a b \<Longrightarrow> talks E a (connect_attach E ci p ctx present si b)"
  unfolding connect_attach_def Let_def
  by (auto intro!: talk talks_upd_conn)

lemma talks_handle_connect [talk]: "talks E a b \<Longrightarrow> talks E a (handle_connect E ci body b)"
proof -
  assume b: "talks E a b"
  show ?thesis
    unfolding handle_connect_def
    using talks_connect_session [OF talks_connect_takeover [OF talks_connect_admit [OF b]]] talks_connect_admit [OF b]
    by (auto simp: Let_def b split: sum.split prod.split option.split intro!: talk) (metis fst_conv)+
qed

lemma talks_with_packet_id [talk]:
  "talks E a b \<Longrightarrow> (\<And>pid. talks E a (k pid)) \<Longrightarrow> talks E a (with_packet_id ci body b k)"
  by (auto simp: with_packet_id_def split: sum.split intro: talk)

lemma talks_note_inbound [talk]: "talks E a b \<Longrightarrow> talks E a (fst (note_inbound_qos2 E ci si pid s b))"
  by (auto simp: note_inbound_qos2_def Let_def intro!: talk)

lemma talks_accept_publish [talk]: "talks E a b \<Longrightarrow> talks E a (accept_publish E s p b)"
  by (auto simp: accept_publish_def Let_def intro!: talk)

lemma talks_handle_publish [talk]: "talks E a b \<Longrightarrow> talks E a (handle_publish E ci fb body b)"
  unfolding handle_publish_def by (intro talk) (auto simp: Let_def split_beta split: sum.split intro!: talk)

lemma talks_tl_while:
  assumes "\<And>flt q st. talks E a (get st) \<Longrightarrow> talks E a (get (f flt q st))" "talks E a (get st)"
  shows "talks E a (get (snd (tl_while f p st)))"
  using assms
proof (induction f p st rule: tl_while.induct)
  case (1 f p st)
  obtain r p' where n: "tl_next p = (r, p')" by fastforce
  show ?case using 1 n by (auto simp: tl_while.simps [of f p st] split: option.splits)
qed

lemma talks_subscribe_entry: "talks E a (snd st) \<Longrightarrow> talks E a (snd (subscribe_entry E si flt q st))"
  by (cases st) (auto simp: subscribe_entry_def Let_def split: option.split prod.split intro!: talk)

lemma talks_handle_subscribe [talk]: "talks E a b \<Longrightarrow> talks E a (handle_subscribe E ci body b)"
  unfolding handle_subscribe_def
proof (intro talk, goal_cases)
  case (2 si s)
  have "talks E a (snd (snd (tl_while (subscribe_entry E si) p (w, put_session si (clear_retain_pending s) b))))" for p w
    by (rule talks_tl_while [where get = snd]) (use 2 in \<open>auto intro: talk talks_subscribe_entry\<close>)
  then show ?case using 2 by (auto simp: Let_def split_beta intro!: talk)
qed simp

lemma talks_handle_unsubscribe [talk]: "talks E a b \<Longrightarrow> talks E a (handle_unsubscribe E ci body b)"
  unfolding handle_unsubscribe_def
proof (intro talk, goal_cases)
  case (2 si s)
  have "talks E a (snd (tl_while (\<lambda>flt _ b. upd_session si (unsubscribe_one flt) b) p b))" for p
    by (rule talks_tl_while [where get = id, simplified]) (use 2 in \<open>auto intro: talk\<close>)
  then show ?case using 2 by (auto simp: Let_def split_beta intro!: talk)
qed simp

lemma talks_acks [talk]:
  assumes "talks E a b"
  shows "talks E a (handle_puback E ci body b)" "talks E a (handle_pubrec E ci body b)"
    "talks E a (handle_pubcomp E ci body b)" "talks E a (handle_pubrel E ci body b)" "talks E a (handle_disconnect ci body b)"
  using assms by (auto simp: handle_puback_def handle_pubrec_def handle_pubcomp_def handle_pubrel_def handle_disconnect_def
      split: option.split intro!: talk)

lemma talks_on_packet: "talks E a b \<Longrightarrow> talks E a (snd (on_packet E ci fb body b))"
  by (auto simp: on_packet_def dispatch_def Let_def split: packet_type.split intro!: talk)

subsection \<open>Entry points\<close>

interpretation talked: frame_client "on_packet E ci" "\<lambda>b. cn_dead (conn_at b ci)" "\<lambda>b. serving (e_traits E) ci b \<and> talks E a b"
  for E :: "('ctx, 'tr) env" and ci a
proof
  fix st st' :: "('ctx, 'tr) broker" and fb body go_on
  assume sv: "serving (e_traits E) ci st \<and> talks E a st" "\<not> cn_dead (conn_at st ci)" and o: "on_packet E ci fb body st = (go_on, st')"
  show "go_on \<longleftrightarrow> \<not> cn_dead (conn_at st' ci)" by (rule fed.stop_iff_dead [OF conjunct1 [OF sv(1)] sv(2) o])
  show "serving (e_traits E) ci st' \<and> talks E a st'"
    using fed.keeps_inv [OF conjunct1 [OF sv(1)] sv(2) o] talks_on_packet [OF conjunct2 [OF sv(1)], of ci fb body] by (simp add: o)
qed

lemma talks_conn_data:
  assumes wf: "wf_broker (e_traits E) b" shows "talks E b (snd (conn_data E ci data now_ms b))"
proof (cases "ci < max_connections (e_traits E) \<and> cn_active (conn_at b ci) \<and> \<not> cn_dead (conn_at b ci)")
  case True
  then have c: "ci < max_connections (e_traits E)" "cn_active (conn_at b ci)" "\<not> cn_dead (conn_at b ci)" by simp_all
  obtain e p b' where f: "feed (max_packet_size (e_traits E)) (on_packet E ci) (cn_parser (conn_at b ci)) data (stamped E ci now_ms b) = (e, p, b')"
    by (metis prod_cases3)
  have i: "fp_inv (max_packet_size (e_traits E)) (cn_parser (conn_at b ci))" using wfD(5) [OF wf c(1)] c by (simp add: conn_ok_def)
  have "talks E b (stamped E ci now_ms b)" by (auto simp: stamped_def Let_def intro!: talk)
  then have "talks E b b'"
    using talked.feed_inv [OF i _ _ f] serving_stamped [OF wf c(1,2)] c(3) by (simp add: stamped_conn)
  then show ?thesis by (auto simp: conn_data_feed [OF c f] Let_def intro!: talk talks_upd_conn)
qed (auto simp: conn_data_def)

lemma talks_tick: "talks E b (tick E now_ms b)"
proof -
  have c: "talks E b (fold (tick_conn E now_ms) [0..<n] (b\<lparr>b_now_ms := now_ms\<rparr>))" for n
    by (rule fold_upt_invariant) (auto simp: tick_conn_def Let_def intro!: talk)
  have s: "talks E b (pool_for_each (max_sessions (e_traits E)) b_sessions (tick_session E) b')" if "talks E b b'" for b'
    by (rule talks_pool_for_each) (use that in \<open>auto simp: tick_session_def Let_def intro!: talk\<close>)
  have x: "talks E b (expire_sessions E now_ms b')" if "talks E b b'" for b'
    unfolding expire_sessions_def using that by (auto simp: expire_one_def intro!: talks_pool_for_each talk)
  show ?thesis unfolding tick_def Let_def by (intro x talks_flush_dead s c)
qed

lemma talks_publish: "talks E b (snd (publish E topic payload q retain b))"
  by (auto simp: publish_def Let_def split_beta intro!: talk)

text \<open>A connection the transport reports as closed is not called on any more.\<close>

lemma heard_shut: "heard b \<Longrightarrow> heard (upd_conn ci (\<lambda>c. c\<lparr>cn_notify_transport := False, cn_dead := True\<rparr>) b)"
  by (auto simp: heard_def conn_at_upd)

lemma open_conns_bound: "ci \<in> open_conns b \<Longrightarrow> ci < length (b_conns b)"
  by (auto simp: open_conns_def conn_at_def new_conn_def split: if_splits)

lemma open_conns_shut: "open_conns (upd_conn ci (\<lambda>c. c\<lparr>cn_notify_transport := False, cn_dead := True\<rparr>) b) = open_conns b - {ci}"
  using open_conns_bound [of ci b] by (auto simp: open_conns_def conn_at_upd split: if_splits)

lemma conn_closed_obeys:
  assumes "heard b" "length (b_conns b) = max_connections (e_traits E)"
  shows "heard (conn_closed E ci b) \<and> obeys E (open_conns b - {ci}) b (conn_closed E ci b)"
proof (cases "ci < max_connections (e_traits E) \<and> cn_active (conn_at b ci)")
  case True
  let ?b = "upd_conn ci (\<lambda>c. c\<lparr>cn_notify_transport := False, cn_dead := True\<rparr>) b"
  have "talks E ?b (flush_dead E ?b)" by (simp add: talk)
  then show ?thesis using heard_shut [OF assms(1)] True by (auto simp: talks_def conn_closed_def open_conns_shut obeys_def)
next
  case False
  then have "ci \<notin> open_conns b" using open_conns_bound [of ci b] assms(2) by (auto simp: open_conns_def)
  then show ?thesis using False assms(1) by (auto simp: conn_closed_def intro!: obeysI [of _ _ "[]"])
qed

lemma conn_open_heard:
  assumes o: "conn_open E ci now_ms b = (e, b')" and h: "heard b" "length (b_conns b) = max_connections (e_traits E)"
  shows "heard b' \<and> b_tr b' = b_tr b \<and> (if e = Err_ok then ci \<notin> open_conns b \<and> open_conns b' = insert ci (open_conns b) else b' = b)"
proof (cases "ci \<ge> max_connections (e_traits E) \<or> cn_active (conn_at b ci)")
  case False
  then show ?thesis using o h
    by (auto simp: conn_open_def Let_def notify_conn_def heard_def open_conns_def conn_at_upd conn_reset_def split: if_splits)
qed (use o h in \<open>auto simp: conn_open_def\<close>)

lemma api_step_heard: "api_step T b b' \<Longrightarrow> wf_broker T b \<Longrightarrow> heard b \<Longrightarrow> heard b'"
proof (induction rule: api_step.induct)
  case (step_open E b ci now_ms)
  then show ?case using conn_open_heard [of E ci now_ms b] wfD(1) [of T b] by (metis prod.collapse)
next
  case (step_closed E b ci)
  then show ?case using conn_closed_obeys [of b E ci] wfD(1) [of T b] by simp
next
  case (step_data E b ci data now_ms)
  then show ?case using talks_conn_data [of E b ci data now_ms] by (simp add: talks_def)
next
  case (step_tick E b now_ms)
  then show ?case using talks_tick [of E b now_ms] by (simp add: talks_def)
next
  case (step_publish E b topic payload q retain)
  then show ?case using talks_publish [of E b topic payload q retain] by (simp add: talks_def)
next
  case (step_transport b tr)
  have "conn_at (b\<lparr>b_tr := tr\<rparr>) = conn_at b" by (rule conn_at_cong) simp
  then show ?case using step_transport by (simp add: heard_def)
qed

lemma reachable_heard:
  assumes "traits_ok T" shows "reachable T b \<Longrightarrow> heard b"
proof (induction rule: reachable.induct)
  case (reach_step b b')
  then show ?case using api_step_heard [of T b b'] reachable_settled [OF reach_step.hyps(1) assms] by blast
qed (simp add: heard_def broker_init_def conn_at_def new_conn_def)

section \<open>Property\<close>

text \<open>C13: the broker obeys the transport interface. In every reachable state, whatever a call of an entry point
  does to the transport is the sequence of \<open>send\<close> and \<open>close\<close> calls it recorded; each of them is made on
  a connection that is open at that moment; a connection it closed, or one reported as closed, is not
  used again; and afterwards the broker and the transport agree on which connections are open.\<close>

theorem broker_obeys_transport:
  assumes "traits_ok T" "reachable T b" "e_traits E = T"
  shows "obeys E (open_conns b) b (snd (conn_data E ci data now_ms b))
    \<and> obeys E (open_conns b) b (tick E now_ms b)
    \<and> obeys E (open_conns b) b (snd (publish E topic payload q retain b))
    \<and> obeys E (open_conns b - {ci}) b (conn_closed E ci b)
    \<and> (\<forall>b'. conn_open E ci now_ms b = (Err_ok, b') \<longrightarrow>
         b_tr b' = b_tr b \<and> ci \<notin> open_conns b \<and> open_conns b' = insert ci (open_conns b))"
proof -
  have wf: "wf_broker (e_traits E) b" and h: "heard b"
    using reachable_settled [OF assms(2,1)] reachable_heard [OF assms(1,2)] assms(3) by auto
  show ?thesis
    using h talks_conn_data [OF wf, of ci data now_ms] talks_tick [of E b now_ms] talks_publish [of E b topic payload q retain]
      conn_closed_obeys [OF h wfD(1) [OF wf], of ci] conn_open_heard [OF _ h wfD(1) [OF wf]]
    by (fastforce simp: talks_def)
qed

theorem broker_obeys_transport_witness:
  "let b = snd (conn_open sample_env 0 0 (broker_init sample_traits ()))
   in obeys sample_env (open_conns b) b (snd (conn_data sample_env 0 [0xC0, 0] 5 b))"
  unfolding Let_def
  by (rule conjunct1 [OF broker_obeys_transport [OF sample_traits_ok reachable_open]]) simp

end
