(* ===== verification/Broker_Steady.thy ===== *)
theory Broker_Steady
  imports Broker_Talks Broker_Inbound "HOL-Library.Sublist"
begin

text \<open>
  What the handlers do to sessions and to the ties between connections and sessions, described once.
  \<open>stays s s'\<close> says that a session lost no message in flight - sent and not yet acknowledged - and had none
  reordered. The locale \<open>steady\<close>: whatever holds of a state and survives the elementary updates survives every
  handler of a connected client. \<open>lasting\<close> adds connections that come and go, and with them the entry points;
  \<open>persistent\<close> is about one session that outlives its connections, and adds CONNECT. They are used for the ties
  (\<open>tied\<close>), for a free session slot, for the messages in flight (\<open>Broker_Flight\<close>) and for the identifiers of
  inbound QoS 2 messages (\<open>Broker_Redelivery\<close>).
\<close>

section \<open>Messages in flight\<close>

text \<open>A message without the two marks that say how it is sent again.\<close>

definition essence :: "out_msg \<Rightarrow> out_msg" where
  "essence m = m\<lparr>om_dup := False, om_resend_pubrel := False\<rparr>"

definition flight :: "'ctx session \<Rightarrow> out_msg list" where
  "flight s = map essence (filter (\<lambda>m. om_state m \<noteq> queued) (s_pending s))"

definition stays :: "'ctx session \<Rightarrow> 'ctx session \<Rightarrow> bool" where
  "stays s s' \<longleftrightarrow> s_client_id s' = s_client_id s \<and> s_clean_session s' = s_clean_session s \<and> subseq (flight s) (flight s')"

lemma stays_refl [simp]: "stays s s"
  by (simp add: stays_def)

lemma stays_trans: "stays a b \<Longrightarrow> stays b c \<Longrightarrow> stays a c"
  by (auto simp: stays_def intro: subseq_order.trans)

lemma stays_same:
  "s_client_id s' = s_client_id s \<Longrightarrow> s_clean_session s' = s_clean_session s \<Longrightarrow> s_pending s' = s_pending s \<Longrightarrow> stays s s'"
  by (simp add: stays_def flight_def)

text \<open>Nor did its table of inbound identifiers change.\<close>

definition spares :: "'ctx session \<Rightarrow> 'ctx session \<Rightarrow> bool" where
  "spares s s' \<longleftrightarrow> stays s s' \<and> s_inbound_qos2 s' = s_inbound_qos2 s"

lemma spares_refl [simp]: "spares s s"
  by (simp add: spares_def)

lemma spares_same:
  "s_client_id s' = s_client_id s \<Longrightarrow> s_clean_session s' = s_clean_session s \<Longrightarrow> s_pending s' = s_pending s
     \<Longrightarrow> s_inbound_qos2 s' = s_inbound_qos2 s \<Longrightarrow> spares s s'"
  by (simp add: spares_def stays_same)

lemma spares_append:
  "s_client_id s' = s_client_id s \<Longrightarrow> s_clean_session s' = s_clean_session s \<Longrightarrow> s_pending s' = s_pending s @ ms
     \<Longrightarrow> s_inbound_qos2 s' = s_inbound_qos2 s \<Longrightarrow> spares s s'"
  by (simp add: spares_def stays_def flight_def subseq_rev_drop_many)

lemma alloc_spares: "alloc_packet_id s = Some (pid, s') \<Longrightarrow> spares s s'"
  by (rule spares_same) (auto simp: alloc_packet_id_def split: option.splits)

lemma spares_has_will: "spares s (s\<lparr>s_has_will := w\<rparr>)"
  by (rule spares_same) simp_all

lemma flight_update:
  assumes "om_state (s_pending s ! i) \<noteq> queued \<Longrightarrow>
      om_state (f (s_pending s ! i)) \<noteq> queued \<and> essence (f (s_pending s ! i)) = essence (s_pending s ! i)"
  shows "spares s (s\<lparr>s_pending := (s_pending s)[i := f (s_pending s ! i)]\<rparr>)"
proof (cases "i < length (s_pending s)")
  case True
  define fly where "fly ms = map essence (filter (\<lambda>m. om_state m \<noteq> queued) ms)" for ms
  have fly: "fly (xs @ x # ys) = fly xs @ fly [x] @ fly ys" for xs x ys by (simp add: fly_def)
  let ?ps = "s_pending s"
  have "fly ?ps = fly (take i ?ps @ ?ps ! i # drop (Suc i) ?ps)" using True by (simp add: id_take_nth_drop [symmetric])
  moreover have "?ps[i := f (?ps ! i)] = take i ?ps @ f (?ps ! i) # drop (Suc i) ?ps" using True by (rule upd_conv_take_nth_drop)
  moreover have "subseq (fly [?ps ! i]) (fly [f (?ps ! i)])" using assms by (auto simp: fly_def)
  then have "subseq (fly (take i ?ps) @ fly [?ps ! i] @ fly (drop (Suc i) ?ps)) (fly (take i ?ps) @ fly [f (?ps ! i)] @ fly (drop (Suc i) ?ps))"
    by (intro list_emb_append_mono subseq_order.refl)
  moreover have "flight t = fly (s_pending t)" for t :: "'a session" by (simp add: flight_def fly_def)
  ultimately show ?thesis by (simp add: spares_def stays_def fly)
qed (rule spares_same, simp_all add: list_update_beyond)

lemma flight_remove:
  assumes "om_state (s_pending s ! i) = queued"
  shows "spares s (s\<lparr>s_pending := sv_remove_ordered i (s_pending s)\<rparr>)"
proof (cases "i < length (s_pending s)")
  case True
  let ?ps = "s_pending s"
  have "filter (\<lambda>m. om_state m \<noteq> queued) ?ps = filter (\<lambda>m. om_state m \<noteq> queued) (take i ?ps @ drop (Suc i) ?ps)"
    using assms True by (subst id_take_nth_drop [OF True]) simp
  then show ?thesis using True by (simp add: spares_def stays_def flight_def sv_remove_ordered_eq)
qed (rule spares_same, simp_all add: sv_remove_ordered_def)

text \<open>The acknowledgement a packet from a subscriber is, if it is one.\<close>

definition ack_of :: "byte \<Rightarrow> bytes \<Rightarrow> (packet_type \<times> u16) option" where
  "ack_of fb body =
    (if fixed_flags_valid (packet_type_of fb) (packet_flags fb) \<and> packet_type_of fb \<in> {PT_puback, PT_pubrec, PT_pubcomp}
     then (case parse_packet_id_only body of Inl _ \<Rightarrow> None | Inr pid \<Rightarrow> Some (packet_type_of fb, pid)) else None)"

section \<open>What survives the elementary updates survives the handlers\<close>

named_theorems steps \<open>operations under which a steady predicate is kept\<close>

locale steady =
  fixes P :: "('ctx, 'tr) broker \<Rightarrow> bool" and ok :: "nat \<Rightarrow> 'ctx session \<Rightarrow> 'ctx session \<Rightarrow> bool"
  assumes same: "P b \<Longrightarrow> b_sessions c = b_sessions b \<Longrightarrow> b_conns c = b_conns b \<Longrightarrow> P c"
    and upd_conn [steps]: "P b \<Longrightarrow> (\<And>c. cn_session (f c) = cn_session c) \<Longrightarrow> P (upd_conn ci f b)"
    and put [steps]: "P b \<Longrightarrow> session_at b si = Some s \<Longrightarrow> ok si s s' \<Longrightarrow> P (put_session si s' b)"
    and keep_ok: "spares s s' \<Longrightarrow> ok si s s'"
begin

lemma elementary [steps]:
  assumes "P b"
  shows "P (notify e b)" "P (fail b)" "P (fst (try_send_to E ci pkt b))" "P (fst (transport_send E ci pkt b))" "P (b\<lparr>b_retained := r\<rparr>)"
    "P (b\<lparr>b_now_ms := t\<rparr>)" "P (b\<lparr>b_disconnect_order := o'\<rparr>)" "P (transport_close E ci b)"
  by (rule same [OF assms], (simp_all add: fail_def transport_close_def try_send_to_def transport_send_def Let_def split: prod.split)[2])+

lemma marked [steps]: "P b \<Longrightarrow> P (mark_dead ci b)"
  by (simp add: mark_dead_def upd_conn)

lemma noted [steps]:
  assumes "P b"
  shows "P (notify_conn E k ci b)" "P (notify_violation ci e b)" "P (notify_refused ci cid code b)"
    "P (notify_session k s b)" "P (notify_denied k s t b)" "P (notify_topic k t b)" "P (notify_drop s t q e b)" "P (violation ci e b)"
  using assms by (simp_all add: notify_defs violation_def elementary marked)

lemma sends [steps]: "P b \<Longrightarrow> P (send_to E ci pkt b)"
  using elementary(4) [of b E ci pkt] by (auto simp: send_to_def Let_def split: prod.split intro!: steps)

lemma upd [steps]:
  assumes "P b" "\<And>s. session_at b si = Some s \<Longrightarrow> ok si s (f s)" shows "P (upd_session si f b)"
  using assms put [of b si] elementary(2) by (cases "session_at b si") (auto simp: upd_session_def with_session_def)

lemma upd_entry:
  assumes "P b" "\<And>s. session_at b si = Some s \<Longrightarrow> om_state (s_pending s ! i) \<noteq> queued \<Longrightarrow>
      om_state (f (s_pending s ! i)) \<noteq> queued \<and> essence (f (s_pending s ! i)) = essence (s_pending s ! i)"
  shows "P (upd_pending si i f b)"
  unfolding upd_pending_def by (rule upd [OF assms(1)]) (use assms(2) flight_update keep_ok in blast)

lemma drop_entry:
  assumes "P b" "\<And>s. session_at b si = Some s \<Longrightarrow> om_state (s_pending s ! i) = queued"
  shows "P (drop_pending si i b)"
  unfolding drop_pending_def by (rule upd [OF assms(1)]) (use assms(2) flight_remove keep_ok in blast)

lemma with_at [steps]:
  assumes "P b" "\<And>s. session_at b si = Some s \<Longrightarrow> P (k s)" shows "P (with_session si b k)"
  using assms elementary(2) by (cases "session_at b si") (auto simp: with_session_def)

lemma with_own [steps]:
  assumes "P b" "\<And>si s. session_of b (conn_at b ci) = Some si \<Longrightarrow> session_at b si = Some s \<Longrightarrow> P (k si s)"
  shows "P (with_session_of ci b k)"
  using assms elementary(2) by (cases "session_of b (conn_at b ci)") (auto simp: with_session_of_def intro: with_at)

lemma pump_once: "P b \<Longrightarrow> P (snd (snd (pump_step E si i b)))"
  unfolding pump_step_def Let_def
  by (auto split: option.split prod.split intro!: steps upd_entry drop_entry keep_ok alloc_spares
      simp: notify_defs session_at_try session_at_put alloc_pending essence_def in_flight_state_def)

lemma pump_rounds: "P b \<Longrightarrow> P (pump_loop E si i b)"
proof (induction E si i b rule: pump_loop.induct)
  case (1 E si i b)
  obtain go j b' where s: "pump_step E si i b = (go, j, b')" by (metis prod_cases3)
  then show ?case using pump_once [OF 1(2), of E si i] 1(1) [OF s [symmetric]] by (simp add: pump_loop.simps [of E si i b])
qed

lemma pumped [steps]: "P b \<Longrightarrow> P (pump_session E si b)"
  by (simp add: pump_session_def pump_rounds)

lemma enqueued [steps]: "P b \<Longrightarrow> P (enqueue E si topic payload q retain b)"
  unfolding enqueue_def
proof (intro steps, goal_cases)
  case (2 s)
  have "ok si s (s\<lparr>s_pending := (s_pending s @ [m])[length (s_pending s) := m']\<rparr>)" for m m'
    by (rule keep_ok, rule spares_append [of _ _ "[m']"]) simp_all
  then show ?case using 2
    by (auto simp: sv_emplace_back_def Let_def split: option.split intro!: steps)
qed

lemma retained [steps]: "P b \<Longrightarrow> P (fst (apply_retain E topic payload q b))"
  by (auto simp: apply_retain_def Let_def split: prod.split intro!: steps)

lemma for_each:
  assumes "\<And>i b. P b \<Longrightarrow> P (f i b)" "P b" shows "P (pool_for_each n get f b)"
  unfolding pool_for_each_def by (rule fold_upt_invariant) (use assms in auto)

lemma routed [steps]: "P b \<Longrightarrow> P (route_publish E topic payload q b)"
  unfolding route_publish_def
  by (rule for_each) (auto simp: route_one_def Let_def split: prod.split intro!: steps)

lemma replayed_one: "P (snd (snd st)) \<Longrightarrow> P (snd (snd (replay_one E ci si ri st)))"
  by (cases st) (auto simp: replay_one_def Let_def split: option.split prod.split intro!: steps keep_ok spares_same)

lemma replayed [steps]: "P b \<Longrightarrow> P (replay_retained E ci si b)"
proof -
  assume b: "P b"
  let ?r = "retained_for_each (max_retained (e_traits E)) (\<lambda>(index, paused, b). b_retained b) (replay_one E ci si) (0, False, b)"
  have "P (snd (snd ?r))"
    unfolding retained_for_each_def pool_for_each_def
    by (rule fold_upt_invariant) (use b in \<open>auto intro: replayed_one\<close>)
  then show ?thesis unfolding replay_retained_def by (auto split: prod.split intro!: steps keep_ok spares_same simp: clear_retain_pending_def)
qed

lemma will_published [steps]: "P b \<Longrightarrow> P (publish_will E s b)"
  by (auto simp: publish_will_def Let_def intro!: steps)

text \<open>The packet handlers of a connected client, the acknowledgements apart.\<close>

lemma with_id [steps]: "P b \<Longrightarrow> (\<And>pid. P (k pid)) \<Longrightarrow> P (with_packet_id ci body b k)"
  by (auto simp: with_packet_id_def split: sum.split intro: steps)

lemma publish_accepted [steps]: "P b \<Longrightarrow> P (accept_publish E s p b)"
  by (auto simp: accept_publish_def Let_def intro!: steps)

lemma while_entries:
  assumes "\<And>flt q st. P (get st) \<Longrightarrow> P (get (f flt q st))" "P (get st)"
  shows "P (get (snd (tl_while f p st)))"
  using assms
proof (induction f p st rule: tl_while.induct)
  case (1 f p st)
  obtain r p' where n: "tl_next p = (r, p')" by fastforce
  show ?case using 1 n by (auto simp: tl_while.simps [of f p st] split: option.splits)
qed

lemma entry_subscribed: "P (snd st) \<Longrightarrow> P (snd (subscribe_entry E si flt q st))"
  by (cases st) (auto simp: subscribe_entry_def subscribe_one_def grant_def mark_retain_pending_def Let_def
      split: option.split prod.split intro!: steps keep_ok spares_same)

lemma subscribe_handled [steps]: "P b \<Longrightarrow> P (handle_subscribe E ci body b)"
  unfolding handle_subscribe_def
proof (intro steps, goal_cases)
  case (2 si s)
  have "ok si s (clear_retain_pending s)" by (rule keep_ok, rule spares_same) (simp_all add: clear_retain_pending_def)
  then have "P (snd (snd (tl_while (subscribe_entry E si) p (w, put_session si (clear_retain_pending s) b))))" for p w
    by (intro while_entries [where get = snd]) (use 2 in \<open>auto intro: steps entry_subscribed\<close>)
  then show ?case using 2 by (auto simp: Let_def split_beta intro!: steps keep_ok spares_same)
qed simp

lemma unsubscribe_handled [steps]: "P b \<Longrightarrow> P (handle_unsubscribe E ci body b)"
  unfolding handle_unsubscribe_def
proof (intro steps, goal_cases)
  case (2 si s)
  have "ok si s (unsubscribe_one flt s)" for s :: "'ctx session" and flt
    by (rule keep_ok, rule spares_same) (simp_all add: unsubscribe_one_def split: option.split)
  then have "P (snd (tl_while (\<lambda>flt _ b. upd_session si (unsubscribe_one flt) b) p b))" for p
    by (intro while_entries [where get = id, simplified]) (use 2 in \<open>auto intro: steps\<close>)
  then show ?case using 2 by (auto simp: Let_def split_beta intro!: steps)
qed simp

lemma disconnect_handled [steps]: "P b \<Longrightarrow> P (handle_disconnect ci body b)"
  by (auto simp: handle_disconnect_def intro!: steps keep_ok spares_has_will)

text \<open>PUBLISH at QoS 2 and PUBREL change the table of the session they arrive on.\<close>

lemma inbound_noted [steps]:
  "P b \<Longrightarrow> session_at b si = Some s \<Longrightarrow> (\<And>ids. ok si s (s\<lparr>s_inbound_qos2 := ids\<rparr>)) \<Longrightarrow> P (fst (note_inbound_qos2 E ci si pid s b))"
  by (auto simp: note_inbound_qos2_def Let_def notify_conn_def intro!: steps)

lemma publish_handled:
  assumes "P b" "\<And>si s ids. session_of b (conn_at b ci) = Some si \<Longrightarrow> ok si s (s\<lparr>s_inbound_qos2 := ids\<rparr>)"
  shows "P (handle_publish E ci fb body b)"
  unfolding handle_publish_def by (intro steps assms(1)) (use assms in \<open>auto simp: Let_def split_beta split: sum.split intro!: steps\<close>)

lemma plain_publish_handled:
  assumes "P b" "\<And>p. parse_publish fb body = Inr p \<Longrightarrow> pp_qos p \<noteq> exactly_once"
  shows "P (handle_publish E ci fb body b)"
  unfolding handle_publish_def
  by (intro steps assms(1)) (use assms in \<open>auto simp: Let_def split_beta split: sum.split intro!: steps dest: assms(2)\<close>)

lemma pubrel_handled:
  assumes "P b" "\<And>si s pid. session_of b (conn_at b ci) = Some si \<Longrightarrow> parse_packet_id_only body = Inr pid \<Longrightarrow> ok si s (remove_inbound_qos2 pid s)"
  shows "P (handle_pubrel E ci body b)"
  unfolding handle_pubrel_def with_packet_id_def
  using assms by (auto split: sum.split intro!: steps)

text \<open>The acknowledgements take from the queue of the session they arrive on.\<close>

lemma acknowledged:
  assumes "P b" "\<And>si s ps. session_of b (conn_at b ci) = Some si \<Longrightarrow> ok si s (s\<lparr>s_pending := ps\<rparr>)"
  shows "P (handle_puback E ci body b)" "P (handle_pubrec E ci body b)" "P (handle_pubcomp E ci body b)"
  using assms unfolding handle_puback_def handle_pubrec_def handle_pubcomp_def drop_pending_def upd_pending_def
  by (auto intro!: steps split: option.split)

text \<open>So does the replay of a queue to a client that returned: a message that cannot be encoded is dropped.\<close>

lemma resumed_once: "P b \<Longrightarrow> (\<And>s ps. ok si s (s\<lparr>s_pending := ps\<rparr>)) \<Longrightarrow> P (snd (snd (resume_step E si i b)))"
proof (cases "session_at b si")
  case (Some s)
  assume b: "P b" and ok: "\<And>s ps. ok si s (s\<lparr>s_pending := ps\<rparr>)"
  define a where "a = (if om_state (s_pending s ! i) = queued then alloc_packet_id s else Some (om_packet_id (s_pending s ! i), s))"
  have new: "P (put_session si s' b)" if "a = Some (pid, s')" for pid s'
    using that by (intro put [OF b Some] keep_ok) (auto simp: a_def alloc_spares split: if_splits)
  have entry: "P (upd_pending si j f b')" "P (drop_pending si j b')" if "P b'" for j f b'
    unfolding upd_pending_def drop_pending_def by (intro upd [OF that] ok)+
  have d: "snd (snd (if x then u else v)) = (if x then snd (snd u) else snd (snd v))" for x and u v :: "bool \<times> nat \<times> ('ctx, 'tr) broker" by simp
  have i: "P (if x then u else v)" if "P u" "P v" for x u v using that by simp
  note r = resume_step_def Some option.case Let_def a_def [symmetric]
  show ?thesis
  proof (cases "conn_of_session (e_traits E) s b")
    case None
    then show ?thesis unfolding r by (simp add: b)
  next
    case c: (Some c)
    show ?thesis
    proof (cases a)
      case None
      show ?thesis unfolding r c None option.case d prod.sel by (intro i entry elementary b)
    next
      case (Some ps)
      obtain pid s' where ps: "ps = (pid, s')" by (cases ps)
      have "P (put_session si s' b)" by (rule new) (simp add: Some ps)
      then show ?thesis unfolding r c Some ps option.case prod.case d prod.sel by (intro i entry elementary noted b)
    qed
  qed
qed (simp add: resume_step_def elementary)

lemma resumed_rounds: "P b \<Longrightarrow> (\<And>s ps. ok si s (s\<lparr>s_pending := ps\<rparr>)) \<Longrightarrow> P (resume_loop E si i b)"
proof (induction E si i b rule: resume_loop.induct)
  case (1 E si i b)
  obtain go j b' where s: "resume_step E si i b = (go, j, b')" by (metis prod_cases3)
  then show ?case using resumed_once [OF 1(2,3), of E i] 1(1) [OF s [symmetric]] 1(3) by (simp add: resume_loop.simps [of E si i b])
qed

lemma resumed: "P b \<Longrightarrow> (\<And>s ps. ok si s (s\<lparr>s_pending := ps\<rparr>)) \<Longrightarrow> P (resume_session E si b)"
  by (simp add: resume_session_def resumed_rounds)

text \<open>A packet on a connection that has a session. The ways it may change the session that \<open>spares\<close> does not cover are premises.\<close>

lemma packet_handled:
  assumes "P b" "cn_session (conn_at b ci) \<noteq> no_session"
    and publ: "packet_type_of fb = PT_publish \<Longrightarrow> P (handle_publish E ci fb body b)"
    and rel: "packet_type_of fb = PT_pubrel \<Longrightarrow> P (handle_pubrel E ci body b)"
    and ack: "ack_of fb body \<noteq> None \<Longrightarrow> P (handle_puback E ci body b) \<and> P (handle_pubrec E ci body b) \<and> P (handle_pubcomp E ci body b)"
  shows "P (snd (on_packet E ci fb body b))"
proof -
  have v: "P (with_packet_id ci body b k)" if "parse_packet_id_only body = Inl e" for k e
    using that assms(1) by (simp add: with_packet_id_def noted)
  have a: "P (handle_puback E ci body b) \<and> P (handle_pubrec E ci body b) \<and> P (handle_pubcomp E ci body b)"
    if "packet_type_of fb \<in> {PT_puback, PT_pubrec, PT_pubcomp}" "fixed_flags_valid (packet_type_of fb) (packet_flags fb)"
  proof (cases "parse_packet_id_only body")
    case (Inl e)
    then show ?thesis by (simp add: handle_puback_def handle_pubrec_def handle_pubcomp_def v)
  next
    case (Inr pid)
    then show ?thesis using that by (intro ack) (simp add: ack_of_def)
  qed
  show ?thesis using assms(1,2) publ rel a
    by (auto simp: on_packet_def dispatch_def handle_connect_def Let_def split: packet_type.split intro: steps)
qed

lemma packet_elsewhere:
  assumes "P b" "cn_session (conn_at b ci) \<noteq> no_session" "\<And>si s s'. session_of b (conn_at b ci) = Some si \<Longrightarrow> ok si s s'"
  shows "P (snd (on_packet E ci fb body b))"
  by (rule packet_handled [OF assms(1,2)]) (intro conjI publish_handled pubrel_handled acknowledged assms(1); erule assms(3))+

end

section \<open>The ties of connections\<close>

text \<open>Which session a connection belongs to is settled by CONNECT and lasts until the connection is torn down.\<close>

definition tied :: "('ctx, 'tr) broker \<Rightarrow> ('ctx, 'tr) broker \<Rightarrow> bool" where
  "tied b b' \<longleftrightarrow> (\<forall>ci. cn_session (conn_at b' ci) = cn_session (conn_at b ci))"

interpretation ties: steady "tied a" "\<lambda>si s s'. True" for a
proof
  fix b c :: "('a, 'b) broker" assume "tied a b" "b_sessions c = b_sessions b" "b_conns c = b_conns b"
  then show "tied a c" using conn_at_cong [of c b] by (simp add: tied_def)
qed (auto simp: tied_def conn_at_upd)

section \<open>Connections that come and go\<close>

text \<open>Predicates that do not look at the connections and do not mind the end of a session that ends with its connection.\<close>

locale lasting = steady +
  assumes any_conn: "P b \<Longrightarrow> P (upd_conn ci f b)"
    and release: "P b \<Longrightarrow> session_at b si = Some s \<Longrightarrow> s_clean_session s \<Longrightarrow> P (release_session si b)"
begin

lemma torn_down: "P b \<Longrightarrow> P (teardown E ci b)"
proof -
  assume b: "P b"
  have gone: "P (with_session si b (\<lambda>s. if s_clean_session s then release_session si b else b))" if "P b" for si b
    by (rule with_at [OF that]) (use that in \<open>auto intro: release\<close>)
  have willed: "P (with_session si b (\<lambda>s. if s_has_will s then publish_will E s (put_session si (s\<lparr>s_has_will := False\<rparr>) b) else b))"
    if "P b" for si b
    by (rule with_at [OF that]) (use that in \<open>auto intro!: will_published put keep_ok spares_has_will\<close>)
  have left: "P (upd_session si (\<lambda>s. s\<lparr>s_conn := c, s_disconnect_ms := t, s_disconnect_order := k\<rparr>) b)" if "P b" for si c t k b
    by (rule upd [OF that]) (rule keep_ok, rule spares_same, simp_all)
  have shut: "P (closed E ci n b)" if "P b" for n b using that by (simp add: closed_def elementary)
  have "P (upd_conn ci detach_conn (notify_conn E connection_closed ci b))" by (intro any_conn noted b)
  then show ?thesis unfolding teardown_steps Let_def
    by (intro shut) (cases "session_of b (conn_at b ci)"; simp only: option.case; intro gone willed left elementary)
qed

lemma flushed_once: "P b \<Longrightarrow> P (snd (flush_pass E b))"
  unfolding flush_pass_def by (rule fold_upt_invariant [where P = "\<lambda>st. P (snd st)"]) (auto intro: torn_down)

lemma flushed: "P b \<Longrightarrow> P (flush_dead E b)"
proof (induction E b rule: flush_dead.induct)
  case (1 E b)
  obtain again b' where s: "flush_pass E b = (again, b')" by fastforce
  then show ?case using flushed_once [OF 1(2), of E] 1(1) [OF s [symmetric]] by (simp add: flush_dead.simps [of E b])
qed

lemma published: "P b \<Longrightarrow> P (snd (publish E topic payload q retain b))"
  by (auto simp: publish_def Let_def split_beta intro!: flushed steps)

lemma conn_ended: "P b \<Longrightarrow> P (conn_closed E ci b)"
  by (auto simp: conn_closed_def intro!: flushed any_conn)

lemma conn_begun: "P b \<Longrightarrow> P (snd (conn_open E ci now_ms b))"
  by (auto simp: conn_open_def Let_def intro!: steps any_conn)

text \<open>With sessions that do not expire.\<close>

lemma ticked:
  assumes "P b" "session_expiry_ms (e_traits E) = 0" shows "P (tick E now_ms b)"
proof -
  have c: "P (fold (tick_conn E now_ms) [0..<n] (b\<lparr>b_now_ms := now_ms\<rparr>))" for n
    by (rule fold_upt_invariant) (use assms(1) in \<open>auto simp: tick_conn_def Let_def intro!: steps\<close>)
  have s: "P (pool_for_each (max_sessions (e_traits E)) b_sessions (tick_session E) b')" if "P b'" for b'
    by (rule for_each) (use that in \<open>auto simp: tick_session_def Let_def intro!: steps\<close>)
  show ?thesis unfolding tick_def Let_def expire_sessions_def assms(2) by (simp add: flushed s c)
qed

lemma refused: "P b \<Longrightarrow> P (refuse E ci code cid b)"
  by (auto simp: refuse_def intro!: steps)

lemma counted: "P b \<Longrightarrow> P (b\<lparr>b_auto_id_counter := c\<rparr>)"
  by (rule same) simp_all

lemma if_intro: "P u \<Longrightarrow> P v \<Longrightarrow> P (if x then u else v)"
  by simp

lemma admitted:
  assumes "P b" "serving T ci b" shows "P (fst (connect_admit E ci p b))"
proof -
  obtain c c' where c: "generate_client_id b = (b\<lparr>b_auto_id_counter := c\<rparr>, auto_id c')" using generated [OF assms(2)] by blast
  obtain b0 cid where g: "(if cp_client_id p = [] then generate_client_id b else (b, cp_client_id p)) = (b0, cid)" by fastforce
  have b0: "P b0" using g c counted [OF assms(1)] assms(1) by (auto split: if_splits)
  have d: "fst (if x then (u, None) else r) = (if x then u else fst r)" for x u and r :: "('a, 'b) broker \<times> (bytes \<times> 'a) option" by simp
  show ?thesis unfolding connect_admit_def g Let_def split_beta d prod.sel
    by (intro if_intro refused noted assms(1) b0)
qed

lemma taken_over: "P b \<Longrightarrow> P (fst (connect_takeover E cid b))"
  by (auto simp: connect_takeover_def Let_def split: option.split intro!: steps flushed)

end

text \<open>A session slot that is free.\<close>

interpretation vacant: lasting "\<lambda>b. session_at b sj = None" "\<lambda>si s s'. True" for sj
proof
  fix b c :: "('a, 'b) broker" assume "session_at b sj = None" "b_sessions c = b_sessions b"
  then show "session_at c sj = None" by (simp add: session_at_def)
qed (auto simp: session_at_put session_at_release)

section \<open>One session\<close>

text \<open>A property \<open>Q\<close> of the session in slot \<open>si0\<close>.\<close>

locale watched =
  fixes si0 :: nat and Q :: "'ctx session \<Rightarrow> bool"
  assumes spares_Q: "Q s \<Longrightarrow> spares s s' \<Longrightarrow> Q s'"

sublocale watched \<subseteq> steady "\<lambda>b :: ('ctx, 'tr) broker. \<exists>s. session_at b si0 = Some s \<and> Q s" "\<lambda>si s s'. si \<noteq> si0 \<or> (Q s \<longrightarrow> Q s')"
proof
  fix b :: "('ctx, 'tr) broker" and si s s'
  assume "\<exists>s. session_at b si0 = Some s \<and> Q s" "session_at b si = Some s" "si \<noteq> si0 \<or> (Q s \<longrightarrow> Q s')"
  then show "\<exists>s. session_at (put_session si s' b) si0 = Some s \<and> Q s" by (auto simp: session_at_put)
qed (auto simp: session_at_def intro: spares_Q)

section \<open>One session that outlives its connections\<close>

lemma admit_named:
  assumes s: "serving (e_traits E) ci b" and a: "connect_admit E ci p b = (b', Some (cid, ctx))"
  shows "cid = cp_client_id p \<or> find_client cid b = None"
proof (cases "cp_client_id p = [] \<longrightarrow> cp_clean_session p")
  case False
  then show ?thesis using a by (auto simp: connect_admit_def split: if_splits)
next
  case True
  obtain c cid' where c: "(if cp_client_id p = [] then generate_client_id b else (b, cp_client_id p)) = (b\<lparr>b_auto_id_counter := c\<rparr>, cid')"
    "cp_client_id p = [] \<Longrightarrow> find_client cid' b = None" using chosen_id [OF s True] by metis
  have "cid = cid'" using a unfolding connect_admit_def c(1) Let_def prod.case by (auto split: if_splits prod.splits)
  then show ?thesis using c by (cases "cp_client_id p = []") auto
qed

lemma alloc_vacant:
  assumes "pool_inv n (b_sessions b)" "session_at b sj = None" "sj < n"
  obtains si b' where "alloc_or_evict E b = (b', Some si)" "alloc_session E b = (b', Some si)" "session_at b si = None"
    "session_at b' = (session_at b)(si := Some (new_session (sec_ctx (e_sec E))))"
proof -
  obtain p r where a: "pool_alloc (new_session (sec_ctx (e_sec E))) (b_sessions b) = (p, r)" by fastforce
  have "r \<noteq> None" using pool_alloc_None [OF assms(1), of "new_session (sec_ctx (e_sec E))" p] a assms(2,3) by (cases r) (auto simp: session_at_def)
  then obtain si where si: "r = Some si" by blast
  note s = pool_alloc_Some [OF assms(1) a [unfolded si]]
  have "session_at (b\<lparr>b_sessions := p\<rparr>) = (session_at b)(si := Some (new_session (sec_ctx (e_sec E))))"
    using s by (auto simp: session_at_def fun_eq_iff)
  moreover have "alloc_session E b = (b\<lparr>b_sessions := p\<rparr>, Some si)" using a si by (simp add: alloc_session_def)
  ultimately show ?thesis using that [of "b\<lparr>b_sessions := p\<rparr>" si] s by (simp add: alloc_or_evict_def session_at_def)
qed

locale persistent = watched si0 Q for si0 and Q :: "'ctx session \<Rightarrow> bool" +
  fixes name :: bytes
  assumes not_clean: "Q s \<Longrightarrow> \<not> s_clean_session s" and named: "Q s \<Longrightarrow> s_client_id s = name"

sublocale persistent \<subseteq> lasting "\<lambda>b :: ('ctx, 'tr) broker. \<exists>s. session_at b si0 = Some s \<and> Q s" "\<lambda>si s s'. si \<noteq> si0 \<or> (Q s \<longrightarrow> Q s')"
  by unfold_locales (auto simp: session_at_release dest: not_clean)

context persistent
begin

text \<open>The session a CONNECT is given, when there is room for a new one: the one that is watched only for its own client.\<close>

lemma session_given:
  fixes b :: "('ctx, 'tr) broker"
  assumes P: "\<exists>s. session_at b si0 = Some s \<and> Q s" and wf: "wf_broker T b" and v: "session_at b sj = None" "sj < max_sessions T"
    and own: "cid = name \<Longrightarrow> \<not> clean" and c: "connect_session E cid clean (find_client cid b) b = (b', present, r)"
  shows "(\<exists>s. session_at b' si0 = Some s \<and> Q s) \<and> (r = Some si0 \<longrightarrow> cid = name)"
proof -
  obtain s0 where s0: "session_at b si0 = Some s0" "Q s0" using P by blast
  have n: "s_client_id s0 = name" by (rule named [OF s0(2)])
  have other: "cid = name" if "find_client cid b = Some si0" using find_client_Some [OF that] s0(1) n by auto
  show ?thesis
  proof (cases "\<not> clean \<and> find_client cid b \<noteq> None")
    case True
    then show ?thesis using c P other by (auto simp: connect_session_def)
  next
    case False
    have cid: "cid \<noteq> name" using False own s0(1) n find_client_None [of cid b] by auto
    let ?b = "case find_client cid b of None \<Rightarrow> b | Some si \<Rightarrow> release_session si b"
    have b: "session_at ?b si0 = Some s0" "session_at ?b sj = None" "pool_inv (max_sessions T) (b_sessions ?b)"
      using s0(1) v(1) wfD(3) [OF wf] pool_inv_release [OF wfD(3) [OF wf]] other cid
      by (auto simp: session_at_release split: option.split) (simp add: release_session_def)
    obtain si b1 where a: "alloc_or_evict E ?b = (b1, Some si)" "session_at ?b si = None"
      "session_at b1 = (session_at ?b)(si := Some (new_session (sec_ctx (e_sec E))))"
      using alloc_vacant [OF b(3,2) v(2)] by metis
    have si: "si \<noteq> si0" using a(2) b(1) by auto
    have "connect_session E cid clean (find_client cid b) b =
        (upd_session si (\<lambda>s. s\<lparr>s_client_id := fst (fixed_assign (max_client_id_len (e_traits E)) cid (s_client_id s))\<rparr>) b1, False, Some si)"
      using False a(1) by (cases "find_client cid b"; cases clean) (auto simp: connect_session_def Let_def)
    then have r: "r = Some si" "b' = upd_session si (\<lambda>s. s\<lparr>s_client_id := fst (fixed_assign (max_client_id_len (e_traits E)) cid (s_client_id s))\<rparr>) b1"
      using c by simp_all
    have "session_at b1 si0 = Some s0" using a(3) b(1) si by simp
    then have "\<exists>s. session_at b' si0 = Some s \<and> Q s" unfolding r(2) by (intro upd) (use s0(2) si in auto)
    then show ?thesis using r(1) si by simp
  qed
qed

lemma attached:
  fixes b :: "('ctx, 'tr) broker"
  assumes P: "\<exists>s. session_at b si0 = Some s \<and> Q s"
    and own: "si = si0 \<Longrightarrow> \<not> cp_clean_session p \<and> (\<forall>s ps. Q s \<longrightarrow> Q (s\<lparr>s_pending := ps\<rparr>))"
  shows "\<exists>s. session_at (connect_attach E ci p ctx present si b) si0 = Some s \<and> Q s"
proof -
  have arm: "Q (arm_session T ci p ctx s)" if "si = si0" "Q s" for T s
    by (rule spares_Q [OF that(2)], rule spares_same) (use own [OF that(1)] not_clean [OF that(2)] in \<open>simp_all add: arm_session_def Let_def\<close>)
  show ?thesis unfolding connect_attach_def Let_def
    by (intro if_intro resumed sends with_at noted any_conn upd P) (use own arm in auto)
qed

text \<open>CONNECT of another client, while there is room for its session; or of its own, not asking for a clean start.\<close>

lemma connected_other:
  fixes b :: "('ctx, 'tr) broker"
  assumes P: "\<exists>s. session_at b si0 = Some s \<and> Q s" and f: "fresh_conn (e_traits E) ci b" and room: "\<not> pool_full (b_sessions b)"
    and own: "\<And>p. parse_connect body = Inr p \<Longrightarrow> cp_client_id p = name \<Longrightarrow> \<not> cp_clean_session p \<and> (\<forall>s ps. Q s \<longrightarrow> Q (s\<lparr>s_pending := ps\<rparr>))"
  shows "\<exists>s. session_at (handle_connect E ci body b) si0 = Some s \<and> Q s"
proof (cases "parse_connect body")
  case (Inl e)
  then show ?thesis using noted(8) [OF P] f by (simp add: handle_connect_def fresh_conn_def)
next
  case (Inr p)
  have s: "serving (e_traits E) ci b" "cn_session (conn_at b ci) = no_session" "\<not> cn_dead (conn_at b ci)" using f by (simp_all add: fresh_conn_def)
  obtain b1 r where a: "connect_admit E ci p b = (b1, r)" by fastforce
  have P1: "\<exists>s. session_at b1 si0 = Some s \<and> Q s" using admitted [OF P s(1), of E p] a by simp
  show ?thesis
  proof (cases r)
    case None
    then show ?thesis using P1 Inr a s(2) by (simp add: handle_connect_def)
  next
    case (Some cc)
    obtain cid ctx where r: "r = Some (cid, ctx)" using Some by (cases cc) auto
    obtain c where c: "b1 = b\<lparr>b_auto_id_counter := c\<rparr>" using admit [OF s(1) a] r by auto
    have f1: "fresh_conn (e_traits E) ci b1" using serving_counter [OF s(1)] s(2,3) by (simp add: fresh_conn_def c)
    obtain b2 ex where t: "connect_takeover E cid b1 = (b2, ex)" by fastforce
    note f2 = takeover [OF f1 t]
    have P2: "\<exists>s. session_at b2 si0 = Some s \<and> Q s" using taken_over [OF P1, of E cid] t by simp
    obtain sj where sj: "sj < max_sessions (e_traits E)" "session_at b sj = None"
      using room pool_full_iff [OF wfD(3) [OF servingD(1) [OF s(1)]]] by (auto simp: session_at_def)
    then have v: "session_at b2 sj = None" using vacant.taken_over [of b1 sj E cid] t by (simp add: c)
    have cid: "cp_client_id p = name" if "cid = name"
      using admit_named [OF s(1) a [unfolded r]] P named find_client_None [of cid b] that by auto
    obtain b3 present r3 where cs: "connect_session E cid (cp_clean_session p) ex b2 = (b3, present, r3)" by (metis prod_cases3)
    have wf2: "wf_broker (e_traits E) b2" and ex: "ex = find_client cid b2" using f2 by (simp_all add: fresh_conn_def serving_def free_client_def)
    have P3: "(\<exists>s. session_at b3 si0 = Some s \<and> Q s) \<and> (r3 = Some si0 \<longrightarrow> cid = name)"
      by (rule session_given [OF P2 wf2 v sj(1) _ cs [unfolded ex]]) (use own [OF Inr] cid in blast)
    have h: "handle_connect E ci body b = (case r3 of None \<Rightarrow> refuse E ci server_unavailable cid b3 | Some si \<Rightarrow> connect_attach E ci p ctx present si b3)"
      using Inr a r t cs s(2) by (simp add: handle_connect_def)
    show ?thesis
    proof (cases r3)
      case None
      then show ?thesis using refused [OF conjunct1 [OF P3], of E ci server_unavailable cid] by (simp add: h)
    next
      case (Some si)
      then show ?thesis using attached [OF conjunct1 [OF P3], of si p E ci ctx present] own [OF Inr] cid P3 by (simp add: h)
    qed
  qed
qed

lemma connection_begun:
  fixes b :: "('ctx, 'tr) broker"
  assumes P: "\<exists>s. session_at b si0 = Some s \<and> Q s" and f: "fresh_conn (e_traits E) ci b" and room: "\<not> pool_full (b_sessions b)"
    and own: "\<And>p. parse_connect body = Inr p \<Longrightarrow> cp_client_id p = name \<Longrightarrow> \<not> cp_clean_session p \<and> (\<forall>s ps. Q s \<longrightarrow> Q (s\<lparr>s_pending := ps\<rparr>))"
  shows "\<exists>s. session_at (snd (on_packet E ci fb body b)) si0 = Some s \<and> Q s"
proof -
  have "cn_session (conn_at b ci) = no_session" using f by (simp add: fresh_conn_def)
  then show ?thesis using connected_other [OF assms] noted(8) [OF P]
    by (auto simp: on_packet_def dispatch_def Let_def split: packet_type.split)
qed

end

end
