(* ===== verification/Broker_Flight.thy ===== *)
theory Broker_Flight
  imports Broker_Steady
begin

text \<open>
  The guarantee behind QoS 1 and 2 towards subscribers: a message in flight - sent and not yet
  acknowledged - stays in the queue of its session until its acknowledgement arrives. Packets of the session's own
  client are followed one by one; everything else is an instance of \<open>persistent\<close>.
\<close>

section \<open>Messages in flight\<close>

text \<open>A session that lost no message in flight, whatever its client sends but acknowledgements; and one that outlives its connections.\<close>

lemma stays_inbound: "stays s (s\<lparr>s_inbound_qos2 := ids\<rparr>)" "stays s (remove_inbound_qos2 pid s)"
  by (simp_all add: stays_def flight_def remove_inbound_qos2_def split: option.split)

interpretation own: watched si "\<lambda>s'. stays s s'" for si and s :: "'ctx session"
  by unfold_locales (auto simp: spares_def intro: stays_trans)

interpretation flights: persistent si "\<lambda>s'. stays s s' \<and> \<not> s_clean_session s'" "s_client_id s" for si and s :: "'ctx session"
  by unfold_locales (auto simp: spares_def stays_def intro: subseq_order.trans)

text \<open>Bytes from a client touch the messages in flight of no other client.\<close>

interpretation saved: frame_client "on_packet E ci" "\<lambda>b. cn_dead (conn_at b ci)"
    "\<lambda>b. serving (e_traits E) ci b \<and> cn_session (conn_at a ci) \<notin> {no_session, of_nat si} \<and> tied a b
       \<and> (\<exists>s'. session_at b si = Some s' \<and> stays s s' \<and> \<not> s_clean_session s')"
  for E :: "('ctx, 'tr) env" and ci a si s
proof
  fix st st' :: "('ctx, 'tr) broker" and fb body go_on
  assume sv: "serving (e_traits E) ci st \<and> cn_session (conn_at a ci) \<notin> {no_session, of_nat si} \<and> tied a st
       \<and> (\<exists>s'. session_at st si = Some s' \<and> stays s s' \<and> \<not> s_clean_session s')"
    "\<not> cn_dead (conn_at st ci)" and o: "on_packet E ci fb body st = (go_on, st')"
  show "go_on \<longleftrightarrow> \<not> cn_dead (conn_at st' ci)" by (rule fed.stop_iff_dead [OF conjunct1 [OF sv(1)] sv(2) o])
  have t: "cn_session (conn_at st ci) \<notin> {no_session, of_nat si}" using sv(1) by (simp add: tied_def)
  have "tied a (snd (on_packet E ci fb body st))"
    by (rule ties.packet_elsewhere) (use sv(1) t in auto)
  moreover have "\<exists>s'. session_at (snd (on_packet E ci fb body st)) si = Some s' \<and> stays s s' \<and> \<not> s_clean_session s'"
    by (rule flights.packet_elsewhere) (use sv(1) t in \<open>auto simp: session_of_def split: if_splits\<close>)
  ultimately show "serving (e_traits E) ci st' \<and> cn_session (conn_at a ci) \<notin> {no_session, of_nat si} \<and> tied a st'
       \<and> (\<exists>s'. session_at st' si = Some s' \<and> stays s s' \<and> \<not> s_clean_session s')"
    using fed.keeps_inv [OF conjunct1 [OF sv(1)] sv(2) o] sv(1) by (simp add: o)
qed

lemma flight_conn_data:
  assumes wf: "wf_broker (e_traits E) b" and cs: "cn_session (conn_at b ci) \<notin> {no_session, of_nat si}"
    and s: "\<exists>s'. session_at b si = Some s' \<and> stays s s' \<and> \<not> s_clean_session s'"
  shows "\<exists>s'. session_at (snd (conn_data E ci data now_ms b)) si = Some s' \<and> stays s s' \<and> \<not> s_clean_session s'"
proof (cases "ci < max_connections (e_traits E) \<and> cn_active (conn_at b ci) \<and> \<not> cn_dead (conn_at b ci)")
  case True
  then have c: "ci < max_connections (e_traits E)" "cn_active (conn_at b ci)" "\<not> cn_dead (conn_at b ci)" by simp_all
  obtain e p b' where f: "feed (max_packet_size (e_traits E)) (on_packet E ci) (cn_parser (conn_at b ci)) data (stamped E ci now_ms b) = (e, p, b')"
    by (metis prod_cases3)
  have i: "fp_inv (max_packet_size (e_traits E)) (cn_parser (conn_at b ci))" using wfD(5) [OF wf c(1)] c by (simp add: conn_ok_def)
  have "tied b (stamped E ci now_ms b)" by (simp add: tied_def stamped_conn)
  moreover have "\<exists>s'. session_at (stamped E ci now_ms b) si = Some s' \<and> stays s s' \<and> \<not> s_clean_session s'"
    unfolding stamped_def Let_def by (intro flights.if_intro flights.any_conn flights.elementary s)
  ultimately have "\<exists>s'. session_at b' si = Some s' \<and> stays s s' \<and> \<not> s_clean_session s'"
    using saved.feed_inv [OF i _ _ f, of b si s] serving_stamped [OF wf c(1,2)] c(3) cs by (simp add: stamped_conn)
  then show ?thesis unfolding conn_data_feed [OF c f] Let_def prod.sel by (intro flights.flushed flights.if_intro flights.any_conn flights.noted flights.marked)
qed (use s in \<open>auto simp: conn_data_def\<close>)

section \<open>Acknowledgements\<close>

text \<open>What an acknowledgement of \<open>pid\<close> does to a message in flight.\<close>

definition acked :: "packet_type \<Rightarrow> u16 \<Rightarrow> out_msg \<Rightarrow> out_msg list" where
  "acked ty pid m =
    (if om_packet_id m \<noteq> pid then [m]
     else if ty = PT_puback \<and> om_state m = awaiting_puback \<or> ty = PT_pubcomp \<and> om_state m = awaiting_pubcomp then []
     else if ty = PT_pubrec \<and> om_state m = awaiting_pubrec then [m\<lparr>om_state := awaiting_pubcomp\<rparr>]
     else [m])"

definition ack_flight :: "packet_type \<Rightarrow> u16 \<Rightarrow> out_msg list \<Rightarrow> out_msg list" where
  "ack_flight ty pid ms = concat (map (acked ty pid) ms)"

lemma ack_flight_simps [simp]:
  "ack_flight ty pid [] = []" "ack_flight ty pid (m # ms) = acked ty pid m @ ack_flight ty pid ms"
  "ack_flight ty pid (xs @ ys) = ack_flight ty pid xs @ ack_flight ty pid ys"
  by (simp_all add: ack_flight_def)

lemma ack_flight_other: "(\<And>m. m \<in> set ms \<Longrightarrow> acked ty pid m = [m]) \<Longrightarrow> ack_flight ty pid ms = ms"
  by (induction ms) (simp_all add: ack_flight_def)

lemma essence_sel [simp]:
  "om_packet_id (essence m) = om_packet_id m" "om_state (essence m) = om_state m"
  "essence (m\<lparr>om_state := st\<rparr>) = (essence m)\<lparr>om_state := st\<rparr>"
  by (simp_all add: essence_def)

text \<open>An entry in flight is alone with its identifier.\<close>

lemma flight_split:
  assumes ok: "session_ok T s" and i: "i < length (s_pending s)" "om_state (s_pending s ! i) \<noteq> queued"
  obtains xs ys where "flight s = xs @ [essence (s_pending s ! i)] @ ys"
    "\<And>x. x \<in> set (xs @ ys) \<Longrightarrow> om_packet_id x \<noteq> om_packet_id (s_pending s ! i)"
    "flight (s\<lparr>s_pending := sv_remove_ordered i (s_pending s)\<rparr>) = xs @ ys"
    "\<And>m'. om_state m' \<noteq> queued \<Longrightarrow> flight (s\<lparr>s_pending := (s_pending s)[i := m']\<rparr>) = xs @ [essence m'] @ ys"
proof -
  let ?ps = "s_pending s" let ?a = "take i ?ps" and ?c = "drop (Suc i) ?ps"
  define fly where "fly ms = map essence (filter (\<lambda>m. om_state m \<noteq> queued) ms)" for ms
  have fl: "flight t = fly (s_pending t)" for t :: "'a session" by (simp add: flight_def fly_def)
  have fly: "fly (xs @ ys) = fly xs @ fly ys" for xs ys by (simp add: fly_def)
  have one: "fly (m # ys) = essence m # fly ys" if "om_state m \<noteq> queued" for m ys using that by (simp add: fly_def)
  have ids: "map om_packet_id (fly ms) = in_flight_ids ms" for ms by (simp add: fly_def in_flight_ids_def comp_def)
  have ps: "?ps = ?a @ ?ps ! i # ?c" using i(1) by (rule id_take_nth_drop)
  have "pending_ok (max_pending_per_session T) (max_topic_len T) (max_payload_len T) (?a @ ?ps ! i # ?c)"
    using ok ps by (simp add: session_ok_def)
  then have "om_packet_id (?ps ! i) \<notin> set (in_flight_ids (?a @ ?c))" using i(2) unfolding pending_ok_split by blast
  then have u: "om_packet_id x \<noteq> om_packet_id (?ps ! i)" if "x \<in> set (fly ?a @ fly ?c)" for x
    using that by (metis fly ids image_eqI set_map)
  have "fly ?ps = fly (?a @ ?ps ! i # ?c)" using ps by simp
  moreover have "?ps[i := m'] = ?a @ m' # ?c" for m' using i(1) by (rule upd_conv_take_nth_drop)
  ultimately show ?thesis
    using i u by (intro that [of "fly ?a" "fly ?c"]) (simp_all add: fl fly one sv_remove_ordered_eq)
qed

lemma drop_acks:
  assumes ok: "session_ok T s" and f: "find_pending pid st st s = Some i" and st: "ty = PT_puback \<and> st = awaiting_puback \<or> ty = PT_pubcomp \<and> st = awaiting_pubcomp"
  shows "flight (s\<lparr>s_pending := sv_remove_ordered i (s_pending s)\<rparr>) = ack_flight ty pid (flight s)"
proof -
  have i: "i < length (s_pending s)" "om_packet_id (s_pending s ! i) = pid" "om_state (s_pending s ! i) = st"
    using find_index_Some [OF f [unfolded find_pending_def]] by auto
  then have "om_state (s_pending s ! i) \<noteq> queued" using st by auto
  then obtain xs ys where s: "flight s = xs @ [essence (s_pending s ! i)] @ ys"
    "\<And>x. x \<in> set (xs @ ys) \<Longrightarrow> om_packet_id x \<noteq> pid" "flight (s\<lparr>s_pending := sv_remove_ordered i (s_pending s)\<rparr>) = xs @ ys"
    using flight_split [OF ok i(1)] i(2) by metis
  have "ack_flight ty pid xs = xs" "ack_flight ty pid ys = ys" using s(2) by (auto intro!: ack_flight_other simp: acked_def)
  moreover have "acked ty pid (essence (s_pending s ! i)) = []" using i st by (auto simp: acked_def)
  ultimately show ?thesis using s(1,3) by simp
qed

lemma received_acks:
  assumes ok: "session_ok T s" and f: "find_pending pid awaiting_pubrec awaiting_pubcomp s = Some i"
  shows "flight (s\<lparr>s_pending := (s_pending s)[i := (s_pending s ! i)\<lparr>om_state := awaiting_pubcomp\<rparr>]\<rparr>) = ack_flight PT_pubrec pid (flight s)"
proof -
  let ?m = "s_pending s ! i"
  have i: "i < length (s_pending s)" "om_packet_id ?m = pid" "om_state ?m = awaiting_pubrec \<or> om_state ?m = awaiting_pubcomp"
    using find_index_Some [OF f [unfolded find_pending_def]] by auto
  have q: "om_state ?m \<noteq> queued" "om_state (?m\<lparr>om_state := awaiting_pubcomp\<rparr>) \<noteq> queued" using i(3) by auto
  obtain xs ys where s: "flight s = xs @ [essence ?m] @ ys" "\<And>x. x \<in> set (xs @ ys) \<Longrightarrow> om_packet_id x \<noteq> om_packet_id ?m"
    "\<And>m'. om_state m' \<noteq> queued \<Longrightarrow> flight (s\<lparr>s_pending := (s_pending s)[i := m']\<rparr>) = xs @ [essence m'] @ ys"
    by (rule flight_split [OF ok i(1) q(1)]) blast
  have "ack_flight PT_pubrec pid xs = xs" "ack_flight PT_pubrec pid ys = ys" using s(2) i(2) by (auto intro!: ack_flight_other simp: acked_def)
  moreover have "acked PT_pubrec pid (essence ?m) = [essence (?m\<lparr>om_state := awaiting_pubcomp\<rparr>)]"
    using i by (auto simp: acked_def)
  ultimately show ?thesis using s(1) s(3) [OF q(2)] by simp
qed

lemma no_acks:
  assumes f: "find_pending pid st st' s = None"
    and st: "ty = PT_puback \<and> st = awaiting_puback \<or> ty = PT_pubcomp \<and> st = awaiting_pubcomp \<or> ty = PT_pubrec \<and> st = awaiting_pubrec"
  shows "ack_flight ty pid (flight s) = flight s"
proof (rule ack_flight_other)
  fix m assume "m \<in> set (flight s)"
  then obtain m0 where m: "m0 \<in> set (s_pending s)" "m = essence m0" by (auto simp: flight_def)
  then have "om_packet_id m0 \<noteq> pid \<or> om_state m0 \<noteq> st" using f by (auto simp: find_pending_def find_index_None)
  then show "acked ty pid m = [m]" using st m(2) by (auto simp: acked_def)
qed

lemma session_at_send [simp]: "session_at (send_to E ci pkt b) = session_at b"
  by (rule ext) (auto simp: session_at_def send_to_def transport_send_def notify_defs mark_dead_def Let_def split: prod.split)

lemma on_packet_ack:
  assumes sv: "serving (e_traits E) ci b" and s: "session_on ci si s b" and a: "ack_of fb body = Some (ty, pid)"
  shows "\<exists>s'. session_at (snd (on_packet E ci fb body b)) si = Some s' \<and> flight s' = ack_flight ty pid (flight s)"
proof -
  have ok: "session_ok (e_traits E) s" by (rule session_on_ok [OF servingD(1) [OF sv] s])
  have p: "fixed_flags_valid ty (packet_flags fb)" "packet_type_of fb = ty" "ty \<in> {PT_puback, PT_pubrec, PT_pubcomp}"
    "parse_packet_id_only body = Inr pid" using a by (auto simp: ack_of_def split: if_splits sum.splits)
  have n: "session_at b si = Some s" "cn_session (conn_at b ci) \<noteq> no_session"
    using s by (auto simp: session_on_def session_of_def split: if_splits)
  consider "ty = PT_puback" | "ty = PT_pubrec" | "ty = PT_pubcomp" using p(3) by blast
  then show ?thesis
  proof cases
    case 1
    then show ?thesis using p n drop_acks [OF ok, of pid awaiting_puback _ ty] no_acks [of pid awaiting_puback awaiting_puback s ty]
      by (auto simp: on_packet_def dispatch_def handle_puback_def with_packet_id_def with_session_on [OF s] drop_pending_def
          upd_session_Some session_at_put Let_def split: option.split)
  next
    case 2
    then show ?thesis using p n received_acks [OF ok, of pid] no_acks [of pid awaiting_pubrec awaiting_pubcomp s ty]
      by (auto simp: on_packet_def dispatch_def handle_pubrec_def with_packet_id_def with_session_on [OF s] upd_pending_def
          upd_session_Some session_at_put Let_def split: option.split)
  next
    case 3
    then show ?thesis using p n drop_acks [OF ok, of pid awaiting_pubcomp _ ty] no_acks [of pid awaiting_pubcomp awaiting_pubcomp s ty]
      by (auto simp: on_packet_def dispatch_def handle_pubcomp_def with_packet_id_def with_session_on [OF s] drop_pending_def
          upd_session_Some session_at_put Let_def split: option.split)
  qed
qed

section \<open>Two messages in flight\<close>

text \<open>The sample broker after both clients were sent a message: \<open>a\<close> one at QoS 2, \<open>b\<close>, before leaving, one at QoS 1.\<close>

definition sample_flying :: "(unit, unit) broker" where
  "sample_flying =
     put_session 1 (sample_b\<lparr>s_pending := [sample_msg\<lparr>om_packet_id := 9, om_state := awaiting_puback\<rparr>]\<rparr>)
       (put_session 0 (sample_a\<lparr>s_pending := [sample_msg\<lparr>om_packet_id := 5, om_qos := exactly_once, om_state := awaiting_pubrec\<rparr>]\<rparr>)
          sample_broker)"

abbreviation flying_a :: out_msg where
  "flying_a \<equiv> sample_msg\<lparr>om_packet_id := 5, om_qos := exactly_once, om_state := awaiting_pubrec\<rparr>"

abbreviation flying_b :: out_msg where
  "flying_b \<equiv> sample_msg\<lparr>om_packet_id := 9, om_state := awaiting_puback\<rparr>"

lemma sample_flight: "flight (sample_a\<lparr>s_pending := [flying_a]\<rparr>) = [flying_a]" "flight (sample_b\<lparr>s_pending := [flying_b]\<rparr>) = [flying_b]"
  by (simp_all add: flight_def essence_def sample_msg_def new_out_msg_def)

lemma sample_flying_wf: "wf_broker sample_traits sample_flying"
proof -
  have a: "session_ok sample_traits (sample_a\<lparr>s_pending := [flying_a]\<rparr>)" "session_ok sample_traits (sample_b\<lparr>s_pending := [flying_b]\<rparr>)"
    by (simp_all add: session_ok_def sample_defs connected_def pending_ok_def msg_ok_def in_flight_ids_def sample_filter)
  have "wf_broker sample_traits (put_session 0 (sample_a\<lparr>s_pending := [flying_a]\<rparr>) sample_broker)"
    by (rule wf_put [OF sample_wf, of 0 sample_a]) (simp_all add: a)
  then show ?thesis unfolding sample_flying_def
    by (rule wf_put [of _ _ 1 sample_b]) (simp_all add: a put_session_other)
qed

lemma sample_flying_at:
  "session_at sample_flying 0 = Some (sample_a\<lparr>s_pending := [flying_a]\<rparr>)"
  "session_at sample_flying 1 = Some (sample_b\<lparr>s_pending := [flying_b]\<rparr>)" "conn_at sample_flying = conn_at sample_broker"
proof -
  have 0: "session_at (put_session 0 (sample_a\<lparr>s_pending := [flying_a]\<rparr>) sample_broker)
      = (session_at sample_broker)(0 := Some (sample_a\<lparr>s_pending := [flying_a]\<rparr>))" by (rule session_at_put) simp
  then have 1: "session_at sample_flying = (session_at sample_broker)(0 := Some (sample_a\<lparr>s_pending := [flying_a]\<rparr>),
      1 := Some (sample_b\<lparr>s_pending := [flying_b]\<rparr>))"
    unfolding sample_flying_def by (subst session_at_put [of _ 1 sample_b]) simp_all
  show "session_at sample_flying 0 = Some (sample_a\<lparr>s_pending := [flying_a]\<rparr>)"
    "session_at sample_flying 1 = Some (sample_b\<lparr>s_pending := [flying_b]\<rparr>)" by (simp_all add: 1)
  show "conn_at sample_flying = conn_at sample_broker" by (simp add: sample_flying_def)
qed

section \<open>Properties\<close>

text \<open>C6: the delivery handshake with a subscriber. Whatever packet arrives from the client of a session, the
  messages in flight to it afterwards are those before, in their order, except for what an acknowledgement
  changes: PUBACK ends the QoS 1 message with its identifier, PUBREC moves the QoS 2 message on to await PUBCOMP,
  and PUBCOMP ends it; an acknowledgement of anything else changes nothing.\<close>

theorem outbound_handshake:
  assumes "serving (e_traits E) ci b" "session_on ci si s b"
  shows "\<exists>s'. session_at (snd (on_packet E ci fb body b)) si = Some s' \<and>
    (case ack_of fb body of None \<Rightarrow> subseq (flight s) (flight s') | Some (ty, pid) \<Rightarrow> flight s' = ack_flight ty pid (flight s))"
proof (cases "ack_of fb body")
  case None
  have "cn_session (conn_at b ci) \<noteq> no_session" "session_at b si = Some s"
    using assms(2) by (auto simp: session_on_def session_of_def split: if_splits)
  then have "\<exists>s'. session_at (snd (on_packet E ci fb body b)) si = Some s' \<and> stays s s'"
    by (intro own.packet_handled own.publish_handled own.pubrel_handled) (use None in \<open>auto intro: stays_trans stays_inbound\<close>)
  then show ?thesis using None by (auto simp: stays_def)
next
  case (Some a)
  then show ?thesis using on_packet_ack [OF assms, of fb body] by (cases a) auto
qed

theorem outbound_handshake_witness:
  "\<exists>s'. session_at (snd (on_packet sample_env 0 0x50 [0, 5] sample_flying)) 0 = Some s' \<and>
     flight s' = [flying_a\<lparr>om_state := awaiting_pubcomp\<rparr>]"
proof -
  have "serving sample_traits 0 sample_flying" by (simp add: serving_def sample_flying_wf sample_flying_at)
  moreover have "session_on 0 0 (sample_a\<lparr>s_pending := [flying_a]\<rparr>) sample_flying"
    by (simp add: session_on_def session_of_def sample_flying_at no_session_def)
  moreover have "ack_of 0x50 [0, 5] = Some (PT_pubrec, 5)" by code_simp
  ultimately show ?thesis
    using outbound_handshake [of sample_env 0 sample_flying 0 _ "0x50" "[0, 5]"] by (fastforce simp: sample_flight acked_def)
qed

text \<open>C7: messages in flight are not lost. In a well-formed state - every reachable one is - a persistent session keeps every message in
  flight, in order, through a publish of the application, a connection opened or closed, whatever bytes arrive
  from the client of another session, a packet on a connection without a session while there is room for one - unless it is a
  CONNECT of the session's own client - and, where sessions do not expire, the passing of time.\<close>

theorem inflight_survives:
  assumes wf: "wf_broker (e_traits E) b" and s: "session_at b si = Some s" "\<not> s_clean_session s"
    and step: "(\<exists>topic payload q retain. b' = snd (publish E topic payload q retain b)) \<or> b' = conn_closed E ci b
      \<or> b' = snd (conn_open E ci now_ms b) \<or> (session_expiry_ms (e_traits E) = 0 \<and> b' = tick E now_ms b)
      \<or> (cn_session (conn_at b ci) \<notin> {no_session, of_nat si} \<and> b' = snd (conn_data E ci data now_ms b))
      \<or> (fresh_conn (e_traits E) ci b \<and> \<not> pool_full (b_sessions b) \<and> (\<forall>p. parse_connect body = Inr p \<longrightarrow> cp_client_id p \<noteq> s_client_id s)
          \<and> b' = snd (on_packet E ci fb body b))"
  shows "\<exists>s'. session_at b' si = Some s' \<and> s_client_id s' = s_client_id s \<and> subseq (flight s) (flight s')"
proof -
  have b: "\<exists>s'. session_at b si = Some s' \<and> stays s s' \<and> \<not> s_clean_session s'" using s by simp
  have "\<exists>s'. session_at b' si = Some s' \<and> stays s s' \<and> \<not> s_clean_session s'"
    using step
  proof (elim disjE exE conjE)
    assume c: "fresh_conn (e_traits E) ci b" "\<not> pool_full (b_sessions b)" "\<forall>p. parse_connect body = Inr p \<longrightarrow> cp_client_id p \<noteq> s_client_id s"
      "b' = snd (on_packet E ci fb body b)"
    show ?thesis unfolding c(4) by (rule flights.connection_begun [OF b c(1,2)]) (use c(3) in blast)
  next
    assume c: "cn_session (conn_at b ci) \<notin> {no_session, of_nat si}" "b' = snd (conn_data E ci data now_ms b)"
    show ?thesis unfolding c(2) by (rule flight_conn_data [OF wf c(1) b])
  qed (simp_all only: flights.published [OF b] flights.conn_ended [OF b] flights.conn_begun [OF b] flights.ticked [OF b])
  then show ?thesis by (auto simp: stays_def)
qed

theorem inflight_survives_witness:
  "\<exists>s'. session_at (snd (conn_data sample_env 0 [0x40, 2, 0, 9] 1 sample_flying)) 1 = Some s'
     \<and> s_client_id s' = [0x62] \<and> subseq [flying_b] (flight s')"
proof -
  have "cn_session (conn_at sample_flying 0) \<notin> {no_session, of_nat 1}" by (simp add: sample_flying_at no_session_def)
  moreover have "\<not> s_clean_session (sample_b\<lparr>s_pending := [flying_b]\<rparr>)" by simp
  moreover have "wf_broker (e_traits sample_env) sample_flying" by (simp add: sample_flying_wf)
  ultimately have "\<exists>s'. session_at (snd (conn_data sample_env 0 [0x40, 2, 0, 9] 1 sample_flying)) 1 = Some s'
      \<and> s_client_id s' = s_client_id (sample_b\<lparr>s_pending := [flying_b]\<rparr>) \<and> subseq (flight (sample_b\<lparr>s_pending := [flying_b]\<rparr>)) (flight s')"
    by (intro inflight_survives [where E = sample_env and ci = 0 and now_ms = 1 and data = "[0x40, 2, 0, 9]", OF _ sample_flying_at(2)]) blast+
  then show ?thesis unfolding sample_flight by (simp add: sample_b_def)
qed

end
