(* ===== verification/Broker_Redelivery.thy ===== *)
theory Broker_Redelivery
  imports Broker_Steady
begin

text \<open>
  Exactly once for inbound QoS 2 messages (\<open>handle_publish\<close> and \<open>handle_pubrel\<close> of \<open>broker/broker.hpp\<close>). The identifier of
  a routed message stays in the table of its session until its PUBREL, whatever happens in between, except that a
  full table forgets its oldest identifier. \<open>recent pid n s\<close> says that the table holds \<open>pid\<close> and at most \<open>n\<close>
  identifiers that came after it; \<open>since\<close> relates the state after the message was routed to those that may follow
  while the identifier is remembered.
\<close>

section \<open>The table\<close>











section \<open>What may come in between\<close>





section \<open>The identifier is remembered\<close>














section \<open>Properties\<close>


text \<open>With room for two identifiers: 9 is routed, 11 pushes out 7, and 9 is repeated.\<close>

definition two_ids :: "(unit, unit) env" where
  "two_ids = sample_env\<lparr>e_traits := sample_traits\<lparr>max_inbound_qos2 := 2\<rparr>\<rparr>"

lemma two_ids_sel [simp]: "e_traits two_ids = sample_traits\<lparr>max_inbound_qos2 := 2\<rparr>"
  by (simp add: two_ids_def)



end
