(* ===== verification/Broker_Output.thy ===== *)
theory Broker_Output
  imports Broker_Talks Broker_Subs Frame_Delivery
begin

text \<open>
  What the broker may say: the type of the packets it hands to its transport. \<open>server_packet\<close> lists the
  packets a server may send, with the fields each must have; \<open>speaks\<close> says that the broker has sent nothing
  else so far, and that what it keeps to send later - queued messages, wills and retained messages - has
  the names and identifiers such packets need. Every operation keeps \<open>speaks\<close>.
\<close>

section \<open>Packets of a server\<close>

inductive server_packet :: "bytes \<Rightarrow> bool" where
  sp_connack: "server_packet (packet_bytes (make_first_byte PT_connack 0) [if sp then 1 else 0, connack_value code])"
| sp_publish: "topic_name_valid topic \<Longrightarrow> (q = at_most_once \<longrightarrow> \<not> dup) \<Longrightarrow> (q \<noteq> at_most_once \<longrightarrow> pid \<noteq> 0) \<Longrightarrow>
    length (publish_body topic payload q pid) \<le> max_remaining_length \<Longrightarrow>
    server_packet (packet_bytes (make_first_byte PT_publish (publish_flags q retain dup)) (publish_body topic payload q pid))"
| sp_ack: "type \<in> {PT_puback, PT_pubrec, PT_pubcomp, PT_unsuback} \<Longrightarrow> pid \<noteq> 0 \<Longrightarrow>
    server_packet (packet_bytes (make_first_byte type 0) (u16_bytes pid))"
| sp_pubrel: "pid \<noteq> 0 \<Longrightarrow> server_packet (packet_bytes (make_first_byte PT_pubrel 2) (u16_bytes pid))"
| sp_suback: "pid \<noteq> 0 \<Longrightarrow> codes \<noteq> [] \<Longrightarrow> set codes \<subseteq> {0, 1, 2, suback_failure} \<Longrightarrow> 2 + length codes \<le> max_remaining_length \<Longrightarrow>
    server_packet (packet_bytes (make_first_byte PT_suback 0) (u16_bytes pid @ codes))"
| sp_pingresp: "server_packet (packet_bytes (make_first_byte PT_pingresp 0) [])"

definition name_ok :: "traits \<Rightarrow> bytes \<Rightarrow> bool" where
  "name_ok T t \<longleftrightarrow> topic_name_valid t \<and> length t \<le> max_topic_len T"

definition msg_sendable :: "traits \<Rightarrow> out_msg \<Rightarrow> bool" where
  "msg_sendable T m \<longleftrightarrow> name_ok T (om_topic m) \<and> om_qos m \<noteq> at_most_once \<and> (om_state m \<noteq> queued \<longrightarrow> om_packet_id m \<noteq> 0)"

definition session_sendable :: "traits \<Rightarrow> 'ctx session \<Rightarrow> bool" where
  "session_sendable T s \<longleftrightarrow> list_all (msg_sendable T) (s_pending s) \<and> (s_has_will s \<longrightarrow> name_ok T (s_will_topic s))"

definition names_ok :: "traits \<Rightarrow> retained_store \<Rightarrow> bool" where
  "names_ok T st \<longleftrightarrow> (\<forall>ri e. pool_at st ri = Some e \<longrightarrow> name_ok T (re_topic e))"

definition speaks :: "traits \<Rightarrow> ('ctx, 'tr) broker \<Rightarrow> bool" where
  "speaks T b \<longleftrightarrow> (\<forall>ci pkt ok. Sent ci pkt ok \<in> set (b_trace b) \<longrightarrow> server_packet pkt)
     \<and> (\<forall>si s. session_at b si = Some s \<longrightarrow> session_sendable T s)
     \<and> names_ok T (b_retained b)"

named_theorems speak \<open>steps after which the broker has still only sent packets of a server\<close>

text \<open>What the builders return.\<close>

lemma publish_pkt_server:
  assumes "name_ok T topic" "q = at_most_once \<longrightarrow> \<not> dup" "q \<noteq> at_most_once \<longrightarrow> pid \<noteq> 0" "publish_pkt T topic payload q retain dup pid \<noteq> []"
  shows "server_packet (publish_pkt T topic payload q retain dup pid)"
proof -
  have "length topic \<le> max_utf8_len" using assms(1) by (auto simp: name_ok_def topic_name_valid_def split: if_splits)
  then show ?thesis using assms build_publish_bytes [of "out_size T" "out_buf T" topic payload q retain dup pid]
    by (auto simp: publish_pkt_def Let_def name_ok_def split: if_splits intro!: sp_publish)
qed

lemma id_pkt_server [simp]:
  "type \<in> {PT_puback, PT_pubrec, PT_pubcomp, PT_unsuback, PT_pubrel} \<Longrightarrow> pid \<noteq> 0 \<Longrightarrow> server_packet (id_pkt T type pid)"
  using sp_ack [of type pid] sp_pubrel [of pid] by (auto simp: id_pkt_bytes)

lemma connack_pkt_bytes:
  "connack_pkt T present code = packet_bytes (make_first_byte PT_connack 0) [if present then 1 else 0, connack_value code]"
  using build_connack_bytes [of "out_size T" "out_buf T" present code] out_size_stored [of T]
  by (simp add: connack_pkt_def stored_body_max_def)

lemma connack_pkt_server [simp]: "server_packet (connack_pkt T present code)"
  unfolding connack_pkt_bytes by (rule sp_connack)

lemma pingresp_pkt_server [simp]: "server_packet (pingresp_pkt T)"
  using build_pingresp_bytes [of "out_size T" "out_buf T"] out_size_stored [of T]
  by (simp add: pingresp_pkt_def stored_body_max_def packet_overhead_def sp_pingresp)

section \<open>Elementary steps\<close>

lemma speaks_same:
  "speaks T b \<Longrightarrow> b_sessions c = b_sessions b \<Longrightarrow> b_retained c = b_retained b \<Longrightarrow> b_trace c = b_trace b \<Longrightarrow> speaks T c"
  by (simp add: speaks_def session_at_def)

lemma speaks_quiet [speak]:
  assumes "speaks T b"
  shows "speaks T (fail b)" "speaks T (upd_conn ci f b)" "speaks T (mark_dead ci b)" "speaks T (b\<lparr>b_now_ms := t\<rparr>)"
    "speaks T (b\<lparr>b_disconnect_order := o'\<rparr>)" "speaks T (b\<lparr>b_auto_id_counter := k\<rparr>)"
  by (rule speaks_same [OF assms], (simp_all add: fail_def mark_dead_def)[3])+

lemma speaks_logged [speak]:
  assumes "speaks T b" shows "speaks T (notify e b)" "speaks T (transport_close E ci b)"
  using assms by (auto simp: speaks_def notify_def transport_close_def session_at_def)

lemma speaks_notes [speak]:
  assumes "speaks T b"
  shows "speaks T (notify_conn E' k ci b)" "speaks T (notify_violation ci e b)" "speaks T (notify_refused ci cid code b)"
    "speaks T (notify_session k s b)" "speaks T (notify_denied k s t b)" "speaks T (notify_topic k t b)" "speaks T (notify_drop s t q e b)"
    "speaks T (violation ci e b)"
  using assms by (simp_all add: notify_defs violation_def speak)

lemma speaks_transport_send:
  "speaks T b \<Longrightarrow> server_packet pkt \<Longrightarrow> speaks T (fst (transport_send E ci pkt b))"
  by (auto simp: speaks_def transport_send_def session_at_def split: prod.split)

lemma speaks_send [speak]:
  assumes "speaks T b" "pkt \<noteq> [] \<Longrightarrow> server_packet pkt"
  shows "speaks T (fst (try_send_to E ci pkt b))" "speaks T (send_to E ci pkt b)"
  using assms speaks_transport_send [of T b pkt E ci] by (auto simp: try_send_to_def send_to_def Let_def split: prod.split intro!: speak)

lemma speaks_session: "speaks T b \<Longrightarrow> session_at b si = Some s \<Longrightarrow> session_sendable T s"
  by (auto simp: speaks_def)

lemma speaks_put [speak]:
  assumes "speaks T b" "session_sendable T s" shows "speaks T (put_session si s b)"
proof -
  have "session_sendable T t" if "session_at (put_session si s b) sj = Some t" for sj t
    using that assms by (cases "session_at b si")
      (auto simp: speaks_def session_at_def put_session_def pool_put_def pool_at_def nth_list_update split: if_splits)
  then show ?thesis using assms(1) by (simp add: speaks_def)
qed

lemma speaks_release [speak]: "speaks T b \<Longrightarrow> speaks T (release_session si b)"
  by (simp add: speaks_def session_at_release) (simp add: release_session_def)

lemma speaks_with_session [speak]:
  assumes "speaks T b" "\<And>s. session_at b si = Some s \<Longrightarrow> session_sendable T s \<Longrightarrow> speaks T (k s)"
  shows "speaks T (with_session si b k)"
  using assms by (auto simp: with_session_def split: option.split intro: speak dest: speaks_session)

lemma speaks_with_session_of [speak]:
  assumes "speaks T b" "\<And>si s. session_at b si = Some s \<Longrightarrow> session_sendable T s \<Longrightarrow> speaks T (k si s)"
  shows "speaks T (with_session_of ci b k)"
  using assms by (auto simp: with_session_of_def split: option.split intro: speak)

lemma speaks_upd_session [speak]:
  assumes "speaks T b" "\<And>s. session_sendable T s \<Longrightarrow> session_sendable T (f s)" shows "speaks T (upd_session si f b)"
  unfolding upd_session_def using assms by (auto intro: speak)

section \<open>Queues, routing and replay\<close>

lemma sendable_same:
  "session_sendable T s \<Longrightarrow> s_pending s' = s_pending s \<Longrightarrow> s_has_will s' = s_has_will s \<Longrightarrow> s_will_topic s' = s_will_topic s \<Longrightarrow>
   session_sendable T s'"
  by (simp add: session_sendable_def)

lemma sendable_at: "session_sendable T s \<Longrightarrow> i < length (s_pending s) \<Longrightarrow> msg_sendable T (s_pending s ! i)"
  by (simp add: session_sendable_def list_all_length)

lemma sendable_update:
  assumes "session_sendable T s" "i < length (s_pending s) \<Longrightarrow> msg_sendable T (s_pending s ! i) \<Longrightarrow> msg_sendable T (f (s_pending s ! i))"
  shows "session_sendable T (s\<lparr>s_pending := (s_pending s)[i := f (s_pending s ! i)]\<rparr>)"
proof -
  have "msg_sendable T ((s_pending s)[i := f (s_pending s ! i)] ! n)" if "n < length (s_pending s)" for n
    using that sendable_at [OF assms(1)] assms(2) by (cases "n = i") simp_all
  then show ?thesis using assms(1) by (simp add: session_sendable_def list_all_length)
qed

lemma sendable_remove: "session_sendable T s \<Longrightarrow> session_sendable T (s\<lparr>s_pending := sv_remove_ordered i (s_pending s)\<rparr>)"
  by (cases "i < length (s_pending s)")
    (auto simp: session_sendable_def list_all_iff sv_remove_ordered_eq sv_remove_ordered_def dest: in_set_takeD in_set_dropD)

lemma speaks_upd_pending [speak]:
  assumes "speaks T b" "\<And>m. msg_sendable T m \<Longrightarrow> msg_sendable T (f m)" shows "speaks T (upd_pending si i f b)"
  unfolding upd_pending_def using assms by (auto intro!: speak sendable_update)

lemma speaks_drop_pending [speak]: "speaks T b \<Longrightarrow> speaks T (drop_pending si i b)"
  unfolding drop_pending_def by (auto intro!: speak sendable_remove)

lemma alloc_nonzero:
  "alloc_packet_id s = Some (pid, s') \<Longrightarrow> pid \<noteq> 0 \<and> s_pending s' = s_pending s \<and> s_has_will s' = s_has_will s \<and> s_will_topic s' = s_will_topic s"
  by (auto simp: alloc_packet_id_def split: option.splits dest: alloc_loop_Some)

text \<open>What a round needs to know of the entry it works on.\<close>

lemma round_facts:
  assumes b: "speaks T b" and s: "session_at b si = Some s" "i < length (s_pending s)"
  defines "m \<equiv> s_pending s ! i"
  shows "om_state m \<noteq> queued \<Longrightarrow> om_packet_id m \<noteq> 0"
    "alloc_packet_id s = Some (pid, s') \<Longrightarrow> session_sendable T s' \<and> pid \<noteq> 0"
    "pid \<noteq> 0 \<Longrightarrow> publish_pkt T (om_topic m) (om_payload m) (om_qos m) retain dup pid \<noteq> [] \<Longrightarrow>
      server_packet (publish_pkt T (om_topic m) (om_payload m) (om_qos m) retain dup pid)"
proof -
  have m: "msg_sendable T m" unfolding m_def by (rule sendable_at [OF speaks_session [OF b s(1)] s(2)])
  then show "om_state m \<noteq> queued \<Longrightarrow> om_packet_id m \<noteq> 0"
    "pid \<noteq> 0 \<Longrightarrow> publish_pkt T (om_topic m) (om_payload m) (om_qos m) retain dup pid \<noteq> [] \<Longrightarrow>
      server_packet (publish_pkt T (om_topic m) (om_payload m) (om_qos m) retain dup pid)"
    by (auto simp: msg_sendable_def intro!: publish_pkt_server)
  show "alloc_packet_id s = Some (pid, s') \<Longrightarrow> session_sendable T s' \<and> pid \<noteq> 0"
    using alloc_nonzero [of s pid s'] sendable_same [OF speaks_session [OF b s(1)], of s'] by auto
qed

lemma speaks_pump_step: "speaks (e_traits E) b \<Longrightarrow> speaks (e_traits E) (snd (snd (pump_step E si i b)))"
proof (cases "\<exists>s. session_at b si = Some s \<and> i < length (s_pending s)")
  case True
  assume b: "speaks (e_traits E) b"
  obtain s where s: "session_at b si = Some s" "i < length (s_pending s)" using True by blast
  note f = round_facts [OF b s]
  show ?thesis using b s
    by (auto simp: pump_step_def Let_def f in_flight_state_def msg_sendable_def split: option.split prod.split intro!: speak f(3) dest: f(2))
qed (auto simp: pump_step_def split: option.split intro: speak)

lemma speaks_resume_step: "speaks (e_traits E) b \<Longrightarrow> speaks (e_traits E) (snd (snd (resume_step E si i b)))"
proof (cases "\<exists>s. session_at b si = Some s \<and> i < length (s_pending s)")
  case True
  assume b: "speaks (e_traits E) b"
  obtain s where s: "session_at b si = Some s" "i < length (s_pending s)" using True by blast
  note f = round_facts [OF b s]
  show ?thesis using b s
    by (auto simp: resume_step_def Let_def f in_flight_state_def msg_sendable_def speaks_session split: option.split prod.split intro!: speak f(3) dest: f(2))
qed (auto simp: resume_step_def split: option.split intro: speak)

lemma speaks_loops: 
  shows "speaks (e_traits E) b \<Longrightarrow> speaks (e_traits E) (pump_loop E si i b)"
    and "speaks (e_traits E) b \<Longrightarrow> speaks (e_traits E) (resume_loop E si i b)"
proof -
  show "speaks (e_traits E) b \<Longrightarrow> speaks (e_traits E) (pump_loop E si i b)"
  proof (induction E si i b rule: pump_loop.induct)
    case (1 E si i b)
    obtain go j b' where s: "pump_step E si i b = (go, j, b')" by (metis prod_cases3)
    then show ?case using speaks_pump_step [OF 1(2), of si i] 1(1) [OF s [symmetric]] by (simp add: pump_loop.simps [of E si i b])
  qed
  show "speaks (e_traits E) b \<Longrightarrow> speaks (e_traits E) (resume_loop E si i b)"
  proof (induction E si i b rule: resume_loop.induct)
    case (1 E si i b)
    obtain go j b' where s: "resume_step E si i b = (go, j, b')" by (metis prod_cases3)
    then show ?case using speaks_resume_step [OF 1(2), of si i] 1(1) [OF s [symmetric]] by (simp add: resume_loop.simps [of E si i b])
  qed
qed

lemma speaks_queue [speak]:
  assumes "speaks (e_traits E) b" shows "speaks (e_traits E) (pump_session E si b)" "speaks (e_traits E) (resume_session E si b)"
  using assms by (simp_all add: pump_session_def resume_session_def speaks_loops)

lemma speaks_enqueue [speak]:
  assumes "speaks (e_traits E) b" "name_ok (e_traits E) topic" "q \<noteq> at_most_once" shows "speaks (e_traits E) (enqueue E si topic payload q retain b)"
  unfolding enqueue_def
proof (intro speak, goal_cases)
  case (2 s)
  have "session_sendable (e_traits E) (s\<lparr>s_pending := s_pending s @ [new_out_msg\<lparr>om_topic := topic, om_payload := p, om_qos := q, om_retain := retain\<rparr>]\<rparr>)" for p
    using 2(2) assms(2,3) by (simp add: session_sendable_def msg_sendable_def new_out_msg_def)
  then show ?case using assms
    by (auto simp: sv_emplace_back_def Let_def fixed_assign_def name_ok_def split: option.split intro!: speak)
qed (rule assms(1))

lemma speaks_retained: "speaks T b \<Longrightarrow> names_ok T r \<Longrightarrow> speaks T (b\<lparr>b_retained := r\<rparr>)"
  by (auto simp: speaks_def session_at_def)

lemma names_release: "names_ok T st \<Longrightarrow> names_ok T (pool_release i st)"
  by (simp add: names_ok_def)

lemma names_slots: "names_ok T st \<longleftrightarrow> (\<forall>e. Some e \<in> set (slots st) \<longrightarrow> name_ok T (re_topic e))"
  by (fastforce simp: names_ok_def pool_at_def in_set_conv_nth split: if_splits)

lemma names_put: "names_ok T st \<Longrightarrow> name_ok T (re_topic e) \<Longrightarrow> names_ok T (pool_put i e st)"
  using set_update_subset_insert [of "slots st" i "Some e"] by (auto simp: names_slots pool_put_def)

lemma names_write:
  assumes "names_ok T st" shows "names_ok T (entry_write mp payload q i st)"
proof (cases "pool_at st i")
  case (Some e)
  then have "name_ok T (re_topic e)" using assms unfolding names_ok_def by blast
  then show ?thesis using Some names_put [OF assms] by (simp add: entry_write_def)
qed (simp add: entry_write_def assms)

text \<open>A slot just allocated has no name yet; it is given one before anything else happens.\<close>

lemma names_alloc_put:
  assumes "names_ok T st" "pool_alloc d st = (st', Some i)" "name_ok T (re_topic e)" shows "names_ok T (pool_put i e st')"
  using assms set_update_subset_insert [of "slots st" i "Some e"]
  by (auto simp: names_slots pool_put_def pool_alloc_def split: option.splits)

lemma names_set:
  assumes st: "names_ok T st" and t: "name_ok T topic"
  shows "names_ok T (fst (retained_set (max_topic_len T) mp topic payload q st))"
proof -
  obtain st' r where al: "pool_alloc new_entry st = (st', r)" by fastforce
  have f: "fst (fixed_assign (max_topic_len T) topic []) = topic" using t by (simp add: fixed_assign_def name_ok_def)
  have "names_ok T st'" if "r = None" using that al st by (auto simp: pool_alloc_def split: option.splits)
  moreover have "names_ok T (pool_put i (new_entry\<lparr>re_topic := topic\<rparr>) st')" if "r = Some i" for i
    by (rule names_alloc_put [OF st al [unfolded that]]) (simp add: t)
  ultimately show ?thesis
    by (cases r; cases "retained_find topic st") (simp_all add: retained_set_def Let_def al f names_write names_release st)
qed

lemma names_remove: "names_ok T st \<Longrightarrow> names_ok T (retained_remove topic st)"
  by (simp add: retained_remove_def names_release split: option.split)

lemma speaks_apply_retain [speak]:
  assumes "speaks (e_traits E) b" "name_ok (e_traits E) topic" shows "speaks (e_traits E) (fst (apply_retain E topic payload q b))"
proof -
  have r: "names_ok (e_traits E) (b_retained b)" using assms(1) by (simp add: speaks_def)
  note speaks_retained [OF assms(1) names_remove [OF r]] speaks_retained [OF assms(1) names_set [OF r assms(2)]]
  then show ?thesis by (simp add: apply_retain_def Let_def split_beta speak)
qed

lemma speaks_for_each:
  assumes "\<And>i b. speaks T b \<Longrightarrow> speaks T (f i b)" "speaks T b" shows "speaks T (pool_for_each n get f b)"
  unfolding pool_for_each_def by (rule fold_upt_invariant) (use assms in auto)

lemma speaks_route_publish [speak]:
  assumes "speaks (e_traits E) b" "name_ok (e_traits E) topic" shows "speaks (e_traits E) (route_publish E topic payload q b)"
  unfolding route_publish_def
  by (rule speaks_for_each [OF _ assms(1)]) (use assms(2) in \<open>auto simp: route_one_def Let_def split: prod.split intro!: speak publish_pkt_server\<close>)

lemma speaks_replay_one: "speaks (e_traits E) (snd (snd st)) \<Longrightarrow> speaks (e_traits E) (snd (snd (replay_one E ci si ri st)))"
proof -
  assume s: "speaks (e_traits E) (snd (snd st))"
  obtain index paused b where st: "st = (index, paused, b)" by (metis prod_cases3)
  have b: "speaks (e_traits E) b" "\<And>e. pool_at (b_retained b) ri = Some e \<Longrightarrow> name_ok (e_traits E) (re_topic e)"
    using s by (auto simp: st speaks_def names_ok_def)
  show ?thesis
    using b by (auto simp: st replay_one_def Let_def session_sendable_def split: option.split prod.split intro!: speak publish_pkt_server)
qed

lemma speaks_replay_retained [speak]: "speaks (e_traits E) b \<Longrightarrow> speaks (e_traits E) (replay_retained E ci si b)"
proof -
  assume b: "speaks (e_traits E) b"
  let ?r = "retained_for_each (max_retained (e_traits E)) (\<lambda>(index, paused, b). b_retained b) (replay_one E ci si) (0, False, b)"
  have "speaks (e_traits E) (snd (snd ?r))"
    unfolding retained_for_each_def pool_for_each_def
    by (rule fold_upt_invariant) (use b in \<open>auto intro: speaks_replay_one\<close>)
  then show ?thesis unfolding replay_retained_def
    by (auto split: prod.split intro!: speak simp: clear_retain_pending_def session_sendable_def)
qed

lemma speaks_publish_will [speak]:
  "speaks (e_traits E) b \<Longrightarrow> name_ok (e_traits E) (s_will_topic s) \<Longrightarrow> speaks (e_traits E) (publish_will E s b)"
  by (auto simp: publish_will_def Let_def intro!: speak)

section \<open>Teardown\<close>

lemma speaks_teardown [speak]: "speaks (e_traits E) b \<Longrightarrow> speaks (e_traits E) (teardown E ci b)"
proof -
  let ?T = "e_traits E"
  assume b: "speaks ?T b"
  have gone: "speaks ?T (with_session si b (\<lambda>s. if s_clean_session s then release_session si b else b))" if "speaks ?T b" for si b
    using that by (auto intro!: speak)
  have willed: "speaks ?T (with_session si b (\<lambda>s. if s_has_will s then publish_will E s (put_session si (s\<lparr>s_has_will := False\<rparr>) b) else b))"
    if "speaks ?T b" for si b
    using that by (auto intro!: speak simp: session_sendable_def)
  have left: "speaks ?T (upd_session si (\<lambda>s. s\<lparr>s_conn := c, s_disconnect_ms := t, s_disconnect_order := k\<rparr>) b)" if "speaks ?T b" for si c t k b
    using that by (auto intro!: speak simp: session_sendable_def)
  have shut: "speaks ?T (closed E ci n b)" if "speaks ?T b" for n b using that by (simp add: closed_def speak)
  have "speaks ?T (notify_conn E connection_closed ci b)" by (intro speak b)
  then show ?thesis unfolding teardown_steps Let_def
    by (intro shut) (cases "session_of b (conn_at b ci)"; simp only: option.case; intro gone willed left speaks_quiet)
qed

lemma speaks_flush_pass: "speaks (e_traits E) b \<Longrightarrow> speaks (e_traits E) (snd (flush_pass E b))"
  unfolding flush_pass_def by (rule fold_upt_invariant [where P = "\<lambda>st. speaks (e_traits E) (snd st)"]) (auto intro: speaks_teardown)

lemma speaks_flush_dead [speak]: "speaks (e_traits E) b \<Longrightarrow> speaks (e_traits E) (flush_dead E b)"
proof (induction E b rule: flush_dead.induct)
  case (1 E b)
  obtain again b' where s: "flush_pass E b = (again, b')" by fastforce
  then show ?case using speaks_flush_pass [OF 1(2)] 1(1) [OF s [symmetric]] by (simp add: flush_dead.simps [of E b])
qed

section \<open>Packet handlers\<close>

lemma speaks_refuse [speak]: "speaks T b \<Longrightarrow> speaks T (refuse E ci code cid b)"
  by (simp add: refuse_def speak)

lemma speaks_generate [speak]: "speaks T b \<Longrightarrow> speaks T (fst (generate_client_id b))"
  by (auto simp: generate_client_id_def split: option.split intro: speak)

text \<open>A client is admitted with a will only if the will has a name that can be stored.\<close>

lemma speaks_connect_admit:
  assumes "speaks (e_traits E) b" shows "speaks (e_traits E) (fst (connect_admit E ci p b))"
    and "snd (connect_admit E ci p b) \<noteq> None \<Longrightarrow> cp_has_will p \<Longrightarrow> name_ok (e_traits E) (cp_will_topic p)"
proof -
  show "speaks (e_traits E) (fst (connect_admit E ci p b))" using assms by (simp add: connect_admit_def Let_def split_beta speak)
  assume "snd (connect_admit E ci p b) \<noteq> None" "cp_has_will p"
  then show "name_ok (e_traits E) (cp_will_topic p)"
    by (simp add: connect_admit_def Let_def split_beta name_ok_def not_less split: if_splits)
qed

lemma speaks_connect_takeover: "speaks (e_traits E) b \<Longrightarrow> speaks (e_traits E) (fst (connect_takeover E cid b))"
  by (auto simp: connect_takeover_def Let_def split: option.split intro!: speak)

lemma speaks_alloc_session: "speaks T b \<Longrightarrow> speaks T (fst (alloc_session E b))"
proof -
  assume b: "speaks T b"
  obtain p r where al: "pool_alloc (new_session (sec_ctx (e_sec E))) (b_sessions b) = (p, r)" by fastforce
  have new: "session_sendable T (new_session c)" for c :: 'a by (simp add: session_sendable_def new_session_def)
  have "session_sendable T s" if "pool_at p si = Some s" for si s
  proof -
    have "pool_at (b_sessions b) si = Some s \<or> s = new_session (sec_ctx (e_sec E))"
      using al that by (cases "first_free (slots (b_sessions b)) 0 = Some si")
        (auto simp: pool_alloc_def pool_at_def nth_list_update split: option.splits if_splits)
    then show ?thesis using b new by (auto simp: speaks_def session_at_def)
  qed
  then show ?thesis using b by (simp add: alloc_session_def al) (simp add: speaks_def session_at_def)
qed

lemma speaks_alloc_or_evict: "speaks T b \<Longrightarrow> speaks T (fst (alloc_or_evict E b))"
  using speaks_alloc_session [of T b E]
  by (auto simp: alloc_or_evict_def split: prod.split option.split intro!: speaks_alloc_session speak)

lemma speaks_connect_session: "speaks T b \<Longrightarrow> speaks T (fst (connect_session E cid clean existing b))"
  using speaks_alloc_or_evict [of T b E] speaks_alloc_or_evict [of T "release_session (the existing) b" E]
  by (auto simp: connect_session_def Let_def speak session_sendable_def split: prod.split option.split bool.split intro!: speak)

lemma speaks_connect_attach:
  assumes "speaks (e_traits E) b" "cp_has_will p \<Longrightarrow> name_ok (e_traits E) (cp_will_topic p)"
  shows "speaks (e_traits E) (connect_attach E ci p ctx present si b)"
proof -
  have "session_sendable (e_traits E) (arm_session (e_traits E) ci p ctx s)" if "session_sendable (e_traits E) s" for s
    using that assms(2) by (auto simp: session_sendable_def arm_session_def Let_def fixed_assign_def name_ok_def)
  then show ?thesis using assms(1) unfolding connect_attach_def Let_def by (auto intro!: speak)
qed

lemma speaks_handle_connect [speak]:
  assumes b: "speaks (e_traits E) b" shows "speaks (e_traits E) (handle_connect E ci body b)"
proof (cases "cn_session (conn_at b ci) \<noteq> no_session \<or> (\<exists>e. parse_connect body = Inl e)")
  case True
  then show ?thesis using b by (auto simp: handle_connect_def intro!: speak)
next
  case False
  then obtain p where p: "parse_connect body = Inr p" "cn_session (conn_at b ci) = no_session" by (metis sum.exhaust)
  obtain b1 r where adm: "connect_admit E ci p b = (b1, r)" by fastforce
  have b1: "speaks (e_traits E) b1" "r \<noteq> None \<Longrightarrow> cp_has_will p \<Longrightarrow> name_ok (e_traits E) (cp_will_topic p)"
    using speaks_connect_admit [OF b, of ci p] adm by simp_all
  show ?thesis
  proof (cases r)
    case (Some a)
    obtain cid ctx where a: "a = (cid, ctx)" by fastforce
    obtain b2 ex where t: "connect_takeover E cid b1 = (b2, ex)" by fastforce
    obtain b3 pres so where c: "connect_session E cid (cp_clean_session p) ex b2 = (b3, pres, so)" by (metis prod_cases3)
    have "speaks (e_traits E) b3"
      using speaks_connect_takeover [OF b1(1), of cid] speaks_connect_session [of "e_traits E" b2 E cid "cp_clean_session p" ex] t c by simp
    then show ?thesis using p adm Some a t c b1(2)
      by (auto simp: handle_connect_def split: option.split intro!: speak speaks_connect_attach)
  qed (use p adm b1 in \<open>simp add: handle_connect_def\<close>)
qed

lemma speaks_with_packet_id [speak]:
  "speaks T b \<Longrightarrow> (\<And>pid. pid \<noteq> 0 \<Longrightarrow> speaks T (k pid)) \<Longrightarrow> speaks T (with_packet_id ci body b k)"
  by (auto simp: with_packet_id_def parse_packet_id_only_iff split: sum.split intro: speak)

lemma speaks_note_inbound [speak]:
  "speaks T b \<Longrightarrow> session_sendable T s \<Longrightarrow> speaks T (fst (note_inbound_qos2 E ci si pid s b))"
  by (auto simp: note_inbound_qos2_def Let_def session_sendable_def intro!: speak)

lemma speaks_accept_publish [speak]:
  "speaks (e_traits E) b \<Longrightarrow> name_ok (e_traits E) (pp_topic p) \<Longrightarrow> speaks (e_traits E) (accept_publish E s p b)"
  by (auto simp: accept_publish_def Let_def intro!: speak)

lemma speaks_handle_publish [speak]:
  assumes "speaks (e_traits E) b" shows "speaks (e_traits E) (handle_publish E ci fb body b)"
  unfolding handle_publish_def
proof (intro speak assms, goal_cases)
  case (1 si s)
  have "pp_packet_id p \<noteq> 0" if "parse_publish fb body = Inr p" "pp_qos p \<noteq> at_most_once" for p
    using that by (simp add: parse_publish_iff publish_ok_def)
  then show ?case using assms 1
    by (auto simp: Let_def split_beta name_ok_def split: sum.split intro!: speak)
qed

lemma speaks_tl_while:
  assumes "\<And>flt q st. P st \<Longrightarrow> P (f flt q st)" "P st" shows "P (snd (tl_while f p st))"
  using assms
proof (induction f p st rule: tl_while.induct)
  case (1 f p st)
  obtain r p' where n: "tl_next p = (r, p')" by fastforce
  show ?case using 1 n by (auto simp: tl_while.simps [of f p st] split: option.splits)
qed

text \<open>Each entry of a SUBSCRIBE writes one return code.\<close>

definition coded :: "traits \<Rightarrow> writer \<Rightarrow> nat \<Rightarrow> writer \<times> ('ctx, 'tr) broker \<Rightarrow> bool" where
  "coded T w0 n st \<longleftrightarrow> speaks T (snd st)
     \<and> (\<exists>codes. fst st = fold w_u8 codes w0 \<and> length codes = n \<and> set codes \<subseteq> {0, 1, 2, suback_failure})"

lemma coded_entry:
  assumes c: "coded (e_traits E) w0 n (w, b)" and s: "session_at b si \<noteq> None"
  shows "coded (e_traits E) w0 (Suc n) (subscribe_entry E si flt q (w, b))" "session_at (snd (subscribe_entry E si flt q (w, b))) si \<noteq> None"
proof -
  obtain s where s: "session_at b si = Some s" using s by blast
  obtain codes where codes: "w = fold w_u8 codes w0" "length codes = n" "set codes \<subseteq> {0, 1, 2, suback_failure}" and b: "speaks (e_traits E) b"
    using c by (auto simp: coded_def)
  obtain s' code sub where one: "subscribe_one (e_traits E) flt q s = (s', code, sub)" by (metis prod_cases3)
  have "code \<in> {0, 1, 2, suback_failure}" "s_pending s' = s_pending s" "s_has_will s' = s_has_will s" "s_will_topic s' = s_will_topic s"
    using one by (cases q; auto simp: subscribe_one_def grant_def split: if_splits option.splits prod.splits)+
  then have o: "session_sendable (e_traits E) (case sub of None \<Rightarrow> s' | Some i \<Rightarrow> mark_retain_pending i s')" "code \<in> {0, 1, 2, suback_failure}"
    using speaks_session [OF b s] by (auto simp: session_sendable_def mark_retain_pending_def split: option.split)
  have "\<exists>cs. w_u8 c w = fold w_u8 cs w0 \<and> length cs = Suc n \<and> set cs \<subseteq> {0, 1, 2, suback_failure}" if "c \<in> {0, 1, 2, suback_failure}" for c
    by (rule exI [of _ "codes @ [c]"]) (use codes that in auto)
  then show "coded (e_traits E) w0 (Suc n) (subscribe_entry E si flt q (w, b))"
    using b s o by (simp add: coded_def subscribe_entry_def one speak)
  show "session_at (snd (subscribe_entry E si flt q (w, b))) si \<noteq> None"
    using s by (simp add: subscribe_entry_def one notify_denied_def session_at_put)
qed

lemma coded_entries:
  "coded (e_traits E) w0 n st \<Longrightarrow> session_at (snd st) si \<noteq> None \<Longrightarrow>
   coded (e_traits E) w0 (n + length xs) (fold (\<lambda>(flt, q). subscribe_entry E si flt q) xs st)"
proof (induction xs arbitrary: n st)
  case (Cons x xs)
  then show ?case
    using coded_entry [of E w0 n "fst st" "snd st" si "fst x" "snd x"] Cons.IH [of "Suc n" "subscribe_entry E si (fst x) (snd x) st"]
    by (simp add: split_beta)
qed simp

lemma coded_suback:
  assumes "w_ok w" "w = fold w_u8 codes (w_u16 pid (writer_init (out_buf T) packet_overhead (out_size T - packet_overhead)))"
    "pid \<noteq> 0" "codes \<noteq> []" "set codes \<subseteq> {0, 1, 2, suback_failure}"
    "snd (frame_packet (w_mem w) (make_first_byte PT_suback 0) (w_len w)) \<noteq> []"
  shows "server_packet (snd (frame_packet (w_mem w) (make_first_byte PT_suback 0) (w_len w)))"
  using framed_body [OF emits_seq [OF emits_u16 [of pid] emits_fold_u8 [of codes]], of "out_size T" "out_buf T" w "make_first_byte PT_suback 0"]
    out_size_stored [of T] assms sp_suback [of pid codes] by (auto simp: u16_bytes_def split: if_splits)

lemma speaks_handle_subscribe [speak]:
  assumes b: "speaks (e_traits E) b" shows "speaks (e_traits E) (handle_subscribe E ci body b)"
proof (cases "check_filters (tl_init body True) = Err_ok")
  case True
  let ?T = "e_traits E"
  obtain pid xs where f: "filter_list True body pid xs" using True by (auto simp: check_filters_iff)
  have id: "tl_packet_id (tl_init body True) = pid" "pid \<noteq> 0" "xs \<noteq> []" using f by (auto simp: filter_list_def tl_packet_id_enc)
  let ?w0 = "w_u16 pid (writer_init (out_buf ?T) packet_overhead (out_size ?T - packet_overhead))"
  show ?thesis unfolding handle_subscribe_def
  proof (intro speak b, goal_cases)
    case (1 si s)
    let ?b0 = "put_session si (clear_retain_pending s) b"
    have "coded ?T ?w0 0 (?w0, ?b0)" using 1(2) b by (auto simp: coded_def session_sendable_def clear_retain_pending_def intro!: speak)
    moreover have "session_at ?b0 si \<noteq> None" using 1(1) by (simp add: session_at_put)
    ultimately have c: "coded ?T ?w0 (length xs) (snd (tl_while (subscribe_entry E si) (tl_init body True) (?w0, ?b0)))"
      using coded_entries [of E ?w0 0 "(?w0, ?b0)" si xs] tl_while_entries [of "subscribe_entry E si" "tl_init body True" "(?w0, ?b0)"]
        filter_list_entries [OF f] by simp
    obtain p' w b1 where run: "tl_while (subscribe_entry E si) (tl_init body True) (?w0, ?b0) = (p', w, b1)" by (metis prod_cases3)
    obtain codes where w: "w = fold w_u8 codes ?w0" "codes \<noteq> []" "set codes \<subseteq> {0, 1, 2, suback_failure}" and b1: "speaks ?T b1"
      using c id(3) unfolding coded_def run by (metis fst_conv length_0_conv snd_conv)
    then show ?case using True coded_suback [OF _ w(1) id(2) w(2,3)]
      by (auto simp: id(1) run Let_def session_sendable_def intro!: speak)
  qed
qed (use b in \<open>auto simp: handle_subscribe_def Let_def intro!: speak\<close>)

lemma speaks_handle_unsubscribe [speak]:
  assumes b: "speaks (e_traits E) b" shows "speaks (e_traits E) (handle_unsubscribe E ci body b)"
proof (cases "check_filters (tl_init body False) = Err_ok")
  case True
  obtain pid xs where f: "filter_list False body pid xs" using True by (auto simp: check_filters_iff)
  have id: "tl_packet_id (fst (tl_while g (tl_init body False) st)) = pid" "pid \<noteq> 0" for g :: "bytes \<Rightarrow> qos \<Rightarrow> ('a, 'b) broker \<Rightarrow> ('a, 'b) broker" and st
    using f by (auto simp: filter_list_def tl_packet_id_enc tl_while_packet_id)
  have "speaks (e_traits E) (snd (tl_while (\<lambda>flt _ b. upd_session si (unsubscribe_one flt) b) (tl_init body False) b))" for si
    by (rule speaks_tl_while) (use b in \<open>auto simp: unsubscribe_one_def session_sendable_def split: option.split intro!: speak\<close>)
  then show ?thesis unfolding handle_unsubscribe_def using b True
    by (auto simp: Let_def split_beta id intro!: speak)
qed (use b in \<open>auto simp: handle_unsubscribe_def Let_def intro!: speak\<close>)

lemma speaks_acks [speak]:
  assumes "speaks (e_traits E) b"
  shows "speaks (e_traits E) (handle_puback E ci body b)" "speaks (e_traits E) (handle_pubrec E ci body b)"
    "speaks (e_traits E) (handle_pubcomp E ci body b)" "speaks (e_traits E) (handle_pubrel E ci body b)" "speaks (e_traits E) (handle_disconnect ci body b)"
proof -
  show "speaks (e_traits E) (handle_puback E ci body b)" "speaks (e_traits E) (handle_pubcomp E ci body b)"
    using assms by (auto simp: handle_puback_def handle_pubcomp_def split: option.split intro!: speak)
  show "speaks (e_traits E) (handle_pubrec E ci body b)" unfolding handle_pubrec_def
  proof (intro speak assms, goal_cases)
    case (1 pid si s)
    have "om_packet_id (s_pending s ! i) \<noteq> 0" if "find_pending pid awaiting_pubrec awaiting_pubcomp s = Some i" for i
      using find_index_Some [OF that [unfolded find_pending_def]] 1(1) by auto
    then show ?case
      using assms 1 by (auto simp: upd_pending_def upd_session_Some split: option.split intro!: speak sendable_update simp: msg_sendable_def)
  qed
  show "speaks (e_traits E) (handle_pubrel E ci body b)" "speaks (e_traits E) (handle_disconnect ci body b)"
    using assms by (auto simp: handle_pubrel_def handle_disconnect_def remove_inbound_qos2_def session_sendable_def split: option.split intro!: speak)
qed

lemma speaks_on_packet: "speaks (e_traits E) b \<Longrightarrow> speaks (e_traits E) (snd (on_packet E ci fb body b))"
  by (auto simp: on_packet_def dispatch_def Let_def split: packet_type.split intro!: speak)

section \<open>Entry points\<close>

interpretation spoken: frame_client "on_packet E ci" "\<lambda>b. cn_dead (conn_at b ci)" "\<lambda>b. serving (e_traits E) ci b \<and> speaks (e_traits E) b"
  for E :: "('ctx, 'tr) env" and ci
proof
  fix st st' :: "('ctx, 'tr) broker" and fb body go_on
  assume sv: "serving (e_traits E) ci st \<and> speaks (e_traits E) st" "\<not> cn_dead (conn_at st ci)" and o: "on_packet E ci fb body st = (go_on, st')"
  show "go_on \<longleftrightarrow> \<not> cn_dead (conn_at st' ci)" by (rule fed.stop_iff_dead [OF conjunct1 [OF sv(1)] sv(2) o])
  show "serving (e_traits E) ci st' \<and> speaks (e_traits E) st'"
    using fed.keeps_inv [OF conjunct1 [OF sv(1)] sv(2) o] speaks_on_packet [OF conjunct2 [OF sv(1)], of ci fb body] by (simp add: o)
qed

lemma speaks_conn_data:
  assumes wf: "wf_broker (e_traits E) b" and b: "speaks (e_traits E) b" shows "speaks (e_traits E) (snd (conn_data E ci data now_ms b))"
proof (cases "ci < max_connections (e_traits E) \<and> cn_active (conn_at b ci) \<and> \<not> cn_dead (conn_at b ci)")
  case True
  then have c: "ci < max_connections (e_traits E)" "cn_active (conn_at b ci)" "\<not> cn_dead (conn_at b ci)" by simp_all
  obtain e p b' where f: "feed (max_packet_size (e_traits E)) (on_packet E ci) (cn_parser (conn_at b ci)) data (stamped E ci now_ms b) = (e, p, b')"
    by (metis prod_cases3)
  have i: "fp_inv (max_packet_size (e_traits E)) (cn_parser (conn_at b ci))" using wfD(5) [OF wf c(1)] c by (simp add: conn_ok_def)
  have "speaks (e_traits E) (stamped E ci now_ms b)" using b by (auto simp: stamped_def Let_def intro!: speak)
  then have "speaks (e_traits E) b'"
    using spoken.feed_inv [OF i _ _ f] serving_stamped [OF wf c(1,2)] c(3) by (simp add: stamped_conn)
  then show ?thesis by (auto simp: conn_data_feed [OF c f] Let_def intro!: speak)
qed (use b in \<open>auto simp: conn_data_def\<close>)

lemma speaks_tick: "speaks (e_traits E) b \<Longrightarrow> speaks (e_traits E) (tick E now_ms b)"
proof -
  assume b: "speaks (e_traits E) b"
  have c: "speaks (e_traits E) (fold (tick_conn E now_ms) [0..<n] (b\<lparr>b_now_ms := now_ms\<rparr>))" for n
    by (rule fold_upt_invariant) (use b in \<open>auto simp: tick_conn_def Let_def intro!: speak\<close>)
  have s: "speaks (e_traits E) (pool_for_each (max_sessions (e_traits E)) b_sessions (tick_session E) b')" if "speaks (e_traits E) b'" for b'
    by (rule speaks_for_each) (use that in \<open>auto simp: tick_session_def Let_def intro!: speak\<close>)
  have x: "speaks (e_traits E) (expire_sessions E now_ms b')" if "speaks (e_traits E) b'" for b'
    unfolding expire_sessions_def using that by (auto simp: expire_one_def intro!: speaks_for_each speak)
  show ?thesis unfolding tick_def Let_def by (intro x speaks_flush_dead s c)
qed

lemma speaks_publish: "speaks (e_traits E) b \<Longrightarrow> speaks (e_traits E) (snd (publish E topic payload q retain b))"
  by (auto simp: publish_def Let_def split_beta name_ok_def intro!: speak)

lemma api_step_speaks: "api_step T b b' \<Longrightarrow> wf_broker T b \<Longrightarrow> speaks T b \<Longrightarrow> speaks T b'"
proof (induction rule: api_step.induct)
  case (step_open E b ci now_ms)
  then show ?case by (auto simp: conn_open_def Let_def intro!: speak)
next
  case (step_closed E b ci)
  then show ?case by (auto simp: conn_closed_def intro!: speak)
next
  case (step_data E b ci data now_ms)
  then show ?case using speaks_conn_data [of E b ci data now_ms] by simp
next
  case (step_tick E b now_ms)
  then show ?case using speaks_tick [of E b now_ms] by simp
next
  case (step_publish E b topic payload q retain)
  then show ?case using speaks_publish [of E b topic payload q retain] by simp
next
  case (step_transport b tr)
  show ?case by (rule speaks_same [OF step_transport(2)]) simp_all
qed

lemma reachable_speaks:
  assumes "traits_ok T" shows "reachable T b \<Longrightarrow> speaks T b"
proof (induction rule: reachable.induct)
  case (reach_step b b')
  then show ?case using api_step_speaks [of T b b'] reachable_settled [OF reach_step.hyps(1) assms] by blast
qed (simp add: speaks_def broker_init_def session_at_def names_ok_def)

section \<open>A client that is refused\<close>

text \<open>A CONNECT of another protocol level on the first connection of the sample broker.\<close>

definition level5_connect :: connect_packet where
  "level5_connect = \<lparr>cp_client_id = [0x63], cp_will_topic = [], cp_will_payload = [], cp_username = [], cp_password = [],
     cp_keepalive_s = 0, cp_protocol_level = 5, cp_will_qos = at_most_once, cp_protocol_name_ok = True, cp_clean_session = True,
     cp_has_will = False, cp_will_retain = False, cp_has_username = False, cp_has_password = False\<rparr>"

definition opened_broker :: "(unit, unit) broker" where
  "opened_broker = snd (conn_open sample_env 0 0 (broker_init sample_traits ()))"

definition refused_broker :: "(unit, unit) broker" where
  "refused_broker = snd (conn_data sample_env 0 (packet_bytes 0x10 (connect_body mqtt_name 2 level5_connect)) 5 opened_broker)"

lemma refused_reachable: "reachable sample_traits refused_broker"
  unfolding refused_broker_def opened_broker_def by (rule reach_step [OF reachable_open step_data]) simp

lemma level5_parsed: "parse_connect (connect_body mqtt_name 2 level5_connect) = Inr level5_connect"
  unfolding parse_connect_iff
  by (intro exI [of _ mqtt_name] exI [of _ 2] conjI refl)
    (simp_all add: connect_flags_ok_def connect_ok_def payload_ok_def level5_connect_def mqtt_name_def max_utf8_len_def
      connect_will_qos_def cf_will_qos_mask_def cf_will_qos_shift_def)

lemma opened_conn:
  "cn_session (conn_at opened_broker 0) = no_session" "cn_active (conn_at opened_broker 0)" "\<not> cn_dead (conn_at opened_broker 0)"
  "cn_parser (conn_at opened_broker 0) = fp_init 32"
proof -
  have 0: "conn_at (broker_init sample_traits ()) 0 = new_conn 32" by (simp add: broker_init_def conn_at_def sample_traits_def)
  have 1: "length (b_conns (broker_init sample_traits ())) = 2" by (simp add: broker_init_def)
  have o: "opened_broker = notify_conn sample_env connection_opened 0 (upd_conn 0 (\<lambda>c. (conn_reset c)\<lparr>cn_active := True, cn_deadline_ms := 1000\<rparr>) (broker_init sample_traits ()))"
    by (simp add: opened_broker_def conn_open_def Let_def 0) (simp add: new_conn_def)
  have "conn_at opened_broker 0 = (conn_reset (new_conn 32))\<lparr>cn_active := True, cn_deadline_ms := 1000\<rparr>"
    unfolding o by (simp add: notify_conn_def conn_at_upd 0 1)
  then show "cn_session (conn_at opened_broker 0) = no_session" "cn_active (conn_at opened_broker 0)" "\<not> cn_dead (conn_at opened_broker 0)"
    "cn_parser (conn_at opened_broker 0) = fp_init 32"
    by (simp_all add: conn_reset_def new_conn_def fp_reset_def fp_init_def)
qed

lemma refused_step:
  "Sent 0 (connack_pkt sample_traits False unacceptable_protocol) True
     \<in> set (b_trace (snd (on_packet sample_env 0 0x10 (connect_body mqtt_name 2 level5_connect) (stamped sample_env 0 5 opened_broker))))"
proof -
  let ?pkt = "connack_pkt sample_traits False unacceptable_protocol" and ?b = "stamped sample_env 0 5 opened_broker"
  have "?pkt \<noteq> []" by (simp add: connack_pkt_bytes)
  then have "Sent 0 ?pkt True \<in> set (b_trace (refuse sample_env 0 unacceptable_protocol [] ?b))"
    by (simp add: refuse_def send_to_def notify_refused_def stamped_conn opened_conn transport_send_def mark_dead_def)
  moreover have "handle_connect sample_env 0 (connect_body mqtt_name 2 level5_connect) ?b = refuse sample_env 0 unacceptable_protocol [] ?b"
  proof -
    have "cp_protocol_name_ok level5_connect" "cp_protocol_level level5_connect \<noteq> protocol_level_311"
      by (simp_all add: level5_connect_def protocol_level_311_def)
    then have "connect_admit sample_env 0 level5_connect ?b = (refuse sample_env 0 unacceptable_protocol [] ?b, None)"
      unfolding connect_admit_def by (simp only: simp_thms if_True if_False)
    then show ?thesis by (simp add: handle_connect_def level5_parsed stamped_conn opened_conn)
  qed
  moreover have "packet_type_of 0x10 = PT_connect" "fixed_flags_valid PT_connect (packet_flags 0x10)" by code_simp+
  ultimately show ?thesis by (simp add: on_packet_def dispatch_def Let_def)
qed

lemma refused_answered: "Sent 0 (connack_pkt sample_traits False unacceptable_protocol) True \<in> set (b_trace refused_broker)"
proof -
  let ?body = "connect_body mqtt_name 2 level5_connect" let ?b = "stamped sample_env 0 5 opened_broker"
  have l: "packet_fits 32 (0x10, ?body)"
    by (simp add: packet_fits_def connect_body_def mqtt_name_def utf8_bytes_def u16_bytes_def connect_payload_def level5_connect_def max_remaining_length_def)
  obtain p' where f: "feed 32 (on_packet sample_env 0) (fp_init 32) (packet_bytes 0x10 ?body) ?b = (Err_ok, p', snd (on_packet sample_env 0 0x10 ?body ?b))"
    using feed_stream [OF fp_inv_init, of 32 "[(0x10, ?body)]" "on_packet sample_env 0" ?b] l
    by (auto simp: stream_bytes_def split_beta Let_def fp_init_def)
  let ?c = "upd_conn 0 (\<lambda>c. c\<lparr>cn_parser := p'\<rparr>) (snd (on_packet sample_env 0 0x10 ?body ?b))"
  have "refused_broker = flush_dead sample_env ?c"
    unfolding refused_broker_def using conn_data_feed [of 0 sample_env opened_broker "packet_bytes 0x10 ?body" 5 Err_ok p'] f
    by (simp add: opened_conn)
  moreover have "heard opened_broker"
    using reachable_heard [OF sample_traits_ok] reachable_open by (simp add: opened_broker_def)
  moreover have "talks sample_env opened_broker ?b" by (auto simp: stamped_def Let_def intro!: talk)
  then have "talks sample_env opened_broker ?c" by (intro talks_upd_conn talks_on_packet) simp_all
  moreover have "talks sample_env ?c (flush_dead sample_env ?c)" by (simp add: talk)
  ultimately have "\<exists>as. b_trace refused_broker = b_trace ?c @ as" by (auto simp: talks_def obeys_def)
  then show ?thesis using refused_step by auto
qed

section \<open>Property\<close>

text \<open>C12: the broker speaks MQTT. Whatever the clients send and however calls interleave, every packet handed to the
  transport is a well-formed packet of a type a server may send: the fixed header and flags of its type, a
  length the format can express, a valid topic name without wildcards, a non-zero identifier where there is
  one, no DUP mark at QoS 0, and in a SUBACK one granted QoS or failure code per entry.\<close>

theorem broker_sends_server_packets:
  assumes "traits_ok T" "reachable T b" "Sent ci pkt ok \<in> set (b_trace b)"
  shows "server_packet pkt"
  using reachable_speaks [OF assms(1,2)] assms(3) by (auto simp: speaks_def)

theorem broker_sends_server_packets_witness:
  "server_packet (connack_pkt sample_traits False unacceptable_protocol)"
  by (rule broker_sends_server_packets [OF sample_traits_ok refused_reachable refused_answered])

end
