(* ===== verification/Storage.thy ===== *)
theory Storage
  imports Containers
begin

text \<open>
  The containers of \<open>core/\<close> as they lie in memory: arrays whose unused part holds whatever was there
  before, beside the counters that say which part is in use, and pointers that are addresses. The
  other theories work with the values of \<open>Containers\<close>; here the array versions are shown to implement them
  step by step, so that nothing is lost by leaving the bytes beyond the length out of the model.
\<close>

section \<open>FixedBuffer and FixedString\<close>

text \<open>\<open>data_\<close> has \<open>Capacity\<close> elements, of which the first \<open>len_\<close> are the contents.\<close>

record 'a fixed =
  fx_data :: "'a list"
  fx_len :: nat

definition fx_inv :: "nat \<Rightarrow> 'a fixed \<Rightarrow> bool" where
  "fx_inv cap b \<longleftrightarrow> length (fx_data b) = cap \<and> fx_len b \<le> cap"

definition fx_size :: "'a fixed \<Rightarrow> nat" where "fx_size b = fx_len b"
definition fx_empty :: "'a fixed \<Rightarrow> bool" where "fx_empty b \<longleftrightarrow> fx_len b = 0"

definition fx_view :: "'a fixed \<Rightarrow> 'a list" where
  "fx_view b = take (fx_len b) (fx_data b)"

definition fx_assign :: "nat \<Rightarrow> 'a list \<Rightarrow> 'a fixed \<Rightarrow> 'a fixed \<times> bool" where
  "fx_assign cap s b =
    (if length s > cap then (b, False)
     else (b\<lparr>fx_data := fold (\<lambda>i d. d[i := s ! i]) [0..<length s] (fx_data b), fx_len := length s\<rparr>, True))"

definition fx_clear :: "'a fixed \<Rightarrow> 'a fixed" where
  "fx_clear b = b\<lparr>fx_len := 0\<rparr>"

text \<open>\<open>operator==\<close> of two \<open>StrView\<close>s, and \<open>FixedString::equals\<close>.\<close>

definition str_eq :: "'a list \<Rightarrow> 'a list \<Rightarrow> bool" where
  "str_eq a b \<longleftrightarrow> length a = length b \<and> list_all (\<lambda>i. a ! i = b ! i) [0..<length a]"

definition fs_equals :: "'a fixed \<Rightarrow> 'a list \<Rightarrow> bool" where
  "fs_equals b s \<longleftrightarrow> str_eq (fx_view b) s"

lemma copy_fold:
  "n \<le> length s \<Longrightarrow> n \<le> length d \<Longrightarrow> fold (\<lambda>i d. d[i := s ! i]) [0..<n] d = take n s @ drop n d"
proof (induction n)
  case (Suc n)
  then have "fold (\<lambda>i d. d[i := s ! i]) [0..<Suc n] d = (take n s @ drop n d)[n := s ! n]" by simp
  also have "\<dots> = take n s @ (drop n d)[0 := s ! n]" using Suc.prems by (simp add: list_update_append)
  also have "\<dots> = take (Suc n) s @ drop (Suc n) d"
    using Suc.prems by (simp add: take_Suc_conv_app_nth flip: Cons_nth_drop_Suc)
  finally show ?case .
qed simp

lemma fx_assign_refines:
  assumes "fx_inv cap b"
  shows "fx_inv cap (fst (fx_assign cap s b))"
    "(fx_view (fst (fx_assign cap s b)), snd (fx_assign cap s b)) = fixed_assign cap s (fx_view b)"
  using assms copy_fold [of "length s" s "fx_data b"]
  by (auto simp: fx_inv_def fx_assign_def fixed_assign_def fx_view_def)

lemma fx_clear_refines: "fx_inv cap b \<Longrightarrow> fx_inv cap (fx_clear b) \<and> fx_view (fx_clear b) = []"
  by (simp add: fx_inv_def fx_clear_def fx_view_def)

lemma fx_reads: "fx_inv cap b \<Longrightarrow> fx_size b = length (fx_view b) \<and> fx_empty b = (fx_view b = [])"
  by (auto simp: fx_inv_def fx_size_def fx_empty_def fx_view_def)

lemma fs_equals_iff: "fs_equals b s \<longleftrightarrow> fx_view b = s"
  by (auto simp: fs_equals_def str_eq_def list_all_iff intro: nth_equalityI)

section \<open>StaticVector\<close>

text \<open>\<open>storage_\<close> holds \<open>Capacity\<close> slots, of which the first \<open>size_\<close> are live.\<close>

record 'a raw_vector =
  rv_slots :: "'a list"
  rv_size :: nat

definition rv_inv :: "nat \<Rightarrow> 'a raw_vector \<Rightarrow> bool" where
  "rv_inv cap v \<longleftrightarrow> length (rv_slots v) = cap \<and> rv_size v \<le> cap"

definition rv_view :: "'a raw_vector \<Rightarrow> 'a list" where
  "rv_view v = take (rv_size v) (rv_slots v)"

text \<open>The address of slot \<open>i\<close>, for objects of \<open>sz\<close> bytes in storage that starts at \<open>base\<close>.\<close>

definition slot_addr :: "nat \<Rightarrow> nat \<Rightarrow> nat \<Rightarrow> nat" where
  "slot_addr base sz i = base + i * sz"

definition rv_index :: "nat \<Rightarrow> 'a raw_vector \<Rightarrow> 'a" where
  "rv_index i v = rv_slots v ! i"

definition rv_end :: "nat \<Rightarrow> nat \<Rightarrow> 'a raw_vector \<Rightarrow> nat" where
  "rv_end base sz v = slot_addr base sz 0 + rv_size v * sz"

definition rv_push_back :: "nat \<Rightarrow> 'a \<Rightarrow> 'a raw_vector \<Rightarrow> 'a raw_vector \<times> bool" where
  "rv_push_back cap x v =
    (if rv_size v = cap then (v, False)
     else (v\<lparr>rv_slots := (rv_slots v)[rv_size v := x], rv_size := rv_size v + 1\<rparr>, True))"

definition rv_emplace_back :: "nat \<Rightarrow> 'a \<Rightarrow> 'a raw_vector \<Rightarrow> 'a raw_vector \<times> nat option" where
  "rv_emplace_back cap dflt v =
    (if rv_size v = cap then (v, None)
     else (v\<lparr>rv_slots := (rv_slots v)[rv_size v := dflt], rv_size := rv_size v + 1\<rparr>, Some (rv_size v)))"

definition rv_pop_back :: "'a raw_vector \<Rightarrow> 'a raw_vector" where
  "rv_pop_back v = (if rv_size v = 0 then v else v\<lparr>rv_size := rv_size v - 1\<rparr>)"

definition rv_remove_ordered :: "nat \<Rightarrow> 'a raw_vector \<Rightarrow> 'a raw_vector" where
  "rv_remove_ordered i v =
    (if i \<ge> rv_size v then v
     else rv_pop_back (v\<lparr>rv_slots := fold (\<lambda>j d. d[j := d ! (j + 1)]) [i..<rv_size v - 1] (rv_slots v)\<rparr>))"

definition rv_remove_unordered :: "nat \<Rightarrow> 'a raw_vector \<Rightarrow> 'a raw_vector" where
  "rv_remove_unordered i v =
    (if i \<ge> rv_size v then v
     else rv_pop_back (if i + 1 < rv_size v then v\<lparr>rv_slots := (rv_slots v)[i := rv_slots v ! (rv_size v - 1)]\<rparr> else v))"

text \<open>\<open>clear\<close> pops until nothing is left.\<close>

function rv_clear :: "'a raw_vector \<Rightarrow> 'a raw_vector" where
  "rv_clear v = (if rv_size v > 0 then rv_clear (rv_pop_back v) else v)"
  by pat_completeness auto
termination
  by (relation "measure rv_size") (auto simp: rv_pop_back_def)

declare rv_clear.simps [simp del]

lemma rv_length: "rv_inv cap v \<Longrightarrow> length (rv_view v) = rv_size v"
  by (simp add: rv_inv_def rv_view_def)

lemma rv_index_refines: "rv_inv cap v \<Longrightarrow> i < rv_size v \<Longrightarrow> rv_index i v = rv_view v ! i"
  by (simp add: rv_index_def rv_view_def)

lemma rv_end_refines: "rv_inv cap v \<Longrightarrow> rv_end base sz v = slot_addr base sz (length (rv_view v))"
  by (simp add: rv_end_def rv_length slot_addr_def)

lemma rv_push_back_refines:
  assumes "rv_inv cap v"
  shows "rv_inv cap (fst (rv_push_back cap x v))"
    "(rv_view (fst (rv_push_back cap x v)), snd (rv_push_back cap x v)) = sv_push_back cap x (rv_view v)"
  using assms by (auto simp: rv_push_back_def sv_push_back_def rv_inv_def rv_view_def take_Suc_conv_app_nth)

lemma rv_emplace_back_refines:
  assumes "rv_inv cap v"
  shows "rv_inv cap (fst (rv_emplace_back cap x v))"
    "(rv_view (fst (rv_emplace_back cap x v)), snd (rv_emplace_back cap x v)) = sv_emplace_back cap x (rv_view v)"
  using assms by (auto simp: rv_emplace_back_def sv_emplace_back_def rv_inv_def rv_view_def take_Suc_conv_app_nth)

lemma rv_pop_back_refines:
  assumes "rv_inv cap v" shows "rv_inv cap (rv_pop_back v)" "rv_view (rv_pop_back v) = sv_pop_back (rv_view v)"
  using assms by (auto simp: rv_pop_back_def sv_pop_back_def rv_inv_def rv_view_def min_def)

lemma fold_shift_take:
  "list_all (\<lambda>j. j + 1 < n) js \<Longrightarrow> n \<le> length d \<Longrightarrow>
   take n (fold (\<lambda>j d. d[j := d ! (j + 1)]) js d) = fold (\<lambda>j d. d[j := d ! (j + 1)]) js (take n d)
     \<and> length (fold (\<lambda>j d. d[j := d ! (j + 1)]) js d) = length d"
  by (induction js arbitrary: d) (simp_all add: take_update_swap)

lemma rv_remove_ordered_refines:
  assumes v: "rv_inv cap v"
  shows "rv_inv cap (rv_remove_ordered i v)" "rv_view (rv_remove_ordered i v) = sv_remove_ordered i (rv_view v)"
proof -
  let ?w = "v\<lparr>rv_slots := fold (\<lambda>j d. d[j := d ! (j + 1)]) [i..<rv_size v - 1] (rv_slots v)\<rparr>"
  have "list_all (\<lambda>j. j + 1 < rv_size v) [i..<rv_size v - 1]" by (auto simp: list_all_iff)
  then have f: "take (rv_size v) (rv_slots ?w) = fold (\<lambda>j d. d[j := d ! (j + 1)]) [i..<rv_size v - 1] (rv_view v)
      \<and> length (rv_slots ?w) = length (rv_slots v)"
    using fold_shift_take [of "rv_size v" "[i..<rv_size v - 1]" "rv_slots v"] v by (simp add: rv_inv_def rv_view_def)
  then have w: "rv_inv cap ?w" using v by (simp add: rv_inv_def)
  show "rv_inv cap (rv_remove_ordered i v)" using v rv_pop_back_refines(1) [OF w] by (simp add: rv_remove_ordered_def)
  show "rv_view (rv_remove_ordered i v) = sv_remove_ordered i (rv_view v)"
    using rv_pop_back_refines(2) [OF w] f rv_length [OF v] by (simp add: rv_remove_ordered_def sv_remove_ordered_def rv_view_def)
qed

lemma rv_remove_unordered_refines:
  assumes v: "rv_inv cap v"
  shows "rv_inv cap (rv_remove_unordered i v)" "rv_view (rv_remove_unordered i v) = sv_remove_unordered i (rv_view v)"
proof -
  let ?w = "if i + 1 < rv_size v then v\<lparr>rv_slots := (rv_slots v)[i := rv_slots v ! (rv_size v - 1)]\<rparr> else v"
  have w: "rv_inv cap ?w" using v by (simp add: rv_inv_def)
  have "rv_view ?w = (if i + 1 < rv_size v then (rv_view v)[i := rv_view v ! (rv_size v - 1)] else rv_view v)"
    by (simp add: rv_view_def take_update_swap)
  then show "rv_inv cap (rv_remove_unordered i v)" "rv_view (rv_remove_unordered i v) = sv_remove_unordered i (rv_view v)"
    using v rv_pop_back_refines [OF w] rv_length [OF v] by (simp_all add: rv_remove_unordered_def sv_remove_unordered_def)
qed

lemma rv_clear_refines: "rv_inv cap v \<Longrightarrow> rv_inv cap (rv_clear v) \<and> rv_view (rv_clear v) = []"
proof (induction v rule: rv_clear.induct)
  case (1 v)
  show ?case
  proof (cases "rv_size v > 0")
    case True
    then show ?thesis using 1(1) [OF True rv_pop_back_refines(1) [OF 1(2)]] by (simp add: rv_clear.simps [of v])
  next
    case False
    then show ?thesis using 1(2) by (simp add: rv_clear.simps [of v] rv_view_def)
  qed
qed

section \<open>Pool\<close>

text \<open>
  \<open>storage_\<close>, \<open>used_\<close> and \<open>count_\<close>. The storage is \<open>Capacity\<close> objects of \<open>sz\<close> bytes from address \<open>base\<close> on;
  what a slot that is not in use holds means nothing. A pointer is an address, \<open>None\<close> the null pointer.
\<close>

record 'a raw_pool =
  rp_objs :: "'a list"
  rp_used :: "bool list"
  rp_count :: nat

definition rp_inv :: "nat \<Rightarrow> 'a raw_pool \<Rightarrow> bool" where
  "rp_inv cap p \<longleftrightarrow> length (rp_objs p) = cap \<and> length (rp_used p) = cap \<and> rp_count p = length (filter id (rp_used p))"

definition slot_index :: "nat \<Rightarrow> nat \<Rightarrow> nat \<Rightarrow> nat option \<Rightarrow> nat" where
  "slot_index cap base sz ptr =
    (case ptr of
       None \<Rightarrow> cap
     | Some q \<Rightarrow> (case find (\<lambda>i. q = slot_addr base sz i) [0..<cap] of None \<Rightarrow> cap | Some i \<Rightarrow> i))"

definition index_of :: "nat \<Rightarrow> nat \<Rightarrow> nat \<Rightarrow> nat" where
  "index_of base sz q = (q - base) div sz"

definition rp_alloc :: "nat \<Rightarrow> nat \<Rightarrow> nat \<Rightarrow> 'a \<Rightarrow> 'a raw_pool \<Rightarrow> 'a raw_pool \<times> nat option" where
  "rp_alloc cap base sz dflt p =
    (case find (\<lambda>i. \<not> rp_used p ! i) [0..<cap] of
       None \<Rightarrow> (p, None)
     | Some i \<Rightarrow> (p\<lparr>rp_objs := (rp_objs p)[i := dflt], rp_used := (rp_used p)[i := True], rp_count := rp_count p + 1\<rparr>,
                  Some (slot_addr base sz i)))"

definition rp_release :: "nat \<Rightarrow> nat \<Rightarrow> nat \<Rightarrow> nat option \<Rightarrow> 'a raw_pool \<Rightarrow> 'a raw_pool" where
  "rp_release cap base sz ptr p =
    (let i = slot_index cap base sz ptr
     in if i \<ge> cap \<or> \<not> rp_used p ! i then p
        else p\<lparr>rp_used := (rp_used p)[i := False], rp_count := rp_count p - 1\<rparr>)"

definition rp_clear :: "nat \<Rightarrow> 'a raw_pool \<Rightarrow> 'a raw_pool" where
  "rp_clear cap p =
    (let p = fold (\<lambda>i p. if rp_used p ! i then p\<lparr>rp_used := (rp_used p)[i := False]\<rparr> else p) [0..<cap] p
     in p\<lparr>rp_count := 0\<rparr>)"

definition rp_at :: "nat \<Rightarrow> nat \<Rightarrow> nat \<Rightarrow> nat \<Rightarrow> 'a raw_pool \<Rightarrow> nat option" where
  "rp_at cap base sz i p = (if i < cap \<and> rp_used p ! i then Some (slot_addr base sz i) else None)"

definition rp_find :: "nat \<Rightarrow> nat \<Rightarrow> nat \<Rightarrow> ('a \<Rightarrow> bool) \<Rightarrow> 'a raw_pool \<Rightarrow> nat option" where
  "rp_find cap base sz P p =
    (case find (\<lambda>i. rp_used p ! i \<and> P (rp_objs p ! i)) [0..<cap] of None \<Rightarrow> None | Some i \<Rightarrow> Some (slot_addr base sz i))"

definition rp_full :: "nat \<Rightarrow> 'a raw_pool \<Rightarrow> bool" where
  "rp_full cap p \<longleftrightarrow> rp_count p = cap"

text \<open>The pool of \<open>Containers\<close> it stands for.\<close>

definition rp_abs :: "'a raw_pool \<Rightarrow> 'a pool" where
  "rp_abs p = \<lparr>slots = map2 (\<lambda>u x. if u then Some x else None) (rp_used p) (rp_objs p), live = rp_count p\<rparr>"

lemma find_upt_Some: "find P [0..<n] = Some i \<longleftrightarrow> i < n \<and> P i \<and> (\<forall>j < i. \<not> P j)"
  by (auto simp: find_Some_iff)

lemma find_upt_None: "find P [0..<n] = None \<longleftrightarrow> (\<forall>i < n. \<not> P i)"
  by (auto simp: find_None_iff)

lemma rp_slot:
  "rp_inv cap p \<Longrightarrow> i < cap \<Longrightarrow> slots (rp_abs p) ! i = (if rp_used p ! i then Some (rp_objs p ! i) else None)"
  by (simp add: rp_inv_def rp_abs_def)

lemma rp_length: "rp_inv cap p \<Longrightarrow> length (slots (rp_abs p)) = cap"
  by (simp add: rp_inv_def rp_abs_def)

lemma first_free_find: "first_free ss 0 = find (\<lambda>i. ss ! i = None) [0..<length ss]"
proof (cases "first_free ss 0")
  case None
  then show ?thesis using find_upt_None [of "\<lambda>i. ss ! i = None" "length ss"] by (auto simp: first_free_None in_set_conv_nth)
next
  case (Some i)
  then show ?thesis using first_free_Some [OF Some] find_upt_Some [of "\<lambda>i. ss ! i = None" "length ss" i] by auto
qed

lemma find_slot_find: "find_slot P ss 0 = find (\<lambda>i. \<exists>x. ss ! i = Some x \<and> P x) [0..<length ss]"
proof (cases "find_slot P ss 0")
  case None
  then show ?thesis
    using find_upt_None [of "\<lambda>i. \<exists>x. ss ! i = Some x \<and> P x" "length ss"] by (auto simp: find_slot_None in_set_conv_nth)
next
  case (Some i)
  then show ?thesis
    using find_slot_offset [OF Some] find_upt_Some [of "\<lambda>i. \<exists>x. ss ! i = Some x \<and> P x" "length ss" i] by auto
qed

lemma find_cong: "(\<And>x. x \<in> set xs \<Longrightarrow> P x = Q x) \<Longrightarrow> find P xs = find Q xs"
  by (induction xs) auto

text \<open>Pointers and slots.\<close>

lemma slot_index_addr: "0 < sz \<Longrightarrow> i < cap \<Longrightarrow> slot_index cap base sz (Some (slot_addr base sz i)) = i"
proof -
  assume "0 < sz" "i < cap"
  then have "find (\<lambda>j. slot_addr base sz i = slot_addr base sz j) [0..<cap] = Some i"
    by (auto simp: find_upt_Some slot_addr_def)
  then show ?thesis by (simp add: slot_index_def)
qed

lemma slot_index_foreign:
  "(\<And>i q. ptr = Some q \<Longrightarrow> i < cap \<Longrightarrow> q \<noteq> slot_addr base sz i) \<Longrightarrow> slot_index cap base sz ptr = cap"
  using find_upt_None [of _ cap] by (auto simp: slot_index_def split: option.split dest!: find_upt_Some [THEN iffD1])

lemma index_of_addr: "0 < sz \<Longrightarrow> index_of base sz (slot_addr base sz i) = i"
  by (simp add: index_of_def slot_addr_def)

lemma map2_update:
  "length xs = length ys \<Longrightarrow> map2 f (xs[i := x]) (ys[i := y]) = (map2 f xs ys)[i := f x y]"
  by (induction xs ys arbitrary: i rule: list_induct2) (auto split: nat.split)

lemma map2_update_left:
  assumes "length xs = length ys" "i < length ys" shows "map2 f (xs[i := x]) ys = (map2 f xs ys)[i := f x (ys ! i)]"
  using map2_update [OF assms(1), of f i x "ys ! i"] by simp

lemma rp_free: "rp_inv cap p \<Longrightarrow> find (\<lambda>i. \<not> rp_used p ! i) [0..<cap] = first_free (slots (rp_abs p)) 0"
  unfolding first_free_find by (rule trans [OF find_cong]) (auto simp: rp_slot rp_length)

lemma rp_alloc_refines:
  assumes p: "rp_inv cap p"
  shows "rp_inv cap (fst (rp_alloc cap base sz d p))"
    "(rp_abs (fst (rp_alloc cap base sz d p)), snd (rp_alloc cap base sz d p))
       = map_prod id (map_option (slot_addr base sz)) (pool_alloc d (rp_abs p))"
proof -
  have "rp_inv cap (fst (rp_alloc cap base sz d p)) \<and> (rp_abs (fst (rp_alloc cap base sz d p)), snd (rp_alloc cap base sz d p))
       = map_prod id (map_option (slot_addr base sz)) (pool_alloc d (rp_abs p))"
  proof (cases "find (\<lambda>i. \<not> rp_used p ! i) [0..<cap]")
    case None
    then show ?thesis using rp_free [OF p] p by (simp add: rp_alloc_def pool_alloc_def)
  next
    case (Some i)
    then have i: "i < cap" "\<not> rp_used p ! i" by (auto simp: find_upt_Some)
    then have "length (filter id ((rp_used p)[i := True])) = Suc (rp_count p)"
      using length_filter_update [of i "rp_used p" id True] p by (simp add: rp_inv_def)
    then show ?thesis using Some p rp_free [OF p]
      by (simp add: rp_alloc_def pool_alloc_def rp_inv_def) (simp add: rp_abs_def map2_update)
  qed
  then show "rp_inv cap (fst (rp_alloc cap base sz d p))"
    "(rp_abs (fst (rp_alloc cap base sz d p)), snd (rp_alloc cap base sz d p))
       = map_prod id (map_option (slot_addr base sz)) (pool_alloc d (rp_abs p))" by blast+
qed

lemma rp_drop:
  assumes p: "rp_inv cap p" and i: "i < cap" "rp_used p ! i"
  shows "rp_inv cap (p\<lparr>rp_used := (rp_used p)[i := False], rp_count := rp_count p - 1\<rparr>)"
    "rp_abs (p\<lparr>rp_used := (rp_used p)[i := False], rp_count := rp_count p - 1\<rparr>) = pool_release i (rp_abs p)"
proof -
  have "length (filter id ((rp_used p)[i := False])) = rp_count p - 1"
    using length_filter_update [of i "rp_used p" id False] p i by (simp add: rp_inv_def)
  then show "rp_inv cap (p\<lparr>rp_used := (rp_used p)[i := False], rp_count := rp_count p - 1\<rparr>)" using p by (simp add: rp_inv_def)
  have "slots (rp_abs p) ! i \<noteq> None" using rp_slot [OF p i(1)] i(2) by simp
  then show "rp_abs (p\<lparr>rp_used := (rp_used p)[i := False], rp_count := rp_count p - 1\<rparr>) = pool_release i (rp_abs p)"
    using p i rp_length [OF p] by (simp add: pool_release_def) (simp add: rp_abs_def rp_inv_def map2_update_left)
qed

lemma rp_release_refines:
  assumes p: "rp_inv cap p" and sz: "0 < sz"
  shows "rp_inv cap (rp_release cap base sz ptr p)"
    "i < cap \<Longrightarrow> rp_abs (rp_release cap base sz (Some (slot_addr base sz i)) p) = pool_release i (rp_abs p)"
    "(\<And>i q. ptr = Some q \<Longrightarrow> i < cap \<Longrightarrow> q \<noteq> slot_addr base sz i) \<Longrightarrow> rp_release cap base sz ptr p = p"
proof -
  show "rp_inv cap (rp_release cap base sz ptr p)" using p rp_drop(1) [OF p] by (auto simp: rp_release_def Let_def)
  show "rp_abs (rp_release cap base sz (Some (slot_addr base sz i)) p) = pool_release i (rp_abs p)" if i: "i < cap"
  proof (cases "rp_used p ! i")
    case True
    then show ?thesis using rp_drop(2) [OF p i] i sz by (simp add: rp_release_def slot_index_addr)
  next
    case False
    then have "slots (rp_abs p) ! i = None" using rp_slot [OF p i] by simp
    then show ?thesis using False i sz by (simp add: rp_release_def slot_index_addr pool_release_def)
  qed
  show "rp_release cap base sz ptr p = p" if "\<And>i q. ptr = Some q \<Longrightarrow> i < cap \<Longrightarrow> q \<noteq> slot_addr base sz i"
    using slot_index_foreign [OF that] by (simp add: rp_release_def)
qed

lemma rp_reads:
  assumes p: "rp_inv cap p"
  shows "rp_at cap base sz i p = map_option (\<lambda>_. slot_addr base sz i) (pool_at (rp_abs p) i)"
    "rp_find cap base sz P p = map_option (slot_addr base sz) (pool_find P (rp_abs p))"
    "rp_full cap p = pool_full (rp_abs p)"
proof -
  show "rp_at cap base sz i p = map_option (\<lambda>_. slot_addr base sz i) (pool_at (rp_abs p) i)"
    using rp_slot [OF p, of i] rp_length [OF p] by (simp add: rp_at_def pool_at_def)
  have "find (\<lambda>i. rp_used p ! i \<and> P (rp_objs p ! i)) [0..<cap] = find_slot P (slots (rp_abs p)) 0"
    unfolding find_slot_find rp_length [OF p] by (rule find_cong) (simp add: rp_slot [OF p])
  then show "rp_find cap base sz P p = map_option (slot_addr base sz) (pool_find P (rp_abs p))"
    by (simp add: rp_find_def pool_find_def split: option.split)
  show "rp_full cap p = pool_full (rp_abs p)" using rp_length [OF p] by (simp add: rp_full_def pool_full_def) (simp add: rp_abs_def)
qed

lemma fold_unuse:
  "length (rp_used p) = cap \<Longrightarrow> n \<le> cap \<Longrightarrow>
   fold (\<lambda>i p. if rp_used p ! i then p\<lparr>rp_used := (rp_used p)[i := False]\<rparr> else p) [0..<n] p
     = p\<lparr>rp_used := replicate n False @ drop n (rp_used p)\<rparr>"
proof (induction n)
  case (Suc n)
  have d: "drop n (rp_used p) = rp_used p ! n # drop (Suc n) (rp_used p)" using Suc.prems by (simp add: Cons_nth_drop_Suc)
  have "fold (\<lambda>i p. if rp_used p ! i then p\<lparr>rp_used := (rp_used p)[i := False]\<rparr> else p) [0..<n] p
      = p\<lparr>rp_used := replicate n False @ rp_used p ! n # drop (Suc n) (rp_used p)\<rparr>" using Suc by (simp add: d)
  then show ?case by (simp add: nth_append list_update_append replicate_append_same [symmetric])
qed simp

lemma rp_clear_refines:
  assumes p: "rp_inv cap p" shows "rp_inv cap (rp_clear cap p)" "rp_abs (rp_clear cap p) = pool_clear (rp_abs p)"
proof -
  have l: "length (rp_used p) = cap" "length (rp_objs p) = cap" using p by (simp_all add: rp_inv_def)
  have c: "rp_clear cap p = p\<lparr>rp_used := replicate cap False, rp_count := 0\<rparr>"
    using fold_unuse [OF l(1), of cap] l by (simp add: rp_clear_def)
  show "rp_inv cap (rp_clear cap p)" using l by (simp add: c rp_inv_def)
  have "map2 (\<lambda>u x. if u then Some x else None) (replicate cap False) (rp_objs p) = replicate cap None"
    using l(2) by (intro nth_equalityI) simp_all
  then show "rp_abs (rp_clear cap p) = pool_clear (rp_abs p)"
    using rp_length [OF p] by (simp add: c pool_clear_def map_replicate_const) (simp add: rp_abs_def)
qed

section \<open>Properties\<close>

text \<open>C21: the pool in memory. Working on its storage, its array of flags and its counter, the pool does what the slot
  model does: \<open>alloc\<close> hands out the address of the first free slot, \<open>at\<close> and \<open>find\<close> the address of the slot looked
  for, \<open>release\<close> of such an address frees that slot and no other, and \<open>release\<close> of anything else - a null
  pointer, a foreign one, one into the middle of an object, a slot already free - changes nothing.\<close>

theorem pool_in_memory:
  assumes "rp_inv cap p" "0 < sz"
  shows "(rp_abs (fst (rp_alloc cap base sz d p)), snd (rp_alloc cap base sz d p))
        = map_prod id (map_option (slot_addr base sz)) (pool_alloc d (rp_abs p))
    \<and> rp_find cap base sz P p = map_option (slot_addr base sz) (pool_find P (rp_abs p))
    \<and> (\<forall>i < cap. rp_at cap base sz i p = map_option (\<lambda>_. slot_addr base sz i) (pool_at (rp_abs p) i)
        \<and> index_of base sz (slot_addr base sz i) = i
        \<and> rp_abs (rp_release cap base sz (Some (slot_addr base sz i)) p) = pool_release i (rp_abs p))
    \<and> (\<forall>ptr. (\<forall>i < cap. rp_used p ! i \<longrightarrow> ptr \<noteq> Some (slot_addr base sz i)) \<longrightarrow> rp_release cap base sz ptr p = p)"
proof -
  have "rp_release cap base sz ptr p = p" if u: "\<forall>i < cap. rp_used p ! i \<longrightarrow> ptr \<noteq> Some (slot_addr base sz i)" for ptr
  proof (cases "\<exists>i < cap. ptr = Some (slot_addr base sz i)")
    case True
    then obtain i where i: "i < cap" "ptr = Some (slot_addr base sz i)" by blast
    then show ?thesis using u assms(2) by (auto simp: rp_release_def slot_index_addr)
  next
    case False
    then show ?thesis by (intro rp_release_refines(3) [OF assms]) blast
  qed
  then show ?thesis
    using rp_alloc_refines(2) [OF assms(1)] rp_reads(1,2) [OF assms(1)] rp_release_refines(2) [OF assms] assms(2)
    by (simp add: index_of_addr)
qed

theorem pool_in_memory_witness:
  "let p = \<lparr>rp_objs = [7, 8], rp_used = [True, False], rp_count = 1\<rparr>
   in snd (rp_alloc 2 1000 24 (0 :: nat) p) = Some 1024 \<and> rp_release 2 1000 24 (Some 1012) p = p \<and> rp_release 2 1000 24 (Some 1024) p = p
      \<and> rp_abs (rp_release 2 1000 24 (Some 1000) p) = \<lparr>slots = [None, None], live = 0\<rparr>"
proof -
  let ?p = "\<lparr>rp_objs = [7, 8 :: nat], rp_used = [True, False], rp_count = 1\<rparr>"
  have i: "rp_inv 2 ?p" by (simp add: rp_inv_def)
  have "map_option (slot_addr 1000 24) (snd (pool_alloc 0 (rp_abs ?p))) = Some 1024" by code_simp
  moreover have "pool_release 0 (rp_abs ?p) = \<lparr>slots = [None, None], live = 0\<rparr>" by code_simp
  moreover have "\<forall>i < 2. rp_used ?p ! i \<longrightarrow> Some q \<noteq> Some (slot_addr 1000 24 i)" if "q \<noteq> 1000" for q
    using that by (auto simp: less_2_cases_iff slot_addr_def)
  ultimately show ?thesis
    using pool_in_memory [OF i, of 24 1000 0 "\<lambda>_. True"] by (auto simp: Let_def slot_addr_def prod_eq_iff dest: spec [of _ 0])
qed

end
