(* ===== verification/Transport.thy ===== *)
theory Transport
  imports Broker_Talks
begin

text \<open>
  The transport interface (\<open>transport.hpp\<close>) from both sides. Towards the broker a transport is a
  pair of functions \<open>send\<close> and \<open>close\<close>; locale \<open>transport_ops\<close> is what they have to keep for the
  two sides to agree on the open connections, locale \<open>byte_transport\<close> adds that a connection carries
  the accepted bytes in order. Towards the transport a broker is the four functions it drives; they are
  the record \<open>host\<close>, because a transport is a template over them: \<open>Broker\<close> and the
  driver of the TLS adapter both fit. Locale \<open>polled\<close> is what a transport can rely on.
\<close>

section \<open>Model\<close>

definition narrower_capacity :: "nat \<Rightarrow> nat \<Rightarrow> nat" where
  "narrower_capacity own wrapped = (if wrapped = 0 then own else if wrapped < own then wrapped else own)"

definition null_send :: "'tr \<Rightarrow> nat \<Rightarrow> bytes \<Rightarrow> 'tr \<times> bool" where
  "null_send tr ci pkt = (tr, True)"

definition null_close :: "'tr \<Rightarrow> nat \<Rightarrow> 'tr" where
  "null_close tr ci = tr"

text \<open>The assertions of \<open>Broker\<close> on the numbers a transport publishes; 0 stands for none.\<close>

definition transport_asserted :: "traits \<Rightarrow> nat \<Rightarrow> nat \<Rightarrow> bool" where
  "transport_asserted T conns buf \<longleftrightarrow> (conns = 0 \<or> conns \<ge> max_connections T) \<and> (buf = 0 \<or> buf \<ge> out_size T)"

text \<open>The broker a transport is a template over, with the transport inside its state.\<close>

record ('s, 'tr) host =
  h_open :: "nat \<Rightarrow> u32 \<Rightarrow> 's \<Rightarrow> err \<times> 's"
  h_data :: "nat \<Rightarrow> bytes \<Rightarrow> u32 \<Rightarrow> 's \<Rightarrow> err \<times> 's"
  h_closed :: "nat \<Rightarrow> 's \<Rightarrow> 's"
  h_tick :: "u32 \<Rightarrow> 's \<Rightarrow> 's"
  h_tr :: "'s \<Rightarrow> 'tr"
  h_put :: "'tr \<Rightarrow> 's \<Rightarrow> 's"

definition broker_host :: "('ctx, 'tr) env \<Rightarrow> (('ctx, 'tr) broker, 'tr) host" where
  "broker_host E = \<lparr>h_open = conn_open E, h_data = conn_data E, h_closed = conn_closed E, h_tick = tick E,
     h_tr = b_tr, h_put = (\<lambda>tr b. b\<lparr>b_tr := tr\<rparr>)\<rparr>"

section \<open>What a transport promises\<close>

locale transport_ops =
  fixes snd_op :: "'tr \<Rightarrow> nat \<Rightarrow> bytes \<Rightarrow> 'tr \<times> bool" and close_op :: "'tr \<Rightarrow> nat \<Rightarrow> 'tr"
    and opens :: "'tr \<Rightarrow> nat set" and good :: "'tr \<Rightarrow> bool"
  assumes send_good: "good tr \<Longrightarrow> ci \<in> opens tr \<Longrightarrow> snd_op tr ci pkt = (tr', ok) \<Longrightarrow> good tr' \<and> opens tr' = opens tr"
    and close_good: "good tr \<Longrightarrow> ci \<in> opens tr \<Longrightarrow> good (close_op tr ci) \<and> opens (close_op tr ci) = opens tr - {ci}"
begin

lemma transcript_opens:
  "transcript snd_op close_op as tr = Some tr' \<Longrightarrow> protocol as (opens tr) = Some S \<Longrightarrow> good tr \<Longrightarrow> good tr' \<and> opens tr' = S"
proof (induction as arbitrary: tr)
  case (Cons a as)
  show ?case
  proof (cases a)
    case (Sent ci pkt ok)
    obtain tr1 r where s: "snd_op tr ci pkt = (tr1, r)" by fastforce
    show ?thesis using Cons.IH [of tr1] Cons.prems Sent s send_good [OF _ _ s] by (auto split: if_splits)
  next
    case (Closed ci)
    show ?thesis using Cons.IH [of "close_op tr ci"] Cons.prems Closed close_good [of tr ci] by (auto split: if_splits)
  qed (use Cons in \<open>auto split: if_splits\<close>)
qed auto

end

locale byte_transport = transport_ops +
  fixes out :: "'a \<Rightarrow> nat \<Rightarrow> bytes"
  assumes send_out: "good tr \<Longrightarrow> ci \<in> opens tr \<Longrightarrow> snd_op tr ci pkt = (tr', ok) \<Longrightarrow> cj \<in> opens tr \<Longrightarrow>
      out tr' cj = (if ok \<and> cj = ci then out tr cj @ pkt else out tr cj)"
    and close_out: "good tr \<Longrightarrow> ci \<in> opens tr \<Longrightarrow> cj \<in> opens tr \<Longrightarrow> cj \<noteq> ci \<Longrightarrow> out (close_op tr ci) cj = out tr cj"
begin

text \<open>A connection that stays open carries what was accepted on it, in order.\<close>

lemma transcript_out:
  "transcript snd_op close_op as tr = Some tr' \<Longrightarrow> protocol as (opens tr) = Some S \<Longrightarrow> good tr \<Longrightarrow> cj \<in> S \<Longrightarrow>
   out tr' cj = fold (accepted_step cj) as (out tr cj)"
proof (induction as arbitrary: tr)
  case (Cons a as)
  show ?case
  proof (cases a)
    case (Sent ci pkt ok)
    obtain tr1 r where s: "snd_op tr ci pkt = (tr1, r)" by fastforce
    have "cj \<in> opens tr" using protocol_shrinks [OF Cons.prems(2)] Cons.prems(4) by auto
    then show ?thesis using Cons.IH [of tr1] Cons.prems Sent s send_good [OF _ _ s] send_out [OF _ _ s]
      by (auto simp: accepted_step_def split: if_splits)
  next
    case (Closed ci)
    have "cj \<in> opens tr" "cj \<noteq> ci"
      using protocol_shrinks [of as "opens tr - {ci}" S] Cons.prems Closed by (auto split: if_splits)
    then show ?thesis using Cons.IH [of "close_op tr ci"] Cons.prems Closed close_good [of tr ci] close_out [of tr ci]
      by (auto simp: accepted_step_def split: if_splits)
  qed (use Cons in \<open>auto simp: accepted_step_def opened_at_def split: if_splits\<close>)
qed auto

end

text \<open>What the calls of the interface keep, a transcript keeps.\<close>

lemma transcript_keeps:
  assumes k: "\<And>tr ci pkt. K tr \<Longrightarrow> K (fst (snd_op tr ci pkt))" "\<And>tr ci. K tr \<Longrightarrow> K (close_op tr ci)"
  shows "transcript snd_op close_op as tr = Some tr' \<Longrightarrow> K tr \<Longrightarrow> K tr'"
proof (induction as arbitrary: tr)
  case (Cons a as)
  show ?case
  proof (cases a)
    case (Sent ci pkt ok)
    then show ?thesis
      using Cons.IH [of "fst (snd_op tr ci pkt)"] Cons.prems k(1) [of tr ci pkt] by (simp add: split_beta split: if_splits)
  next
    case (Closed ci)
    then show ?thesis using Cons.IH [of "close_op tr ci"] Cons.prems k(2) [of tr ci] by simp
  qed (use Cons in simp)
qed simp

section \<open>What a transport can rely on\<close>

text \<open>
  \<open>up\<close> are the connections the host takes to be open, \<open>said\<close> is the record of its calls. A host
  may call \<open>send\<close> and \<open>close\<close> while it is driven, on connections of \<open>up\<close> only.
\<close>

locale polled =
  fixes H :: "('s, 'tr) host" and snd_op :: "'tr \<Rightarrow> nat \<Rightarrow> bytes \<Rightarrow> 'tr \<times> bool" and close_op :: "'tr \<Rightarrow> nat \<Rightarrow> 'tr"
    and inv :: "'s \<Rightarrow> bool" and up :: "'s \<Rightarrow> nat set" and said :: "'s \<Rightarrow> action list"
  assumes tr_put: "h_tr H (h_put H tr s) = tr" and inv_put: "inv (h_put H tr s) = inv s"
    and up_put: "up (h_put H tr s) = up s" and said_put: "said (h_put H tr s) = said s"
    and data: "inv s \<Longrightarrow> ci \<in> up s \<Longrightarrow> h_data H ci d now s = (e, s') \<Longrightarrow> inv s' \<and>
      (\<exists>as. said s' = said s @ as \<and> transcript snd_op close_op as (h_tr H s) = Some (h_tr H s') \<and> protocol as (up s) = Some (up s'))"
    and tick: "inv s \<Longrightarrow> inv (h_tick H now s) \<and> (\<exists>as. said (h_tick H now s) = said s @ as
      \<and> transcript snd_op close_op as (h_tr H s) = Some (h_tr H (h_tick H now s)) \<and> protocol as (up s) = Some (up (h_tick H now s)))"
    and closed: "inv s \<Longrightarrow> inv (h_closed H ci s) \<and> (\<exists>as. said (h_closed H ci s) = said s @ as
      \<and> transcript snd_op close_op as (h_tr H s) = Some (h_tr H (h_closed H ci s)) \<and> protocol as (up s - {ci}) = Some (up (h_closed H ci s)))"
    and opened: "inv s \<Longrightarrow> h_open H ci now s = (e, s') \<Longrightarrow> inv s' \<and> h_tr H s' = h_tr H s \<and>
      (if e = Err_ok then up s' = insert ci (up s) \<and> (\<exists>ev. said s' = said s @ [Noted ev] \<and> opened_at ci ev \<and> (\<forall>cj. cj \<noteq> ci \<longrightarrow> \<not> opened_at cj ev))
       else up s' = up s \<and> said s' = said s)"

text \<open>
  A transport with its host. Between the calls of its event loop the two agree: the connections the
  transport has open are those the host takes to be open, and each carries the bytes the host was told
  were accepted.
\<close>

definition agrees :: "('tr \<Rightarrow> bool) \<Rightarrow> ('tr \<Rightarrow> nat set) \<Rightarrow> ('tr \<Rightarrow> nat \<Rightarrow> bytes) \<Rightarrow> ('s, 'tr) host
    \<Rightarrow> ('s \<Rightarrow> nat set) \<Rightarrow> ('s \<Rightarrow> action list) \<Rightarrow> 's \<Rightarrow> bool" where
  "agrees good opens out H up said s \<longleftrightarrow> good (h_tr H s) \<and> opens (h_tr H s) = up s
     \<and> (\<forall>ci \<in> up s. out (h_tr H s) ci = accepted_on ci (said s))"

lemma accepted_on_append: "accepted_on ci (as @ bs) = fold (accepted_step ci) bs (accepted_on ci as)"
  by (simp add: accepted_on_def)

lemma accepted_on_opened:
  "opened_at ci ev \<Longrightarrow> accepted_on ci (as @ [Noted ev]) = []"
  "\<not> opened_at cj ev \<Longrightarrow> accepted_on cj (as @ [Noted ev]) = accepted_on cj as"
  by (simp_all add: accepted_on_append accepted_step_def)

locale driven = polled H snd_op close_op inv up said + byte_transport snd_op close_op opens good out
  for H :: "('s, 'tr) host" and snd_op and close_op and inv and up and said and opens and good and out
begin

lemma agrees_put:
  assumes "agrees good opens out H up said s" "good tr'" "opens tr' = opens (h_tr H s)" "\<And>ci. ci \<in> up s \<Longrightarrow> out tr' ci = out (h_tr H s) ci"
  shows "agrees good opens out H up said (h_put H tr' s)"
  using assms by (simp add: agrees_def tr_put up_put said_put)

text \<open>What the host does while it is driven.\<close>

lemma agrees_calls:
  assumes i: "good (h_tr H s)" and S: "opens (h_tr H s) = S" "\<And>ci. ci \<in> S \<Longrightarrow> out (h_tr H s) ci = accepted_on ci (said s)"
    and as: "said s' = said s @ as" "transcript snd_op close_op as (h_tr H s) = Some (h_tr H s')" "protocol as S = Some (up s')"
  shows "agrees good opens out H up said s'"
proof -
  have p: "protocol as (opens (h_tr H s)) = Some (up s')" using as(3) S(1) by simp
  have "out (h_tr H s') ci = accepted_on ci (said s')" if "ci \<in> up s'" for ci
    using transcript_out [OF as(2) p i that] S(2) [of ci] protocol_shrinks [OF as(3)] that as(1)
    by (auto simp: accepted_on_append)
  then show ?thesis using transcript_opens [OF as(2) p i] by (simp add: agrees_def)
qed

lemma agrees_data:
  assumes "agrees good opens out H up said s" "inv s" "ci \<in> up s"
  shows "inv (snd (h_data H ci d now s)) \<and> agrees good opens out H up said (snd (h_data H ci d now s))"
proof -
  obtain e s' where e: "h_data H ci d now s = (e, s')" by fastforce
  obtain as where "inv s'" and as: "said s' = said s @ as" "transcript snd_op close_op as (h_tr H s) = Some (h_tr H s')" "protocol as (up s) = Some (up s')"
    using data [OF assms(2,3) e] by blast
  moreover have "agrees good opens out H up said s'"
    by (rule agrees_calls [OF _ _ _ as]) (use assms(1) in \<open>auto simp: agrees_def\<close>)
  ultimately show ?thesis by (simp add: e)
qed

lemma data_keeps:
  assumes "inv s" "ci \<in> up s" "K (h_tr H s)" "\<And>tr ci pkt. K tr \<Longrightarrow> K (fst (snd_op tr ci pkt))" "\<And>tr ci. K tr \<Longrightarrow> K (close_op tr ci)"
  shows "K (h_tr H (snd (h_data H ci d now s)))"
proof -
  obtain e s' where e: "h_data H ci d now s = (e, s')" by fastforce
  obtain as where t: "transcript snd_op close_op as (h_tr H s) = Some (h_tr H s')" using data [OF assms(1,2) e] by blast
  have "K (h_tr H s')" by (rule transcript_keeps [where K = K, OF _ _ t assms(3)]) (fact assms(4), fact assms(5))
  then show ?thesis by (simp add: e)
qed

lemma agrees_tick:
  assumes "agrees good opens out H up said s" "inv s"
  shows "inv (h_tick H now s) \<and> agrees good opens out H up said (h_tick H now s)"
proof -
  obtain as where i: "inv (h_tick H now s)" and as: "said (h_tick H now s) = said s @ as"
    "transcript snd_op close_op as (h_tr H s) = Some (h_tr H (h_tick H now s))" "protocol as (up s) = Some (up (h_tick H now s))"
    using tick [OF assms(2)] by blast
  have "agrees good opens out H up said (h_tick H now s)"
    by (rule agrees_calls [OF _ _ _ as]) (use assms(1) in \<open>auto simp: agrees_def\<close>)
  then show ?thesis using i by simp
qed

text \<open>A connection the transport gave up, and then reported.\<close>

lemma agrees_closed:
  assumes s: "agrees good opens out H up said s" "inv s"
    and tr: "good tr'" "opens tr' = opens (h_tr H s) - {ci}" "\<And>cj. cj \<in> up s \<Longrightarrow> cj \<noteq> ci \<Longrightarrow> out tr' cj = out (h_tr H s) cj"
  shows "inv (h_closed H ci (h_put H tr' s)) \<and> agrees good opens out H up said (h_closed H ci (h_put H tr' s))"
proof -
  let ?s = "h_put H tr' s"
  obtain as where i: "inv (h_closed H ci ?s)" and as: "said (h_closed H ci ?s) = said ?s @ as"
    "transcript snd_op close_op as (h_tr H ?s) = Some (h_tr H (h_closed H ci ?s))" "protocol as (up ?s - {ci}) = Some (up (h_closed H ci ?s))"
    using closed [of ?s ci] s(2) by (auto simp: inv_put)
  have "agrees good opens out H up said (h_closed H ci ?s)"
    by (rule agrees_calls [OF _ _ _ as]) (use s(1) tr in \<open>auto simp: agrees_def tr_put up_put said_put\<close>)
  then show ?thesis using i by simp
qed

end

text \<open>The broker is such a host.\<close>

definition settled :: "traits \<Rightarrow> ('ctx, 'tr) broker \<Rightarrow> bool" where
  "settled T b \<longleftrightarrow> wf_broker T b \<and> quiet b \<and> heard b"

lemma settled_api: "settled T b \<Longrightarrow> api_step T b b' \<Longrightarrow> settled T b'"
  using api_step_settles [of T b b'] api_step_heard [of T b b'] by (simp add: settled_def)

lemma settled_reachable: "traits_ok T \<Longrightarrow> reachable T b \<Longrightarrow> settled T b"
  using reachable_settled [of T b] reachable_heard [of T b] by (simp add: settled_def)

lemma settled_put [simp]: "settled T (b\<lparr>b_tr := tr\<rparr>) = settled T b"
proof -
  have "settled T (b\<lparr>b_tr := tr\<rparr>)" if "settled T b" for b :: "('ctx, 'tr) broker" and tr
    by (rule settled_api [OF that step_transport])
  from this [of b tr] this [of "b\<lparr>b_tr := tr\<rparr>" "b_tr b"] show ?thesis by auto
qed

lemma open_conns_put [simp]: "open_conns (b\<lparr>b_tr := tr\<rparr>) = open_conns b"
proof -
  have "conn_at (b\<lparr>b_tr := tr\<rparr>) = conn_at b" by (rule conn_at_cong) simp
  then show ?thesis by (simp add: open_conns_def)
qed

lemma host_sel [simp]:
  "h_open (broker_host E) = conn_open E" "h_data (broker_host E) = conn_data E" "h_closed (broker_host E) = conn_closed E"
  "h_tick (broker_host E) = tick E" "h_tr (broker_host E) = b_tr" "h_put (broker_host E) tr b = b\<lparr>b_tr := tr\<rparr>"
  by (simp_all add: broker_host_def)

lemma obeys_host:
  "obeys E S b b' \<Longrightarrow> \<exists>as. b_trace b' = b_trace b @ as \<and> transcript (e_send E) (e_close E) as (b_tr b) = Some (b_tr b')
     \<and> protocol as S = Some (open_conns b')"
  by (simp add: obeys_def)

interpretation direct: polled "broker_host E" "e_send E" "e_close E" "settled (e_traits E)" open_conns b_trace
  for E :: "('ctx, 'tr) env"
proof
  fix s s' :: "('ctx, 'tr) broker" and ci d now e assume i: "settled (e_traits E) s"
  have st: "settled (e_traits E) s'" if "api_step (e_traits E) s s'" for s' by (rule settled_api [OF i that])
  have h: "heard s" "wf_broker (e_traits E) s" using i by (simp_all add: settled_def)
  show "settled (e_traits E) (h_tick (broker_host E) now s) \<and> (\<exists>as. b_trace (h_tick (broker_host E) now s) = b_trace s @ as
      \<and> transcript (e_send E) (e_close E) as (h_tr (broker_host E) s) = Some (h_tr (broker_host E) (h_tick (broker_host E) now s))
      \<and> protocol as (open_conns s) = Some (open_conns (h_tick (broker_host E) now s)))"
    using st [OF step_tick [of E]] talks_tick [of E s now] h(1) by (simp add: talks_def obeys_host)
  show "settled (e_traits E) (h_closed (broker_host E) ci s) \<and> (\<exists>as. b_trace (h_closed (broker_host E) ci s) = b_trace s @ as
      \<and> transcript (e_send E) (e_close E) as (h_tr (broker_host E) s) = Some (h_tr (broker_host E) (h_closed (broker_host E) ci s))
      \<and> protocol as (open_conns s - {ci}) = Some (open_conns (h_closed (broker_host E) ci s)))"
    using st [OF step_closed [of E]] conn_closed_obeys [OF h(1) wfD(1) [OF h(2)], of ci] by (simp add: obeys_host)
  show "settled (e_traits E) s' \<and> (\<exists>as. b_trace s' = b_trace s @ as
      \<and> transcript (e_send E) (e_close E) as (h_tr (broker_host E) s) = Some (h_tr (broker_host E) s')
      \<and> protocol as (open_conns s) = Some (open_conns s'))" if d: "h_data (broker_host E) ci d now s = (e, s')"
    using st [OF step_data [of E _ _ ci d now]] talks_conn_data [OF h(2), of ci d now] h(1) d by (simp add: talks_def obeys_host)
  show "settled (e_traits E) s' \<and> h_tr (broker_host E) s' = h_tr (broker_host E) s
      \<and> (if e = Err_ok then open_conns s' = insert ci (open_conns s)
           \<and> (\<exists>ev. b_trace s' = b_trace s @ [Noted ev] \<and> opened_at ci ev \<and> (\<forall>cj. cj \<noteq> ci \<longrightarrow> \<not> opened_at cj ev))
         else open_conns s' = open_conns s \<and> b_trace s' = b_trace s)" if o: "h_open (broker_host E) ci now s = (e, s')"
  proof -
    have o': "conn_open E ci now s = (e, s')" using o by simp
    have "b_trace s' = b_trace s @ [Noted ((new_event connection_opened)\<lparr>ev_ci := Some ci, ev_client_id := cid\<rparr>)]"
      if "e = Err_ok" "cid = ev_client_id (case last (b_trace s') of Noted ev \<Rightarrow> ev)" for cid
      using o' that by (auto simp: conn_open_def Let_def notify_conn_def notify_def split: if_splits)
    then show ?thesis
      using st [OF step_open [of E _ _ ci now]] o' conn_open_heard [OF o' h(1) wfD(1) [OF h(2)]]
      by (auto simp: opened_at_def new_event_def)
  qed
qed simp_all

end
