(* ===== verification/Out_Ring.thy ===== *)
theory Out_Ring
  imports Prelude
begin

text \<open>
  The fixed-size output ring of the POSIX transports (\<open>transports/posix/common.hpp\<close>,
  \<open>OutRing\<close>): a byte array with a head and a length. \<open>Capacity\<close> is an argument.

  The theory shows that the ring refines a bounded FIFO of bytes, and that draining it
  chunk by chunk, as \<open>flush\<close> does with \<open>write()\<close>, yields the bytes in order.
\<close>

section \<open>Model\<close>

record out_ring =
  ring_buf :: bytes
  ring_head :: nat
  ring_len :: nat

definition ring_init :: "nat \<Rightarrow> out_ring" where
  "ring_init cap = \<lparr>ring_buf = replicate cap 0, ring_head = 0, ring_len = 0\<rparr>"

definition ring_empty :: "out_ring \<Rightarrow> bool" where
  "ring_empty r \<longleftrightarrow> ring_len r = 0"

definition ring_append :: "nat \<Rightarrow> bytes \<Rightarrow> out_ring \<Rightarrow> out_ring \<times> bool" where
  "ring_append cap b r =
    (if ring_len r + length b > cap then (r, False)
     else (r\<lparr>ring_buf := fold (\<lambda>i buf. buf[(ring_head r + ring_len r + i) mod cap := b ! i]) [0..<length b] (ring_buf r),
             ring_len := ring_len r + length b\<rparr>, True))"

definition ring_front_chunk :: "nat \<Rightarrow> out_ring \<Rightarrow> bytes" where
  "ring_front_chunk cap r =
    (let tail_room = cap - ring_head r
     in take (if ring_len r < tail_room then ring_len r else tail_room) (drop (ring_head r) (ring_buf r)))"

definition ring_consume :: "nat \<Rightarrow> nat \<Rightarrow> out_ring \<Rightarrow> out_ring" where
  "ring_consume cap n r =
    (let n = (if n > ring_len r then ring_len r else n)
     in r\<lparr>ring_head := (ring_head r + n) mod cap, ring_len := ring_len r - n\<rparr>)"

definition ring_clear :: "out_ring \<Rightarrow> out_ring" where
  "ring_clear r = r\<lparr>ring_head := 0, ring_len := 0\<rparr>"

section \<open>Invariant and contents\<close>

definition ring_inv :: "nat \<Rightarrow> out_ring \<Rightarrow> bool" where
  "ring_inv cap r \<longleftrightarrow> 0 < cap \<and> length (ring_buf r) = cap \<and> ring_head r < cap \<and> ring_len r \<le> cap"

definition ring_bytes :: "nat \<Rightarrow> out_ring \<Rightarrow> bytes" where
  "ring_bytes cap r = map (\<lambda>i. ring_buf r ! ((ring_head r + i) mod cap)) [0..<ring_len r]"

lemma length_ring_bytes [simp]: "length (ring_bytes cap r) = ring_len r"
  by (simp add: ring_bytes_def)

lemma ring_slot_inj:
  fixes cap :: nat
  assumes "i < cap" "j < cap" "(h + i) mod cap = (h + j) mod cap" shows "i = j"
proof -
  have "h mod cap < cap" using assms(1) by simp
  then show ?thesis using assms shift_mod_inj [of "h mod cap" i cap j] by (simp add: mod_add_left_eq)
qed

lemma ring_fold:
  assumes "k < cap" "length buf = cap" "l + length b \<le> cap" "0 < cap"
  shows "fold (\<lambda>i buf. buf[(h + l + i) mod cap := b ! i]) [0..<length b] buf ! ((h + k) mod cap) =
    (if l \<le> k \<and> k < l + length b then b ! (k - l) else buf ! ((h + k) mod cap))"
  using assms
proof (induction b rule: rev_induct)
  case (snoc x b)
  let ?f = "\<lambda>b i buf. buf[(h + l + i) mod cap := b ! i]"
  let ?m = "fold (?f b) [0..<length b] buf"
  have "fold (?f (b @ [x])) [0..<length b] buf = ?m"
    by (rule fold_cong) (auto simp: nth_append)
  then have e: "fold (?f (b @ [x])) [0..<length (b @ [x])] buf = ?m[(h + l + length b) mod cap := x]" by simp
  have len: "length ?m = cap" using snoc.prems(2) length_fold_update [of "\<lambda>i. (h + l + i) mod cap" "\<lambda>i _. b ! i"] by simp
  have ne: "(h + k) mod cap \<noteq> (h + (l + length b)) mod cap" if "k \<noteq> l + length b"
    using ring_slot_inj [of k cap "l + length b" h] that snoc.prems(1) snoc.prems(3) by auto
  show ?case
  proof (cases "k = l + length b")
    case True
    then show ?thesis unfolding e using len snoc.prems(4) by (simp add: add.assoc nth_append)
  next
    case False
    then show ?thesis unfolding e using snoc.IH snoc.prems ne [OF False]
      by (auto simp: add.assoc nth_append)
  qed
qed auto

section \<open>Refinement of a bounded FIFO\<close>

lemma ring_inv_init: "0 < cap \<Longrightarrow> ring_inv cap (ring_init cap)"
  by (simp add: ring_inv_def ring_init_def)

lemma ring_append_refines:
  assumes inv: "ring_inv cap r" and a: "ring_append cap b r = (r', fit)"
  shows "ring_inv cap r'" and "fit \<longleftrightarrow> ring_len r + length b \<le> cap"
    and "ring_bytes cap r' = (if fit then ring_bytes cap r @ b else ring_bytes cap r)"
proof -
  let ?buf = "fold (\<lambda>i buf. buf[(ring_head r + ring_len r + i) mod cap := b ! i]) [0..<length b] (ring_buf r)"
  show fit: "fit \<longleftrightarrow> ring_len r + length b \<le> cap" using a by (auto simp: ring_append_def split: if_splits)
  have len: "length ?buf = length (ring_buf r)"
    by (rule length_fold_update [of "\<lambda>i. (ring_head r + ring_len r + i) mod cap" "\<lambda>i _. b ! i"])
  show "ring_inv cap r'" using inv a len by (auto simp: ring_append_def ring_inv_def split: if_splits)
  show "ring_bytes cap r' = (if fit then ring_bytes cap r @ b else ring_bytes cap r)"
  proof (cases fit)
    case True
    then have r': "r' = r\<lparr>ring_buf := ?buf, ring_len := ring_len r + length b\<rparr>" "ring_len r + length b \<le> cap"
      using a fit by (auto simp: ring_append_def)
    have "?buf ! ((ring_head r + k) mod cap) = (if ring_len r \<le> k then b ! (k - ring_len r) else ring_buf r ! ((ring_head r + k) mod cap))"
      if "k < ring_len r + length b" for k
      using ring_fold [of k cap "ring_buf r" "ring_len r" b "ring_head r"] that r'(2) inv by (auto simp: ring_inv_def)
    then show ?thesis
      using True by (intro nth_equalityI) (auto simp: r' ring_bytes_def nth_append)
  qed (use a fit in \<open>simp add: ring_append_def\<close>)
qed

lemma ring_chunk_prefix:
  assumes "ring_inv cap r"
  shows "ring_bytes cap r = ring_front_chunk cap r @ drop (length (ring_front_chunk cap r)) (ring_bytes cap r)"
    and "ring_front_chunk cap r = [] \<longleftrightarrow> ring_bytes cap r = []"
proof -
  let ?c = "ring_front_chunk cap r"
  have len: "length ?c = min (ring_len r) (cap - ring_head r)"
    using assms by (auto simp: ring_front_chunk_def Let_def ring_inv_def min_def)
  have "?c ! i = ring_bytes cap r ! i" if "i < length ?c" for i
    using that len assms by (auto simp: ring_front_chunk_def Let_def ring_inv_def ring_bytes_def)
  then have "?c = take (length ?c) (ring_bytes cap r)"
    using len by (intro nth_equalityI) auto
  then show "ring_bytes cap r = ?c @ drop (length ?c) (ring_bytes cap r)" by (metis append_take_drop_id)
  show "?c = [] \<longleftrightarrow> ring_bytes cap r = []"
    using len assms by (auto simp: ring_inv_def ring_bytes_def simp flip: length_0_conv)
qed

lemma ring_consume_refines:
  assumes "ring_inv cap r"
  shows "ring_inv cap (ring_consume cap n r)" and "ring_bytes cap (ring_consume cap n r) = drop n (ring_bytes cap r)"
proof -
  show "ring_inv cap (ring_consume cap n r)" using assms by (auto simp: ring_inv_def ring_consume_def Let_def)
  have m: "((ring_head r + n) mod cap + i) mod cap = (ring_head r + (n + i)) mod cap" for i
    by (simp add: mod_add_left_eq add.assoc)
  show "ring_bytes cap (ring_consume cap n r) = drop n (ring_bytes cap r)"
    by (rule nth_equalityI) (auto simp: ring_consume_def Let_def ring_bytes_def m)
qed

text \<open>
  The interface a flush loop relies on. \<open>drain\<close> is such a loop: the operating system
  takes some number of bytes of each chunk, and that many are consumed.
\<close>

locale byte_fifo =
  fixes invar :: "'r \<Rightarrow> bool" and contents :: "'r \<Rightarrow> bytes"
    and front :: "'r \<Rightarrow> bytes" and consume :: "nat \<Rightarrow> 'r \<Rightarrow> 'r"
  assumes front_prefix: "invar r \<Longrightarrow> contents r = front r @ drop (length (front r)) (contents r)"
    and front_empty: "invar r \<Longrightarrow> front r = [] \<longleftrightarrow> contents r = []"
    and consume_invar: "invar r \<Longrightarrow> invar (consume n r)"
    and consume_contents: "invar r \<Longrightarrow> contents (consume n r) = drop n (contents r)"
begin

fun drain :: "nat list \<Rightarrow> 'r \<Rightarrow> bytes \<times> 'r" where
  "drain [] r = ([], r)"
| "drain (n # ns) r = (let w = take n (front r); (out, r) = drain ns (consume (length w) r) in (w @ out, r))"

lemma drain_order: "invar r \<Longrightarrow> drain ns r = (out, r') \<Longrightarrow> invar r' \<and> contents r = out @ contents r'"
proof (induction ns arbitrary: r out)
  case (Cons n ns)
  let ?w = "take n (front r)"
  obtain out' where o: "drain ns (consume (length ?w) r) = (out', r')" "out = ?w @ out'"
    using Cons.prems(2) by (auto simp: Let_def split: prod.splits)
  have "contents r = ?w @ drop (length ?w) (contents r)"
  proof -
    have "take (length ?w) (contents r) = ?w"
      using arg_cong [OF front_prefix [OF Cons.prems(1)], of "take (length ?w)"] by (simp add: min_def split: if_splits)
    then show ?thesis by (metis append_take_drop_id)
  qed
  then show ?case
    using Cons.IH [OF consume_invar [OF Cons.prems(1)] o(1)] o(2) consume_contents [OF Cons.prems(1)] by simp
qed simp

text \<open>While every write takes something, as many writes as there are bytes empty the ring.\<close>

lemma drain_progress:
  "invar r \<Longrightarrow> list_all (\<lambda>n. 0 < n) ns \<Longrightarrow> length (contents r) \<le> length ns \<Longrightarrow>
   contents (snd (drain ns r)) = []"
proof (induction ns arbitrary: r)
  case (Cons n ns)
  let ?w = "take n (front r)"
  have "contents r = [] \<or> ?w \<noteq> []" using Cons.prems(2) front_empty [OF Cons.prems(1)] by auto
  then have "length (contents (consume (length ?w) r)) \<le> length ns"
    using Cons.prems(3) consume_contents [OF Cons.prems(1), of "length ?w"]
    by (cases "contents r = []") (auto simp: Suc_le_eq simp flip: length_greater_0_conv)
  then show ?case
    using Cons.IH [OF consume_invar [OF Cons.prems(1), of "length ?w"]] Cons.prems(2)
    by (auto simp: Let_def split: prod.splits)
qed simp

end

interpretation ring: byte_fifo "ring_inv cap" "ring_bytes cap" "ring_front_chunk cap" "ring_consume cap" for cap
  by unfold_locales (fact ring_chunk_prefix ring_consume_refines)+

section \<open>Properties\<close>

text \<open>The ring is a bounded queue of bytes: \<open>append\<close> takes a packet whole when it fits and nothing of
  it otherwise, \<open>front_chunk\<close> is a prefix of the queued bytes that is empty only when there are none, and
  \<open>consume\<close> removes from the front.\<close>

theorem ring_is_queue:
  assumes "ring_inv cap r" "ring_append cap b r = (r', fit)"
  shows "ring_inv cap r' \<and> (fit \<longleftrightarrow> ring_len r + length b \<le> cap)
    \<and> ring_bytes cap r' = (if fit then ring_bytes cap r @ b else ring_bytes cap r)
    \<and> (\<exists>rest. ring_bytes cap r = ring_front_chunk cap r @ rest)
    \<and> (ring_front_chunk cap r = [] \<longleftrightarrow> ring_bytes cap r = [])
    \<and> ring_inv cap (ring_consume cap n r) \<and> ring_bytes cap (ring_consume cap n r) = drop n (ring_bytes cap r)"
  using ring_append_refines [OF assms] ring_chunk_prefix [OF assms(1)] ring_consume_refines [OF assms(1)] by blast

text \<open>Whatever amounts the operating system accepts at each write, what leaves the ring is, in order,
  a prefix of what was queued, and the rest is still queued.\<close>

theorem ring_drains_in_order:
  assumes "ring_inv cap r" "ring.drain cap ns r = (out, r')"
  shows "ring_inv cap r' \<and> ring_bytes cap r = out @ ring_bytes cap r'"
  by (rule ring.drain_order [OF assms])

end
