(* ===== verification/Posix.thy ===== *)
theory Posix
  imports Transport Out_Ring
begin

unbundle bit_operations_syntax

text \<open>
  The operating system under the POSIX transports, and the helpers of \<open>transports/posix/common.hpp\<close>
  that call it. The system is a parameter: a state of any type and one function per system call. An
  answer is an error number or a result, so a negative return value is \<open>Inl\<close>. The theory also holds
  the write loop the transports share.
\<close>

section \<open>System calls\<close>

datatype errno = EINTR | EAGAIN | EWOULDBLOCK | ECONNABORTED | EOTHER nat

record pollfd =
  pfd_fd :: int
  pfd_pollout :: bool

record revents =
  rv_in :: bool
  rv_out :: bool
  rv_hup :: bool
  rv_err :: bool
  rv_other :: bool

record 'os posix =
  px_clock :: "'os \<Rightarrow> (u64 \<times> u64) \<times> 'os"
  px_o_nonblock :: int
  px_getfl :: "int \<Rightarrow> 'os \<Rightarrow> int \<times> 'os"
  px_setfl :: "int \<Rightarrow> int \<Rightarrow> 'os \<Rightarrow> int \<times> 'os"
  px_nodelay :: "int \<Rightarrow> 'os \<Rightarrow> 'os"
  px_send :: "int \<Rightarrow> bytes \<Rightarrow> 'os \<Rightarrow> (errno + nat) \<times> 'os"
  px_write :: "int \<Rightarrow> bytes \<Rightarrow> 'os \<Rightarrow> (errno + nat) \<times> 'os"
  px_read :: "int \<Rightarrow> nat \<Rightarrow> 'os \<Rightarrow> (errno + bytes) \<times> 'os"
  px_accept :: "int \<Rightarrow> 'os \<Rightarrow> (errno + nat) \<times> 'os"
  px_close :: "int \<Rightarrow> 'os \<Rightarrow> 'os"
  px_poll :: "pollfd list \<Rightarrow> int \<Rightarrow> 'os \<Rightarrow> (errno + nat \<times> (nat \<Rightarrow> revents)) \<times> 'os"

definition posix_now_ms :: "'os posix \<Rightarrow> 'os \<Rightarrow> u32 \<times> 'os" where
  "posix_now_ms P os =
    (case px_clock P os of ((sec, nsec), os) \<Rightarrow> (ucast (sec * 1000 + nsec div 1000000), os))"

definition set_nonblocking :: "'os posix \<Rightarrow> int \<Rightarrow> 'os \<Rightarrow> bool \<times> 'os" where
  "set_nonblocking P fd os =
    (let (flags, os) = px_getfl P fd os
     in if flags \<ge> 0 then let (r, os) = px_setfl P fd (flags OR px_o_nonblock P) os in (r = 0, os)
        else (False, os))"

text \<open>\<open>revents\<close> is not zero; it names a condition on which a transport reads.\<close>

definition rv_any :: "revents \<Rightarrow> bool" where
  "rv_any r \<longleftrightarrow> rv_in r \<or> rv_out r \<or> rv_hup r \<or> rv_err r \<or> rv_other r"

definition rv_readable :: "revents \<Rightarrow> bool" where
  "rv_readable r \<longleftrightarrow> rv_in r \<or> rv_hup r \<or> rv_err r"

section \<open>The write loop\<close>

text \<open>
  The loop of \<open>flush\<close> on a ring, with the call that writes as an argument. It
  collects what was written. A signal restarts the call, so the loop need not end: then it is \<open>None\<close>.
\<close>

partial_function (option) flush_loop ::
  "(bytes \<Rightarrow> 'os \<Rightarrow> (errno + nat) \<times> 'os) \<Rightarrow> nat \<Rightarrow> out_ring \<times> bytes \<times> 'os \<Rightarrow> (out_ring \<times> bytes \<times> 'os) option" where
  "flush_loop wr cap st =
    (case st of (r, taken, os) \<Rightarrow>
       if ring_empty r then Some (r, taken, os)
       else
         let chunk = ring_front_chunk cap r
         in case wr chunk os of
              (Inr w, os) \<Rightarrow>
                if w > 0 then flush_loop wr cap (ring_consume cap w r, taken @ take w chunk, os)
                else Some (r, taken, os)
            | (Inl e, os) \<Rightarrow>
                if e = EINTR then flush_loop wr cap (r, taken, os) else Some (r, taken, os))"

text \<open>What is documented of \<open>send()\<close> and \<open>write()\<close>: no more is written than was given. A call is interrupted by
  finitely many signals in a row.\<close>

definition writes_bounded :: "(bytes \<Rightarrow> 'os \<Rightarrow> (errno + nat) \<times> 'os) \<Rightarrow> bool" where
  "writes_bounded wr \<longleftrightarrow> (\<forall>d os w os'. wr d os = (Inr w, os') \<longrightarrow> w \<le> length d)"

definition signals_end :: "(bytes \<Rightarrow> 'os \<Rightarrow> (errno + nat) \<times> 'os) \<Rightarrow> bool" where
  "signals_end wr \<longleftrightarrow> (\<exists>left. \<forall>d os os'. wr d os = (Inl EINTR, os') \<longrightarrow> left os' < (left os :: nat))"

text \<open>The answers on which the loop stops.\<close>

definition refusal :: "errno + nat \<Rightarrow> bool" where
  "refusal a \<longleftrightarrow> (case a of Inl e \<Rightarrow> e \<noteq> EINTR | Inr w \<Rightarrow> w = 0)"

section \<open>The loop writes the ring in order\<close>

text \<open>Nothing is lost or reordered, and the loop stops only when the ring is empty or the system takes nothing.\<close>

definition flushed :: "(bytes \<Rightarrow> 'os \<Rightarrow> (errno + nat) \<times> 'os) \<Rightarrow> nat \<Rightarrow> out_ring \<times> bytes \<times> 'os \<Rightarrow> out_ring \<times> bytes \<times> 'os \<Rightarrow> bool" where
  "flushed wr cap st st' \<longleftrightarrow>
    (case (st, st') of ((r, taken, os), (r', taken', os')) \<Rightarrow>
       ring_inv cap r' \<and> taken' @ ring_bytes cap r' = taken @ ring_bytes cap r
       \<and> (ring_bytes cap r' = [] \<or> (\<exists>os1 a. wr (ring_front_chunk cap r') os1 = (a, os') \<and> refusal a)))"

lemma ring_take_chunk:
  assumes i: "ring_inv cap r" and w: "w \<le> length (ring_front_chunk cap r)"
  shows "take w (ring_front_chunk cap r) @ ring_bytes cap (ring_consume cap w r) = ring_bytes cap r"
proof -
  have "take w (ring_bytes cap r) = take w (ring_front_chunk cap r)"
    using w by (subst ring_chunk_prefix(1) [OF i]) simp
  then show ?thesis using ring_consume_refines(2) [OF i, of w] by (metis append_take_drop_id)
qed

lemma ring_empty_bytes: "ring_empty r \<longleftrightarrow> ring_bytes cap r = []"
  by (simp add: ring_empty_def ring_bytes_def)

lemma flushed_trans:
  "flushed wr cap (r1, t1, os1) y \<Longrightarrow> t1 @ ring_bytes cap r1 = t @ ring_bytes cap r \<Longrightarrow> flushed wr cap (r, t, os) y"
  by (auto simp: flushed_def)

lemma flush_loop_flushed:
  assumes wr: "writes_bounded wr" and i: "ring_inv cap r" and f: "flush_loop wr cap (r, taken, os) = Some st'"
  shows "flushed wr cap (r, taken, os) st'"
proof -
  have "writes_bounded wr \<longrightarrow> ring_inv cap (fst st) \<longrightarrow> flushed wr cap st st'" if "flush_loop wr cap st = Some st'" for st
  proof (rule flush_loop.raw_induct [OF _ that, where P = "\<lambda>wr cap st st'. writes_bounded wr \<longrightarrow> ring_inv cap (fst st) \<longrightarrow> flushed wr cap st st'"], goal_cases)
    case (1 loop wr cap st y)
    obtain r taken os where st: "st = (r, taken, os)" by (metis prod_cases3)
    let ?c = "ring_front_chunk cap r"
    obtain a os' where w: "wr ?c os = (a, os')" by fastforce
    show ?case
    proof (intro impI)
      assume b: "writes_bounded wr" and i: "ring_inv cap (fst st)"
      show "flushed wr cap st y"
      proof (cases "ring_empty r")
        case True
        then show ?thesis using 1(2) i by (auto simp: st flushed_def ring_empty_bytes [of r cap])
      next
        case False
        have n: "taken @ ring_bytes cap r = (taken @ take k ?c) @ ring_bytes cap (ring_consume cap k r)" if "a = Inr k" for k
        proof -
          have "k \<le> length ?c" using b w that unfolding writes_bounded_def by blast
          then show ?thesis using ring_take_chunk [of cap r k] i by (simp add: st)
        qed
        have body: "(case a of Inr k \<Rightarrow> if k > 0 then loop wr cap (ring_consume cap k r, taken @ take k ?c, os') else Some (r, taken, os')
            | Inl e \<Rightarrow> if e = EINTR then loop wr cap (r, taken, os') else Some (r, taken, os')) = Some y"
          using 1(2) False w by (simp add: st Let_def)
        show ?thesis
        proof (cases "refusal a")
          case True
          then have "y = (r, taken, os')" using body by (auto simp: refusal_def split: sum.splits)
          then show ?thesis using True i w by (auto simp: st flushed_def)
        next
          case False
          then consider "a = Inl EINTR" | k where "a = Inr k" "0 < k" by (auto simp: refusal_def split: sum.splits)
          then show ?thesis
          proof cases
            case 2
            then have "flushed wr cap (ring_consume cap k r, taken @ take k ?c, os') y"
              using body b i 1(1) [of wr cap "(ring_consume cap k r, taken @ take k ?c, os')" y] ring_consume_refines(1) [of cap r k]
              by (simp add: st)
            then show ?thesis unfolding st by (rule flushed_trans) (simp add: n [OF 2(1)])
          qed (use body b i 1(1) [of wr cap "(r, taken, os')" y] in \<open>auto simp: st intro: flushed_trans\<close>)
        qed
      qed
    qed
  qed
  from this [OF f] show ?thesis using wr i by simp
qed

lemma flush_loop_extends:
  assumes "flush_loop wr cap (r, taken, os) = Some (r', taken', os')" shows "\<exists>w. taken' = taken @ w"
proof -
  have "\<exists>w. fst (snd st') = fst (snd st) @ w" if "flush_loop wr cap st = Some st'" for st st'
  proof (rule flush_loop.raw_induct [OF _ that, where P = "\<lambda>wr cap st st'. \<exists>w. fst (snd st') = fst (snd st) @ w"], goal_cases)
    case (1 loop wr cap st y)
    obtain r taken os where st: "st = (r, taken, os)" by (metis prod_cases3)
    have loop: "\<exists>w. fst (snd y) = taken @ w" if "loop wr cap (r1, taken @ t, os1) = Some y" for r1 t os1 using 1(1) [OF that] by auto
    show ?case using 1(2) loop [of _ "[]"] loop by (auto simp: st Let_def split: if_splits prod.splits sum.splits)
  qed
  from this [OF assms] show ?thesis by simp
qed

lemma flush_loop_returns:
  assumes "signals_end wr" shows "\<exists>st'. flush_loop wr cap st = Some st'"
proof -
  obtain left where l: "\<And>d os os'. wr d os = (Inl EINTR, os') \<Longrightarrow> left os' < (left os :: nat)"
    using assms by (auto simp: signals_end_def)
  show ?thesis
  proof (induction st rule: wf_induct [OF wf_measures [of "[\<lambda>(r, t, os). ring_len r, \<lambda>(r, t, os). left os]"]])
    case (1 st)
    obtain r taken os where st: "st = (r, taken, os)" by (metis prod_cases3)
    obtain a os' where w: "wr (ring_front_chunk cap r) os = (a, os')" by fastforce
    show ?case
    proof (cases "ring_empty r")
      case False
      then have "ring_len (ring_consume cap k r) < ring_len r" if "0 < k" for k
        using that by (auto simp: ring_consume_def ring_empty_def Let_def)
      then show ?thesis using 1 [rule_format, of "(ring_consume cap k r, taken @ take k (ring_front_chunk cap r), os')" for k]
          1 [rule_format, of "(r, taken, os')"] False w l [of "ring_front_chunk cap r" os os']
        by (subst flush_loop.simps) (auto simp: st Let_def split: sum.split)
    qed (subst flush_loop.simps, simp add: st)
  qed
qed

section \<open>Properties\<close>

text \<open>The write loop of \<open>flush\<close>, which retries an interrupted call without bound, ends whenever a call is interrupted by finitely
  many signals in a row; it has then written a prefix of the ring, in order, the rest is still in the ring,
  and something is left only if the last call took nothing.\<close>

theorem flush_loop_terminates:
  assumes "signals_end wr" "writes_bounded wr" "ring_inv cap r"
  shows "\<exists>r' written os'. flush_loop wr cap (r, taken, os) = Some (r', taken @ written, os') \<and> ring_inv cap r'
    \<and> written @ ring_bytes cap r' = ring_bytes cap r
    \<and> (ring_bytes cap r' = [] \<or> (\<exists>os1 a. wr (ring_front_chunk cap r') os1 = (a, os') \<and> refusal a))"
proof -
  obtain r' taken' os' where f: "flush_loop wr cap (r, taken, os) = Some (r', taken', os')"
    using flush_loop_returns [OF assms(1)] by (metis prod_cases3)
  obtain written where w: "taken' = taken @ written" using flush_loop_extends [OF f] by blast
  show ?thesis using flush_loop_flushed [OF assms(2,3) f] f w by (auto simp: flushed_def)
qed

end
