(* ===== verification/Stream_Server.thy ===== *)
theory Stream_Server
  imports Posix "HOL-Library.Multiset"
begin

text \<open>
  The poll-based server transport (\<open>transports/posix/stream_server.hpp\<close>): slots with a descriptor and
  an output ring, \<open>send\<close> and \<open>close\<close> towards the broker, and the event loop \<open>poll_once\<close> that accepts,
  reads and writes. The template parameters and the system are the record \<open>stream_conf\<close>, the broker
  driven is a \<open>host\<close>.

  Four fields have no counterpart in the code. \<open>sl_taken\<close> is what the system has taken from a
  connection's ring since the connection was accepted. \<open>ss_got\<close> and \<open>ss_closed\<close> list the descriptors
  received from the system and handed to \<open>close()\<close>. \<open>ss_stuck\<close> is set where a write loop does not return.
\<close>

section \<open>Model\<close>

record stream_slot =
  sl_fd :: int
  sl_dirty :: bool
  sl_ring :: out_ring
  sl_taken :: bytes

record 'os stream_server =
  ss_listen_fd :: int
  ss_tcp_nodelay :: bool
  ss_slots :: "stream_slot list"
  ss_accept_retry_at_ms :: u32
  ss_accept_backoff_armed :: bool
  ss_os :: 'os
  ss_got :: "int list"
  ss_closed :: "int list"
  ss_stuck :: bool

record 'os stream_conf =
  sc_max_conns :: nat
  sc_out_buf :: nat
  sc_os :: "'os posix"

definition max_reads_per_pass :: nat where "max_reads_per_pass = 8"
definition read_buf_size :: nat where "read_buf_size = 2048"

definition new_slot :: "nat \<Rightarrow> stream_slot" where
  "new_slot cap = \<lparr>sl_fd = -1, sl_dirty = False, sl_ring = ring_init cap, sl_taken = []\<rparr>"

definition stream_init :: "'os stream_conf \<Rightarrow> 'os \<Rightarrow> 'os stream_server" where
  "stream_init C os = \<lparr>ss_listen_fd = -1, ss_tcp_nodelay = False,
     ss_slots = replicate (sc_max_conns C) (new_slot (sc_out_buf C)), ss_accept_retry_at_ms = 0,
     ss_accept_backoff_armed = False, ss_os = os, ss_got = [], ss_closed = [], ss_stuck = False\<rparr>"

definition slot_at :: "'os stream_server \<Rightarrow> nat \<Rightarrow> stream_slot" where
  "slot_at tr ci = (if ci < length (ss_slots tr) then ss_slots tr ! ci else new_slot 0)"

definition upd_slot :: "nat \<Rightarrow> (stream_slot \<Rightarrow> stream_slot) \<Rightarrow> 'os stream_server \<Rightarrow> 'os stream_server" where
  "upd_slot ci f tr = tr\<lparr>ss_slots := (ss_slots tr)[ci := f (slot_at tr ci)]\<rparr>"

definition fd_close :: "'os posix \<Rightarrow> int \<Rightarrow> 'os stream_server \<Rightarrow> 'os stream_server" where
  "fd_close P fd tr = tr\<lparr>ss_os := px_close P fd (ss_os tr), ss_closed := ss_closed tr @ [fd]\<rparr>"

definition stream_flush :: "'os stream_conf \<Rightarrow> nat \<Rightarrow> 'os stream_server \<Rightarrow> 'os stream_server" where
  "stream_flush C ci tr =
    (let s = slot_at tr ci
     in if sl_fd s < 0 then tr
        else case flush_loop (px_send (sc_os C) (sl_fd s)) (sc_out_buf C) (sl_ring s, sl_taken s, ss_os tr) of
               None \<Rightarrow> tr\<lparr>ss_stuck := True\<rparr>
             | Some (r, taken, os) \<Rightarrow> upd_slot ci (\<lambda>s. s\<lparr>sl_ring := r, sl_taken := taken\<rparr>) (tr\<lparr>ss_os := os\<rparr>))"

definition stream_send :: "'os stream_conf \<Rightarrow> 'os stream_server \<Rightarrow> nat \<Rightarrow> bytes \<Rightarrow> 'os stream_server \<times> bool" where
  "stream_send C tr ci pkt =
    (if ci \<ge> sc_max_conns C then (tr, False)
     else if sl_fd (slot_at tr ci) < 0 then (tr, False)
     else
       case ring_append (sc_out_buf C) pkt (sl_ring (slot_at tr ci)) of
         (r, True) \<Rightarrow> (upd_slot ci (\<lambda>s. s\<lparr>sl_ring := r, sl_dirty := True\<rparr>) tr, True)
       | (_, False) \<Rightarrow>
           let tr = stream_flush C ci tr
           in case ring_append (sc_out_buf C) pkt (sl_ring (slot_at tr ci)) of
                (_, False) \<Rightarrow> (tr, False)
              | (r, True) \<Rightarrow> (upd_slot ci (\<lambda>s. s\<lparr>sl_ring := r, sl_dirty := True\<rparr>) tr, True))"

text \<open>Flush what can be written, close the descriptor and free the slot.\<close>

definition slot_shut :: "'os stream_conf \<Rightarrow> nat \<Rightarrow> 'os stream_server \<Rightarrow> 'os stream_server" where
  "slot_shut C ci tr =
    (let tr = stream_flush C ci tr;
         tr = fd_close (sc_os C) (sl_fd (slot_at tr ci)) tr
     in upd_slot ci (\<lambda>s. s\<lparr>sl_fd := -1, sl_ring := ring_clear (sl_ring s), sl_dirty := False\<rparr>) tr)"

definition stream_close :: "'os stream_conf \<Rightarrow> 'os stream_server \<Rightarrow> nat \<Rightarrow> 'os stream_server" where
  "stream_close C tr ci =
    (if ci \<ge> sc_max_conns C then tr
     else if sl_fd (slot_at tr ci) < 0 then tr
     else slot_shut C ci tr)"

definition native_handle :: "'os stream_conf \<Rightarrow> nat \<Rightarrow> 'os stream_server \<Rightarrow> int" where
  "native_handle C ci tr = (if ci < sc_max_conns C then sl_fd (slot_at tr ci) else -1)"

definition close_listener :: "'os posix \<Rightarrow> 'os stream_server \<Rightarrow> 'os stream_server" where
  "close_listener P tr =
    (let tr = (if ss_listen_fd tr \<ge> 0 then (fd_close P (ss_listen_fd tr) tr)\<lparr>ss_listen_fd := -1\<rparr> else tr)
     in tr\<lparr>ss_accept_backoff_armed := False, ss_accept_retry_at_ms := 0\<rparr>)"

text \<open>The destructor.\<close>

definition stream_destroy :: "'os stream_conf \<Rightarrow> 'os stream_server \<Rightarrow> 'os stream_server" where
  "stream_destroy C tr =
    (let tr = fold (\<lambda>i tr. if sl_fd (slot_at tr i) \<ge> 0 then fd_close (sc_os C) (sl_fd (slot_at tr i)) tr else tr)
                [0..<sc_max_conns C] tr
     in if ss_listen_fd tr \<ge> 0 then fd_close (sc_os C) (ss_listen_fd tr) tr else tr)"

definition free_slot :: "'os stream_conf \<Rightarrow> 'os stream_server \<Rightarrow> nat option" where
  "free_slot C tr = List.find (\<lambda>i. sl_fd (slot_at tr i) < 0) [0..<sc_max_conns C]"

definition take_slot :: "nat \<Rightarrow> int \<Rightarrow> 'os stream_server \<Rightarrow> 'os stream_server" where
  "take_slot ci fd tr = upd_slot ci (\<lambda>s. s\<lparr>sl_fd := fd, sl_ring := ring_clear (sl_ring s), sl_dirty := False, sl_taken := []\<rparr>) tr"

text \<open>One accepted descriptor: find it a slot and announce it, or close it.\<close>

definition accept_one :: "('s, 'os stream_server) host \<Rightarrow> 'os stream_conf \<Rightarrow> u32 \<Rightarrow> int \<Rightarrow> 's \<Rightarrow> 's" where
  "accept_one H C now fd s =
    (let tr = h_tr H s; P = sc_os C
     in case free_slot C tr of
          None \<Rightarrow> h_put H (fd_close P fd tr) s
        | Some ci \<Rightarrow>
            let (ok, os) = set_nonblocking P fd (ss_os tr); tr = tr\<lparr>ss_os := os\<rparr>
            in if \<not> ok then h_put H (fd_close P fd tr) s
               else
                 let tr = (if ss_tcp_nodelay tr then tr\<lparr>ss_os := px_nodelay P fd (ss_os tr)\<rparr> else tr);
                     (e, s) = h_open H ci now (h_put H (take_slot ci fd tr) s)
                 in if e \<noteq> Err_ok
                    then h_put H (upd_slot ci (\<lambda>s. s\<lparr>sl_fd := -1\<rparr>) (fd_close P fd (h_tr H s))) s
                    else s)"

text \<open>The loop of \<open>accept_new\<close> with the attempts left.\<close>

fun accept_loop :: "('s, 'os stream_server) host \<Rightarrow> 'os stream_conf \<Rightarrow> u32 \<Rightarrow> nat \<Rightarrow> 's \<Rightarrow> 's" where
  "accept_loop H C now 0 s = s"
| "accept_loop H C now (Suc attempts) s =
    (let tr = h_tr H s
     in case px_accept (sc_os C) (ss_listen_fd tr) (ss_os tr) of
          (Inl e, os) \<Rightarrow>
            let tr = tr\<lparr>ss_os := os\<rparr>
            in if e = EINTR \<or> e = ECONNABORTED then accept_loop H C now attempts (h_put H tr s)
               else if e \<noteq> EAGAIN \<and> e \<noteq> EWOULDBLOCK
               then h_put H (tr\<lparr>ss_accept_backoff_armed := True, ss_accept_retry_at_ms := now + 1000\<rparr>) s
               else h_put H tr s
        | (Inr fd, os) \<Rightarrow>
            let tr = tr\<lparr>ss_os := os, ss_got := ss_got tr @ [int fd]\<rparr>
            in accept_loop H C now attempts (accept_one H C now (int fd) (h_put H tr s)))"

definition accept_new :: "('s, 'os stream_server) host \<Rightarrow> 'os stream_conf \<Rightarrow> u32 \<Rightarrow> 's \<Rightarrow> 's" where
  "accept_new H C now s =
     accept_loop H C now (sc_max_conns C) (h_put H ((h_tr H s)\<lparr>ss_accept_backoff_armed := False\<rparr>) s)"

text \<open>End of file or a fatal error: the slot is freed, then the broker is told.\<close>

definition peer_gone :: "('s, 'os stream_server) host \<Rightarrow> 'os stream_conf \<Rightarrow> nat \<Rightarrow> 's \<Rightarrow> 's" where
  "peer_gone H C ci s = h_closed H ci (h_put H (slot_shut C ci (h_tr H s)) s)"

text \<open>The loop of \<open>read_into_broker\<close> with the reads left.\<close>

fun read_loop :: "('s, 'os stream_server) host \<Rightarrow> 'os stream_conf \<Rightarrow> nat \<Rightarrow> u32 \<Rightarrow> nat \<Rightarrow> 's \<Rightarrow> 's" where
  "read_loop H C ci now 0 s = s"
| "read_loop H C ci now (Suc reads) s =
    (let tr = h_tr H s; fd = sl_fd (slot_at tr ci)
     in if fd < 0 then s
        else
          let (r, os) = px_read (sc_os C) fd read_buf_size (ss_os tr); tr = tr\<lparr>ss_os := os\<rparr>; s = h_put H tr s
          in case r of
               Inr d \<Rightarrow>
                 if d \<noteq> [] then read_loop H C ci now reads (snd (h_data H ci d now s))
                 else peer_gone H C ci s
             | Inl e \<Rightarrow>
                 if e = EAGAIN \<or> e = EWOULDBLOCK then s
                 else if e = EINTR then read_loop H C ci now reads s
                 else peer_gone H C ci s)"

definition read_into_broker :: "('s, 'os stream_server) host \<Rightarrow> 'os stream_conf \<Rightarrow> nat \<Rightarrow> u32 \<Rightarrow> 's \<Rightarrow> 's" where
  "read_into_broker H C ci now s = read_loop H C ci now max_reads_per_pass s"

definition flush_slot :: "'os stream_conf \<Rightarrow> nat \<Rightarrow> 'os stream_server \<Rightarrow> 'os stream_server" where
  "flush_slot C ci tr =
    (if sl_fd (slot_at tr ci) \<ge> 0 \<and> sl_dirty (slot_at tr ci)
     then stream_flush C ci (upd_slot ci (\<lambda>s. s\<lparr>sl_dirty := False\<rparr>) tr)
     else tr)"

definition flush_all :: "'os stream_conf \<Rightarrow> 'os stream_server \<Rightarrow> 'os stream_server" where
  "flush_all C tr = fold (flush_slot C) [0..<sc_max_conns C] tr"

text \<open>The descriptors polled, each with its slot; \<open>MaxConns\<close> marks the listener.\<close>

definition poll_set :: "'os stream_conf \<Rightarrow> bool \<Rightarrow> 'os stream_server \<Rightarrow> (nat \<times> pollfd) list" where
  "poll_set C paused tr =
     (if ss_listen_fd tr \<ge> 0 \<and> \<not> paused then [(sc_max_conns C, \<lparr>pfd_fd = ss_listen_fd tr, pfd_pollout = False\<rparr>)] else [])
     @ map (\<lambda>ci. (ci, \<lparr>pfd_fd = sl_fd (slot_at tr ci), pfd_pollout = \<not> ring_empty (sl_ring (slot_at tr ci))\<rparr>))
         (filter (\<lambda>ci. \<not> sl_fd (slot_at tr ci) < 0) [0..<sc_max_conns C])"

definition serve_event :: "('s, 'os stream_server) host \<Rightarrow> 'os stream_conf \<Rightarrow> u32 \<Rightarrow> (nat \<times> pollfd) \<times> revents \<Rightarrow> 's \<Rightarrow> 's" where
  "serve_event H C now ev s =
    (case ev of ((ci, pfd), rv) \<Rightarrow>
       if \<not> rv_any rv then s
       else if ci = sc_max_conns C then accept_new H C now s
       else if sl_fd (slot_at (h_tr H s) ci) \<noteq> pfd_fd pfd then s
       else
         let s = (if rv_out rv then h_put H (stream_flush C ci (h_tr H s)) s else s)
         in if rv_readable rv then read_into_broker H C ci now s else s)"

text \<open>The clock is read for \<open>listener_paused\<close> only while the back-off is armed.\<close>

definition listener_paused :: "'os posix \<Rightarrow> 'os stream_server \<Rightarrow> bool \<times> 'os stream_server" where
  "listener_paused P tr =
    (if ss_accept_backoff_armed tr
     then let (now, os) = posix_now_ms P (ss_os tr) in (sint (now - ss_accept_retry_at_ms tr) < 0, tr\<lparr>ss_os := os\<rparr>)
     else (False, tr))"

definition poll_once :: "('s, 'os stream_server) host \<Rightarrow> 'os stream_conf \<Rightarrow> int \<Rightarrow> 's \<Rightarrow> nat \<times> 's" where
  "poll_once H C timeout_ms s =
    (let (paused, tr) = listener_paused (sc_os C) (h_tr H s);
         pfds = poll_set C paused tr;
         (rc, os) = px_poll (sc_os C) (map snd pfds) timeout_ms (ss_os tr);
         (now, os) = posix_now_ms (sc_os C) os;
         s = h_put H (tr\<lparr>ss_os := os\<rparr>) s
     in case rc of
          Inl _ \<Rightarrow> let s = h_tick H now s in (0, h_put H (flush_all C (h_tr H s)) s)
        | Inr (n, revs) \<Rightarrow>
            let s = fold (serve_event H C now) (zip pfds (map revs [0..<length pfds])) s;
                s = h_tick H now s
            in (n, h_put H (flush_all C (h_tr H s)) s))"

section \<open>Invariant\<close>

text \<open>What the template parameters and the system are assumed to be: a ring, and writes as documented.\<close>

definition conf_ok :: "'os stream_conf \<Rightarrow> bool" where
  "conf_ok C \<longleftrightarrow> 0 < sc_out_buf C \<and> (\<forall>fd. writes_bounded (px_send (sc_os C) fd))"

definition stream_opens :: "'os stream_server \<Rightarrow> nat set" where
  "stream_opens tr = {ci. sl_fd (slot_at tr ci) \<ge> 0}"

text \<open>The bytes of a connection: those the system has taken and those still queued.\<close>

definition stream_out :: "'os stream_conf \<Rightarrow> 'os stream_server \<Rightarrow> nat \<Rightarrow> bytes" where
  "stream_out C tr ci = sl_taken (slot_at tr ci) @ ring_bytes (sc_out_buf C) (sl_ring (slot_at tr ci))"

text \<open>The descriptors held by the slots and by the listener.\<close>

definition slot_fds :: "'os stream_server \<Rightarrow> int multiset" where
  "slot_fds tr = filter_mset (\<lambda>fd. fd \<ge> 0) (image_mset sl_fd (mset (ss_slots tr)))"

definition listen_fds :: "'os stream_server \<Rightarrow> int multiset" where
  "listen_fds tr = (if ss_listen_fd tr \<ge> 0 then {#ss_listen_fd tr#} else {#})"

text \<open>Every descriptor received is held in one place or has been closed once.\<close>

definition fds_owned :: "'os stream_server \<Rightarrow> bool" where
  "fds_owned tr \<longleftrightarrow> mset (ss_got tr) = mset (ss_closed tr) + slot_fds tr + listen_fds tr"

definition stream_inv :: "'os stream_conf \<Rightarrow> 'os stream_server \<Rightarrow> bool" where
  "stream_inv C tr \<longleftrightarrow> conf_ok C \<and> length (ss_slots tr) = sc_max_conns C
     \<and> (\<forall>ci < sc_max_conns C. ring_inv (sc_out_buf C) (sl_ring (slot_at tr ci)))
     \<and> fds_owned tr \<and> ((\<forall>fd. signals_end (px_send (sc_os C) fd)) \<longrightarrow> \<not> ss_stuck tr)"

lemma slot_at_upd:
  "slot_at (upd_slot ci f tr) cj = (if cj = ci \<and> ci < length (ss_slots tr) then f (slot_at tr ci) else slot_at tr cj)"
  by (auto simp: slot_at_def upd_slot_def)

lemma slot_at_cong: "ss_slots tr = ss_slots tr' \<Longrightarrow> slot_at tr = slot_at tr'"
  by (rule ext) (simp add: slot_at_def)

lemma upd_slot_sel [simp]:
  "ss_listen_fd (upd_slot ci f tr) = ss_listen_fd tr" "ss_got (upd_slot ci f tr) = ss_got tr"
  "ss_closed (upd_slot ci f tr) = ss_closed tr" "ss_stuck (upd_slot ci f tr) = ss_stuck tr"
  "ss_os (upd_slot ci f tr) = ss_os tr" "length (ss_slots (upd_slot ci f tr)) = length (ss_slots tr)"
  by (simp_all add: upd_slot_def)

lemma fd_close_sel [simp]:
  "ss_slots (fd_close P fd tr) = ss_slots tr" "ss_listen_fd (fd_close P fd tr) = ss_listen_fd tr"
  "ss_got (fd_close P fd tr) = ss_got tr" "ss_closed (fd_close P fd tr) = ss_closed tr @ [fd]"
  "ss_stuck (fd_close P fd tr) = ss_stuck tr" "slot_at (fd_close P fd tr) = slot_at tr"
  by (simp_all add: fd_close_def slot_at_def fun_eq_iff)

lemma stream_opens_bound: "ci \<in> stream_opens tr \<Longrightarrow> ci < length (ss_slots tr)"
  by (auto simp: stream_opens_def slot_at_def new_slot_def split: if_splits)

lemma stream_invD:
  assumes "stream_inv C tr"
  shows "conf_ok C" "length (ss_slots tr) = sc_max_conns C"
    "ci < sc_max_conns C \<Longrightarrow> ring_inv (sc_out_buf C) (sl_ring (slot_at tr ci))" "fds_owned tr"
    "\<forall>fd. signals_end (px_send (sc_os C) fd) \<Longrightarrow> \<not> ss_stuck tr"
  using assms by (auto simp: stream_inv_def)

text \<open>Changing a slot changes the descriptors held by that slot's.\<close>

definition fd_part :: "int \<Rightarrow> int multiset" where
  "fd_part fd = (if fd \<ge> 0 then {#fd#} else {#})"

lemma slot_fds_upd:
  assumes "ci < length (ss_slots tr)"
  shows "slot_fds (upd_slot ci f tr) + fd_part (sl_fd (slot_at tr ci)) = slot_fds tr + fd_part (sl_fd (f (slot_at tr ci)))"
proof -
  let ?x = "ss_slots tr ! ci"
  obtain R where m: "mset (ss_slots tr) = add_mset ?x R" using assms by (meson multi_member_split nth_mem_mset)
  then have "mset (ss_slots (upd_slot ci f tr)) = add_mset (f ?x) R"
    using assms by (simp add: upd_slot_def slot_at_def mset_update)
  then show ?thesis by (simp add: slot_fds_def m slot_at_def assms fd_part_def)
qed

lemma slot_fds_same:
  assumes "\<And>s. sl_fd (f s) = sl_fd s" shows "slot_fds (upd_slot ci f tr) = slot_fds tr"
proof (cases "ci < length (ss_slots tr)")
  case True
  then show ?thesis using slot_fds_upd [OF True, of f] by (simp add: assms)
qed (simp add: upd_slot_def list_update_beyond slot_fds_def)

lemma ring_inv_clear [simp]: "ring_inv cap r \<Longrightarrow> ring_inv cap (ring_clear r)"
  by (auto simp: ring_inv_def ring_clear_def)

lemma ring_bytes_clear [simp]: "ring_bytes cap (ring_clear r) = []"
  by (simp add: ring_bytes_def ring_clear_def)

section \<open>Sending and closing\<close>

text \<open>A step that keeps the open connections and their bytes.\<close>

definition keeps :: "'os stream_conf \<Rightarrow> 'os stream_server \<Rightarrow> 'os stream_server \<Rightarrow> bool" where
  "keeps C tr tr' \<longleftrightarrow> (stream_inv C tr \<longrightarrow> stream_inv C tr' \<and> stream_opens tr' = stream_opens tr
     \<and> (\<forall>ci. stream_out C tr' ci = stream_out C tr ci))"

lemma keeps_refl [simp]: "keeps C tr tr"
  by (simp add: keeps_def)

lemma keeps_trans: "keeps C a b \<Longrightarrow> keeps C b c \<Longrightarrow> keeps C a c"
  by (auto simp: keeps_def)

lemma keeps_same:
  assumes "ss_slots tr' = ss_slots tr" "ss_listen_fd tr' = ss_listen_fd tr" "ss_got tr' = ss_got tr"
    "ss_closed tr' = ss_closed tr" "ss_stuck tr' = ss_stuck tr"
  shows "keeps C tr tr'"
  using slot_at_cong [OF assms(1)] assms
  by (simp add: keeps_def stream_inv_def fds_owned_def slot_fds_def listen_fds_def stream_opens_def stream_out_def)

lemma stream_out_upd:
  "stream_out C (upd_slot ci f tr) cj =
    (if cj = ci \<and> ci < length (ss_slots tr)
     then sl_taken (f (slot_at tr ci)) @ ring_bytes (sc_out_buf C) (sl_ring (f (slot_at tr ci))) else stream_out C tr cj)"
  by (simp add: stream_out_def slot_at_upd)

lemma keeps_upd:
  assumes f: "\<And>s. sl_fd (f s) = sl_fd s"
    and r: "conf_ok C \<Longrightarrow> ring_inv (sc_out_buf C) (sl_ring (slot_at tr ci)) \<Longrightarrow> ring_inv (sc_out_buf C) (sl_ring (f (slot_at tr ci)))
       \<and> sl_taken (f (slot_at tr ci)) @ ring_bytes (sc_out_buf C) (sl_ring (f (slot_at tr ci))) = stream_out C tr ci"
  shows "keeps C tr (upd_slot ci f tr)"
proof (cases "ci < length (ss_slots tr)")
  case True
  then show ?thesis
    using r slot_fds_same [of f ci tr, OF f]
    by (auto simp: keeps_def stream_inv_def fds_owned_def listen_fds_def stream_opens_def stream_out_upd slot_at_upd f split: if_splits)
qed (rule keeps_same, simp_all add: upd_slot_def list_update_beyond)

lemma stream_flush_keeps: "keeps C tr (stream_flush C ci tr)"
proof (cases "sl_fd (slot_at tr ci) < 0")
  case False
  let ?wr = "px_send (sc_os C) (sl_fd (slot_at tr ci))" and ?st = "(sl_ring (slot_at tr ci), sl_taken (slot_at tr ci), ss_os tr)"
  show ?thesis
  proof (cases "flush_loop ?wr (sc_out_buf C) ?st")
    case None
    then have "\<not> signals_end ?wr" using flush_loop_returns [of ?wr "sc_out_buf C" ?st] by auto
    then have "\<not> (\<forall>fd. signals_end (px_send (sc_os C) fd))" by blast
    moreover have "slot_at (tr\<lparr>ss_stuck := True\<rparr>) = slot_at tr" by (rule slot_at_cong) simp
    ultimately show ?thesis using False None
      by (simp add: stream_flush_def keeps_def stream_inv_def fds_owned_def slot_fds_def listen_fds_def stream_opens_def stream_out_def)
  next
    case (Some st)
    obtain r taken os where st: "st = (r, taken, os)" by (metis prod_cases3)
    have s: "slot_at (tr\<lparr>ss_os := os\<rparr>) = slot_at tr" by (rule slot_at_cong) simp
    have "flushed ?wr (sc_out_buf C) ?st (r, taken, os)"
      if "conf_ok C" "ring_inv (sc_out_buf C) (sl_ring (slot_at tr ci))"
      by (rule flush_loop_flushed) (use that Some st in \<open>simp_all add: conf_ok_def\<close>)
    then have "keeps C (tr\<lparr>ss_os := os\<rparr>) (upd_slot ci (\<lambda>s. s\<lparr>sl_ring := r, sl_taken := taken\<rparr>) (tr\<lparr>ss_os := os\<rparr>))"
      by (intro keeps_upd) (simp_all add: s stream_out_def flushed_def)
    then have "keeps C tr (upd_slot ci (\<lambda>s. s\<lparr>sl_ring := r, sl_taken := taken\<rparr>) (tr\<lparr>ss_os := os\<rparr>))"
      by (rule keeps_trans [rotated]) (rule keeps_same, simp_all)
    then show ?thesis using False Some st by (simp add: stream_flush_def Let_def)
  qed
qed (simp add: stream_flush_def)

lemma append_upd:
  assumes i: "stream_inv C tr" and ci: "ci < sc_max_conns C" and a: "ring_append (sc_out_buf C) pkt (sl_ring (slot_at tr ci)) = (r, True)"
  shows "stream_inv C (upd_slot ci (\<lambda>s. s\<lparr>sl_ring := r, sl_dirty := True\<rparr>) tr)"
    "stream_opens (upd_slot ci (\<lambda>s. s\<lparr>sl_ring := r, sl_dirty := True\<rparr>) tr) = stream_opens tr"
    "stream_out C (upd_slot ci (\<lambda>s. s\<lparr>sl_ring := r, sl_dirty := True\<rparr>) tr) cj = (if cj = ci then stream_out C tr cj @ pkt else stream_out C tr cj)"
proof -
  have r: "ring_inv (sc_out_buf C) r" "ring_bytes (sc_out_buf C) r = ring_bytes (sc_out_buf C) (sl_ring (slot_at tr ci)) @ pkt"
    using ring_append_refines(1,3) [OF stream_invD(3) [OF i ci] a] by simp_all
  show "stream_inv C (upd_slot ci (\<lambda>s. s\<lparr>sl_ring := r, sl_dirty := True\<rparr>) tr)"
    using i r(1) slot_fds_same [of "\<lambda>s. s\<lparr>sl_ring := r, sl_dirty := True\<rparr>" ci tr]
    by (auto simp: stream_inv_def fds_owned_def listen_fds_def slot_at_upd)
  show "stream_opens (upd_slot ci (\<lambda>s. s\<lparr>sl_ring := r, sl_dirty := True\<rparr>) tr) = stream_opens tr"
    by (auto simp: stream_opens_def slot_at_upd)
  show "stream_out C (upd_slot ci (\<lambda>s. s\<lparr>sl_ring := r, sl_dirty := True\<rparr>) tr) cj = (if cj = ci then stream_out C tr cj @ pkt else stream_out C tr cj)"
    using r(2) ci stream_invD(2) [OF i] by (simp add: stream_out_upd) (simp add: stream_out_def)
qed

lemma stream_send_correct:
  assumes i: "stream_inv C tr" and ci: "ci \<in> stream_opens tr" and s: "stream_send C tr ci pkt = (tr', ok)"
  shows "stream_inv C tr' \<and> stream_opens tr' = stream_opens tr
    \<and> (\<forall>cj. stream_out C tr' cj = (if ok \<and> cj = ci then stream_out C tr cj @ pkt else stream_out C tr cj))"
proof -
  have b: "ci < sc_max_conns C" "\<not> sl_fd (slot_at tr ci) < 0"
    using stream_opens_bound [OF ci] stream_invD(2) [OF i] ci by (simp_all add: stream_opens_def)
  let ?f = "stream_flush C ci tr"
  have f: "stream_inv C ?f" "stream_opens ?f = stream_opens tr" "stream_out C ?f = stream_out C tr"
    using stream_flush_keeps [of C tr ci] i by (auto simp: keeps_def fun_eq_iff)
  show ?thesis
  proof (cases "snd (ring_append (sc_out_buf C) pkt (sl_ring (slot_at tr ci)))")
    case True
    then obtain r where a: "ring_append (sc_out_buf C) pkt (sl_ring (slot_at tr ci)) = (r, True)" by (metis prod.collapse)
    then show ?thesis using s b append_upd [OF i b(1) a] by (auto simp: stream_send_def)
  next
    case no: False
    then obtain r0 where a0: "ring_append (sc_out_buf C) pkt (sl_ring (slot_at tr ci)) = (r0, False)" by (metis prod.collapse)
    obtain r ok' where a: "ring_append (sc_out_buf C) pkt (sl_ring (slot_at ?f ci)) = (r, ok')" by fastforce
    show ?thesis
      using s b a0 a f append_upd [OF f(1) b(1) a [THEN trans], of r]
      by (cases ok') (auto simp: stream_send_def Let_def)
  qed
qed

lemma slot_shut_correct:
  assumes i: "stream_inv C tr" and ci: "ci \<in> stream_opens tr"
  shows "stream_inv C (slot_shut C ci tr) \<and> stream_opens (slot_shut C ci tr) = stream_opens tr - {ci}
    \<and> (\<forall>cj. cj \<noteq> ci \<longrightarrow> stream_out C (slot_shut C ci tr) cj = stream_out C tr cj)"
proof -
  let ?f = "stream_flush C ci tr"
  have f: "stream_inv C ?f" "stream_opens ?f = stream_opens tr" "stream_out C ?f = stream_out C tr"
    using stream_flush_keeps [of C tr ci] i by (auto simp: keeps_def fun_eq_iff)
  have b: "ci < length (ss_slots ?f)" "0 \<le> sl_fd (slot_at ?f ci)"
    using stream_opens_bound [of ci ?f] ci f(2) by (auto simp: stream_opens_def)
  let ?c = "fd_close (sc_os C) (sl_fd (slot_at ?f ci)) ?f" and ?u = "\<lambda>s. s\<lparr>sl_fd := -1, sl_ring := ring_clear (sl_ring s), sl_dirty := False\<rparr>"
  have sh: "slot_shut C ci tr = upd_slot ci ?u ?c" by (simp add: slot_shut_def Let_def)
  have "slot_fds (upd_slot ci ?u ?c) + {#sl_fd (slot_at ?f ci)#} = slot_fds ?f"
    using slot_fds_upd [of ci ?c ?u] b by (simp add: fd_part_def slot_fds_def)
  then have "fds_owned (upd_slot ci ?u ?c)" using stream_invD(4) [OF f(1)] by (simp add: fds_owned_def listen_fds_def ac_simps)
  then have "stream_inv C (upd_slot ci ?u ?c)"
    using f(1) b(1) by (auto simp: stream_inv_def slot_at_upd)
  moreover have "stream_opens (upd_slot ci ?u ?c) = stream_opens tr - {ci}"
    using f(2) b(1) by (auto simp: stream_opens_def slot_at_upd)
  moreover have "stream_out C (upd_slot ci ?u ?c) cj = stream_out C tr cj" if "cj \<noteq> ci" for cj
    using that f(3) by (simp add: stream_out_def slot_at_upd fun_eq_iff)
  ultimately show ?thesis unfolding sh by blast
qed

interpretation stream: byte_transport "stream_send C" "stream_close C" stream_opens "stream_inv C" "stream_out C"
  for C :: "'os stream_conf"
proof
  fix tr tr' :: "'os stream_server" and ci cj pkt ok
  assume i: "stream_inv C tr" and ci: "ci \<in> stream_opens tr"
  have c: "stream_close C tr ci = slot_shut C ci tr"
    using stream_opens_bound [OF ci] stream_invD(2) [OF i] ci by (simp add: stream_close_def stream_opens_def)
  show "stream_inv C (stream_close C tr ci) \<and> stream_opens (stream_close C tr ci) = stream_opens tr - {ci}"
    using slot_shut_correct [OF i ci] by (simp add: c)
  show "stream_out C (stream_close C tr ci) cj = stream_out C tr cj" if "cj \<noteq> ci"
    using slot_shut_correct [OF i ci] that by (simp add: c)
  assume s: "stream_send C tr ci pkt = (tr', ok)"
  show "stream_inv C tr' \<and> stream_opens tr' = stream_opens tr"
    "stream_out C tr' cj = (if ok \<and> cj = ci then stream_out C tr cj @ pkt else stream_out C tr cj)"
    using stream_send_correct [OF i ci s] by simp_all
qed

text \<open>A packet that fits an empty ring is refused only after the system took less than was queued.\<close>

lemma stream_send_refused:
  assumes i: "stream_inv C tr" and ci: "ci \<in> stream_opens tr" and l: "length pkt \<le> sc_out_buf C"
    and g: "signals_end (px_send (sc_os C) (sl_fd (slot_at tr ci)))" and s: "stream_send C tr ci pkt = (tr', False)"
  shows "ring_bytes (sc_out_buf C) (sl_ring (slot_at tr' ci)) \<noteq> []
    \<and> (\<exists>d os1 a. px_send (sc_os C) (sl_fd (slot_at tr ci)) d os1 = (a, ss_os tr') \<and> refusal a)"
proof -
  have b: "ci < sc_max_conns C" "\<not> sl_fd (slot_at tr ci) < 0" "length (ss_slots tr) = sc_max_conns C"
    using stream_opens_bound [OF ci] stream_invD(2) [OF i] ci by (simp_all add: stream_opens_def)
  let ?wr = "px_send (sc_os C) (sl_fd (slot_at tr ci))" and ?st = "(sl_ring (slot_at tr ci), sl_taken (slot_at tr ci), ss_os tr)"
  obtain r taken os where f: "flush_loop ?wr (sc_out_buf C) ?st = Some (r, taken, os)"
    using flush_loop_returns [OF g, of "sc_out_buf C" ?st] by (metis prod_cases3)
  have fl: "flushed ?wr (sc_out_buf C) ?st (r, taken, os)"
    by (rule flush_loop_flushed [OF _ _ f]) (use stream_invD(1) [OF i] stream_invD(3) [OF i b(1)] in \<open>simp_all add: conf_ok_def\<close>)
  have sa: "slot_at (tr\<lparr>ss_os := os\<rparr>) = slot_at tr" by (rule slot_at_cong) simp
  have fr: "slot_at (stream_flush C ci tr) ci = (slot_at tr ci)\<lparr>sl_ring := r, sl_taken := taken\<rparr>" "ss_os (stream_flush C ci tr) = os"
    using b f by (simp_all add: stream_flush_def Let_def slot_at_upd sa)
  have t: "tr' = stream_flush C ci tr" "\<not> snd (ring_append (sc_out_buf C) pkt r)"
    using s b fr by (auto simp: stream_send_def Let_def split: prod.splits bool.splits)
  have "ring_bytes (sc_out_buf C) r \<noteq> []"
    using t(2) l fl by (auto simp: ring_append_def ring_bytes_def split: if_splits)
  then show ?thesis using fl fr t(1) by (auto simp: flushed_def)
qed

text \<open>The destructor closes what is still held.\<close>

lemma stream_destroy_closed:
  assumes "length (ss_slots tr) = sc_max_conns C"
  shows "mset (ss_closed (stream_destroy C tr)) = mset (ss_closed tr) + slot_fds tr + listen_fds tr"
proof -
  let ?f = "\<lambda>i tr. if sl_fd (slot_at tr i) \<ge> 0 then fd_close (sc_os C) (sl_fd (slot_at tr i)) tr else tr"
  have s: "ss_slots (fold ?f is t) = ss_slots t" "ss_listen_fd (fold ?f is t) = ss_listen_fd t"
    "ss_closed (fold ?f is t) = ss_closed t @ filter (\<lambda>fd. fd \<ge> 0) (map (\<lambda>i. sl_fd (slot_at t i)) is)" for "is" and t :: "'a stream_server"
    by (induction "is" arbitrary: t) auto
  have "map (\<lambda>i. sl_fd (slot_at tr i)) [0..<sc_max_conns C] = map sl_fd (ss_slots tr)"
    using assms by (intro nth_equalityI) (auto simp: slot_at_def)
  then show ?thesis by (simp add: stream_destroy_def Let_def s slot_fds_def listen_fds_def mset_filter)
qed

section \<open>The event loop\<close>

abbreviation stream_step :: "('s, 'os stream_server) host \<Rightarrow> 'os stream_conf \<Rightarrow> ('s \<Rightarrow> nat set) \<Rightarrow> ('s \<Rightarrow> action list) \<Rightarrow> 's \<Rightarrow> bool" where
  "stream_step H C up said s \<equiv> agrees (stream_inv C) stream_opens (stream_out C) H up said s"

lemma free_slot_Some:
  assumes "free_slot C tr = Some ci" shows "ci < sc_max_conns C" "ci \<notin> stream_opens tr"
  using assms by (auto simp: free_slot_def find_Some_iff stream_opens_def)

text \<open>Taking a free slot for a descriptor just received, and giving it up.\<close>

lemma take_slot_correct:
  assumes l: "length (ss_slots tr) = sc_max_conns C" and ci: "ci < sc_max_conns C" "ci \<notin> stream_opens tr" and fd: "fd \<ge> 0"
  shows "stream_opens (take_slot ci fd tr) = insert ci (stream_opens tr)"
    "slot_fds (take_slot ci fd tr) = add_mset fd (slot_fds tr)"
    "stream_out C (take_slot ci fd tr) cj = (if cj = ci then [] else stream_out C tr cj)"
  using slot_fds_upd [of ci tr "\<lambda>s. s\<lparr>sl_fd := fd, sl_ring := ring_clear (sl_ring s), sl_dirty := False, sl_taken := []\<rparr>"] assms
  by (auto simp: take_slot_def stream_opens_def slot_at_upd stream_out_upd fd_part_def)

lemma drop_slot_correct:
  assumes ci: "ci < length (ss_slots tr)" "sl_fd (slot_at tr ci) \<ge> 0"
  shows "stream_opens (upd_slot ci (\<lambda>s. s\<lparr>sl_fd := -1\<rparr>) tr) = stream_opens tr - {ci}"
    "add_mset (sl_fd (slot_at tr ci)) (slot_fds (upd_slot ci (\<lambda>s. s\<lparr>sl_fd := -1\<rparr>) tr)) = slot_fds tr"
  using slot_fds_upd [of ci tr "\<lambda>s. s\<lparr>sl_fd := -1\<rparr>"] assms
  by (auto simp: stream_opens_def slot_at_upd fd_part_def)

text \<open>The state right after a descriptor was received: it is not held yet.\<close>

definition stream_holding :: "'os stream_conf \<Rightarrow> int \<Rightarrow> 'os stream_server \<Rightarrow> bool" where
  "stream_holding C fd tr \<longleftrightarrow> fd \<ge> 0 \<and> conf_ok C \<and> length (ss_slots tr) = sc_max_conns C
     \<and> (\<forall>ci < sc_max_conns C. ring_inv (sc_out_buf C) (sl_ring (slot_at tr ci)))
     \<and> mset (ss_got tr) = add_mset fd (mset (ss_closed tr) + slot_fds tr + listen_fds tr)
     \<and> ((\<forall>fd. signals_end (px_send (sc_os C) fd)) \<longrightarrow> \<not> ss_stuck tr)"

lemma holding_got:
  "stream_inv C tr \<Longrightarrow> stream_holding C (int fd) (tr\<lparr>ss_os := os, ss_got := ss_got tr @ [int fd]\<rparr>)"
  by (auto simp: stream_holding_def stream_inv_def fds_owned_def slot_fds_def listen_fds_def slot_at_def)

lemma holding_os: "stream_holding C fd (tr\<lparr>ss_os := os\<rparr>) = stream_holding C fd tr"
  by (simp add: stream_holding_def slot_fds_def listen_fds_def slot_at_def)

lemma holding_close: "stream_holding C fd tr \<Longrightarrow> stream_inv C (fd_close P fd tr)"
  by (auto simp: stream_holding_def stream_inv_def fds_owned_def slot_fds_def listen_fds_def)

lemma holding_take:
  assumes h: "stream_holding C fd tr" and ci: "ci < sc_max_conns C" "ci \<notin> stream_opens tr"
  shows "stream_inv C (take_slot ci fd tr)"
  using h take_slot_correct(2) [OF _ ci, of fd]
  by (auto simp: stream_holding_def stream_inv_def fds_owned_def listen_fds_def take_slot_def slot_at_upd)

lemma drop_slot_inv:
  assumes i: "stream_inv C tr" and ci: "ci < length (ss_slots tr)" "sl_fd (slot_at tr ci) = fd" "fd \<ge> 0"
  shows "stream_inv C (upd_slot ci (\<lambda>s. s\<lparr>sl_fd := -1\<rparr>) (fd_close P fd tr))"
proof -
  have "add_mset fd (slot_fds (upd_slot ci (\<lambda>s. s\<lparr>sl_fd := -1\<rparr>) (fd_close P fd tr))) = slot_fds tr"
    using drop_slot_correct(2) [of ci "fd_close P fd tr"] ci by (simp add: slot_fds_def)
  then have "slot_fds tr = slot_fds (upd_slot ci (\<lambda>s. s\<lparr>sl_fd := -1\<rparr>) (fd_close P fd tr)) + {#fd#}" by simp
  then show ?thesis using i ci(1) by (simp add: stream_inv_def fds_owned_def listen_fds_def slot_at_upd)
qed

lemma opens_os [simp]:
  "stream_opens (tr\<lparr>ss_os := os\<rparr>) = stream_opens tr" "stream_out C (tr\<lparr>ss_os := os\<rparr>) = stream_out C tr"
  "stream_opens (tr\<lparr>ss_got := g\<rparr>) = stream_opens tr" "stream_out C (tr\<lparr>ss_got := g\<rparr>) = stream_out C tr"
  "stream_opens (fd_close P fd tr) = stream_opens tr" "stream_out C (fd_close P fd tr) = stream_out C tr"
  by (simp_all add: stream_opens_def stream_out_def fun_eq_iff) (simp_all add: slot_at_def)

lemma opens_backoff [simp]:
  "stream_opens (tr\<lparr>ss_accept_backoff_armed := a\<rparr>) = stream_opens tr" "stream_out C (tr\<lparr>ss_accept_backoff_armed := a\<rparr>) = stream_out C tr"
  by (simp_all add: stream_opens_def stream_out_def slot_at_def fun_eq_iff)

locale stream_host = driven H "stream_send C" "stream_close C" inv up said stream_opens "stream_inv C" "stream_out C"
  for H :: "('s, 'os stream_server) host" and C :: "'os stream_conf" and inv and up and said
begin

lemma step_put:
  assumes "stream_step H C up said s" "keeps C (h_tr H s) tr'" shows "stream_step H C up said (h_put H tr' s)"
  using assms by (intro agrees_put) (auto simp: agrees_def keeps_def)

lemma step_peer_gone:
  assumes "stream_step H C up said s" "inv s" "ci \<in> up s"
  shows "inv (peer_gone H C ci s) \<and> stream_step H C up said (peer_gone H C ci s)"
  unfolding peer_gone_def
  by (rule agrees_closed [OF assms(1,2)]) (use slot_shut_correct [of C "h_tr H s" ci] assms in \<open>auto simp: agrees_def\<close>)

lemma step_os: "stream_step H C up said s \<Longrightarrow> stream_step H C up said (h_put H ((h_tr H s)\<lparr>ss_os := os\<rparr>) s)"
  by (rule step_put) (auto intro: keeps_same)

lemma step_read_loop:
  "stream_step H C up said s \<Longrightarrow> inv s \<Longrightarrow> inv (read_loop H C ci now n s) \<and> stream_step H C up said (read_loop H C ci now n s)"
proof (induction n arbitrary: s)
  case (Suc n)
  obtain r os where r: "px_read (sc_os C) (sl_fd (slot_at (h_tr H s) ci)) read_buf_size (ss_os (h_tr H s)) = (r, os)" by fastforce
  let ?s = "h_put H ((h_tr H s)\<lparr>ss_os := os\<rparr>) s"
  have s: "stream_step H C up said ?s" "inv ?s" using step_os [OF Suc.prems(1)] Suc.prems(2) by (simp_all add: inv_put)
  show ?case
  proof (cases "sl_fd (slot_at (h_tr H s) ci) < 0")
    case False
    then have up: "ci \<in> up ?s" using Suc.prems(1) by (auto simp: agrees_def stream_opens_def up_put)
    then have gone: "inv (peer_gone H C ci ?s) \<and> stream_step H C up said (peer_gone H C ci ?s)" by (rule step_peer_gone [OF s])
    have go: "inv (read_loop H C ci now n s') \<and> stream_step H C up said (read_loop H C ci now n s')"
      if "inv s' \<and> stream_step H C up said s'" for s' using that Suc.IH [of s'] by simp
    show ?thesis using False r s gone go [of ?s] go [OF agrees_data [OF s up]]
      by (auto simp: Let_def split: sum.split)
  qed (use Suc.prems in simp)
qed simp

lemma step_announce:
  assumes h: "stream_holding C fd tr" and S: "stream_opens tr = up s" and ci: "ci < sc_max_conns C" "ci \<notin> stream_opens tr"
    and o: "\<And>cj. cj \<in> up s \<Longrightarrow> stream_out C tr cj = accepted_on cj (said s)" and i: "inv s"
    and e: "h_open H ci now (h_put H (take_slot ci fd tr) s) = (e, s')"
  shows "inv s' \<and> stream_step H C up said
    (if e \<noteq> Err_ok then h_put H (upd_slot ci (\<lambda>s. s\<lparr>sl_fd := -1\<rparr>) (fd_close (sc_os C) fd (h_tr H s'))) s' else s')"
proof -
  let ?tr = "take_slot ci fd tr"
  have op: "inv s'" "h_tr H s' = ?tr"
    and ok: "e = Err_ok \<Longrightarrow> up s' = insert ci (up s) \<and> (\<exists>ev. said s' = said s @ [Noted ev] \<and> opened_at ci ev \<and> (\<forall>cj. cj \<noteq> ci \<longrightarrow> \<not> opened_at cj ev))"
    and no: "e \<noteq> Err_ok \<Longrightarrow> up s' = up s \<and> said s' = said s"
    using opened [OF _ e] i by (auto simp: inv_put tr_put up_put said_put split: if_splits)
  have l: "length (ss_slots tr) = sc_max_conns C" "fd \<ge> 0" using h by (simp_all add: stream_holding_def)
  have tk: "stream_inv C ?tr" "stream_opens ?tr = insert ci (up s)" "sl_fd (slot_at ?tr ci) = fd" "length (ss_slots ?tr) = sc_max_conns C"
    "\<And>cj. stream_out C ?tr cj = (if cj = ci then [] else stream_out C tr cj)"
    using holding_take [OF h ci] take_slot_correct [OF l(1) ci l(2)] S l ci(1) by (simp_all add: take_slot_def slot_at_upd)
  show ?thesis
  proof (cases "e = Err_ok")
    case True
    have "stream_step H C up said s'" using ok [OF True] op(2) tk ci o by (auto simp: agrees_def S accepted_on_opened)
    then show ?thesis using True op(1) by simp
  next
    case False
    let ?d = "upd_slot ci (\<lambda>s. s\<lparr>sl_fd := -1\<rparr>) (fd_close (sc_os C) fd ?tr)"
    have "stream_inv C ?d" by (rule drop_slot_inv) (use tk ci l in simp_all)
    moreover have "stream_opens ?d = up s"
      using drop_slot_correct(1) [of ci "fd_close (sc_os C) fd ?tr"] tk ci l S by auto
    moreover have "stream_out C ?d cj = accepted_on cj (said s)" if "cj \<in> up s" for cj
      using that o [OF that] tk(5) ci(2) S by (auto simp: stream_out_upd)
    ultimately show ?thesis using False op no [OF False] by (simp add: agrees_def tr_put up_put said_put)
  qed
qed

lemma step_accept_one:
  assumes h: "stream_holding C fd (h_tr H s)" and S: "stream_opens (h_tr H s) = up s"
    and o: "\<And>ci. ci \<in> up s \<Longrightarrow> stream_out C (h_tr H s) ci = accepted_on ci (said s)" and i: "inv s"
  shows "inv (accept_one H C now fd s) \<and> stream_step H C up said (accept_one H C now fd s)"
proof -
  let ?tr = "h_tr H s"
  have refuse: "inv (h_put H (fd_close (sc_os C) fd (?tr\<lparr>ss_os := os\<rparr>)) s) \<and> stream_step H C up said (h_put H (fd_close (sc_os C) fd (?tr\<lparr>ss_os := os\<rparr>)) s)" for os
    using holding_close [of C fd "?tr\<lparr>ss_os := os\<rparr>" "sc_os C"] h S o i by (simp add: agrees_def tr_put up_put said_put inv_put holding_os)
  show ?thesis
  proof (cases "free_slot C ?tr")
    case None
    then show ?thesis using refuse [of "ss_os ?tr"] by (simp add: accept_one_def Let_def)
  next
    case (Some ci)
    have ci: "ci < sc_max_conns C" "ci \<notin> stream_opens ?tr" using free_slot_Some [OF Some] by auto
    have taken: "inv s' \<and> stream_step H C up said (if e \<noteq> Err_ok then h_put H (upd_slot ci (\<lambda>s. s\<lparr>sl_fd := -1\<rparr>) (fd_close (sc_os C) fd (h_tr H s'))) s' else s')"
      if e: "h_open H ci now (h_put H (take_slot ci fd (?tr\<lparr>ss_os := os\<rparr>)) s) = (e, s')" for e s' os
      by (rule step_announce [OF _ _ _ _ _ i e]) (use h S o ci in \<open>simp_all add: holding_os\<close>)
    show ?thesis using refuse taken Some by (auto simp: accept_one_def Let_def inv_put split: prod.split if_splits)
  qed
qed

lemma step_accept_loop:
  "stream_step H C up said s \<Longrightarrow> inv s \<Longrightarrow> inv (accept_loop H C now n s) \<and> stream_step H C up said (accept_loop H C now n s)"
proof (induction n arbitrary: s)
  case (Suc n)
  obtain a os where a: "px_accept (sc_os C) (ss_listen_fd (h_tr H s)) (ss_os (h_tr H s)) = (a, os)" by fastforce
  let ?s = "h_put H ((h_tr H s)\<lparr>ss_os := os\<rparr>) s"
  have s: "stream_step H C up said ?s" "inv ?s" using step_os [OF Suc.prems(1)] Suc.prems(2) by (simp_all add: inv_put)
  have later: "stream_step H C up said (h_put H ((h_tr H s)\<lparr>ss_os := os, ss_accept_backoff_armed := x, ss_accept_retry_at_ms := t\<rparr>) s)" for x t
    by (rule step_put [OF Suc.prems(1)]) (auto intro: keeps_same)
  show ?case
  proof (cases a)
    case (Inl e)
    then show ?thesis using a s later Suc.IH [OF s] Suc.prems(2) by (simp add: Let_def inv_put)
  next
    case (Inr fd)
    let ?g = "h_put H ((h_tr H s)\<lparr>ss_os := os, ss_got := ss_got (h_tr H s) @ [int fd]\<rparr>) s"
    have "inv (accept_one H C now (int fd) ?g) \<and> stream_step H C up said (accept_one H C now (int fd) ?g)"
      using holding_got [of C "h_tr H s" fd os] Suc.prems
      by (intro step_accept_one) (simp_all add: agrees_def tr_put up_put said_put inv_put)
    then show ?thesis using a Inr Suc.IH [of "accept_one H C now (int fd) ?g"] by (simp add: Let_def)
  qed
qed simp

lemma step_serve_event:
  assumes "stream_step H C up said s" "inv s"
  shows "inv (serve_event H C now ev s) \<and> stream_step H C up said (serve_event H C now ev s)"
proof -
  obtain ci pfd rv where ev: "ev = ((ci, pfd), rv)" by (metis prod.collapse)
  have a: "inv (accept_new H C now s) \<and> stream_step H C up said (accept_new H C now s)"
    unfolding accept_new_def
  proof (rule step_accept_loop)
    show "stream_step H C up said (h_put H ((h_tr H s)\<lparr>ss_accept_backoff_armed := False\<rparr>) s)"
      by (rule step_put [OF assms(1) keeps_same]) simp_all
  qed (simp add: inv_put assms(2))
  have f: "stream_step H C up said (h_put H (stream_flush C ci (h_tr H s)) s)" by (rule step_put [OF assms(1) stream_flush_keeps])
  have r: "inv (read_into_broker H C ci now s') \<and> stream_step H C up said (read_into_broker H C ci now s')"
    if "stream_step H C up said s'" "inv s'" for s' unfolding read_into_broker_def by (rule step_read_loop [OF that])
  show ?thesis using a f r [OF assms] r [OF f] assms by (simp add: ev serve_event_def Let_def inv_put)
qed

lemma step_flush_all: "stream_step H C up said s \<Longrightarrow> stream_step H C up said (h_put H (flush_all C (h_tr H s)) s)"
proof (erule step_put)
  have "keeps C tr (flush_slot C ci tr)" for tr ci
    unfolding flush_slot_def by (auto intro!: keeps_trans [OF _ stream_flush_keeps] keeps_upd simp: stream_out_def)
  then have "keeps C tr (fold (flush_slot C) [0..<n] tr)" for n tr
    by (intro fold_upt_invariant [where P = "keeps C tr"]) (auto intro: keeps_trans)
  then show "keeps C (h_tr H s) (flush_all C (h_tr H s))" by (simp add: flush_all_def)
qed

lemma step_poll_once:
  assumes "stream_step H C up said s" "inv s"
  shows "inv (snd (poll_once H C timeout s)) \<and> stream_step H C up said (snd (poll_once H C timeout s))"
proof -
  obtain paused tr where p: "listener_paused (sc_os C) (h_tr H s) = (paused, tr)" by fastforce
  obtain rc os1 where rc: "px_poll (sc_os C) (map snd (poll_set C paused tr)) timeout (ss_os tr) = (rc, os1)" by fastforce
  obtain now os where n: "posix_now_ms (sc_os C) os1 = (now, os)" by fastforce
  let ?s = "h_put H (tr\<lparr>ss_os := os\<rparr>) s"
  have "keeps C (h_tr H s) (tr\<lparr>ss_os := os\<rparr>)"
    using p by (intro keeps_same) (auto simp: listener_paused_def split: if_splits prod.splits)
  then have s: "stream_step H C up said ?s" "inv ?s" using step_put [OF assms(1)] assms(2) by (simp_all add: inv_put)
  have fin: "inv (h_put H (flush_all C (h_tr H (h_tick H now s'))) (h_tick H now s'))
      \<and> stream_step H C up said (h_put H (flush_all C (h_tr H (h_tick H now s'))) (h_tick H now s'))"
    if "inv s' \<and> stream_step H C up said s'" for s'
    using agrees_tick [of s' now] that step_flush_all by (simp add: inv_put)
  have ev: "inv (fold (serve_event H C now) evs ?s) \<and> stream_step H C up said (fold (serve_event H C now) evs ?s)" for evs
    by (rule fold_invariant [where P = "\<lambda>s. inv s \<and> stream_step H C up said s"]) (use s step_serve_event in auto)
  show ?thesis
  proof (cases rc)
    case (Inl e)
    then show ?thesis using fin [of ?s] s p rc n by (simp add: poll_once_def Let_def)
  next
    case (Inr r)
    then show ?thesis using fin [OF ev] p rc n by (cases r) (simp add: poll_once_def Let_def)
  qed
qed

end

end
