(* ===== verification/Listeners.thy ===== *)
theory Listeners
  imports Stream_Server
begin

unbundle bit_operations_syntax

text \<open>
  The two listening sockets of the stream server: \<open>TcpTransport\<close> (\<open>transports/posix/tcp.hpp\<close>) and
  \<open>UnixSocketTransport\<close> (\<open>transports/posix/unix_socket.hpp\<close>). The socket calls are parameters,
  a C string is a byte list with a terminating zero in it. \<open>us_unlinked\<close> lists the paths handed to
  \<open>unlink()\<close>; it has no counterpart in the code.
\<close>

section \<open>Model\<close>

record 'os sockets =
  so_socket_inet :: "'os \<Rightarrow> (errno + nat) \<times> 'os"
  so_socket_unix :: "'os \<Rightarrow> (errno + nat) \<times> 'os"
  so_reuseaddr :: "int \<Rightarrow> 'os \<Rightarrow> 'os"
  so_inet_pton :: "bytes \<Rightarrow> u32 option"
  so_htons :: "u16 \<Rightarrow> u16"
  so_ntohs :: "u16 \<Rightarrow> u16"
  so_bind_inet :: "int \<Rightarrow> u32 \<Rightarrow> u16 \<Rightarrow> 'os \<Rightarrow> bool \<times> 'os"
  so_bind_unix :: "int \<Rightarrow> bytes \<Rightarrow> 'os \<Rightarrow> bool \<times> 'os"
  so_listen :: "int \<Rightarrow> nat \<Rightarrow> 'os \<Rightarrow> bool \<times> 'os"
  so_getsockname :: "int \<Rightarrow> 'os \<Rightarrow> u16 option \<times> 'os"
  so_umask :: "u32 \<Rightarrow> 'os \<Rightarrow> u32 \<times> 'os"
  so_chmod :: "bytes \<Rightarrow> u32 \<Rightarrow> 'os \<Rightarrow> bool \<times> 'os"
  so_unlink :: "bytes \<Rightarrow> 'os \<Rightarrow> 'os"

text \<open>Calls tried in turn until one fails.\<close>

fun all_ok :: "('os \<Rightarrow> bool \<times> 'os) list \<Rightarrow> 'os \<Rightarrow> bool \<times> 'os" where
  "all_ok [] os = (True, os)"
| "all_ok (f # fs) os = (case f os of (ok, os) \<Rightarrow> if ok then all_ok fs os else (False, os))"

subsection \<open>TCP\<close>

definition inaddr_any :: u32 where "inaddr_any = 0"

definition tcp_open :: "'os sockets \<Rightarrow> 'os posix \<Rightarrow> u16 \<Rightarrow> bytes option \<Rightarrow> 'os stream_server \<Rightarrow> 'os stream_server \<times> bool" where
  "tcp_open S P port bind_addr tr =
    (case so_socket_inet S (ss_os tr) of
       (Inl _, os) \<Rightarrow> (tr\<lparr>ss_os := os\<rparr>, False)
     | (Inr n, os) \<Rightarrow>
         let fd = int n; tr = tr\<lparr>ss_os := so_reuseaddr S fd os, ss_got := ss_got tr @ [fd]\<rparr>
         in case (case bind_addr of None \<Rightarrow> Some inaddr_any | Some a \<Rightarrow> so_inet_pton S a) of
              None \<Rightarrow> (fd_close P fd tr, False)
            | Some addr \<Rightarrow>
                let (ok, os) = all_ok [so_bind_inet S fd addr (so_htons S port), so_listen S fd 8, set_nonblocking P fd] (ss_os tr);
                    tr = tr\<lparr>ss_os := os\<rparr>
                in if \<not> ok then (fd_close P fd tr, False)
                   else ((close_listener P tr)\<lparr>ss_listen_fd := fd, ss_tcp_nodelay := True\<rparr>, True))"

definition tcp_port :: "'os sockets \<Rightarrow> 'os stream_server \<Rightarrow> u16 \<times> 'os stream_server" where
  "tcp_port S tr =
    (if ss_listen_fd tr < 0 then (0, tr)
     else case so_getsockname S (ss_listen_fd tr) (ss_os tr) of
            (None, os) \<Rightarrow> (0, tr\<lparr>ss_os := os\<rparr>)
          | (Some p, os) \<Rightarrow> (so_ntohs S p, tr\<lparr>ss_os := os\<rparr>))"

subsection \<open>Unix domain sockets\<close>

record 'os unix_server =
  us_server :: "'os stream_server"
  us_path :: bytes
  us_unlinked :: "bytes list"

text \<open>The string in a zero-terminated array.\<close>

definition cstr :: "bytes \<Rightarrow> bytes" where
  "cstr mem = takeWhile (\<lambda>c. c \<noteq> 0) mem"

definition cstr_len :: "bytes \<Rightarrow> nat" where
  "cstr_len mem = length (cstr mem)"

definition us_init :: "'os stream_conf \<Rightarrow> nat \<Rightarrow> 'os \<Rightarrow> 'os unix_server" where
  "us_init C path_max os = \<lparr>us_server = stream_init C os, us_path = replicate path_max 0, us_unlinked = []\<rparr>"

definition us_unlink :: "'os sockets \<Rightarrow> bytes \<Rightarrow> 'os unix_server \<Rightarrow> 'os unix_server" where
  "us_unlink S path us = us\<lparr>us_server := (us_server us)\<lparr>ss_os := so_unlink S path (ss_os (us_server us))\<rparr>,
     us_unlinked := us_unlinked us @ [path]\<rparr>"

definition same_path :: "bytes \<Rightarrow> nat \<Rightarrow> 'os unix_server \<Rightarrow> bool" where
  "same_path path len us \<longleftrightarrow> list_all (\<lambda>i. us_path us ! i = path ! i) [0..<len + 1]"

text \<open>Binding under a tight umask, then the exact mode.\<close>

definition unix_bind :: "'os sockets \<Rightarrow> 'os posix \<Rightarrow> int \<Rightarrow> bytes \<Rightarrow> u32 \<Rightarrow> 'os \<Rightarrow> bool \<times> 'os" where
  "unix_bind S P fd path mode os =
    (let (old_umask, os) = so_umask S (0x1FF AND NOT mode) os;
         (bound, os) = so_bind_unix S fd path os;
         (_, os) = so_umask S old_umask os
     in if \<not> bound then (False, os)
        else all_ok [so_chmod S path mode, so_listen S fd 8, set_nonblocking P fd] os)"

definition unix_open :: "'os sockets \<Rightarrow> 'os posix \<Rightarrow> bytes \<Rightarrow> u32 \<Rightarrow> 'os unix_server \<Rightarrow> 'os unix_server \<times> bool" where
  "unix_open S P path mode us =
    (let len = cstr_len path; tr = us_server us
     in if len = 0 \<or> len \<ge> length (us_path us) then (us, False)
        else case so_socket_unix S (ss_os tr) of
          (Inl _, os) \<Rightarrow> (us\<lparr>us_server := tr\<lparr>ss_os := os\<rparr>\<rparr>, False)
        | (Inr n, os) \<Rightarrow>
            let fd = int n;
                us = us_unlink S (cstr path) (us\<lparr>us_server := tr\<lparr>ss_os := os, ss_got := ss_got tr @ [fd]\<rparr>\<rparr>);
                (ok, os) = unix_bind S P fd (cstr path) mode (ss_os (us_server us));
                us = us\<lparr>us_server := (us_server us)\<lparr>ss_os := os\<rparr>\<rparr>
            in if \<not> ok then (us_unlink S (cstr path) (us\<lparr>us_server := fd_close P fd (us_server us)\<rparr>), False)
               else
                 let replacing_same_path = same_path path len us;
                     us = us\<lparr>us_server := close_listener P (us_server us)\<rparr>;
                     us = (if \<not> replacing_same_path \<and> us_path us ! 0 \<noteq> 0 then us_unlink S (cstr (us_path us)) us else us)
                 in (us\<lparr>us_path := take (len + 1) path @ drop (len + 1) (us_path us),
                        us_server := (us_server us)\<lparr>ss_listen_fd := fd\<rparr>\<rparr>, True))"

definition unix_destroy :: "'os sockets \<Rightarrow> 'os stream_conf \<Rightarrow> 'os unix_server \<Rightarrow> 'os unix_server" where
  "unix_destroy S C us =
    (let us = (if us_path us ! 0 \<noteq> 0 then us_unlink S (cstr (us_path us)) us else us)
     in us\<lparr>us_server := stream_destroy C (us_server us)\<rparr>)"

section \<open>Descriptors and connections\<close>

lemma keeps_inv: "keeps C tr tr' \<Longrightarrow> stream_inv C tr \<Longrightarrow> stream_inv C tr'"
  by (simp add: keeps_def)

text \<open>A listener being set up changes no connection.\<close>

definition listener_step :: "'os stream_conf \<Rightarrow> 'os stream_server \<Rightarrow> 'os stream_server \<Rightarrow> bool \<Rightarrow> bool" where
  "listener_step C tr tr' ok \<longleftrightarrow> ss_slots tr' = ss_slots tr \<and> (stream_inv C tr \<longrightarrow> stream_inv C tr')
     \<and> (if ok then ss_listen_fd tr' \<ge> 0 \<and> \<not> ss_accept_backoff_armed tr'
           \<and> (\<exists>fd. ss_listen_fd tr' = fd \<and> ss_got tr' = ss_got tr @ [fd])
           \<and> ss_closed tr' = ss_closed tr @ (if ss_listen_fd tr \<ge> 0 then [ss_listen_fd tr] else [])
        else ss_listen_fd tr' = ss_listen_fd tr \<and> ss_accept_backoff_armed tr' = ss_accept_backoff_armed tr
           \<and> (\<exists>fds. ss_got tr' = ss_got tr @ fds \<and> ss_closed tr' = ss_closed tr @ fds))"

lemma inv_cong:
  assumes "ss_slots tr' = ss_slots tr" "ss_stuck tr' = ss_stuck tr" "stream_inv C tr"
    "mset (ss_got tr') + (mset (ss_closed tr) + listen_fds tr) = mset (ss_got tr) + (mset (ss_closed tr') + listen_fds tr')"
  shows "stream_inv C tr'"
proof -
  have "mset (ss_got tr') = mset (ss_closed tr') + slot_fds tr' + listen_fds tr'"
  proof -
    have "mset (ss_got tr') + (mset (ss_closed tr) + listen_fds tr) = (mset (ss_closed tr') + slot_fds tr' + listen_fds tr') + (mset (ss_closed tr) + listen_fds tr)"
      using assms(3,4) by (simp add: stream_inv_def fds_owned_def slot_fds_def assms(1) ac_simps)
    then show ?thesis by simp
  qed
  then show ?thesis using assms(2,3) slot_at_cong [OF assms(1)] by (simp add: stream_inv_def fds_owned_def assms(1))
qed

lemma listener_failed:
  assumes "ss_slots tr' = ss_slots tr" "ss_stuck tr' = ss_stuck tr" "ss_listen_fd tr' = ss_listen_fd tr"
    "ss_accept_backoff_armed tr' = ss_accept_backoff_armed tr" "ss_got tr' = ss_got tr @ fds" "ss_closed tr' = ss_closed tr @ fds"
  shows "listener_step C tr tr' False"
  using inv_cong [of tr' tr C] assms by (auto simp: listener_step_def listen_fds_def)

lemma listener_opened:
  assumes "ss_slots tr' = ss_slots tr" "ss_stuck tr' = ss_stuck tr" "ss_listen_fd tr' = int n" "\<not> ss_accept_backoff_armed tr'"
    "ss_got tr' = ss_got tr @ [int n]" "ss_closed tr' = ss_closed tr @ (if ss_listen_fd tr \<ge> 0 then [ss_listen_fd tr] else [])"
  shows "listener_step C tr tr' True"
  using inv_cong [of tr' tr C] assms by (auto simp: listener_step_def listen_fds_def)

lemma close_listener_sel [simp]:
  "ss_slots (close_listener P tr) = ss_slots tr" "ss_stuck (close_listener P tr) = ss_stuck tr"
  "\<not> ss_accept_backoff_armed (close_listener P tr)" "ss_got (close_listener P tr) = ss_got tr"
  "ss_closed (close_listener P tr) = ss_closed tr @ (if ss_listen_fd tr \<ge> 0 then [ss_listen_fd tr] else [])"
  by (simp_all add: close_listener_def Let_def)

lemma fd_close_backoff [simp]: "ss_accept_backoff_armed (fd_close P fd tr) = ss_accept_backoff_armed tr"
  by (simp add: fd_close_def)

lemma tcp_open_step:
  assumes "tcp_open S P port bind_addr tr = (tr', ok)" shows "listener_step C tr tr' ok"
proof (cases "so_socket_inet S (ss_os tr)")
  case (Pair r os)
  show ?thesis
  proof (cases r)
    case (Inl e)
    then show ?thesis using assms Pair by (auto simp: tcp_open_def intro!: listener_failed [where fds = "[]"])
  next
    case (Inr n)
    show ?thesis
      using assms Pair Inr
      by (auto simp: tcp_open_def Let_def split: option.splits prod.splits if_splits
          intro!: listener_failed [where fds = "[int n]"] listener_opened [where n = n])
  qed
qed

lemma us_unlink_sel [simp]:
  "ss_slots (us_server (us_unlink S p us)) = ss_slots (us_server us)" "ss_stuck (us_server (us_unlink S p us)) = ss_stuck (us_server us)"
  "ss_listen_fd (us_server (us_unlink S p us)) = ss_listen_fd (us_server us)" "ss_got (us_server (us_unlink S p us)) = ss_got (us_server us)"
  "ss_closed (us_server (us_unlink S p us)) = ss_closed (us_server us)" "us_path (us_unlink S p us) = us_path us"
  "ss_accept_backoff_armed (us_server (us_unlink S p us)) = ss_accept_backoff_armed (us_server us)"
  "us_unlinked (us_unlink S p us) = us_unlinked us @ [p]"
  by (simp_all add: us_unlink_def)

lemma unix_open_step:
  assumes "unix_open S P path mode us = (us', ok)" shows "listener_step C (us_server us) (us_server us') ok"
proof (cases "cstr_len path = 0 \<or> cstr_len path \<ge> length (us_path us)")
  case True
  then show ?thesis using assms by (auto simp: unix_open_def Let_def intro!: listener_failed [where fds = "[]"])
next
  case False
  obtain r os where r: "so_socket_unix S (ss_os (us_server us)) = (r, os)" by fastforce
  show ?thesis
  proof (cases r)
    case (Inl e)
    then show ?thesis using assms r False by (auto simp: unix_open_def Let_def intro!: listener_failed [where fds = "[]"])
  next
    case (Inr n)
    then show ?thesis
      using assms r False
      by (auto simp: unix_open_def Let_def split: prod.splits if_splits
          intro!: listener_failed [where fds = "[int n]"] listener_opened [where n = n])
  qed
qed

section \<open>Socket files\<close>

text \<open>The array of the path is zero-terminated, and comparing arrays up to the terminator compares the strings.\<close>

definition path_ok :: "'os unix_server \<Rightarrow> bool" where
  "path_ok us \<longleftrightarrow> 0 \<in> set (us_path us)"

lemma cstr_split:
  assumes "0 \<in> set mem" shows "\<exists>rest. mem = cstr mem @ 0 # rest"
proof -
  have "dropWhile (\<lambda>c. c \<noteq> 0) mem \<noteq> []" using assms by simp
  then have "mem = cstr mem @ hd (dropWhile (\<lambda>c. c \<noteq> 0) mem) # tl (dropWhile (\<lambda>c. c \<noteq> 0) mem)"
    by (simp add: cstr_def)
  moreover have "hd (dropWhile (\<lambda>c. c \<noteq> 0) mem) = 0" using hd_dropWhile [of "\<lambda>c. c \<noteq> 0" mem] assms by auto
  ultimately show ?thesis by metis
qed

lemma cstr_append_zero: "0 \<notin> set s \<Longrightarrow> cstr (s @ 0 # rest) = s"
  by (simp add: cstr_def takeWhile_append)

lemma cstr_no_zero: "0 \<notin> set (cstr mem)"
  by (auto simp: cstr_def dest: set_takeWhileD)

lemma take_cstr:
  assumes "0 \<in> set mem" shows "take (cstr_len mem + 1) mem = cstr mem @ [0]"
proof -
  obtain rest where m: "mem = (cstr mem @ [0]) @ rest" using cstr_split [OF assms] by auto
  have "take (length (cstr mem @ [0])) ((cstr mem @ [0]) @ rest) = cstr mem @ [0]" by simp
  then show ?thesis unfolding m [symmetric] by (simp add: cstr_len_def)
qed

lemma same_path_iff:
  assumes p: "0 \<in> set path" and us: "path_ok us" and len: "cstr_len path < length (us_path us)"
  shows "same_path path (cstr_len path) us \<longleftrightarrow> cstr (us_path us) = cstr path"
proof -
  let ?n = "cstr_len path + 1"
  have "?n \<le> length path" using take_cstr [OF p] by (metis cstr_len_def length_append_singleton length_take min.cobounded1 Suc_eq_plus1)
  then have "same_path path (cstr_len path) us \<longleftrightarrow> take ?n (us_path us) = take ?n path"
    using len by (auto simp: same_path_def list_all_iff list_eq_iff_nth_eq less_Suc_eq)
  also have "\<dots> \<longleftrightarrow> cstr (us_path us) = cstr path"
  proof
    assume t: "take ?n (us_path us) = take ?n path"
    have "us_path us = (cstr path @ [0]) @ drop ?n (us_path us)" using t take_cstr [OF p] by (metis append_take_drop_id)
    then show "cstr (us_path us) = cstr path" by (metis append.assoc append_Cons append_Nil cstr_append_zero cstr_no_zero)
  next
    assume e: "cstr (us_path us) = cstr path"
    then show "take ?n (us_path us) = take ?n path"
      using take_cstr [OF p] take_cstr [of "us_path us"] us by (simp add: path_ok_def cstr_len_def)
  qed
  finally show ?thesis .
qed

lemma first_zero: "0 \<in> set mem \<Longrightarrow> mem ! 0 \<noteq> 0 \<longleftrightarrow> cstr mem \<noteq> []"
  by (cases mem) (auto simp: cstr_def)

lemma unix_open_paths:
  assumes p: "0 \<in> set path" and us: "path_ok us" and o: "unix_open S P path mode us = (us', True)"
  shows "cstr (us_path us') = cstr path \<and> path_ok us' \<and> length (us_path us') = length (us_path us)
    \<and> us_unlinked us' = us_unlinked us @ cstr path # (if cstr (us_path us) \<in> {[], cstr path} then [] else [cstr (us_path us)])"
proof -
  have len: "cstr_len path < length (us_path us)" and n: "cstr_len path \<noteq> 0"
    using o by (auto simp: unix_open_def Let_def split: if_splits)
  obtain r os where r: "so_socket_unix S (ss_os (us_server us)) = (r, os)" by fastforce
  have sp: "same_path path l (us_unlink S q (us\<lparr>us_server := x\<rparr>)\<lparr>us_server := y\<rparr>) = same_path path l us" for l q x y
    by (simp add: same_path_def)
  have path': "us_path us' = (cstr path @ [0]) @ drop (cstr_len path + 1) (us_path us)"
    "us_unlinked us' = us_unlinked us @ cstr path # (if \<not> same_path path (cstr_len path) us \<and> us_path us ! 0 \<noteq> 0 then [cstr (us_path us)] else [])"
    using o r len n take_cstr [OF p]
    by (auto simp: unix_open_def Let_def sp split: sum.splits prod.splits if_splits)
  have "cstr (us_path us') = cstr path"
    unfolding path' by (metis append.assoc append_Cons append_Nil cstr_append_zero cstr_no_zero)
  moreover have "length (us_path us') = length (us_path us)" using len by (simp add: path' cstr_len_def)
  ultimately show ?thesis
    using path' same_path_iff [OF p us len] first_zero [of "us_path us"] us by (auto simp: path_ok_def)
qed

end
