(* ===== verification/Server.thy ===== *)
theory Server
  imports Listeners
begin

text \<open>
  The broker over the stream server, as \<open>TcpTransport\<close> and \<open>UnixSocketTransport\<close> run it: the states any
  sequence of listener openings, poll passes and publishes of the application can reach. \<open>run\<close>
  repeats \<open>poll_once\<close> until \<open>stop\<close> clears a flag, so its states are among these. Between two calls the
  operating system may have moved on to any state, by itself or because the application used it.
\<close>

section \<open>Model\<close>

definition stream_env :: "'os stream_conf \<Rightarrow> traits \<Rightarrow> 'ctx security \<Rightarrow> ('ctx, 'os stream_server) env" where
  "stream_env C T sec = \<lparr>e_traits = T, e_sec = sec, e_send = stream_send C, e_close = stream_close C\<rparr>"

inductive server_run :: "'os stream_conf \<Rightarrow> traits \<Rightarrow> ('ctx, 'os stream_server) broker \<Rightarrow> bool" for C T where
  run_start: "server_run C T (broker_init T (stream_init C os))"
| run_tcp: "server_run C T b \<Longrightarrow> tcp_open S (sc_os C) port bind_addr (b_tr b) = (tr, ok) \<Longrightarrow> server_run C T (b\<lparr>b_tr := tr\<rparr>)"
| run_unix: "server_run C T b \<Longrightarrow> us_server us = b_tr b \<Longrightarrow> unix_open S (sc_os C) path mode us = (us', ok) \<Longrightarrow>
    server_run C T (b\<lparr>b_tr := us_server us'\<rparr>)"
| run_os: "server_run C T b \<Longrightarrow> server_run C T (b\<lparr>b_tr := (b_tr b)\<lparr>ss_os := os\<rparr>\<rparr>)"
| run_pass: "server_run C T b \<Longrightarrow> server_run C T (snd (poll_once (broker_host (stream_env C T sec)) C timeout_ms b))"
| run_publish: "server_run C T b \<Longrightarrow> server_run C T (snd (publish (stream_env C T sec) topic payload q retain b))"

section \<open>The broker and its transport stay in step\<close>

lemma stream_env_sel [simp]:
  "e_traits (stream_env C T sec) = T" "e_sec (stream_env C T sec) = sec"
  "e_send (stream_env C T sec) = stream_send C" "e_close (stream_env C T sec) = stream_close C"
  by (simp_all add: stream_env_def)

interpretation served: stream_host "broker_host (stream_env C T sec)" C "settled T" open_conns b_trace
  for C :: "'os stream_conf" and T :: traits and sec :: "'ctx security"
  proof (rule stream_host.intro, rule driven.intro)
  show "polled (broker_host (stream_env C T sec)) (stream_send C) (stream_close C) (settled T) open_conns b_trace"
    using direct.polled_axioms [of "stream_env C T sec"] by simp
qed (rule stream.byte_transport_axioms)

definition together :: "'os stream_conf \<Rightarrow> ('ctx, 'os stream_server) broker \<Rightarrow> bool" where
  "together C b \<longleftrightarrow> stream_inv C (b_tr b) \<and> stream_opens (b_tr b) = open_conns b
     \<and> (\<forall>ci \<in> open_conns b. stream_out C (b_tr b) ci = accepted_on ci (b_trace b))"

lemma together_step: "stream_step (broker_host E) C open_conns b_trace b \<longleftrightarrow> together C b"
  by (simp add: agrees_def together_def)

lemma open_conns_init: "open_conns (broker_init T tr) = {}"
  by (simp add: open_conns_def broker_init_def conn_at_def new_conn_def)

lemma stream_init_inv:
  assumes "conf_ok C" shows "stream_inv C (stream_init C os)" "stream_opens (stream_init C os) = {}"
  using assms
  by (auto simp: stream_inv_def stream_init_def fds_owned_def slot_fds_def listen_fds_def slot_at_def new_slot_def
      conf_ok_def ring_inv_init stream_opens_def)

lemma together_listener:
  assumes "together C b" "listener_step C (b_tr b) tr ok" shows "together C (b\<lparr>b_tr := tr\<rparr>)"
  using assms slot_at_cong [of tr "b_tr b"] by (simp add: together_def listener_step_def stream_opens_def stream_out_def)

lemma stream_inv_os: "stream_inv C (tr\<lparr>ss_os := os\<rparr>) = stream_inv C tr"
  using slot_at_cong [of "tr\<lparr>ss_os := os\<rparr>" tr] by (simp add: stream_inv_def fds_owned_def slot_fds_def listen_fds_def)

lemma together_os: "together C (b\<lparr>b_tr := (b_tr b)\<lparr>ss_os := os\<rparr>\<rparr>) = together C b"
  using slot_at_cong [of "(b_tr b)\<lparr>ss_os := os\<rparr>" "b_tr b"] by (simp add: together_def stream_inv_os stream_opens_def stream_out_def)

lemma together_publish:
  assumes t: "together C b" and s: "settled T b"
  shows "together C (snd (publish (stream_env C T sec) topic payload q retain b))"
proof -
  let ?E = "stream_env C T sec" and ?b = "snd (publish (stream_env C T sec) topic payload q retain b)"
  obtain as where as: "b_trace ?b = b_trace b @ as" "transcript (stream_send C) (stream_close C) as (b_tr b) = Some (b_tr ?b)"
    "protocol as (open_conns b) = Some (open_conns ?b)"
    using talks_publish [of ?E b topic payload q retain] s by (auto simp: talks_def obeys_def settled_def)
  have "stream_step (broker_host ?E) C open_conns b_trace ?b"
    by (rule served.agrees_calls [where s = b and S = "open_conns b"]) (use t as in \<open>auto simp: together_def\<close>)
  then show ?thesis by (simp add: together_step)
qed

theorem server_run_inv:
  assumes "traits_ok T" "conf_ok C" shows "server_run C T b \<Longrightarrow> settled T b \<and> together C b"
proof (induction rule: server_run.induct)
  case (run_start os)
  then show ?case
    using stream_init_inv [OF assms(2), of os] settled_reachable [OF assms(1) reach_init]
    by (simp add: together_def open_conns_init) (simp add: broker_init_def)
next
  case (run_tcp b S port bind_addr tr ok)
  then show ?case using together_listener [OF _ tcp_open_step [OF run_tcp.hyps(2)]] by simp
next
  case (run_unix b us S path mode us' ok)
  then show ?case using together_listener [of C b "us_server us'" ok] unix_open_step [OF run_unix.hyps(3), of C] by simp
next
  case (run_os b os)
  then show ?case by (simp add: together_os)
next
  case (run_pass b sec timeout_ms)
  then show ?case
    using served.step_poll_once [of C T sec b timeout_ms] by (simp add: together_step)
next
  case (run_publish b sec topic payload q retain)
  then show ?case
    using together_publish [of C b T sec topic payload q retain] settled_api [OF _ step_publish [of "stream_env C T sec"]] by auto
qed

section \<open>A server in use\<close>

text \<open>
  A system that hands out descriptor 3 for the listener and 4, 5, ... for connections, reports every
  polled descriptor as ready and takes what is written; a read says there is nothing yet. Its state
  is the next descriptor.
\<close>

definition sample_posix :: "nat posix" where
  "sample_posix = \<lparr>px_clock = (\<lambda>os. ((1, 0), os)), px_o_nonblock = 4, px_getfl = (\<lambda>fd os. (0, os)), px_setfl = (\<lambda>fd fl os. (0, os)),
     px_nodelay = (\<lambda>fd os. os), px_send = (\<lambda>fd d os. (Inr (length d), os)), px_write = (\<lambda>fd d os. (Inr (length d), os)),
     px_read = (\<lambda>fd n os. (Inl EAGAIN, os)), px_accept = (\<lambda>fd os. (Inr os, os + 1)), px_close = (\<lambda>fd os. os),
     px_poll = (\<lambda>pfds t os. (Inr (length pfds, \<lambda>i. \<lparr>rv_in = True, rv_out = False, rv_hup = False, rv_err = False, rv_other = False\<rparr>), os))\<rparr>"

definition sample_sockets :: "nat sockets" where
  "sample_sockets = \<lparr>so_socket_inet = (\<lambda>os. (Inr os, os + 1)), so_socket_unix = (\<lambda>os. (Inr os, os + 1)), so_reuseaddr = (\<lambda>fd os. os),
     so_inet_pton = (\<lambda>a. None), so_htons = id, so_ntohs = id, so_bind_inet = (\<lambda>fd a p os. (True, os)),
     so_bind_unix = (\<lambda>fd p os. (True, os)), so_listen = (\<lambda>fd n os. (True, os)), so_getsockname = (\<lambda>fd os. (Some 1883, os)),
     so_umask = (\<lambda>m os. (0, os)), so_chmod = (\<lambda>p m os. (True, os)), so_unlink = (\<lambda>p os. os)\<rparr>"

definition sample_conf :: "nat stream_conf" where
  "sample_conf = \<lparr>sc_max_conns = 2, sc_out_buf = 64, sc_os = sample_posix\<rparr>"

text \<open>Its state after \<open>open\<close> and after one poll pass, which accepts two connections.\<close>

definition sample_listening :: "nat stream_server" where
  "sample_listening = fst (tcp_open sample_sockets sample_posix 1883 None (stream_init sample_conf 3))"

definition sample_server :: "(unit, nat stream_server) broker" where
  "sample_server = snd (poll_once (broker_host (stream_env sample_conf sample_traits allow_all)) sample_conf 100
     ((broker_init sample_traits (stream_init sample_conf 3))\<lparr>b_tr := sample_listening\<rparr>))"

lemma sample_conf_sel [simp]: "sc_max_conns sample_conf = 2" "sc_out_buf sample_conf = 64" "sc_os sample_conf = sample_posix"
  by (simp_all add: sample_conf_def)

lemma sample_conf_ok: "conf_ok sample_conf"
  by (simp add: conf_ok_def sample_posix_def writes_bounded_def)

lemma sample_signals: "signals_end (px_send (sc_os sample_conf) fd)"
  by (simp add: signals_end_def sample_posix_def)

lemma sample_server_run: "server_run sample_conf sample_traits sample_server"
proof -
  have "server_run sample_conf sample_traits ((broker_init sample_traits (stream_init sample_conf 3))\<lparr>b_tr := sample_listening\<rparr>)"
    by (rule run_tcp [OF run_start, where S = sample_sockets and port = 1883 and bind_addr = None
          and ok = "snd (tcp_open sample_sockets sample_posix 1883 None (stream_init sample_conf 3))"])
      (simp add: sample_listening_def broker_init_def)
  then show ?thesis unfolding sample_server_def by (rule run_pass)
qed

text \<open>The pass in stages: accepting, then the tick and the flush.\<close>

definition sample_accepted :: "(unit, nat stream_server) broker" where
  "sample_accepted =
    (let s = (\<lambda>fd. (new_slot 64)\<lparr>sl_fd := fd\<rparr>); c = (conn_reset (new_conn 32))\<lparr>cn_active := True, cn_deadline_ms := 2000\<rparr>;
         e = (\<lambda>ci. Noted ((new_event connection_opened)\<lparr>ev_ci := Some ci\<rparr>))
     in (broker_init sample_traits (stream_init sample_conf 3))\<lparr>b_conns := [c, c], b_trace := [e 0, e 1],
          b_tr := sample_listening\<lparr>ss_os := 6, ss_got := [3, 4, 5], ss_slots := [s 4, s 5]\<rparr>\<rparr>)"

lemma sample_accept_new:
  "accept_new (broker_host (stream_env sample_conf sample_traits allow_all)) sample_conf 1000
     ((broker_init sample_traits (stream_init sample_conf 3))\<lparr>b_tr := sample_listening\<rparr>) = sample_accepted"
  by code_simp

lemma sample_pass_fds:
  "map sl_fd (ss_slots (flush_all sample_conf (b_tr (tick (stream_env sample_conf sample_traits allow_all) 1000 sample_accepted)))) = [4, 5]"
  by code_simp

lemma sample_poll_set: "poll_set sample_conf False sample_listening = [(2, \<lparr>pfd_fd = 3, pfd_pollout = False\<rparr>)]"
  by code_simp

lemma sample_paused: "listener_paused sample_posix sample_listening = (False, sample_listening)"
proof -
  have "\<not> ss_accept_backoff_armed sample_listening" by code_simp
  then show ?thesis by (simp add: listener_paused_def)
qed

lemma sample_posix_sel:
  "px_poll sample_posix pfds t os = (Inr (length pfds, \<lambda>i. \<lparr>rv_in = True, rv_out = False, rv_hup = False, rv_err = False, rv_other = False\<rparr>), os)"
  "posix_now_ms sample_posix os = (1000, os)"
  by (simp_all add: sample_posix_def posix_now_ms_def)

lemma sample_server_eq:
  "sample_server = (let b = tick (stream_env sample_conf sample_traits allow_all) 1000 sample_accepted
     in b\<lparr>b_tr := flush_all sample_conf (b_tr b)\<rparr>)"
proof -
  have "sample_listening\<lparr>ss_os := ss_os sample_listening\<rparr> = sample_listening" by simp
  then show ?thesis using sample_accept_new
    by (simp add: sample_server_def poll_once_def sample_paused sample_poll_set sample_posix_sel serve_event_def rv_any_def Let_def)
qed

lemma sample_server_fds: "map sl_fd (ss_slots (b_tr sample_server)) = [4, 5]"
  using sample_pass_fds by (simp add: sample_server_eq Let_def)

lemma sample_taken:
  "stream_inv sample_conf (take_slot 0 4 ((stream_init sample_conf 3)\<lparr>ss_got := [4]\<rparr>))
   \<and> 0 \<in> stream_opens (take_slot 0 4 ((stream_init sample_conf 3)\<lparr>ss_got := [4]\<rparr>))"
proof -
  let ?t = "stream_init sample_conf 3"
  have i: "stream_inv sample_conf ?t" "stream_opens ?t = {}" using stream_init_inv [OF sample_conf_ok] by auto
  have h: "stream_holding sample_conf 4 (?t\<lparr>ss_got := [4]\<rparr>)"
    using holding_got [OF i(1), of 4 3] by (simp add: stream_init_def)
  have f: "0 < sc_max_conns sample_conf" "0 \<notin> stream_opens (?t\<lparr>ss_got := [4]\<rparr>)" using i(2) by simp_all
  have "length (ss_slots (?t\<lparr>ss_got := [4]\<rparr>)) = sc_max_conns sample_conf" by (simp add: stream_init_def)
  from take_slot_correct(1) [OF this f, of 4] holding_take [OF h f] show ?thesis by simp
qed

section \<open>Properties\<close>

lemma active_open: "settled T b \<Longrightarrow> open_conns b = {ci. ci < max_connections T \<and> cn_active (conn_at b ci)}"
  using open_conns_bound [of _ b] wfD(1) [of T b] by (auto simp: settled_def open_conns_def quiet_def heard_def)

text \<open>C10: between poll passes of the server, whatever the system answered, the slots with a descriptor are exactly the
  active connections of the broker, and the broker is well formed.\<close>

theorem server_connections:
  assumes "traits_ok T" "conf_ok C" "server_run C T b"
  shows "wf_broker T b \<and> {ci. native_handle C ci (b_tr b) \<ge> 0} = {ci. ci < max_connections T \<and> cn_active (conn_at b ci)}"
proof -
  have s: "settled T b" "together C b" using server_run_inv [OF assms(1,2) assms(3)] by auto
  have "length (ss_slots (b_tr b)) = sc_max_conns C" using s(2) by (simp add: together_def stream_inv_def)
  then have "{ci. native_handle C ci (b_tr b) \<ge> 0} = stream_opens (b_tr b)"
    using stream_opens_bound [of _ "b_tr b"] by (auto simp: native_handle_def stream_opens_def)
  then show ?thesis using s active_open [OF s(1)] by (simp add: together_def settled_def)
qed

theorem server_connections_witness:
  "map sl_fd (ss_slots (b_tr sample_server)) = [4, 5] \<and> wf_broker sample_traits sample_server
   \<and> {ci. native_handle sample_conf ci (b_tr sample_server) \<ge> 0} = {ci. ci < 2 \<and> cn_active (conn_at sample_server ci)}"
  using server_connections [OF sample_traits_ok sample_conf_ok sample_server_run] sample_server_fds by simp

text \<open>C11: what a peer is sent is what the broker said, byte for byte and in order: on every open connection of the
  server, the bytes the system has taken followed by those in the ring are the packets \<open>send\<close> accepted since
  the connection was opened.\<close>

theorem server_delivers_in_order:
  assumes "traits_ok T" "conf_ok C" "server_run C T b" "sl_fd (slot_at (b_tr b) ci) \<ge> 0"
  shows "accepted_on ci (b_trace b) = sl_taken (slot_at (b_tr b) ci) @ ring_bytes (sc_out_buf C) (sl_ring (slot_at (b_tr b) ci))"
proof -
  have t: "together C b" using server_run_inv [OF assms(1,2,3)] by blast
  then have "ci \<in> open_conns b" using assms(4) by (auto simp: together_def stream_opens_def)
  then show ?thesis using t by (simp add: together_def stream_out_def)
qed

theorem server_delivers_in_order_witness:
  "accepted_on 0 (b_trace sample_server) = sl_taken (slot_at (b_tr sample_server) 0) @ ring_bytes 64 (sl_ring (slot_at (b_tr sample_server) 0))"
proof -
  have "sl_fd (slot_at (b_tr sample_server) 0) = 4"
    using arg_cong [OF sample_server_fds, of "\<lambda>l. l ! 0"] arg_cong [OF sample_server_fds, of length] by (simp add: slot_at_def)
  then show ?thesis using server_delivers_in_order [OF sample_traits_ok sample_conf_ok sample_server_run, of 0] by simp
qed

text \<open>C18: descriptors are neither leaked nor closed twice: at any time every descriptor the server received from the
  system is held by one slot or by the listener or has been closed once, and after the destructor each has
  been closed exactly once. If no call is interrupted forever, no write loop hangs.\<close>

theorem server_descriptors:
  assumes "traits_ok T" "conf_ok C" "server_run C T b"
  shows "mset (ss_got (b_tr b)) = mset (ss_closed (b_tr b)) + slot_fds (b_tr b) + listen_fds (b_tr b)
    \<and> mset (ss_closed (stream_destroy C (b_tr b))) = mset (ss_got (b_tr b))
    \<and> ((\<forall>fd. signals_end (px_send (sc_os C) fd)) \<longrightarrow> \<not> ss_stuck (b_tr b))"
proof -
  have "stream_inv C (b_tr b)" using server_run_inv [OF assms(1,2,3)] by (simp add: together_def)
  then show ?thesis using stream_destroy_closed [of "b_tr b" C] by (simp add: stream_inv_def fds_owned_def)
qed

theorem server_descriptors_witness:
  "mset (ss_closed (stream_destroy sample_conf (b_tr sample_server))) = mset (ss_got (b_tr sample_server)) \<and> \<not> ss_stuck (b_tr sample_server)"
  using server_descriptors [OF sample_traits_ok sample_conf_ok sample_server_run] sample_signals by blast

text \<open>The server refuses a packet the ring can hold - upon which the broker drops the connection as a slow
  consumer - only after the system itself took less than it was given.\<close>

theorem refused_only_when_blocked:
  assumes "stream_inv C tr" "ci \<in> stream_opens tr" "length pkt \<le> sc_out_buf C"
    "signals_end (px_send (sc_os C) (sl_fd (slot_at tr ci)))" "stream_send C tr ci pkt = (tr', ok)"
  shows "ok \<or> (\<exists>d os1 a. px_send (sc_os C) (sl_fd (slot_at tr ci)) d os1 = (a, ss_os tr') \<and> refusal a)"
  using stream_send_refused [OF assms(1-4)] assms(5) by (cases ok) auto

text \<open>\<open>UnixSocketTransport::open\<close>, when it succeeds, records the new path and removes the socket file of the
  listener it replaces, but not the file it has just bound when the path is the same.\<close>

theorem unix_open_correct:
  assumes "0 \<in> set path" "path_ok us" "unix_open S P path mode us = (us', True)"
  shows "cstr (us_path us') = cstr path \<and> path_ok us'
    \<and> us_unlinked us' = us_unlinked us @ cstr path # (if cstr (us_path us) \<in> {[], cstr path} then [] else [cstr (us_path us)])
    \<and> listener_step C (us_server us) (us_server us') True"
  using unix_open_paths [OF assms] unix_open_step [OF assms(3)] by blast

end
