(* ===== verification/Pipe.thy ===== *)
theory Pipe
  imports Server
begin

text \<open>
  The pipe transport (\<open>transports/posix/pipe.hpp\<close>): one connection, index 0, over a descriptor to
  read from and one to write to. The state is the record \<open>pipe\<close>; the size of the ring and the system
  are \<open>pipe_conf\<close>. \<open>pp_taken\<close>, \<open>pp_closed\<close> and \<open>pp_stuck\<close> record what the system took, which descriptors
  were handed to \<open>close()\<close>, and that a write loop does not return; the code has none of them.
\<close>

section \<open>Model\<close>

record 'os pipe =
  pp_ring :: out_ring
  pp_rfd :: int
  pp_wfd :: int
  pp_started :: bool
  pp_dirty :: bool
  pp_os :: 'os
  pp_taken :: bytes
  pp_closed :: "int list"
  pp_stuck :: bool

record 'os pipe_conf =
  pc_out_buf :: nat
  pc_os :: "'os posix"

definition pipe_init :: "'os pipe_conf \<Rightarrow> 'os \<Rightarrow> 'os pipe" where
  "pipe_init C os = \<lparr>pp_ring = ring_init (pc_out_buf C), pp_rfd = -1, pp_wfd = -1, pp_started = False, pp_dirty = False,
     pp_os = os, pp_taken = [], pp_closed = [], pp_stuck = False\<rparr>"

definition pipe_max_reads :: nat where "pipe_max_reads = 8"

definition pipe_fd_close :: "'os posix \<Rightarrow> int \<Rightarrow> 'os pipe \<Rightarrow> 'os pipe" where
  "pipe_fd_close P fd p = p\<lparr>pp_os := px_close P fd (pp_os p), pp_closed := pp_closed p @ [fd]\<rparr>"

definition close_pair :: "'os posix \<Rightarrow> int \<Rightarrow> int \<Rightarrow> 'os pipe \<Rightarrow> 'os pipe" where
  "close_pair P a b p =
    (let p = (if a \<ge> 0 then pipe_fd_close P a p else p)
     in if b \<ge> 0 \<and> b \<noteq> a then pipe_fd_close P b p else p)"

definition close_fds :: "'os posix \<Rightarrow> 'os pipe \<Rightarrow> 'os pipe" where
  "close_fds P p = (close_pair P (pp_rfd p) (pp_wfd p) p)\<lparr>pp_rfd := -1, pp_wfd := -1,
     pp_ring := ring_clear (pp_ring p), pp_dirty := False\<rparr>"

definition pipe_open :: "'os posix \<Rightarrow> int \<Rightarrow> int \<Rightarrow> 'os pipe \<Rightarrow> 'os pipe \<times> bool" where
  "pipe_open P read_fd write_fd p =
    (let was_r = pp_rfd p; was_w = pp_wfd p; p = close_fds P p;
         r_stale = (read_fd \<ge> 0 \<and> (read_fd = was_r \<or> read_fd = was_w));
         w_stale = (write_fd \<ge> 0 \<and> (write_fd = was_r \<or> write_fd = was_w))
     in if read_fd < 0 \<or> write_fd < 0 \<or> r_stale \<or> w_stale
        then (close_pair P (if r_stale then -1 else read_fd) (if w_stale then -1 else write_fd) p, False)
        else
          let (read_ok, os) = set_nonblocking P read_fd (pp_os p);
              (write_ok, os) = set_nonblocking P write_fd os;
              p = p\<lparr>pp_os := os\<rparr>
          in if \<not> read_ok \<or> \<not> write_ok then (close_pair P read_fd write_fd p, False)
             else (p\<lparr>pp_rfd := read_fd, pp_wfd := write_fd, pp_started := False, pp_taken := []\<rparr>, True))"

definition pipe_is_closed :: "'os pipe \<Rightarrow> bool" where
  "pipe_is_closed p \<longleftrightarrow> pp_rfd p < 0"

definition pipe_flush :: "'os pipe_conf \<Rightarrow> 'os pipe \<Rightarrow> 'os pipe" where
  "pipe_flush C p =
    (if pp_wfd p < 0 then p
     else case flush_loop (px_write (pc_os C) (pp_wfd p)) (pc_out_buf C) (pp_ring p, pp_taken p, pp_os p) of
            None \<Rightarrow> p\<lparr>pp_stuck := True\<rparr>
          | Some (r, taken, os) \<Rightarrow> p\<lparr>pp_ring := r, pp_taken := taken, pp_os := os\<rparr>)"

definition pipe_send :: "'os pipe_conf \<Rightarrow> 'os pipe \<Rightarrow> nat \<Rightarrow> bytes \<Rightarrow> 'os pipe \<times> bool" where
  "pipe_send C p ci pkt =
    (if pp_wfd p < 0 then (p, False)
     else
       case ring_append (pc_out_buf C) pkt (pp_ring p) of
         (r, True) \<Rightarrow> (p\<lparr>pp_ring := r, pp_dirty := True\<rparr>, True)
       | (_, False) \<Rightarrow>
           let p = pipe_flush C p
           in case ring_append (pc_out_buf C) pkt (pp_ring p) of
                (_, False) \<Rightarrow> (p, False)
              | (r, True) \<Rightarrow> (p\<lparr>pp_ring := r, pp_dirty := True\<rparr>, True))"

definition pipe_close :: "'os pipe_conf \<Rightarrow> 'os pipe \<Rightarrow> nat \<Rightarrow> 'os pipe" where
  "pipe_close C p ci = close_fds (pc_os C) (pipe_flush C p)"

definition pipe_flush_pass :: "'os pipe_conf \<Rightarrow> 'os pipe \<Rightarrow> 'os pipe" where
  "pipe_flush_pass C p = (if pp_dirty p then pipe_flush C (p\<lparr>pp_dirty := False\<rparr>) else p)"

definition pipe_gone :: "('s, 'os pipe) host \<Rightarrow> 'os pipe_conf \<Rightarrow> 's \<Rightarrow> 's" where
  "pipe_gone H C s = h_closed H 0 (h_put H (close_fds (pc_os C) (pipe_flush C (h_tr H s))) s)"

text \<open>The loop of \<open>read_into_broker\<close> with the reads left.\<close>

fun pipe_read_loop :: "('s, 'os pipe) host \<Rightarrow> 'os pipe_conf \<Rightarrow> u32 \<Rightarrow> nat \<Rightarrow> 's \<Rightarrow> 's" where
  "pipe_read_loop H C now 0 s = s"
| "pipe_read_loop H C now (Suc reads) s =
    (let p = h_tr H s
     in if pp_rfd p < 0 then s
        else
          let (r, os) = px_read (pc_os C) (pp_rfd p) read_buf_size (pp_os p); s = h_put H (p\<lparr>pp_os := os\<rparr>) s
          in case r of
               Inr d \<Rightarrow>
                 if d \<noteq> [] then pipe_read_loop H C now reads (snd (h_data H 0 d now s))
                 else pipe_gone H C s
             | Inl e \<Rightarrow>
                 if e = EAGAIN \<or> e = EWOULDBLOCK then s
                 else if e = EINTR then pipe_read_loop H C now reads s
                 else pipe_gone H C s)"

text \<open>The connection is announced to the broker on the first pass after \<open>open\<close>.\<close>

definition pipe_start :: "('s, 'os pipe) host \<Rightarrow> 'os pipe_conf \<Rightarrow> u32 \<Rightarrow> 's \<Rightarrow> 's" where
  "pipe_start H C now s =
    (if \<not> pp_started (h_tr H s) \<and> pp_rfd (h_tr H s) \<ge> 0
     then let (e, s) = h_open H 0 now (h_put H ((h_tr H s)\<lparr>pp_started := True\<rparr>) s)
          in if e \<noteq> Err_ok then h_put H (close_fds (pc_os C) (h_tr H s)) s else s
     else s)"

definition pipe_poll_set :: "'os pipe \<Rightarrow> pollfd list" where
  "pipe_poll_set p = \<lparr>pfd_fd = pp_rfd p, pfd_pollout = False\<rparr>
     # (if \<not> ring_empty (pp_ring p) \<and> pp_wfd p \<ge> 0 then [\<lparr>pfd_fd = pp_wfd p, pfd_pollout = True\<rparr>] else [])"

definition pipe_poll_once :: "('s, 'os pipe) host \<Rightarrow> 'os pipe_conf \<Rightarrow> int \<Rightarrow> 's \<Rightarrow> nat \<times> 's" where
  "pipe_poll_once H C timeout_ms s =
    (let (now_start, os) = posix_now_ms (pc_os C) (pp_os (h_tr H s));
         s = pipe_start H C now_start (h_put H ((h_tr H s)\<lparr>pp_os := os\<rparr>) s);
         p = h_tr H s
     in if pp_rfd p < 0 then (0, h_tick H now_start s)
        else
          let pfds = pipe_poll_set p;
              (rc, os) = px_poll (pc_os C) pfds timeout_ms (pp_os p);
              (now, os) = posix_now_ms (pc_os C) os;
              s = h_put H (p\<lparr>pp_os := os\<rparr>) s
          in case rc of
               Inl _ \<Rightarrow> let s = h_tick H now s in (0, h_put H (pipe_flush_pass C (h_tr H s)) s)
             | Inr (n, revs) \<Rightarrow>
                 let s = (if length pfds > 1 \<and> rv_out (revs 1) then h_put H (pipe_flush C (h_tr H s)) s else s);
                     s = (if rv_readable (revs 0) then pipe_read_loop H C now pipe_max_reads s else s);
                     s = h_tick H now s
                 in (n, h_put H (pipe_flush_pass C (h_tr H s)) s))"

section \<open>Ownership of the descriptors\<close>

text \<open>The descriptors \<open>close_pair\<close> closes, each once.\<close>

definition pair_fds :: "int \<Rightarrow> int \<Rightarrow> int list" where
  "pair_fds a b = (if a \<ge> 0 then [a] else []) @ (if b \<ge> 0 \<and> b \<noteq> a then [b] else [])"

lemma close_pair_sel [simp]:
  "pp_closed (close_pair P a b p) = pp_closed p @ pair_fds a b" "pp_ring (close_pair P a b p) = pp_ring p"
  "pp_rfd (close_pair P a b p) = pp_rfd p" "pp_wfd (close_pair P a b p) = pp_wfd p" "pp_stuck (close_pair P a b p) = pp_stuck p"
  "pp_started (close_pair P a b p) = pp_started p" "pp_taken (close_pair P a b p) = pp_taken p"
  by (simp_all add: close_pair_def pipe_fd_close_def pair_fds_def Let_def)

lemma close_fds_sel [simp]:
  "pp_closed (close_fds P p) = pp_closed p @ pair_fds (pp_rfd p) (pp_wfd p)" "pp_rfd (close_fds P p) = -1" "pp_wfd (close_fds P p) = -1"
  "pp_ring (close_fds P p) = ring_clear (pp_ring p)" "pp_stuck (close_fds P p) = pp_stuck p"
  "pp_started (close_fds P p) = pp_started p"
  by (simp_all add: close_fds_def)

lemma pair_fds_props: "distinct (pair_fds a b)" "set (pair_fds a b) = {fd. fd \<ge> 0 \<and> (fd = a \<or> fd = b)}"
  by (auto simp: pair_fds_def)

lemma pipe_open_owns:
  assumes "pipe_open P r w p = (p', ok)"
  shows "\<exists>cs. pp_closed p' = pp_closed p @ cs \<and> distinct cs
      \<and> set cs = {fd. fd \<ge> 0 \<and> (fd \<in> {pp_rfd p, pp_wfd p} \<or> \<not> ok \<and> fd \<in> {r, w})}
      \<and> (if ok then pp_rfd p' = r \<and> pp_wfd p' = w \<and> r \<ge> 0 \<and> w \<ge> 0 else pp_rfd p' = -1 \<and> pp_wfd p' = -1)"
  using assms
  by (auto simp: pipe_open_def Let_def pair_fds_props split: if_splits prod.splits)

section \<open>Invariant\<close>

definition pipe_conf_ok :: "'os pipe_conf \<Rightarrow> bool" where
  "pipe_conf_ok C \<longleftrightarrow> 0 < pc_out_buf C \<and> (\<forall>fd. writes_bounded (px_write (pc_os C) fd))"

definition pipe_opens :: "'os pipe \<Rightarrow> nat set" where
  "pipe_opens p = (if pp_wfd p \<ge> 0 \<and> pp_started p then {0} else {})"

definition pipe_out :: "'os pipe_conf \<Rightarrow> 'os pipe \<Rightarrow> nat \<Rightarrow> bytes" where
  "pipe_out C p ci = pp_taken p @ ring_bytes (pc_out_buf C) (pp_ring p)"

text \<open>The descriptors are both held or both not, and nothing is queued before the connection is announced.\<close>

definition pipe_inv :: "'os pipe_conf \<Rightarrow> 'os pipe \<Rightarrow> bool" where
  "pipe_inv C p \<longleftrightarrow> pipe_conf_ok C \<and> ring_inv (pc_out_buf C) (pp_ring p) \<and> (pp_rfd p \<ge> 0 \<longleftrightarrow> pp_wfd p \<ge> 0)
     \<and> (pp_wfd p \<ge> 0 \<and> \<not> pp_started p \<longrightarrow> pipe_out C p 0 = [])
     \<and> ((\<forall>fd. signals_end (px_write (pc_os C) fd)) \<longrightarrow> \<not> pp_stuck p)"

definition pipe_keeps :: "'os pipe_conf \<Rightarrow> 'os pipe \<Rightarrow> 'os pipe \<Rightarrow> bool" where
  "pipe_keeps C p p' \<longleftrightarrow> (pipe_inv C p \<longrightarrow> pipe_inv C p' \<and> pipe_opens p' = pipe_opens p \<and> pipe_out C p' = pipe_out C p)"

lemma pipe_keeps_same:
  assumes "pp_ring p' = pp_ring p" "pp_rfd p' = pp_rfd p" "pp_wfd p' = pp_wfd p" "pp_started p' = pp_started p"
    "pp_taken p' = pp_taken p" "pp_stuck p' = pp_stuck p"
  shows "pipe_keeps C p p'"
  using assms by (simp add: pipe_keeps_def pipe_inv_def pipe_opens_def pipe_out_def fun_eq_iff)

lemma pipe_keeps_trans: "pipe_keeps C a b \<Longrightarrow> pipe_keeps C b c \<Longrightarrow> pipe_keeps C a c"
  by (auto simp: pipe_keeps_def)

lemma pipe_flush_keeps: "pipe_keeps C p (pipe_flush C p)"
proof (cases "pp_wfd p < 0")
  case False
  let ?wr = "px_write (pc_os C) (pp_wfd p)" and ?st = "(pp_ring p, pp_taken p, pp_os p)"
  show ?thesis
  proof (cases "flush_loop ?wr (pc_out_buf C) ?st")
    case None
    then have "\<not> (\<forall>fd. signals_end (px_write (pc_os C) fd))"
      using flush_loop_returns [of ?wr "pc_out_buf C" ?st] by auto
    then show ?thesis using False None
      by (simp add: pipe_flush_def pipe_keeps_def pipe_inv_def pipe_opens_def pipe_out_def fun_eq_iff)
  next
    case (Some st)
    obtain r taken os where st: "st = (r, taken, os)" by (metis prod_cases3)
    have "flushed ?wr (pc_out_buf C) ?st (r, taken, os)" if "pipe_inv C p"
      by (rule flush_loop_flushed) (use that Some st in \<open>simp_all add: pipe_inv_def pipe_conf_ok_def\<close>)
    then show ?thesis using False Some st
      by (auto simp: pipe_flush_def pipe_keeps_def pipe_inv_def pipe_opens_def pipe_out_def flushed_def fun_eq_iff)
  qed
qed (simp add: pipe_flush_def pipe_keeps_def)

lemma pipe_append:
  assumes i: "pipe_inv C p" and o: "0 \<in> pipe_opens p" and a: "ring_append (pc_out_buf C) pkt (pp_ring p) = (r, True)"
  shows "pipe_inv C (p\<lparr>pp_ring := r, pp_dirty := True\<rparr>) \<and> pipe_opens (p\<lparr>pp_ring := r, pp_dirty := True\<rparr>) = pipe_opens p
    \<and> pipe_out C (p\<lparr>pp_ring := r, pp_dirty := True\<rparr>) cj = pipe_out C p cj @ pkt"
proof -
  have "ring_inv (pc_out_buf C) (pp_ring p)" using i by (simp add: pipe_inv_def)
  from ring_append_refines(1,3) [OF this a] i o show ?thesis
    by (auto simp: pipe_inv_def pipe_opens_def pipe_out_def split: if_splits)
qed

lemma pipe_send_correct:
  assumes i: "pipe_inv C p" and ci: "ci \<in> pipe_opens p" and s: "pipe_send C p ci pkt = (p', ok)"
  shows "pipe_inv C p' \<and> pipe_opens p' = pipe_opens p \<and> pipe_out C p' ci = (if ok then pipe_out C p ci @ pkt else pipe_out C p ci)"
proof -
  have o: "0 \<in> pipe_opens p" "\<not> pp_wfd p < 0" using ci by (auto simp: pipe_opens_def split: if_splits)
  let ?f = "pipe_flush C p"
  have f: "pipe_inv C ?f" "pipe_opens ?f = pipe_opens p" "pipe_out C ?f = pipe_out C p"
    using pipe_flush_keeps [of C p] i by (auto simp: pipe_keeps_def)
  obtain r0 ok0 where a0: "ring_append (pc_out_buf C) pkt (pp_ring p) = (r0, ok0)" by fastforce
  obtain r1 ok1 where a1: "ring_append (pc_out_buf C) pkt (pp_ring ?f) = (r1, ok1)" by fastforce
  show ?thesis
  proof (cases ok0)
    case True
    then show ?thesis using s o(2) a0 pipe_append [OF i o(1), of pkt r0 ci] by (auto simp: pipe_send_def)
  next
    case False
    then show ?thesis using s o a0 a1 f pipe_append [OF f(1), of pkt r1 ci] by (cases ok1) (auto simp: pipe_send_def Let_def)
  qed
qed

lemma close_fds_inv: "pipe_inv C p \<Longrightarrow> pipe_inv C (close_fds P p) \<and> pipe_opens (close_fds P p) = {}"
  by (auto simp: pipe_inv_def pipe_opens_def)

lemma pipe_shut:
  assumes "pipe_inv C p"
  shows "pipe_inv C (close_fds P (pipe_flush C p)) \<and> pipe_opens (close_fds P (pipe_flush C p)) = {}"
  using close_fds_inv [of C "pipe_flush C p" P] pipe_flush_keeps [of C p] assms by (simp add: pipe_keeps_def)

lemma pipe_opens_zero: "ci \<in> pipe_opens p \<Longrightarrow> ci = 0"
  by (auto simp: pipe_opens_def split: if_splits)

interpretation piped: byte_transport "pipe_send C" "pipe_close C" pipe_opens "pipe_inv C" "pipe_out C"
  for C :: "'os pipe_conf"
proof
  fix p p' :: "'os pipe" and ci cj pkt ok
  assume i: "pipe_inv C p" and ci: "ci \<in> pipe_opens p"
  have z: "c = 0" if "c \<in> pipe_opens p" for c by (rule pipe_opens_zero [OF that])
  have "pipe_opens p = {ci}" using z ci by blast
  then show "pipe_inv C (pipe_close C p ci) \<and> pipe_opens (pipe_close C p ci) = pipe_opens p - {ci}"
    using pipe_shut [OF i] by (simp add: pipe_close_def)
  show "pipe_out C (pipe_close C p ci) cj = pipe_out C p cj" if "cj \<in> pipe_opens p" "cj \<noteq> ci"
    using z [OF ci] z [OF that(1)] that(2) by simp
  assume s: "pipe_send C p ci pkt = (p', ok)"
  show "pipe_inv C p' \<and> pipe_opens p' = pipe_opens p" using pipe_send_correct [OF i ci s] by simp
  show "pipe_out C p' cj = (if ok \<and> cj = ci then pipe_out C p cj @ pkt else pipe_out C p cj)" if "cj \<in> pipe_opens p"
    using pipe_send_correct [OF i ci s] z [OF ci] z [OF that] by simp
qed

lemma pipe_open_inv:
  assumes i: "pipe_inv C p" and o: "pipe_open P r w p = (p', ok)"
  shows "pipe_inv C p' \<and> pipe_opens p' = {}"
proof -
  have c: "pipe_inv C (close_fds P p)" using close_fds_inv [OF i] by blast
  have f: "pipe_inv C (close_pair P a b (close_fds P p)) \<and> pipe_opens (close_pair P a b (close_fds P p)) = {}"
    "pipe_inv C (close_pair P a b ((close_fds P p)\<lparr>pp_os := os\<rparr>)) \<and> pipe_opens (close_pair P a b ((close_fds P p)\<lparr>pp_os := os\<rparr>)) = {}" for a b os
    using c by (simp_all add: pipe_inv_def pipe_opens_def)
  have s: "pipe_inv C ((close_fds P p)\<lparr>pp_os := os, pp_rfd := r, pp_wfd := w, pp_started := False, pp_taken := []\<rparr>)
    \<and> pipe_opens ((close_fds P p)\<lparr>pp_os := os, pp_rfd := r, pp_wfd := w, pp_started := False, pp_taken := []\<rparr>) = {}"
    if "r \<ge> 0" "w \<ge> 0" for os
    using c that by (simp add: pipe_inv_def pipe_opens_def pipe_out_def)
  show ?thesis using o f s by (auto simp: pipe_open_def Let_def split: if_splits prod.splits)
qed

section \<open>The event loop\<close>

lemma pipe_flush_sel [simp]: "pp_rfd (pipe_flush C p) = pp_rfd p" "pp_started (pipe_flush C p) = pp_started p"
  by (simp_all add: pipe_flush_def split: option.split)

lemma pipe_send_sel [simp]:
  "pp_rfd (fst (pipe_send C p ci pkt)) = pp_rfd p" "pp_started (fst (pipe_send C p ci pkt)) = pp_started p"
  by (simp_all add: pipe_send_def Let_def split_beta split: bool.split)

lemma pipe_close_started [simp]: "pp_started (pipe_close C p ci) = pp_started p"
  by (simp add: pipe_close_def)

abbreviation pipe_step :: "('s, 'os pipe) host \<Rightarrow> 'os pipe_conf \<Rightarrow> ('s \<Rightarrow> nat set) \<Rightarrow> ('s \<Rightarrow> action list) \<Rightarrow> 's \<Rightarrow> bool" where
  "pipe_step H C up said s \<equiv> agrees (pipe_inv C) pipe_opens (pipe_out C) H up said s"

locale pipe_host = driven H "pipe_send C" "pipe_close C" inv up said pipe_opens "pipe_inv C" "pipe_out C"
  for H :: "('s, 'os pipe) host" and C :: "'os pipe_conf" and inv and up and said
begin

lemma pipe_put:
  "pipe_step H C up said s \<Longrightarrow> pipe_keeps C (h_tr H s) p' \<Longrightarrow> pipe_step H C up said (h_put H p' s)"
  by (rule agrees_put) (auto simp: agrees_def pipe_keeps_def)

lemma pipe_gone_step:
  assumes "pipe_step H C up said s" "inv s"
  shows "inv (pipe_gone H C s) \<and> pipe_step H C up said (pipe_gone H C s)"
  unfolding pipe_gone_def
  by (rule agrees_closed [OF assms])
    (use pipe_shut [of C "h_tr H s" "pc_os C"] assms pipe_opens_zero [of _ "h_tr H s"] in \<open>auto simp: agrees_def\<close>)

lemma pipe_os: "pipe_step H C up said s \<Longrightarrow> pipe_step H C up said (h_put H ((h_tr H s)\<lparr>pp_os := os\<rparr>) s)"
  by (erule pipe_put) (simp add: pipe_keeps_same)

text \<open>The loop reads from a pair the host has been told of.\<close>

lemma pipe_read_step:
  "pipe_step H C up said s \<Longrightarrow> inv s \<Longrightarrow> pp_started (h_tr H s) \<Longrightarrow>
   inv (pipe_read_loop H C now n s) \<and> pipe_step H C up said (pipe_read_loop H C now n s)"
proof (induction n arbitrary: s)
  case (Suc n)
  obtain r os where r: "px_read (pc_os C) (pp_rfd (h_tr H s)) read_buf_size (pp_os (h_tr H s)) = (r, os)" by fastforce
  let ?s = "h_put H ((h_tr H s)\<lparr>pp_os := os\<rparr>) s"
  have s: "pipe_step H C up said ?s" "inv ?s" "pp_started (h_tr H ?s)"
    using pipe_os [OF Suc.prems(1)] Suc.prems(2,3) by (simp_all add: inv_put tr_put)
  have go: "inv (pipe_read_loop H C now n s') \<and> pipe_step H C up said (pipe_read_loop H C now n s')"
    if "inv s' \<and> pipe_step H C up said s'" "pp_started (h_tr H s')" for s' using that Suc.IH [of s'] by simp
  show ?case
  proof (cases "pp_rfd (h_tr H s) < 0")
    case False
    have up: "0 \<in> up ?s" using s(1) False s(3) by (auto simp: agrees_def pipe_opens_def pipe_inv_def tr_put)
    have st: "pp_started (h_tr H (snd (h_data H 0 d now ?s)))" for d
      by (rule data_keeps [OF s(2) up, where K = pp_started]) (use s(3) in simp_all)
    show ?thesis using Suc.prems r s pipe_gone_step [OF s(1,2)] go [of ?s] go [OF agrees_data [OF s(1,2) up] st]
      by (auto simp: Let_def split: sum.split)
  qed (use Suc.prems in simp)
qed simp

lemma pipe_start_started:
  assumes i: "inv s" and r: "pp_rfd (h_tr H (pipe_start H C now s)) \<ge> 0"
  shows "pp_started (h_tr H (pipe_start H C now s))"
proof (cases "\<not> pp_started (h_tr H s) \<and> pp_rfd (h_tr H s) \<ge> 0")
  case True
  let ?p = "(h_tr H s)\<lparr>pp_started := True\<rparr>"
  obtain e s' where e: "h_open H 0 now (h_put H ?p s) = (e, s')" by fastforce
  have "inv (h_put H ?p s)" using i by (simp add: inv_put)
  then have "h_tr H s' = ?p" using opened [OF _ e] by (simp add: tr_put)
  then show ?thesis using True e r by (cases "e = Err_ok") (simp_all add: pipe_start_def tr_put)
next
  case False
  then show ?thesis using r by (auto simp: pipe_start_def)
qed

lemma pipe_start_step:
  assumes s: "pipe_step H C up said s" "inv s"
  shows "inv (pipe_start H C now s) \<and> pipe_step H C up said (pipe_start H C now s)"
proof (cases "\<not> pp_started (h_tr H s) \<and> pp_rfd (h_tr H s) \<ge> 0")
  case True
  let ?p = "(h_tr H s)\<lparr>pp_started := True\<rparr>"
  obtain e s' where e: "h_open H 0 now (h_put H ?p s) = (e, s')" by fastforce
  have u: "up s = {}" using s(1) True by (simp add: agrees_def pipe_opens_def)
  have p: "pipe_inv C ?p" "pipe_opens ?p = {0}" "pipe_out C ?p 0 = []"
    using s(1) True by (auto simp: agrees_def pipe_inv_def pipe_opens_def pipe_out_def)
  have op: "inv s'" "h_tr H s' = ?p"
    and ok: "e = Err_ok \<Longrightarrow> up s' = {0} \<and> (\<exists>ev. said s' = said s @ [Noted ev] \<and> opened_at 0 ev)"
    and no: "e \<noteq> Err_ok \<Longrightarrow> up s' = {} \<and> said s' = said s"
    using opened [OF _ e] s(2) u by (auto simp: inv_put tr_put up_put said_put split: if_splits)
  show ?thesis
  proof (cases "e = Err_ok")
    case ok': True
    obtain ev where ev: "up s' = {0}" "said s' = said s @ [Noted ev]" "opened_at 0 ev" using ok [OF ok'] by blast
    have "pipe_step H C up said s'" using p by (simp add: agrees_def op(2) ev accepted_on_opened(1))
    then show ?thesis using True e ok' op by (simp add: pipe_start_def)
  next
    case False
    have "pipe_step H C up said (h_put H (close_fds (pc_os C) ?p) s')"
      using close_fds_inv [OF p(1), of "pc_os C"] no [OF False] by (simp add: agrees_def tr_put up_put said_put)
    then show ?thesis using True e False op by (simp add: pipe_start_def inv_put)
  qed
qed (use s in \<open>auto simp: pipe_start_def\<close>)

lemma pipe_flush_pass_step: "pipe_step H C up said s \<Longrightarrow> pipe_step H C up said (h_put H (pipe_flush_pass C (h_tr H s)) s)"
proof (erule pipe_put)
  show "pipe_keeps C (h_tr H s) (pipe_flush_pass C (h_tr H s))"
    unfolding pipe_flush_pass_def
    by (auto intro!: pipe_keeps_trans [OF _ pipe_flush_keeps] pipe_keeps_same simp: pipe_keeps_def [of C "h_tr H s" "h_tr H s"])
qed

lemma pipe_poll_step:
  assumes s: "pipe_step H C up said s" "inv s"
  shows "inv (snd (pipe_poll_once H C timeout s)) \<and> pipe_step H C up said (snd (pipe_poll_once H C timeout s))"
proof -
  obtain now0 os0 where n0: "posix_now_ms (pc_os C) (pp_os (h_tr H s)) = (now0, os0)" by fastforce
  define s1 where "s1 = pipe_start H C now0 (h_put H ((h_tr H s)\<lparr>pp_os := os0\<rparr>) s)"
  have s1: "pipe_step H C up said s1" "inv s1"
    using pipe_start_step [OF pipe_os [OF s(1)]] s(2) by (simp_all add: s1_def inv_put)
  obtain rc os1 where rc: "px_poll (pc_os C) (pipe_poll_set (h_tr H s1)) timeout (pp_os (h_tr H s1)) = (rc, os1)" by fastforce
  obtain now os where n: "posix_now_ms (pc_os C) os1 = (now, os)" by fastforce
  let ?s = "h_put H ((h_tr H s1)\<lparr>pp_os := os\<rparr>) s1"
  have s2: "pipe_step H C up said ?s" "inv ?s" using pipe_os [OF s1(1)] s1(2) by (simp_all add: inv_put)
  have fin: "inv (h_put H (pipe_flush_pass C (h_tr H (h_tick H now s'))) (h_tick H now s'))
      \<and> pipe_step H C up said (h_put H (pipe_flush_pass C (h_tr H (h_tick H now s'))) (h_tick H now s'))"
    if "inv s' \<and> pipe_step H C up said s'" for s'
    using agrees_tick [of s' now] that pipe_flush_pass_step by (simp add: inv_put)
  have fl: "inv (if c then h_put H (pipe_flush C (h_tr H ?s)) ?s else ?s) \<and> pipe_step H C up said (if c then h_put H (pipe_flush C (h_tr H ?s)) ?s else ?s)" for c
    using s2 pipe_put [OF s2(1) pipe_flush_keeps] by (simp add: inv_put)
  have fs: "pp_started (h_tr H (if c then h_put H (pipe_flush C (h_tr H ?s)) ?s else ?s))" if "\<not> pp_rfd (h_tr H s1) < 0" for c
    using pipe_start_started [of "h_put H ((h_tr H s)\<lparr>pp_os := os0\<rparr>) s" now0] s(2) that by (simp add: inv_put tr_put flip: s1_def)
  have rd: "inv (if c then pipe_read_loop H C now k s' else s') \<and> pipe_step H C up said (if c then pipe_read_loop H C now k s' else s')"
    if "inv s' \<and> pipe_step H C up said s'" "pp_started (h_tr H s')" for c k s' using pipe_read_step [of s' now k] that by simp
  show ?thesis
  proof (cases "pp_rfd (h_tr H s1) < 0")
    case True
    then show ?thesis using n0 agrees_tick [OF s1, of now0] by (simp add: pipe_poll_once_def s1_def Let_def)
  next
    case False
    show ?thesis
    proof (cases rc)
      case (Inl e)
      then show ?thesis using n0 False rc n fin [of ?s] s2 by (simp add: pipe_poll_once_def Let_def flip: s1_def)
    next
      case (Inr r)
      then show ?thesis using n0 False rc n fin [OF rd [OF fl fs [OF False]]] by (cases r) (simp add: pipe_poll_once_def Let_def flip: s1_def)
    qed
  qed
qed

end

section \<open>The broker over a pipe\<close>

definition pipe_env :: "'os pipe_conf \<Rightarrow> traits \<Rightarrow> 'ctx security \<Rightarrow> ('ctx, 'os pipe) env" where
  "pipe_env C T sec = \<lparr>e_traits = T, e_sec = sec, e_send = pipe_send C, e_close = pipe_close C\<rparr>"

text \<open>A pair of descriptors is handed over while the broker has no connection. The operating system may change
  between two calls.\<close>

inductive pipe_run :: "'os pipe_conf \<Rightarrow> traits \<Rightarrow> ('ctx, 'os pipe) broker \<Rightarrow> bool" for C T where
  prun_start: "pipe_run C T (broker_init T (pipe_init C os))"
| prun_open: "pipe_run C T b \<Longrightarrow> \<not> cn_active (conn_at b 0) \<Longrightarrow> pipe_open (pc_os C) r w (b_tr b) = (p, ok) \<Longrightarrow> pipe_run C T (b\<lparr>b_tr := p\<rparr>)"
| prun_os: "pipe_run C T b \<Longrightarrow> pipe_run C T (b\<lparr>b_tr := (b_tr b)\<lparr>pp_os := os\<rparr>\<rparr>)"
| prun_pass: "pipe_run C T b \<Longrightarrow> pipe_run C T (snd (pipe_poll_once (broker_host (pipe_env C T sec)) C timeout_ms b))"
| prun_publish: "pipe_run C T b \<Longrightarrow> pipe_run C T (snd (publish (pipe_env C T sec) topic payload q retain b))"

lemma pipe_env_sel [simp]:
  "e_traits (pipe_env C T sec) = T" "e_sec (pipe_env C T sec) = sec"
  "e_send (pipe_env C T sec) = pipe_send C" "e_close (pipe_env C T sec) = pipe_close C"
  by (simp_all add: pipe_env_def)

interpretation pipe_served: pipe_host "broker_host (pipe_env C T sec)" C "settled T" open_conns b_trace
  for C :: "'os pipe_conf" and T :: traits and sec :: "'ctx security"
proof (rule pipe_host.intro, rule driven.intro)
  show "polled (broker_host (pipe_env C T sec)) (pipe_send C) (pipe_close C) (settled T) open_conns b_trace"
    using direct.polled_axioms [of "pipe_env C T sec"] by simp
qed (rule piped.byte_transport_axioms)

definition pipe_together :: "'os pipe_conf \<Rightarrow> ('ctx, 'os pipe) broker \<Rightarrow> bool" where
  "pipe_together C b \<longleftrightarrow> pipe_inv C (b_tr b) \<and> pipe_opens (b_tr b) = open_conns b
     \<and> (\<forall>ci \<in> open_conns b. pipe_out C (b_tr b) ci = accepted_on ci (b_trace b))"

lemma pipe_together_step: "pipe_step (broker_host E) C open_conns b_trace b \<longleftrightarrow> pipe_together C b"
  by (simp add: agrees_def pipe_together_def)

lemma pipe_init_inv: "pipe_conf_ok C \<Longrightarrow> pipe_inv C (pipe_init C os) \<and> pipe_opens (pipe_init C os) = {}"
  by (simp add: pipe_inv_def pipe_init_def pipe_conf_ok_def pipe_opens_def ring_inv_init)

lemma pipe_run_inv:
  assumes "traits_ok T" "pipe_conf_ok C" shows "pipe_run C T b \<Longrightarrow> settled T b \<and> pipe_together C b"
proof (induction rule: pipe_run.induct)
  case (prun_start os)
  then show ?case
    using pipe_init_inv [OF assms(2), of os] settled_reachable [OF assms(1) reach_init]
    by (simp add: pipe_together_def open_conns_init) (simp add: broker_init_def)
next
  case (prun_open b r w p ok)
  have "open_conns b \<subseteq> {0}" using prun_open.IH by (auto simp: pipe_together_def dest: pipe_opens_zero)
  then have "open_conns b = {}" using prun_open.hyps(2) by (auto simp: open_conns_def)
  then show ?case
    using pipe_open_inv [OF _ prun_open.hyps(3), of C] prun_open.IH by (simp add: pipe_together_def)
next
  case (prun_os b os)
  then show ?case by (simp add: pipe_together_def pipe_inv_def pipe_opens_def pipe_out_def)
next
  case (prun_pass b sec timeout_ms)
  then show ?case using pipe_served.pipe_poll_step [of C T sec b timeout_ms] by (simp add: pipe_together_step)
next
  case (prun_publish b sec topic payload q retain)
  let ?E = "pipe_env C T sec" and ?b = "snd (publish (pipe_env C T sec) topic payload q retain b)"
  obtain as where as: "b_trace ?b = b_trace b @ as" "transcript (pipe_send C) (pipe_close C) as (b_tr b) = Some (b_tr ?b)"
    "protocol as (open_conns b) = Some (open_conns ?b)"
    using talks_publish [of ?E b topic payload q retain] prun_publish.IH by (auto simp: talks_def obeys_def settled_def)
  have "pipe_step (broker_host ?E) C open_conns b_trace ?b"
    by (rule pipe_served.agrees_calls [where s = b and S = "open_conns b"]) (use prun_publish.IH as in \<open>auto simp: pipe_together_def\<close>)
  then show ?case using prun_publish.IH settled_api [OF _ step_publish [of ?E]] by (auto simp: pipe_together_step)
qed

text \<open>Once closed, the transport stays closed whatever the broker calls.\<close>

lemma transcript_stays_closed:
  assumes "transcript (pipe_send C) (pipe_close C) as p = Some p'" "pp_rfd p = -1" shows "pp_rfd p' = -1"
  by (rule transcript_keeps [where K = "\<lambda>p. pp_rfd p = -1", OF _ _ assms]) (simp_all add: pipe_close_def)

lemma pipe_reopen_closes:
  assumes s: "settled T b" "cn_active (conn_at b 0)" and o: "pipe_open (pc_os C) r w (b_tr b) = (p, True)"
  shows "pp_rfd (b_tr (snd (pipe_poll_once (broker_host (pipe_env C T sec)) C timeout_ms (b\<lparr>b_tr := p\<rparr>)))) = -1"
proof -
  let ?E = "pipe_env C T sec"
  obtain now os where n: "posix_now_ms (pc_os C) (pp_os p) = (now, os)" by fastforce
  have p: "\<not> pp_started p" "pp_rfd p \<ge> 0" using o by (auto simp: pipe_open_def Let_def split: if_splits prod.splits)
  have c: "conn_at (b\<lparr>b_tr := x\<rparr>) = conn_at b" for x by (rule conn_at_cong) simp
  let ?p = "close_fds (pc_os C) (p\<lparr>pp_os := os, pp_started := True\<rparr>)"
  have st: "pipe_start (broker_host ?E) C now (b\<lparr>b_tr := p\<lparr>pp_os := os\<rparr>\<rparr>) = b\<lparr>b_tr := ?p\<rparr>"
    using p s(2) by (simp add: pipe_start_def conn_open_def c)
  have "settled T (b\<lparr>b_tr := ?p\<rparr>)" using s(1) by simp
  then have "heard (b\<lparr>b_tr := ?p\<rparr>)" unfolding settled_def by blast
  then obtain as where "transcript (pipe_send C) (pipe_close C) as ?p = Some (b_tr (tick ?E now (b\<lparr>b_tr := ?p\<rparr>)))"
    using talks_tick [of ?E "b\<lparr>b_tr := ?p\<rparr>" now] by (auto simp: talks_def obeys_def)
  then have "pp_rfd (b_tr (tick ?E now (b\<lparr>b_tr := ?p\<rparr>))) = -1" by (rule transcript_stays_closed) simp
  then show ?thesis using n st by (simp add: pipe_poll_once_def Let_def)
qed

section \<open>Properties\<close>

definition sample_pipe_conf :: "nat pipe_conf" where
  "sample_pipe_conf = \<lparr>pc_out_buf = 64, pc_os = sample_posix\<rparr>"

lemma sample_pipe_conf_ok: "pipe_conf_ok sample_pipe_conf"
  by (simp add: pipe_conf_ok_def sample_pipe_conf_def sample_posix_def writes_bounded_def)

text \<open>C36: \<open>PipeTransport::open\<close> takes ownership of both descriptors in every case: it closes the pair it held and, when it
  fails, the pair it was given, each descriptor exactly once, even when numbers coincide or are handed back;
  when it succeeds it holds the new pair, otherwise none.\<close>

theorem pipe_open_ownership:
  assumes "pipe_open P r w p = (p', ok)"
  shows "\<exists>cs. pp_closed p' = pp_closed p @ cs \<and> distinct cs
      \<and> set cs = {fd. fd \<ge> 0 \<and> (fd \<in> {pp_rfd p, pp_wfd p} \<or> \<not> ok \<and> fd \<in> {r, w})}
      \<and> (if ok then pp_rfd p' = r \<and> pp_wfd p' = w \<and> r \<ge> 0 \<and> w \<ge> 0 else pp_rfd p' = -1 \<and> pp_wfd p' = -1)"
  by (rule pipe_open_owns [OF assms])

theorem pipe_open_ownership_witness:
  "\<exists>p' ok cs. pipe_open sample_posix 3 4 ((pipe_init sample_pipe_conf 0)\<lparr>pp_rfd := 3, pp_wfd := 3\<rparr>) = (p', ok)
     \<and> \<not> ok \<and> pp_closed p' = cs \<and> distinct cs \<and> set cs = {3, 4}"
proof -
  let ?p = "(pipe_init sample_pipe_conf 0)\<lparr>pp_rfd := 3, pp_wfd := 3\<rparr>"
  have f: "pipe_open sample_posix 3 4 ?p = (fst (pipe_open sample_posix 3 4 ?p), False)"
    by (simp add: pipe_open_def Let_def)
  obtain cs where "pp_closed (fst (pipe_open sample_posix 3 4 ?p)) = pp_closed ?p @ cs" "distinct cs"
    "set cs = {fd. 0 \<le> fd \<and> (fd \<in> {pp_rfd ?p, pp_wfd ?p} \<or> \<not> False \<and> fd \<in> {3, 4})}"
    using pipe_open_ownership [OF f] by blast
  moreover have "pp_closed ?p = []" "{fd. 0 \<le> fd \<and> (fd \<in> {pp_rfd ?p, pp_wfd ?p} \<or> \<not> False \<and> fd \<in> {3, 4})} = {3, 4}"
    by (auto simp: pipe_init_def)
  ultimately show ?thesis using f by (intro exI [of _ "fst (pipe_open sample_posix 3 4 ?p)"] exI [of _ False] exI [of _ cs]) simp
qed

text \<open>Over a pipe, the broker's connection 0 is active exactly while a pair of descriptors is held and announced,
  no other connection ever is, and what the system took plus what is queued is what \<open>send\<close> accepted, in order.\<close>

theorem pipe_delivers_in_order:
  assumes "traits_ok T" "pipe_conf_ok C" "pipe_run C T b"
  shows "{ci. ci < max_connections T \<and> cn_active (conn_at b ci)} = (if pp_wfd (b_tr b) \<ge> 0 \<and> pp_started (b_tr b) then {0} else {})
    \<and> (cn_active (conn_at b 0) \<longrightarrow> accepted_on 0 (b_trace b) = pp_taken (b_tr b) @ ring_bytes (pc_out_buf C) (pp_ring (b_tr b)))"
proof -
  have s: "settled T b" "pipe_together C b" using pipe_run_inv [OF assms(1,2) assms(3)] by auto
  have "0 \<in> open_conns b" if "cn_active (conn_at b 0)"
  proof -
    have "0 < length (b_conns b)" using that by (auto simp: conn_at_def new_conn_def split: if_splits)
    then show ?thesis using that s(1) by (simp add: settled_def open_conns_def quiet_def heard_def)
  qed
  then have "accepted_on 0 (b_trace b) = pp_taken (b_tr b) @ ring_bytes (pc_out_buf C) (pp_ring (b_tr b))" if "cn_active (conn_at b 0)"
    using s(2) that by (simp add: pipe_together_def pipe_out_def)
  moreover have "{ci. ci < max_connections T \<and> cn_active (conn_at b ci)} = (if pp_wfd (b_tr b) \<ge> 0 \<and> pp_started (b_tr b) then {0} else {})"
    using s(2) unfolding active_open [OF s(1), symmetric] by (simp add: pipe_together_def pipe_opens_def)
  ultimately show ?thesis by blast
qed

end
