(* ===== verification/Tls_Adapter.thy ===== *)
theory Tls_Adapter
  imports Pipe
begin

text \<open>
  The TLS adapter (\<open>transports/tls_adapter.hpp\<close>): a transport for the broker and a broker for the raw
  transport below it. The engine - a TLS library behind four calls - is a parameter on engine states;
  \<open>NullTlsEngine\<close>, which the header ships, is one instance of it.

  The adapter is shown to fit on both sides: \<open>send\<close> and \<open>close\<close> keep the transport contract, and the
  driver keeps the contract of a host whenever the host it wraps does, whatever the engine does. So the
  stream server can run it, and what was shown of the server over a broker holds of it over the adapter.
\<close>

section \<open>Model\<close>

text \<open>
  A call takes its output buffers as they are, whose lengths are the capacities, and returns them
  with the lengths the engine reports, which nothing forces to be within the buffers.
\<close>

record 'e tls_engine =
  en_reset :: "'e \<Rightarrow> 'e"
  en_on_ciphertext :: "'e \<Rightarrow> bytes \<Rightarrow> bytes \<Rightarrow> bytes \<Rightarrow> 'e \<times> bool \<times> (bytes \<times> nat) \<times> (bytes \<times> nat)"
  en_encrypt :: "'e \<Rightarrow> bytes \<Rightarrow> bytes \<Rightarrow> 'e \<times> bool \<times> bytes \<times> nat"
  en_drain :: "('e \<Rightarrow> bytes \<Rightarrow> 'e \<times> bool \<times> bytes \<times> nat) option"
  en_record_overhead :: nat

definition null_copy :: "bytes \<Rightarrow> bytes \<Rightarrow> bytes" where
  "null_copy src dst = fold (\<lambda>i d. d[i := src ! i]) [0..<length src] dst"

definition null_on_ciphertext :: "unit \<Rightarrow> bytes \<Rightarrow> bytes \<Rightarrow> bytes \<Rightarrow> unit \<times> bool \<times> (bytes \<times> nat) \<times> (bytes \<times> nat)" where
  "null_on_ciphertext e inp plain cipher =
    (if length inp > length plain then (e, False, (plain, 0), (cipher, 0))
     else (e, True, (null_copy inp plain, length inp), (cipher, 0)))"

definition null_encrypt :: "unit \<Rightarrow> bytes \<Rightarrow> bytes \<Rightarrow> unit \<times> bool \<times> bytes \<times> nat" where
  "null_encrypt e plain cipher =
    (if length plain > length cipher then (e, False, cipher, 0) else (e, True, null_copy plain cipher, length plain))"

definition null_engine :: "unit tls_engine" where
  "null_engine = \<lparr>en_reset = id, en_on_ciphertext = null_on_ciphertext, en_encrypt = null_encrypt, en_drain = None, en_record_overhead = 0\<rparr>"

text \<open>The template arguments, and what the raw transport publishes (0 stands for none).\<close>

record ('e, 'raw) tls_conf =
  tc_engine :: "'e tls_engine"
  tc_max_conns :: nat
  tc_buf_size :: nat
  tc_raw_send :: "'raw \<Rightarrow> nat \<Rightarrow> bytes \<Rightarrow> 'raw \<times> bool"
  tc_raw_close :: "'raw \<Rightarrow> nat \<Rightarrow> 'raw"
  tc_raw_conns :: nat
  tc_raw_buf :: nat

definition tls_max_connections :: "('e, 'raw) tls_conf \<Rightarrow> nat" where
  "tls_max_connections C = narrower_capacity (tc_max_conns C) (tc_raw_conns C)"

definition cipher_capacity :: "('e, 'raw) tls_conf \<Rightarrow> nat" where
  "cipher_capacity C = narrower_capacity (tc_buf_size C) (tc_raw_buf C)"

definition tls_asserted :: "('e, 'raw) tls_conf \<Rightarrow> bool" where
  "tls_asserted C \<longleftrightarrow> cipher_capacity C > en_record_overhead (tc_engine C)"

definition tls_out_buf_size :: "('e, 'raw) tls_conf \<Rightarrow> nat" where
  "tls_out_buf_size C = cipher_capacity C - en_record_overhead (tc_engine C)"

text \<open>The adapter, with the raw transport it refers to; \<open>tl_trace\<close> records its calls of that transport.\<close>

record ('e, 'raw) tls =
  tl_raw :: 'raw
  tl_engines :: "'e list"
  tl_engine_open :: "bool list"
  tl_plain :: bytes
  tl_cipher_out :: bytes
  tl_cipher :: bytes
  tl_trace :: "action list"

definition tls_init :: "('e, 'raw) tls_conf \<Rightarrow> 'e \<Rightarrow> 'raw \<Rightarrow> ('e, 'raw) tls" where
  "tls_init C e raw = \<lparr>tl_raw = raw, tl_engines = replicate (tls_max_connections C) e,
     tl_engine_open = replicate (tls_max_connections C) False, tl_plain = replicate (tc_buf_size C) 0,
     tl_cipher_out = replicate (tc_buf_size C) 0, tl_cipher = replicate (tc_buf_size C) 0, tl_trace = []\<rparr>"

definition tls_engine_at :: "('e, 'raw) tls_conf \<Rightarrow> ('e, 'raw) tls \<Rightarrow> nat \<Rightarrow> 'e option" where
  "tls_engine_at C t ci = (if ci < tls_max_connections C then Some (tl_engines t ! ci) else None)"

definition tls_raw_send :: "('e, 'raw) tls_conf \<Rightarrow> ('e, 'raw) tls \<Rightarrow> nat \<Rightarrow> bytes \<Rightarrow> ('e, 'raw) tls \<times> bool" where
  "tls_raw_send C t ci pkt =
    (let (raw, ok) = tc_raw_send C (tl_raw t) ci pkt in (t\<lparr>tl_raw := raw, tl_trace := tl_trace t @ [Sent ci pkt ok]\<rparr>, ok))"

definition tls_shut :: "('e, 'raw) tls_conf \<Rightarrow> nat \<Rightarrow> ('e, 'raw) tls \<Rightarrow> ('e, 'raw) tls" where
  "tls_shut C ci t = t\<lparr>tl_engine_open := (tl_engine_open t)[ci := False],
     tl_raw := tc_raw_close C (tl_raw t) ci, tl_trace := tl_trace t @ [Closed ci]\<rparr>"

definition tls_send :: "('e, 'raw) tls_conf \<Rightarrow> ('e, 'raw) tls \<Rightarrow> nat \<Rightarrow> bytes \<Rightarrow> ('e, 'raw) tls \<times> bool" where
  "tls_send C t ci plaintext =
    (if ci \<ge> tls_max_connections C then (t, False)
     else
       let (e, ok, buf, cipher_len) = en_encrypt (tc_engine C) (tl_engines t ! ci) plaintext (tl_cipher t);
           t = t\<lparr>tl_engines := (tl_engines t)[ci := e], tl_cipher := buf\<rparr>
       in if \<not> ok \<or> cipher_len > tc_buf_size C then (t, False)
          else if cipher_len = 0 then (t, True)
          else tls_raw_send C t ci (take cipher_len (tl_cipher t)))"

definition tls_close :: "('e, 'raw) tls_conf \<Rightarrow> ('e, 'raw) tls \<Rightarrow> nat \<Rightarrow> ('e, 'raw) tls" where
  "tls_close C t ci = (if ci < tls_max_connections C then tls_shut C ci t else t)"

text \<open>One round of the loop of \<open>drain_engines\<close>.\<close>

definition drain_engine :: "('e, 'raw) tls_conf \<Rightarrow> ('s, ('e, 'raw) tls) host \<Rightarrow> ('e \<Rightarrow> bytes \<Rightarrow> 'e \<times> bool \<times> bytes \<times> nat) \<Rightarrow> nat \<Rightarrow> 's \<Rightarrow> 's" where
  "drain_engine C H drain ci s =
    (let t = h_tr H s
     in if \<not> tl_engine_open t ! ci then s
        else
          let (e, drained, buf, cipher_len) = drain (tl_engines t ! ci) (tl_cipher t);
              t = t\<lparr>tl_engines := (tl_engines t)[ci := e], tl_cipher := buf\<rparr>;
              ok = (drained \<and> cipher_len \<le> tc_buf_size C)
          in if ok \<and> cipher_len = 0 then h_put H t s
             else
               let (t, sent) = (if ok then tls_raw_send C t ci (take cipher_len (tl_cipher t)) else (t, False))
               in if sent then h_put H t s
                  else h_closed H ci (h_put H (tls_shut C ci t) s))"

definition drain_engines :: "('e, 'raw) tls_conf \<Rightarrow> ('s, ('e, 'raw) tls) host \<Rightarrow> 's \<Rightarrow> 's" where
  "drain_engines C H s =
    (case en_drain (tc_engine C) of None \<Rightarrow> s | Some drain \<Rightarrow> fold (drain_engine C H drain) [0..<tls_max_connections C] s)"

text \<open>The driver. The last step of \<open>conn_open\<close> only notes the opening in the record of the raw calls.\<close>

definition driver_open :: "('e, 'raw) tls_conf \<Rightarrow> ('s, ('e, 'raw) tls) host \<Rightarrow> nat \<Rightarrow> u32 \<Rightarrow> 's \<Rightarrow> err \<times> 's" where
  "driver_open C H ci now_ms s =
    (if ci \<ge> tls_max_connections C then (Err_state, s)
     else
       let t = h_tr H s;
           t = t\<lparr>tl_engines := (tl_engines t)[ci := en_reset (tc_engine C) (tl_engines t ! ci)],
                 tl_engine_open := (tl_engine_open t)[ci := True]\<rparr>;
           (e, s) = h_open H ci now_ms (h_put H t s); t = h_tr H s
       in (e, if e = Err_ok then h_put H (t\<lparr>tl_trace := tl_trace t @ [Noted ((new_event connection_opened)\<lparr>ev_ci := Some ci\<rparr>)]\<rparr>) s else s))"

definition driver_closed :: "('e, 'raw) tls_conf \<Rightarrow> ('s, ('e, 'raw) tls) host \<Rightarrow> nat \<Rightarrow> 's \<Rightarrow> 's" where
  "driver_closed C H ci s =
    (if ci < tls_max_connections C
     then h_closed H ci (h_put H ((h_tr H s)\<lparr>tl_engine_open := (tl_engine_open (h_tr H s))[ci := False]\<rparr>) s)
     else s)"

definition driver_data :: "('e, 'raw) tls_conf \<Rightarrow> ('s, ('e, 'raw) tls) host \<Rightarrow> nat \<Rightarrow> bytes \<Rightarrow> u32 \<Rightarrow> 's \<Rightarrow> err \<times> 's" where
  "driver_data C H ci cipher_in now_ms s =
    (if ci \<ge> tls_max_connections C then (Err_state, s)
     else
       let t = h_tr H s;
           (e, ok, (plain, plain_len), (cipher_out, cipher_out_len)) =
             en_on_ciphertext (tc_engine C) (tl_engines t ! ci) cipher_in (tl_plain t) (tl_cipher_out t);
           t = t\<lparr>tl_engines := (tl_engines t)[ci := e], tl_plain := plain, tl_cipher_out := cipher_out\<rparr>
       in if \<not> ok \<or> plain_len > tc_buf_size C \<or> cipher_out_len > tc_buf_size C
          then (Err_malformed, h_closed H ci (h_put H (tls_close C t ci) s))
          else
            let (t, sent) = (if cipher_out_len > 0 then tls_raw_send C t ci (take cipher_out_len (tl_cipher_out t)) else (t, True))
            in if \<not> sent then (Err_capacity, h_closed H ci (h_put H (tls_close C t ci) s))
               else if plain_len > 0 then h_data H ci (take plain_len (tl_plain t)) now_ms (h_put H t s)
               else (Err_ok, h_put H t s))"

definition driver_tick :: "('e, 'raw) tls_conf \<Rightarrow> ('s, ('e, 'raw) tls) host \<Rightarrow> u32 \<Rightarrow> 's \<Rightarrow> 's" where
  "driver_tick C H now_ms s = h_tick H now_ms (drain_engines C H s)"

definition driver :: "('e, 'raw) tls_conf \<Rightarrow> ('s, ('e, 'raw) tls) host \<Rightarrow> ('s, 'raw) host" where
  "driver C H = \<lparr>h_open = driver_open C H, h_data = driver_data C H, h_closed = driver_closed C H, h_tick = driver_tick C H,
     h_tr = (\<lambda>s. tl_raw (h_tr H s)), h_put = (\<lambda>raw s. h_put H ((h_tr H s)\<lparr>tl_raw := raw\<rparr>) s)\<rparr>"

section \<open>The adapter as a transport\<close>

text \<open>What an engine is documented to do: write its output into the buffers it is given.\<close>

definition engine_ok :: "'e tls_engine \<Rightarrow> bool" where
  "engine_ok N \<longleftrightarrow>
    (\<forall>e inp p c e' ok p' pn c' cn. en_on_ciphertext N e inp p c = (e', ok, (p', pn), (c', cn)) \<longrightarrow> length p' = length p \<and> length c' = length c)
    \<and> (\<forall>e p c e' ok c' cn. en_encrypt N e p c = (e', ok, c', cn) \<longrightarrow> length c' = length c)
    \<and> (\<forall>d e c e' ok c' cn. en_drain N = Some d \<longrightarrow> d e c = (e', ok, c', cn) \<longrightarrow> length c' = length c)"

lemma engine_okD:
  assumes "engine_ok N"
  shows "en_on_ciphertext N e inp p c = (e', ok, (p', pn), (c', cn)) \<Longrightarrow> length p' = length p \<and> length c' = length c"
    and "en_encrypt N e p c = (e', ok, c', cn) \<Longrightarrow> length c' = length c"
    and "en_drain N = Some d \<Longrightarrow> d e c = (e', ok, c', cn) \<Longrightarrow> length c' = length c"
  using assms by (simp_all only: engine_ok_def)

definition tls_inv :: "('e, 'raw) tls_conf \<Rightarrow> ('e, 'raw) tls \<Rightarrow> bool" where
  "tls_inv C t \<longleftrightarrow> engine_ok (tc_engine C) \<and> length (tl_engines t) = tls_max_connections C \<and> length (tl_engine_open t) = tls_max_connections C
     \<and> length (tl_plain t) = tc_buf_size C \<and> length (tl_cipher_out t) = tc_buf_size C \<and> length (tl_cipher t) = tc_buf_size C"

definition tls_opens :: "('e, 'raw) tls \<Rightarrow> nat set" where
  "tls_opens t = {ci. ci < length (tl_engine_open t) \<and> tl_engine_open t ! ci}"

text \<open>
  Between two states the adapter makes calls of the raw transport, allowed when \<open>S\<close> are the connections
  open there; \<open>S'\<close> are those open afterwards.
\<close>

definition tls_said :: "('e, 'raw) tls_conf \<Rightarrow> nat set \<Rightarrow> ('e, 'raw) tls \<Rightarrow> nat set \<Rightarrow> ('e, 'raw) tls \<Rightarrow> bool" where
  "tls_said C S t S' t' \<longleftrightarrow> tls_inv C t' \<and> tls_opens t' = S' \<and> (\<exists>bs. tl_trace t' = tl_trace t @ bs
     \<and> transcript (tc_raw_send C) (tc_raw_close C) bs (tl_raw t) = Some (tl_raw t') \<and> protocol bs S = Some S')"

lemma tls_said_trans [trans]: "tls_said C S t S1 t1 \<Longrightarrow> tls_said C S1 t1 S2 t2 \<Longrightarrow> tls_said C S t S2 t2"
  unfolding tls_said_def
proof (elim conjE exE, intro conjI, goal_cases)
  case (3 bs cs)
  then show ?case by (intro exI [of _ "bs @ cs"]) (simp add: transcript_append protocol_append)
qed auto

lemma tls_said_refl:
  "tls_inv C t' \<Longrightarrow> tls_opens t' = S \<Longrightarrow> tl_trace t' = tl_trace t \<Longrightarrow> tl_raw t' = tl_raw t \<Longrightarrow> tls_said C S t S t'"
  by (simp add: tls_said_def)

lemma tls_opens_bound: "tls_inv C t \<Longrightarrow> ci \<in> tls_opens t \<Longrightarrow> ci < tls_max_connections C"
  by (simp add: tls_inv_def tls_opens_def)

lemma tls_opens_other [simp]:
  "tls_opens (t\<lparr>tl_raw := raw\<rparr>) = tls_opens t" "tls_opens (t\<lparr>tl_engines := es\<rparr>) = tls_opens t" "tls_opens (t\<lparr>tl_plain := p\<rparr>) = tls_opens t"
  "tls_opens (t\<lparr>tl_cipher_out := c\<rparr>) = tls_opens t" "tls_opens (t\<lparr>tl_cipher := c\<rparr>) = tls_opens t" "tls_opens (t\<lparr>tl_trace := as\<rparr>) = tls_opens t"
  by (simp_all add: tls_opens_def)

lemma tls_opens_update:
  "tls_opens (t\<lparr>tl_engine_open := (tl_engine_open t)[ci := False]\<rparr>) = tls_opens t - {ci}"
  "ci < length (tl_engine_open t) \<Longrightarrow> tls_opens (t\<lparr>tl_engine_open := (tl_engine_open t)[ci := True]\<rparr>) = insert ci (tls_opens t)"
  by (cases "ci < length (tl_engine_open t)") (auto simp: tls_opens_def nth_list_update split: if_splits)

lemma tls_raw_send_said:
  assumes "tls_inv C t" "ci \<in> tls_opens t"
  shows "tls_said C (tls_opens t) t (tls_opens t) (fst (tls_raw_send C t ci pkt))"
  using assms by (auto simp: tls_said_def tls_raw_send_def tls_inv_def tls_opens_def split: prod.split)

lemma tls_shut_said:
  assumes "tls_inv C t" "ci \<in> tls_opens t" shows "tls_said C (tls_opens t) t (tls_opens t - {ci}) (tls_shut C ci t)"
proof -
  have "tls_opens (tls_shut C ci t) = tls_opens t - {ci}" using tls_opens_update(1) [of t ci] by (simp add: tls_shut_def tls_opens_def)
  moreover have "tls_inv C (tls_shut C ci t)" using assms by (simp add: tls_inv_def tls_shut_def)
  ultimately show ?thesis using assms(2) by (simp add: tls_said_def) (simp add: tls_shut_def)
qed

lemma tls_close_said:
  "tls_inv C t \<Longrightarrow> ci \<in> tls_opens t \<Longrightarrow> tls_said C (tls_opens t) t (tls_opens t - {ci}) (tls_close C t ci)"
  using tls_shut_said [of C t ci] tls_opens_bound [of C t ci] by (simp add: tls_close_def)

lemma tls_send_said:
  assumes i: "tls_inv C t" "ci \<in> tls_opens t"
  shows "tls_said C (tls_opens t) t (tls_opens t) (fst (tls_send C t ci pkt))"
proof -
  obtain e ok buf len where e: "en_encrypt (tc_engine C) (tl_engines t ! ci) pkt (tl_cipher t) = (e, ok, buf, len)" by (metis prod_cases4)
  let ?t = "t\<lparr>tl_engines := (tl_engines t)[ci := e], tl_cipher := buf\<rparr>"
  have "length buf = length (tl_cipher t)" using i(1) engine_okD(2) [OF _ e] by (simp add: tls_inv_def)
  then have t: "tls_inv C ?t" "tls_opens ?t = tls_opens t" using i(1) by (simp_all add: tls_inv_def tls_opens_def)
  have q: "tls_said C (tls_opens t) t (tls_opens t) ?t" using t by (simp add: tls_said_refl)
  have r: "tls_said C (tls_opens t) t (tls_opens t) (fst (tls_raw_send C ?t ci p))" for p
    using tls_said_trans [OF q] tls_raw_send_said [OF t(1), of ci p] t(2) i(2) by simp
  show ?thesis using e q r tls_opens_bound [OF i] by (simp add: tls_send_def Let_def)
qed

interpretation tlsed: transport_ops "tls_send C" "tls_close C" tls_opens "tls_inv C" for C :: "('e, 'raw) tls_conf"
proof
  fix t t' :: "('e, 'raw) tls" and ci pkt ok
  assume i: "tls_inv C t" "ci \<in> tls_opens t"
  show "tls_inv C t' \<and> tls_opens t' = tls_opens t" if "tls_send C t ci pkt = (t', ok)"
    using tls_send_said [OF i, of pkt] that by (simp add: tls_said_def)
  show "tls_inv C (tls_close C t ci) \<and> tls_opens (tls_close C t ci) = tls_opens t - {ci}"
    using tls_close_said [OF i] by (simp add: tls_said_def)
qed

text \<open>What the broker says of the adapter, the adapter may say of the raw transport.\<close>

lemma tls_transcript:
  "transcript (tls_send C) (tls_close C) as t = Some t' \<Longrightarrow> protocol as (tls_opens t) = Some S' \<Longrightarrow> tls_inv C t \<Longrightarrow>
   tls_said C (tls_opens t) t S' t'"
proof (induction as arbitrary: t)
  case (Cons a as)
  show ?case
  proof (cases a)
    case (Sent ci pkt ok)
    obtain t1 r where s: "tls_send C t ci pkt = (t1, r)" by fastforce
    have p: "ci \<in> tls_opens t" "r = ok" using Cons.prems Sent s by (auto split: if_splits)
    have a: "tls_said C (tls_opens t) t (tls_opens t) t1" using tls_send_said [OF Cons.prems(3) p(1), of pkt] s by simp
    then have "tls_inv C t1" "tls_opens t1 = tls_opens t" by (simp_all add: tls_said_def)
    then show ?thesis using tls_said_trans [OF a] Cons.IH [of t1] Cons.prems Sent s p by simp
  next
    case (Closed ci)
    have p: "ci \<in> tls_opens t" using Cons.prems Closed by (auto split: if_splits)
    have a: "tls_said C (tls_opens t) t (tls_opens t - {ci}) (tls_close C t ci)" by (rule tls_close_said [OF Cons.prems(3) p])
    then have "tls_inv C (tls_close C t ci)" "tls_opens (tls_close C t ci) = tls_opens t - {ci}" by (simp_all add: tls_said_def)
    then show ?thesis using tls_said_trans [OF a] Cons.IH [of "tls_close C t ci"] Cons.prems Closed p by simp
  next
    case (Noted e)
    then show ?thesis using Cons.IH [of t] Cons.prems by (simp split: if_splits)
  qed
qed (simp add: tls_said_refl)

section \<open>The driver as a host\<close>

text \<open>
  Inside \<open>polled\<close>, the host the driver wraps; it takes every connection it is offered that it does not
  have. The connections the adapter has open are those of the host.
\<close>

definition tls_linked :: "('e, 'raw) tls_conf \<Rightarrow> ('s, ('e, 'raw) tls) host \<Rightarrow> ('s \<Rightarrow> bool) \<Rightarrow> ('s \<Rightarrow> nat set) \<Rightarrow> 's \<Rightarrow> bool" where
  "tls_linked C H I up s \<longleftrightarrow> I s \<and> tls_inv C (h_tr H s) \<and> tls_opens (h_tr H s) = up s"

locale tls_host = polled H "tls_send C" "tls_close C" inv up said
  for H :: "('s, ('e, 'raw) tls) host" and C :: "('e, 'raw) tls_conf" and inv and up and said +
  assumes admits: "inv s \<Longrightarrow> ci < tls_max_connections C \<Longrightarrow> ci \<notin> up s \<Longrightarrow> fst (h_open H ci now s) = Err_ok"
begin

abbreviation joined :: "'s \<Rightarrow> bool" where
  "joined \<equiv> tls_linked C H inv up"

text \<open>A step that ends with the host being driven.\<close>

lemma after_host:
  assumes t: "tls_said C S t S1 (h_tr H s)" and i: "inv s'"
    and as: "transcript (tls_send C) (tls_close C) as (h_tr H s) = Some (h_tr H s')" "protocol as S1 = Some (up s')"
  shows "joined s' \<and> tls_said C S t (up s') (h_tr H s')"
proof -
  have s: "tls_inv C (h_tr H s)" "tls_opens (h_tr H s) = S1" using t by (simp_all add: tls_said_def)
  have h: "tls_said C S1 (h_tr H s) (up s') (h_tr H s')" using tls_transcript [OF as(1) _ s(1)] as(2) s(2) by simp
  then have "joined s'" using i by (simp add: tls_linked_def tls_said_def)
  then show ?thesis using tls_said_trans [OF t h] by simp
qed

lemma said_closed:
  assumes i: "inv s" and t: "tls_said C S t (up s - {ci}) t'"
  shows "joined (h_closed H ci (h_put H t' s)) \<and> tls_said C S t (up (h_closed H ci (h_put H t' s))) (h_tr H (h_closed H ci (h_put H t' s)))"
proof -
  have "inv (h_put H t' s)" using i by (simp add: inv_put)
  from closed [OF this, of ci] obtain as where c: "inv (h_closed H ci (h_put H t' s))"
      "transcript (tls_send C) (tls_close C) as (h_tr H (h_put H t' s)) = Some (h_tr H (h_closed H ci (h_put H t' s)))"
      "protocol as (up (h_put H t' s) - {ci}) = Some (up (h_closed H ci (h_put H t' s)))" by blast
  show ?thesis by (rule after_host [where ?S1.0 = "up s - {ci}" and s = "h_put H t' s", OF _ c(1,2)]) (use t c(3) in \<open>simp_all add: tr_put up_put\<close>)
qed

lemma put_said:
  assumes "inv s" "tls_said C S t (up s) t'"
  shows "joined (h_put H t' s) \<and> tls_said C S t (up (h_put H t' s)) (h_tr H (h_put H t' s))"
  using assms by (auto simp: tls_linked_def inv_put up_put tr_put tls_said_def)

lemma said_data:
  assumes i: "inv s" and ci: "ci \<in> up s" and t: "tls_said C S t (up s) t'" and d: "h_data H ci d now (h_put H t' s) = (e, s')"
  shows "joined s' \<and> tls_said C S t (up s') (h_tr H s')"
proof -
  have "inv (h_put H t' s)" "ci \<in> up (h_put H t' s)" using i ci by (simp_all add: inv_put up_put)
  from data [OF this d] obtain as where c: "inv s'"
      "transcript (tls_send C) (tls_close C) as (h_tr H (h_put H t' s)) = Some (h_tr H s')" "protocol as (up (h_put H t' s)) = Some (up s')" by blast
  show ?thesis by (rule after_host [where ?S1.0 = "up s" and s = "h_put H t' s", OF _ c(1,2)]) (use t c(3) in \<open>simp_all add: tr_put up_put\<close>)
qed

lemma said_tick:
  assumes i: "inv s" and t: "tls_said C S t (up s) (h_tr H s)"
  shows "joined (h_tick H now s) \<and> tls_said C S t (up (h_tick H now s)) (h_tr H (h_tick H now s))"
proof -
  from tick [OF i, of now] obtain as where c: "inv (h_tick H now s)"
      "transcript (tls_send C) (tls_close C) as (h_tr H s) = Some (h_tr H (h_tick H now s))" "protocol as (up s) = Some (up (h_tick H now s))" by blast
  show ?thesis by (rule after_host [OF t c])
qed

text \<open>The raw calls of a step; every operation of the driver makes only such.\<close>

abbreviation raw_step :: "nat set \<Rightarrow> 's \<Rightarrow> 's \<Rightarrow> bool" where
  "raw_step S s s' \<equiv> joined s' \<and> tls_said C S (h_tr H s) (up s') (h_tr H s')"

lemma raw_step_sent:
  assumes s: "joined s" and ci: "ci \<in> up s" and t: "tls_said C (up s) (h_tr H s) (up s) t"
  shows "tls_said C (up s) (h_tr H s) (up s) (fst (tls_raw_send C t ci pkt))"
    and "tls_said C (up s) (h_tr H s) (up s - {ci}) (tls_shut C ci t)"
proof -
  have o: "tls_inv C t" "tls_opens t = up s" using t by (simp_all add: tls_said_def)
  show "tls_said C (up s) (h_tr H s) (up s) (fst (tls_raw_send C t ci pkt))"
    using tls_said_trans [OF t] tls_raw_send_said [OF o(1), of ci pkt] ci o(2) by simp
  show "tls_said C (up s) (h_tr H s) (up s - {ci}) (tls_shut C ci t)"
    using tls_said_trans [OF t] tls_shut_said [OF o(1), of ci] ci o(2) by simp
qed

lemma joinedD: "joined s \<Longrightarrow> ci \<in> up s \<Longrightarrow> ci < tls_max_connections C"
  using tls_opens_bound [of C "h_tr H s" ci] by (simp add: tls_linked_def)

lemma driver_data_step:
  assumes s: "joined s" and ci: "ci \<in> up s" and d: "driver_data C H ci cipher_in now s = (e, s')"
  shows "raw_step (up s) s s'"
proof -
  let ?t = "h_tr H s"
  have i: "inv s" using s by (simp add: tls_linked_def)
  obtain en ok p pl c cl where e: "en_on_ciphertext (tc_engine C) (tl_engines ?t ! ci) cipher_in (tl_plain ?t) (tl_cipher_out ?t) = (en, ok, (p, pl), (c, cl))"
    by (metis prod.collapse)
  define t1 where "t1 = ?t\<lparr>tl_engines := (tl_engines ?t)[ci := en], tl_plain := p, tl_cipher_out := c\<rparr>"
  have "length p = length (tl_plain ?t)" "length c = length (tl_cipher_out ?t)"
    using s engine_okD(1) [OF _ e] by (auto simp: tls_linked_def tls_inv_def)
  then have "tls_inv C t1" "tls_opens t1 = up s" "tl_trace t1 = tl_trace ?t" "tl_raw t1 = tl_raw ?t"
    using s by (simp_all add: tls_linked_def t1_def tls_inv_def)
  then have t1: "tls_said C (up s) ?t (up s) t1" by (rule tls_said_refl)
  obtain t2 sent where t2: "(if cl > 0 then tls_raw_send C t1 ci (take cl (tl_cipher_out t1)) else (t1, True)) = (t2, sent)" by fastforce
  have t2s: "tls_said C (up s) ?t (up s) t2"
    using t2 t1 raw_step_sent(1) [OF s ci t1, of "take cl (tl_cipher_out t1)"] by (auto split: if_splits)
  have cl: "tls_close C t ci = tls_shut C ci t" for t using joinedD [OF s ci] by (simp add: tls_close_def)
  show ?thesis
    using d joinedD [OF s ci] e t2 said_closed [OF i raw_step_sent(2) [OF s ci t1]] said_closed [OF i raw_step_sent(2) [OF s ci t2s]]
      said_data [OF i ci t2s] put_said [OF i t2s]
    by (auto simp: driver_data_def Let_def cl simp flip: t1_def split: if_splits)
qed

lemma driver_closed_step:
  assumes s: "joined s" shows "raw_step (up s - {ci}) s (driver_closed C H ci s)"
proof (cases "ci < tls_max_connections C")
  case True
  let ?t = "(h_tr H s)\<lparr>tl_engine_open := (tl_engine_open (h_tr H s))[ci := False]\<rparr>"
  have "tls_said C (up s - {ci}) (h_tr H s) (up s - {ci}) ?t"
    by (rule tls_said_refl) (use s tls_opens_update(1) [of "h_tr H s" ci] in \<open>simp_all add: tls_linked_def tls_inv_def\<close>)
  then show ?thesis using said_closed [of s] s True by (simp add: driver_closed_def tls_linked_def [of C H inv up s])
next
  case False
  then have "up s - {ci} = up s" using joinedD [OF s, of ci] by blast
  then show ?thesis using False s by (auto simp: driver_closed_def tls_linked_def intro: tls_said_refl)
qed

lemma drain_engine_step:
  assumes s: "joined s" and ci: "ci < tls_max_connections C" and d: "en_drain (tc_engine C) = Some drain"
  shows "raw_step (up s) s (drain_engine C H drain ci s)"
proof (cases "tl_engine_open (h_tr H s) ! ci")
  case True
  let ?t = "h_tr H s"
  have i: "inv s" and "ci \<in> tls_opens ?t" using s ci True by (simp_all add: tls_linked_def tls_inv_def tls_opens_def)
  then have up: "ci \<in> up s" using s by (simp add: tls_linked_def)
  obtain en ok c cl where e: "drain (tl_engines ?t ! ci) (tl_cipher ?t) = (en, ok, c, cl)" by (metis prod.collapse)
  define t1 where "t1 = ?t\<lparr>tl_engines := (tl_engines ?t)[ci := en], tl_cipher := c\<rparr>"
  have "length c = length (tl_cipher ?t)" using s engine_okD(3) [OF _ d e] by (simp add: tls_linked_def tls_inv_def)
  then have "tls_inv C t1" "tls_opens t1 = up s" "tl_trace t1 = tl_trace ?t" "tl_raw t1 = tl_raw ?t"
    using s by (simp_all add: tls_linked_def t1_def tls_inv_def)
  then have t1: "tls_said C (up s) ?t (up s) t1" by (rule tls_said_refl)
  obtain t2 sent where t2: "tls_raw_send C t1 ci (take cl (tl_cipher t1)) = (t2, sent)" by fastforce
  have t2s: "tls_said C (up s) ?t (up s) t2" using t2 raw_step_sent(1) [OF s up t1, of "take cl (tl_cipher t1)"] by simp
  show ?thesis
    using True e t2 said_closed [OF i raw_step_sent(2) [OF s up t1]] said_closed [OF i raw_step_sent(2) [OF s up t2s]]
      put_said [OF i t1] put_said [OF i t2s]
    by (auto simp: drain_engine_def Let_def simp flip: t1_def)
qed (use s in \<open>auto simp: drain_engine_def tls_linked_def intro: tls_said_refl\<close>)

lemma raw_step_trans: "raw_step S s s1 \<Longrightarrow> raw_step (up s1) s1 s2 \<Longrightarrow> raw_step S s s2"
  using tls_said_trans by blast

lemma drain_engines_step: assumes s: "joined s" shows "raw_step (up s) s (drain_engines C H s)"
proof (cases "en_drain (tc_engine C)")
  case None
  then show ?thesis using s by (auto simp: drain_engines_def tls_linked_def intro: tls_said_refl)
next
  case (Some drain)
  have "raw_step (up s) s (fold (drain_engine C H drain) cs s)" if "\<forall>ci \<in> set cs. ci < tls_max_connections C" for cs
    using that
  proof (induction cs rule: rev_induct)
    case Nil
    then show ?case using s by (auto simp: tls_linked_def intro: tls_said_refl)
  next
    case (snoc ci cs)
    then have a: "raw_step (up s) s (fold (drain_engine C H drain) cs s)" by simp
    then show ?case using raw_step_trans [OF a drain_engine_step [OF _ _ Some]] snoc.prems by simp
  qed
  from this [of "[0..<tls_max_connections C]"] show ?thesis using Some by (simp add: drain_engines_def)
qed

lemma driver_tick_step: assumes s: "joined s" shows "raw_step (up s) s (driver_tick C H now s)"
proof -
  have d: "raw_step (up s) s (drain_engines C H s)" by (rule drain_engines_step [OF s])
  then show ?thesis using said_tick [of "drain_engines C H s" "up s" "h_tr H s" now] by (simp add: driver_tick_def tls_linked_def [of C H inv up "drain_engines C H s"])
qed

lemma driver_open_step:
  assumes s: "joined s" and o: "driver_open C H ci now s = (e, s')"
  shows "joined s' \<and> tl_raw (h_tr H s') = tl_raw (h_tr H s) \<and>
    (if e = Err_ok then up s' = insert ci (up s)
       \<and> tl_trace (h_tr H s') = tl_trace (h_tr H s) @ [Noted ((new_event connection_opened)\<lparr>ev_ci := Some ci\<rparr>)]
     else up s' = up s \<and> tl_trace (h_tr H s') = tl_trace (h_tr H s))"
proof (cases "ci < tls_max_connections C")
  case True
  let ?t = "h_tr H s"
  define t1 where "t1 = ?t\<lparr>tl_engines := (tl_engines ?t)[ci := en_reset (tc_engine C) (tl_engines ?t ! ci)], tl_engine_open := (tl_engine_open ?t)[ci := True]\<rparr>"
  have t1: "tls_inv C t1" "tls_opens t1 = insert ci (up s)" "tl_raw t1 = tl_raw ?t" "tl_trace t1 = tl_trace ?t"
    using s True tls_opens_update(2) [of ci "?t\<lparr>tl_engines := (tl_engines ?t)[ci := en_reset (tc_engine C) (tl_engines ?t ! ci)]\<rparr>"]
    by (simp_all add: t1_def tls_linked_def tls_inv_def)
  obtain e1 s1 where h: "h_open H ci now (h_put H t1 s) = (e1, s1)" by fastforce
  have i: "inv (h_put H t1 s)" using s by (simp add: inv_put tls_linked_def)
  have s1: "inv s1" "h_tr H s1 = t1" "up s1 = (if e1 = Err_ok then insert ci (up s) else up s)"
    using opened [OF i h] by (auto simp: tr_put up_put split: if_splits)
  have no: "ci \<in> up s" if "e1 \<noteq> Err_ok" using admits [OF i True, of now] that h by (auto simp: up_put)
  let ?n = "t1\<lparr>tl_trace := tl_trace t1 @ [Noted ((new_event connection_opened)\<lparr>ev_ci := Some ci\<rparr>)]\<rparr>"
  have r: "e = e1" "s' = (if e1 = Err_ok then h_put H ?n s1 else s1)"
    using o True h s1(2) by (auto simp: driver_open_def Let_def simp flip: t1_def)
  show ?thesis
  proof (cases "e1 = Err_ok")
    case True
    have "tls_inv C ?n" using t1(1) by (simp add: tls_inv_def)
    then show ?thesis using True r s1 t1 by (simp add: tls_linked_def inv_put tr_put up_put)
  next
    case False
    then show ?thesis using r s1 t1 no by (simp add: tls_linked_def insert_absorb)
  qed
qed (use o s in \<open>simp add: driver_open_def\<close>)

end

lemma driver_sel [simp]:
  "h_open (driver C H) = driver_open C H" "h_data (driver C H) = driver_data C H" "h_closed (driver C H) = driver_closed C H"
  "h_tick (driver C H) = driver_tick C H" "h_tr (driver C H) s = tl_raw (h_tr H s)"
  "h_put (driver C H) raw s = h_put H ((h_tr H s)\<lparr>tl_raw := raw\<rparr>) s"
  by (simp_all add: driver_def)

text \<open>The contract of the wrapped host gives that of the driver.\<close>

sublocale tls_host \<subseteq> driver: polled "driver C H" "tc_raw_send C" "tc_raw_close C" "tls_linked C H inv up" up "\<lambda>s. tl_trace (h_tr H s)"
proof
  fix s s' ci d now e assume s: "tls_linked C H inv up s"
  show "tls_linked C H inv up s' \<and> (\<exists>as. tl_trace (h_tr H s') = tl_trace (h_tr H s) @ as
      \<and> transcript (tc_raw_send C) (tc_raw_close C) as (h_tr (driver C H) s) = Some (h_tr (driver C H) s') \<and> protocol as (up s) = Some (up s'))"
    if "ci \<in> up s" "h_data (driver C H) ci d now s = (e, s')"
    using driver_data_step [OF s that(1)] that(2) by (simp add: tls_said_def)
  show "tls_linked C H inv up (h_tick (driver C H) now s) \<and> (\<exists>as. tl_trace (h_tr H (h_tick (driver C H) now s)) = tl_trace (h_tr H s) @ as
      \<and> transcript (tc_raw_send C) (tc_raw_close C) as (h_tr (driver C H) s) = Some (h_tr (driver C H) (h_tick (driver C H) now s))
      \<and> protocol as (up s) = Some (up (h_tick (driver C H) now s)))"
    using driver_tick_step [OF s] by (simp add: tls_said_def)
  show "tls_linked C H inv up (h_closed (driver C H) ci s) \<and> (\<exists>as. tl_trace (h_tr H (h_closed (driver C H) ci s)) = tl_trace (h_tr H s) @ as
      \<and> transcript (tc_raw_send C) (tc_raw_close C) as (h_tr (driver C H) s) = Some (h_tr (driver C H) (h_closed (driver C H) ci s))
      \<and> protocol as (up s - {ci}) = Some (up (h_closed (driver C H) ci s)))"
    using driver_closed_step [OF s] by (simp add: tls_said_def)
  show "tls_linked C H inv up s' \<and> h_tr (driver C H) s' = h_tr (driver C H) s \<and> (if e = Err_ok then up s' = insert ci (up s)
       \<and> (\<exists>ev. tl_trace (h_tr H s') = tl_trace (h_tr H s) @ [Noted ev] \<and> opened_at ci ev \<and> (\<forall>cj. cj \<noteq> ci \<longrightarrow> \<not> opened_at cj ev))
     else up s' = up s \<and> tl_trace (h_tr H s') = tl_trace (h_tr H s))" if "h_open (driver C H) ci now s = (e, s')"
    using driver_open_step [OF s] that by (simp add: opened_at_def new_event_def)
qed (simp_all add: tr_put up_put inv_put tls_linked_def tls_inv_def)

section \<open>The pass-through engine\<close>

lemma null_copy_correct: "length src \<le> length dst \<Longrightarrow> null_copy src dst = src @ drop (length src) dst"
proof -
  assume l: "length src \<le> length dst"
  have "fold (\<lambda>i d. d[i := src ! i]) [0..<n] dst = take n src @ drop n dst" if "n \<le> length src" for n
    using that
  proof (induction n)
    case (Suc n)
    then have "fold (\<lambda>i d. d[i := src ! i]) [0..<Suc n] dst = (take n src @ drop n dst)[n := src ! n]" by simp
    also have "\<dots> = take n src @ src ! n # drop (Suc n) dst"
      using Suc.prems l by (simp add: list_update_append Cons_nth_drop_Suc [symmetric])
    finally show ?case using Suc.prems by (simp add: take_Suc_conv_app_nth)
  qed simp
  from this [of "length src"] show ?thesis by (simp add: null_copy_def)
qed

lemma null_engine_sel [simp]:
  "en_reset null_engine = id" "en_on_ciphertext null_engine = null_on_ciphertext" "en_encrypt null_engine = null_encrypt"
  "en_drain null_engine = None" "en_record_overhead null_engine = 0"
  by (simp_all add: null_engine_def)

lemma null_engine_ok: "engine_ok null_engine"
  by (auto simp: engine_ok_def null_on_ciphertext_def null_encrypt_def null_copy_correct split: if_splits)

lemma null_send_correct:
  assumes n: "tc_engine C = null_engine" and i: "tls_inv C t" and ci: "ci < tls_max_connections C"
  shows "tls_send C t ci pkt =
    (if length pkt > tc_buf_size C then (t, False)
     else let t = t\<lparr>tl_cipher := pkt @ drop (length pkt) (tl_cipher t)\<rparr> in if pkt = [] then (t, True) else tls_raw_send C t ci pkt)"
proof -
  have "length (tl_cipher t) = tc_buf_size C" "length (tl_engines t) = tls_max_connections C" using i by (simp_all add: tls_inv_def)
  moreover have "(tl_engines t)[ci := ()] = tl_engines t" by (simp add: list_eq_iff_nth_eq)
  ultimately show ?thesis using n ci by (simp add: tls_send_def null_encrypt_def null_copy_correct Let_def)
qed

lemma accepted_on_sent: "accepted_on cj (as @ [Sent ci pkt ok]) = accepted_on cj as @ (if ok \<and> cj = ci then pkt else [])"
  by (simp add: accepted_on_append accepted_step_def)

lemma null_send_wire:
  assumes "tc_engine C = null_engine" "tls_inv C t" "ci < tls_max_connections C" "tls_send C t ci pkt = (t', ok)"
  shows "accepted_on cj (tl_trace t') = accepted_on cj (tl_trace t) @ (if ok \<and> cj = ci then pkt else [])"
  using assms(4) null_send_correct [OF assms(1-3), of pkt]
  by (auto simp: Let_def tls_raw_send_def accepted_on_sent split: if_splits prod.splits)

lemma close_wire: "accepted_on cj (tl_trace (tls_close C t ci)) = accepted_on cj (tl_trace t)"
  by (simp add: tls_close_def tls_shut_def accepted_on_append accepted_step_def)

lemma null_transcript:
  assumes n: "tc_engine C = null_engine"
  shows "transcript (tls_send C) (tls_close C) as t = Some t' \<Longrightarrow> protocol as (tls_opens t) = Some S' \<Longrightarrow> tls_inv C t \<Longrightarrow>
    accepted_on cj (tl_trace t') = fold (accepted_step cj) as (accepted_on cj (tl_trace t))"
proof (induction as arbitrary: t)
  case (Cons a as)
  show ?case
  proof (cases a)
    case (Sent ci pkt ok)
    obtain t1 r where s: "tls_send C t ci pkt = (t1, r)" by fastforce
    have p: "ci \<in> tls_opens t" "r = ok" using Cons.prems Sent s by (auto split: if_splits)
    have "tls_inv C t1" "tls_opens t1 = tls_opens t" using tlsed.send_good [OF Cons.prems(3) p(1) s] by auto
    then show ?thesis using Cons.IH [of t1] Cons.prems Sent s p null_send_wire [OF n Cons.prems(3) _ s, of cj] tls_opens_bound [OF Cons.prems(3) p(1)]
      by (simp add: accepted_step_def)
  next
    case (Closed ci)
    have p: "ci \<in> tls_opens t" using Cons.prems Closed by (auto split: if_splits)
    then show ?thesis using Cons.IH [of "tls_close C t ci"] Cons.prems Closed tlsed.close_good [OF Cons.prems(3) p]
      by (simp add: accepted_step_def close_wire)
  next
    case (Noted e)
    then show ?thesis using Cons.IH [of t] Cons.prems by (simp add: accepted_step_def opened_at_def split: if_splits)
  qed
qed simp

text \<open>The bytes accepted on the wire are those the host was told were accepted.\<close>

definition same_bytes :: "('s, ('e, 'raw) tls) host \<Rightarrow> ('s \<Rightarrow> action list) \<Rightarrow> 's \<Rightarrow> bool" where
  "same_bytes H said s \<longleftrightarrow> (\<forall>ci. accepted_on ci (tl_trace (h_tr H s)) = accepted_on ci (said s))"

locale null_host = tls_host H C inv up said
  for H :: "('s, (unit, 'raw) tls) host" and C :: "(unit, 'raw) tls_conf" and inv and up and said +
  assumes null: "tc_engine C = null_engine"
begin

lemma same_host:
  assumes "same_bytes H said s" "tls_inv C (h_tr H s)" "tls_opens (h_tr H s) = S"
    and "said s' = said s @ as" "transcript (tls_send C) (tls_close C) as (h_tr H s) = Some (h_tr H s')" "protocol as S = Some S'"
  shows "same_bytes H said s'"
  using null_transcript [OF null assms(5) _ assms(2)] assms(1,3,4,6) by (simp add: same_bytes_def accepted_on_append)

lemma same_put: "same_bytes H said s \<Longrightarrow> \<forall>ci. accepted_on ci (tl_trace t) = accepted_on ci (tl_trace (h_tr H s)) \<Longrightarrow> same_bytes H said (h_put H t s)"
  by (simp add: same_bytes_def tr_put said_put)

lemma same_closed:
  assumes i: "inv s" "same_bytes H said s" and t: "tls_inv C t" "tls_opens t = up s - {ci}" "\<forall>cj. accepted_on cj (tl_trace t) = accepted_on cj (tl_trace (h_tr H s))"
  shows "same_bytes H said (h_closed H ci (h_put H t s))"
proof -
  have "inv (h_put H t s)" using i by (simp add: inv_put)
  from closed [OF this, of ci] obtain as where c: "said (h_closed H ci (h_put H t s)) = said (h_put H t s) @ as"
      "transcript (tls_send C) (tls_close C) as (h_tr H (h_put H t s)) = Some (h_tr H (h_closed H ci (h_put H t s)))"
      "protocol as (up (h_put H t s) - {ci}) = Some (up (h_closed H ci (h_put H t s)))" by blast
  show ?thesis by (rule same_host [OF same_put [OF i(2) t(3)] _ _ c]) (use t in \<open>simp_all add: tr_put up_put\<close>)
qed

lemma null_data_same:
  assumes s: "tls_linked C H inv up s" "same_bytes H said s" "ci \<in> up s" and d: "driver_data C H ci cipher_in now s = (e, s')"
  shows "same_bytes H said s'"
proof -
  let ?t = "h_tr H s"
  have i: "inv s" "tls_inv C ?t" "tls_opens ?t = up s" using s(1) by (simp_all add: tls_linked_def)
  have ci: "ci < tls_max_connections C" by (rule joinedD [OF s(1,3)])
  have es: "(tl_engines ?t)[ci := ()] = tl_engines ?t" by (simp add: list_eq_iff_nth_eq)
  define t1 where "t1 = ?t\<lparr>tl_plain := cipher_in @ drop (length cipher_in) (tl_plain ?t)\<rparr>"
  show ?thesis
  proof (cases "length cipher_in > tc_buf_size C")
    case True
    have "same_bytes H said (h_closed H ci (h_put H (tls_close C ?t ci) s))"
      by (rule same_closed [OF i(1) s(2)]) (use tlsed.close_good [OF i(2)] i(3) s(3) in \<open>simp_all add: close_wire\<close>)
    moreover have "length (tl_plain ?t) = tc_buf_size C" using i(2) by (simp add: tls_inv_def)
    ultimately show ?thesis using d True ci null es by (auto simp: driver_data_def null_on_ciphertext_def Let_def)
  next
    case False
    have l: "length (tl_plain ?t) = tc_buf_size C" using i(2) by (simp add: tls_inv_def)
    have t1: "tls_inv C t1" "tls_opens t1 = up s" "tl_trace t1 = tl_trace ?t" using i False l by (simp_all add: t1_def tls_inv_def)
    have p: "same_bytes H said (h_put H t1 s)" by (rule same_put [OF s(2)]) (simp add: t1)
    have dd: "driver_data C H ci cipher_in now s = (if cipher_in = [] then (Err_ok, h_put H t1 s) else h_data H ci cipher_in now (h_put H t1 s))"
      using False l ci null es by (simp add: driver_data_def null_on_ciphertext_def null_copy_correct Let_def t1_def)
    show ?thesis
    proof (cases "cipher_in = []")
      case True
      then show ?thesis using d dd p by auto
    next
      case ne: False
      have h: "inv (h_put H t1 s)" "ci \<in> up (h_put H t1 s)" "h_data H ci cipher_in now (h_put H t1 s) = (e, s')"
        using i s(3) ne d dd by (simp_all add: inv_put up_put)
      obtain as where c: "said s' = said (h_put H t1 s) @ as"
        "transcript (tls_send C) (tls_close C) as (h_tr H (h_put H t1 s)) = Some (h_tr H s')" "protocol as (up (h_put H t1 s)) = Some (up s')"
        using data [OF h] by blast
      show ?thesis by (rule same_host [OF p _ _ c]) (use t1 in \<open>simp_all add: tr_put up_put\<close>)
    qed
  qed
qed

lemma null_closed_same:
  assumes s: "tls_linked C H inv up s" "same_bytes H said s" shows "same_bytes H said (driver_closed C H ci s)"
proof (cases "ci < tls_max_connections C")
  case True
  let ?t = "(h_tr H s)\<lparr>tl_engine_open := (tl_engine_open (h_tr H s))[ci := False]\<rparr>"
  have "same_bytes H said (h_closed H ci (h_put H ?t s))"
    by (rule same_closed [OF _ s(2)]) (use s(1) tls_opens_update(1) [of "h_tr H s" ci] in \<open>simp_all add: tls_linked_def tls_inv_def\<close>)
  then show ?thesis using True by (simp add: driver_closed_def)
qed (use s(2) in \<open>simp add: driver_closed_def\<close>)

lemma null_tick_same:
  assumes s: "tls_linked C H inv up s" "same_bytes H said s" shows "same_bytes H said (driver_tick C H now s)"
proof -
  have i: "inv s" "tls_inv C (h_tr H s)" "tls_opens (h_tr H s) = up s" using s(1) by (simp_all add: tls_linked_def)
  obtain as where c: "said (h_tick H now s) = said s @ as"
    "transcript (tls_send C) (tls_close C) as (h_tr H s) = Some (h_tr H (h_tick H now s))" "protocol as (up s) = Some (up (h_tick H now s))"
    using tick [OF i(1), of now] by blast
  have "same_bytes H said (h_tick H now s)" by (rule same_host [OF s(2) i(2,3) c])
  then show ?thesis by (simp add: driver_tick_def drain_engines_def null)
qed

lemma null_open_same:
  assumes s: "tls_linked C H inv up s" "same_bytes H said s" and o: "driver_open C H ci now s = (e, s')"
  shows "same_bytes H said s'"
proof (cases "ci < tls_max_connections C")
  case True
  let ?t = "h_tr H s"
  define t1 where "t1 = ?t\<lparr>tl_engines := (tl_engines ?t)[ci := ()], tl_engine_open := (tl_engine_open ?t)[ci := True]\<rparr>"
  have t1: "?t\<lparr>tl_engines := (tl_engines ?t)[ci := ()], tl_engine_open := (tl_engine_open ?t)[ci := True]\<rparr> = t1" by (simp add: t1_def)
  obtain e1 s1 where h: "h_open H ci now (h_put H t1 s) = (e1, s1)" by fastforce
  let ?n = "t1\<lparr>tl_trace := tl_trace t1 @ [Noted ((new_event connection_opened)\<lparr>ev_ci := Some ci\<rparr>)]\<rparr>"
  have i: "inv (h_put H t1 s)" using s(1) by (simp add: inv_put tls_linked_def)
  have s1: "h_tr H s1 = t1" using opened [OF i h] by (simp add: tr_put)
  have r: "s' = (if e1 = Err_ok then h_put H ?n s1 else s1)"
    using o True h s1 by (auto simp: driver_open_def Let_def t1)
  have tr: "tl_trace t1 = tl_trace ?t" by (simp add: t1_def)
  show ?thesis
  proof (cases "e1 = Err_ok")
    case ok: True
    obtain ev where ev: "said s1 = said s @ [Noted ev]" "opened_at ci ev" "\<forall>cj. cj \<noteq> ci \<longrightarrow> \<not> opened_at cj ev"
      using opened [OF i h] ok by (auto simp: said_put)
    have n: "opened_at cj ((new_event connection_opened)\<lparr>ev_ci := Some ci\<rparr>) \<longleftrightarrow> cj = ci" for cj by (auto simp: opened_at_def new_event_def)
    have "accepted_on cj (tl_trace ?n) = accepted_on cj (said s1)" for cj
      using s(2) ev n [of cj] by (cases "cj = ci") (simp_all add: same_bytes_def accepted_on_opened tr)
    then show ?thesis using ok r by (simp add: same_bytes_def tr_put said_put)
  next
    case False
    then show ?thesis using opened [OF i h] s(2) r s1 tr by (simp add: same_bytes_def said_put)
  qed
qed (use o s(2) in \<open>simp add: driver_open_def\<close>)

end

sublocale null_host \<subseteq> null_driver: polled "driver C H" "tc_raw_send C" "tc_raw_close C"
  "\<lambda>s. tls_linked C H inv up s \<and> same_bytes H said s" up "\<lambda>s. tl_trace (h_tr H s)"
proof
  fix s s' ci d now e raw
  show "(tls_linked C H inv up (h_put (driver C H) raw s) \<and> same_bytes H said (h_put (driver C H) raw s)) = (tls_linked C H inv up s \<and> same_bytes H said s)"
    using driver.inv_put [of raw s] by (simp add: same_bytes_def tr_put said_put)
  assume s: "tls_linked C H inv up s \<and> same_bytes H said s"
  then have s1: "tls_linked C H inv up s" "same_bytes H said s" by auto
  show "(tls_linked C H inv up s' \<and> same_bytes H said s') \<and> (\<exists>as. tl_trace (h_tr H s') = tl_trace (h_tr H s) @ as
      \<and> transcript (tc_raw_send C) (tc_raw_close C) as (h_tr (driver C H) s) = Some (h_tr (driver C H) s') \<and> protocol as (up s) = Some (up s'))"
    if "ci \<in> up s" "h_data (driver C H) ci d now s = (e, s')"
    using driver.data [OF s1(1) that] null_data_same [OF s1 that(1)] that(2) by simp
  show "(tls_linked C H inv up (h_tick (driver C H) now s) \<and> same_bytes H said (h_tick (driver C H) now s)) \<and>
      (\<exists>as. tl_trace (h_tr H (h_tick (driver C H) now s)) = tl_trace (h_tr H s) @ as
      \<and> transcript (tc_raw_send C) (tc_raw_close C) as (h_tr (driver C H) s) = Some (h_tr (driver C H) (h_tick (driver C H) now s))
      \<and> protocol as (up s) = Some (up (h_tick (driver C H) now s)))"
    using driver.tick [OF s1(1), of now] null_tick_same [OF s1, of now] by simp
  show "(tls_linked C H inv up (h_closed (driver C H) ci s) \<and> same_bytes H said (h_closed (driver C H) ci s)) \<and>
      (\<exists>as. tl_trace (h_tr H (h_closed (driver C H) ci s)) = tl_trace (h_tr H s) @ as
      \<and> transcript (tc_raw_send C) (tc_raw_close C) as (h_tr (driver C H) s) = Some (h_tr (driver C H) (h_closed (driver C H) ci s))
      \<and> protocol as (up s - {ci}) = Some (up (h_closed (driver C H) ci s)))"
    using driver.closed [OF s1(1), of ci] null_closed_same [OF s1, of ci] by simp
  show "(tls_linked C H inv up s' \<and> same_bytes H said s') \<and> h_tr (driver C H) s' = h_tr (driver C H) s \<and> (if e = Err_ok then up s' = insert ci (up s)
       \<and> (\<exists>ev. tl_trace (h_tr H s') = tl_trace (h_tr H s) @ [Noted ev] \<and> opened_at ci ev \<and> (\<forall>cj. cj \<noteq> ci \<longrightarrow> \<not> opened_at cj ev))
     else up s' = up s \<and> tl_trace (h_tr H s') = tl_trace (h_tr H s))" if "h_open (driver C H) ci now s = (e, s')"
    using driver.opened [OF s1(1) that] null_open_same [OF s1] that by simp
qed (simp_all add: tr_put up_put)

end
