(* ===== verification/Tls_Server.thy ===== *)
theory Tls_Server
  imports Tls_Adapter
begin

text \<open>
  The three layers of \<open>tls_adapter.hpp\<close> together: the stream server below, the adapter with its engine, the
  broker on top. The server runs the driver of the adapter instead of the broker.
\<close>

section \<open>Model\<close>

definition tls_over :: "'e tls_engine \<Rightarrow> nat \<Rightarrow> nat \<Rightarrow> 'os stream_conf \<Rightarrow> ('e, 'os stream_server) tls_conf" where
  "tls_over N max_conns buf_size S = \<lparr>tc_engine = N, tc_max_conns = max_conns, tc_buf_size = buf_size, tc_raw_send = stream_send S,
     tc_raw_close = stream_close S, tc_raw_conns = sc_max_conns S, tc_raw_buf = sc_out_buf S\<rparr>"

definition tls_env :: "('e, 'raw) tls_conf \<Rightarrow> traits \<Rightarrow> 'ctx security \<Rightarrow> ('ctx, ('e, 'raw) tls) env" where
  "tls_env C T sec = \<lparr>e_traits = T, e_sec = sec, e_send = tls_send C, e_close = tls_close C\<rparr>"

inductive tls_run :: "('e, 'os stream_server) tls_conf \<Rightarrow> 'os stream_conf \<Rightarrow> traits \<Rightarrow> ('ctx, ('e, 'os stream_server) tls) broker \<Rightarrow> bool"
  for C S T where
  trun_start: "tls_run C S T (broker_init T (tls_init C e (stream_init S os)))"
| trun_tcp: "tls_run C S T b \<Longrightarrow> tcp_open K (sc_os S) port bind_addr (tl_raw (b_tr b)) = (raw, ok) \<Longrightarrow>
    tls_run C S T (b\<lparr>b_tr := (b_tr b)\<lparr>tl_raw := raw\<rparr>\<rparr>)"
| trun_os: "tls_run C S T b \<Longrightarrow> tls_run C S T (b\<lparr>b_tr := (b_tr b)\<lparr>tl_raw := (tl_raw (b_tr b))\<lparr>ss_os := os\<rparr>\<rparr>\<rparr>)"
| trun_pass: "tls_run C S T b \<Longrightarrow> tls_run C S T (snd (poll_once (driver C (broker_host (tls_env C T sec))) S timeout_ms b))"
| trun_publish: "tls_run C S T b \<Longrightarrow> tls_run C S T (snd (publish (tls_env C T sec) topic payload q retain b))"

section \<open>The layers stay in step\<close>

lemma tls_over_sel [simp]:
  "tc_engine (tls_over N m B S) = N" "tc_max_conns (tls_over N m B S) = m" "tc_buf_size (tls_over N m B S) = B"
  "tc_raw_send (tls_over N m B S) = stream_send S" "tc_raw_close (tls_over N m B S) = stream_close S"
  "tc_raw_conns (tls_over N m B S) = sc_max_conns S" "tc_raw_buf (tls_over N m B S) = sc_out_buf S"
  by (simp_all add: tls_over_def)

lemma tls_env_sel [simp]:
  "e_traits (tls_env C T sec) = T" "e_sec (tls_env C T sec) = sec" "e_send (tls_env C T sec) = tls_send C" "e_close (tls_env C T sec) = tls_close C"
  by (simp_all add: tls_env_def)

text \<open>
  The broker asserts that the adapter has at least its number of connections. The adapter needs the
  converse as well: see \<open>driver_open_stale\<close>.
\<close>

definition tls_settled :: "('e, 'raw) tls_conf \<Rightarrow> traits \<Rightarrow> ('ctx, ('e, 'raw) tls) broker \<Rightarrow> bool" where
  "tls_settled C T b \<longleftrightarrow> settled T b \<and> tls_max_connections C \<le> max_connections T"

context polled
begin

lemma guarded: "polled H snd_op close_op (\<lambda>s. inv s \<and> P) up said"
proof
  fix s s' ci d now e assume i: "inv s \<and> P"
  show "(inv s' \<and> P) \<and> (\<exists>as. said s' = said s @ as \<and> transcript snd_op close_op as (h_tr H s) = Some (h_tr H s') \<and> protocol as (up s) = Some (up s'))"
    if "ci \<in> up s" "h_data H ci d now s = (e, s')" using data [OF _ that] i by simp
  show "(inv (h_tick H now s) \<and> P) \<and> (\<exists>as. said (h_tick H now s) = said s @ as
      \<and> transcript snd_op close_op as (h_tr H s) = Some (h_tr H (h_tick H now s)) \<and> protocol as (up s) = Some (up (h_tick H now s)))"
    using tick [of s now] i by simp
  show "(inv (h_closed H ci s) \<and> P) \<and> (\<exists>as. said (h_closed H ci s) = said s @ as
      \<and> transcript snd_op close_op as (h_tr H s) = Some (h_tr H (h_closed H ci s)) \<and> protocol as (up s - {ci}) = Some (up (h_closed H ci s)))"
    using closed [of s ci] i by simp
  show "(inv s' \<and> P) \<and> h_tr H s' = h_tr H s \<and> (if e = Err_ok then up s' = insert ci (up s)
      \<and> (\<exists>ev. said s' = said s @ [Noted ev] \<and> opened_at ci ev \<and> (\<forall>cj. cj \<noteq> ci \<longrightarrow> \<not> opened_at cj ev)) else up s' = up s \<and> said s' = said s)"
    if "h_open H ci now s = (e, s')" using opened [OF _ that] i by simp
qed (simp_all add: tr_put inv_put up_put said_put)

end

lemma conn_open_admits:
  assumes "settled T b" "ci < max_connections T" "ci \<notin> open_conns b" "e_traits E = T"
  shows "fst (conn_open E ci now b) = Err_ok"
proof -
  have "\<not> cn_active (conn_at b ci)" using active_open [OF assms(1)] assms(2,3) by blast
  moreover have "length (b_conns b) = max_connections T" using assms(1) wfD(1) [of T b] by (simp add: settled_def)
  ultimately show ?thesis using assms(2,4) by (simp add: conn_open_def Let_def split_beta)
qed

interpretation tls_served: tls_host "broker_host (tls_env C T sec)" C "tls_settled C T" open_conns b_trace
  for C :: "('e, 'raw) tls_conf" and T :: traits and sec :: "'ctx security"
proof (rule tls_host.intro)
  have "polled (broker_host (tls_env C T sec)) (tls_send C) (tls_close C) (settled T) open_conns b_trace"
    using direct.polled_axioms [of "tls_env C T sec"] by simp
  from polled.guarded [OF this] show "polled (broker_host (tls_env C T sec)) (tls_send C) (tls_close C) (tls_settled C T) open_conns b_trace"
    by (simp add: tls_settled_def [abs_def])
  show "tls_host_axioms (broker_host (tls_env C T sec)) C (tls_settled C T) open_conns"
    by (rule tls_host_axioms.intro) (use conn_open_admits [of T _ _ "tls_env C T sec"] in \<open>simp add: tls_settled_def\<close>)
qed

interpretation tls_stream: stream_host "driver (tls_over N m B S) (broker_host (tls_env (tls_over N m B S) T sec))" S
    "tls_linked (tls_over N m B S) (broker_host (tls_env (tls_over N m B S) T sec)) (tls_settled (tls_over N m B S) T) open_conns"
    open_conns "\<lambda>b. tl_trace (b_tr b)"
  for N :: "'e tls_engine" and m B :: nat and S :: "'os stream_conf" and T :: traits and sec :: "'ctx security"
proof (rule stream_host.intro, rule driven.intro)
  show "polled (driver (tls_over N m B S) (broker_host (tls_env (tls_over N m B S) T sec))) (stream_send S) (stream_close S)
    (tls_linked (tls_over N m B S) (broker_host (tls_env (tls_over N m B S) T sec)) (tls_settled (tls_over N m B S) T) open_conns)
    open_conns (\<lambda>b. tl_trace (b_tr b))"
    using tls_served.driver.polled_axioms [of "tls_over N m B S" T sec] by simp
qed (rule stream.byte_transport_axioms)

text \<open>The state between passes: the broker, the adapter and the server agree on the connections, and each carries the records the adapter gave out.\<close>

definition tls_together :: "('e, 'os stream_server) tls_conf \<Rightarrow> 'os stream_conf \<Rightarrow> traits \<Rightarrow> ('ctx, ('e, 'os stream_server) tls) broker \<Rightarrow> bool" where
  "tls_together C S T b \<longleftrightarrow> tls_settled C T b \<and> tls_inv C (b_tr b) \<and> tls_opens (b_tr b) = open_conns b
     \<and> stream_inv S (tl_raw (b_tr b)) \<and> stream_opens (tl_raw (b_tr b)) = open_conns b
     \<and> (\<forall>ci \<in> open_conns b. stream_out S (tl_raw (b_tr b)) ci = accepted_on ci (tl_trace (b_tr b)))"

lemma tls_together_step:
  "tls_together C S T b \<longleftrightarrow> tls_linked C (broker_host E) (tls_settled C T) open_conns b
     \<and> stream_step (driver C (broker_host E)) S open_conns (\<lambda>b. tl_trace (b_tr b)) b"
  by (auto simp: tls_together_def tls_linked_def agrees_def)

lemma tls_together_init:
  assumes "traits_ok T" "conf_ok S" "engine_ok (tc_engine C)" "tls_max_connections C \<le> max_connections T"
  shows "tls_together C S T (broker_init T (tls_init C e (stream_init S os)))"
proof -
  have "settled T (broker_init T (tls_init C e (stream_init S os)))" by (rule settled_reachable [OF assms(1) reach_init])
  then show ?thesis using assms(3,4) stream_init_inv [OF assms(2), of os]
    by (simp add: tls_together_def tls_settled_def open_conns_init)
      (simp add: broker_init_def tls_inv_def tls_init_def tls_opens_def)
qed

lemma tls_together_listener:
  assumes "tls_together C S T b" "listener_step S (tl_raw (b_tr b)) raw ok" shows "tls_together C S T (b\<lparr>b_tr := (b_tr b)\<lparr>tl_raw := raw\<rparr>\<rparr>)"
  using assms slot_at_cong [of raw "tl_raw (b_tr b)"]
  by (simp add: tls_together_def tls_settled_def listener_step_def stream_opens_def stream_out_def tls_inv_def)

lemma tls_together_os:
  assumes "tls_together C S T b" shows "tls_together C S T (b\<lparr>b_tr := (b_tr b)\<lparr>tl_raw := (tl_raw (b_tr b))\<lparr>ss_os := os\<rparr>\<rparr>\<rparr>)"
  using assms slot_at_cong [of "(tl_raw (b_tr b))\<lparr>ss_os := os\<rparr>" "tl_raw (b_tr b)"]
  by (simp add: tls_together_def tls_settled_def stream_inv_os stream_opens_def stream_out_def tls_inv_def)

lemma tls_publish_said:
  assumes "settled T b" "tls_inv C (b_tr b)" "tls_opens (b_tr b) = open_conns b"
  obtains as where "b_trace (snd (publish (tls_env C T sec) topic payload q retain b)) = b_trace b @ as"
    "transcript (tls_send C) (tls_close C) as (b_tr b) = Some (b_tr (snd (publish (tls_env C T sec) topic payload q retain b)))"
    "protocol as (tls_opens (b_tr b)) = Some (open_conns (snd (publish (tls_env C T sec) topic payload q retain b)))"
  using talks_publish [of "tls_env C T sec" b topic payload q retain] assms by (auto simp: talks_def obeys_def settled_def)

lemma tls_together_publish:
  assumes t: "tls_together (tls_over N m B S) S T b"
  shows "tls_together (tls_over N m B S) S T (snd (publish (tls_env (tls_over N m B S) T sec) topic payload q retain b))"
proof -
  let ?C = "tls_over N m B S" and ?E = "tls_env (tls_over N m B S) T sec"
  let ?b = "snd (publish ?E topic payload q retain b)"
  have s: "settled T b" "tls_inv ?C (b_tr b)" "tls_opens (b_tr b) = open_conns b" using t by (simp_all add: tls_together_def tls_settled_def)
  obtain as where as: "transcript (tls_send ?C) (tls_close ?C) as (b_tr b) = Some (b_tr ?b)" "protocol as (tls_opens (b_tr b)) = Some (open_conns ?b)"
    using tls_publish_said [OF s, where sec = sec] by blast
  obtain bs where i: "tls_inv ?C (b_tr ?b)" "tls_opens (b_tr ?b) = open_conns ?b" and bs: "tl_trace (b_tr ?b) = tl_trace (b_tr b) @ bs"
      "transcript (stream_send S) (stream_close S) bs (tl_raw (b_tr b)) = Some (tl_raw (b_tr ?b))" "protocol bs (open_conns b) = Some (open_conns ?b)"
    using tls_transcript [OF as s(2)] s(3) by (auto simp: tls_said_def)
  have "stream_step (driver ?C (broker_host ?E)) S open_conns (\<lambda>b. tl_trace (b_tr b)) ?b"
    by (rule tls_stream.agrees_calls [where s = b and S = "open_conns b"]) (use t bs in \<open>simp_all add: tls_together_def\<close>)
  then show ?thesis using i t settled_api [OF s(1) step_publish [of ?E]]
    by (simp add: tls_together_step [of _ _ _ _ ?E] tls_linked_def tls_settled_def tls_together_def)
qed

theorem tls_run_inv:
  assumes "traits_ok T" "conf_ok S" "engine_ok N" "tls_max_connections (tls_over N m B S) \<le> max_connections T"
  shows "tls_run (tls_over N m B S) S T b \<Longrightarrow> tls_together (tls_over N m B S) S T b"
proof (induction rule: tls_run.induct)
  case (trun_start e os)
  then show ?case using tls_together_init [OF assms(1,2) _ assms(4)] assms(3) by simp
next
  case (trun_tcp b K port bind_addr raw ok)
  then show ?case using tls_together_listener [OF _ tcp_open_step [OF trun_tcp.hyps(2)]] by simp
next
  case (trun_os b os)
  then show ?case by (simp add: tls_together_os)
next
  case (trun_pass b sec timeout_ms)
  then show ?case using tls_stream.step_poll_once [where N = N and m = m and B = B and S = S and T = T and sec = sec and s = b and timeout = timeout_ms] by (simp add: tls_together_step [where E = "tls_env (tls_over N m B S) T sec"])
next
  case (trun_publish b sec topic payload q retain)
  then show ?case by (simp add: tls_together_publish)
qed

section \<open>With the pass-through engine\<close>

interpretation null_served: null_host "broker_host (tls_env (tls_over null_engine m B S) T sec)" "tls_over null_engine m B S"
    "tls_settled (tls_over null_engine m B S) T" open_conns b_trace
  for m B :: nat and S :: "'os stream_conf" and T :: traits and sec :: "'ctx security"
  by (intro null_host.intro tls_served.tls_host_axioms null_host_axioms.intro) simp

interpretation null_stream: stream_host "driver (tls_over null_engine m B S) (broker_host (tls_env (tls_over null_engine m B S) T sec))" S
    "\<lambda>b. tls_linked (tls_over null_engine m B S) (broker_host (tls_env (tls_over null_engine m B S) T sec)) (tls_settled (tls_over null_engine m B S) T) open_conns b
       \<and> same_bytes (broker_host (tls_env (tls_over null_engine m B S) T sec)) b_trace b"
    open_conns "\<lambda>b. tl_trace (b_tr b)"
  for m B :: nat and S :: "'os stream_conf" and T :: traits and sec :: "'ctx security"
proof (rule stream_host.intro, rule driven.intro)
  let ?C = "tls_over null_engine m B S" and ?E = "tls_env (tls_over null_engine m B S) T sec"
  show "polled (driver ?C (broker_host ?E)) (stream_send S) (stream_close S)
      (\<lambda>b. tls_linked ?C (broker_host ?E) (tls_settled ?C T) open_conns b \<and> same_bytes (broker_host ?E) b_trace b) open_conns (\<lambda>b. tl_trace (b_tr b))"
    using null_served.null_driver.polled_axioms [of m B S T sec] by simp
qed (rule stream.byte_transport_axioms)

lemma null_run_same:
  assumes "traits_ok T" "conf_ok S" "tls_max_connections (tls_over null_engine m B S) \<le> max_connections T"
  shows "tls_run (tls_over null_engine m B S) S T b \<Longrightarrow> accepted_on ci (tl_trace (b_tr b)) = accepted_on ci (b_trace b)"
proof (induction arbitrary: ci rule: tls_run.induct)
  case (trun_start e os)
  then show ?case by (simp add: broker_init_def tls_init_def)
next
  case (trun_pass b sec timeout_ms)
  let ?C = "tls_over null_engine m B S" and ?E = "tls_env (tls_over null_engine m B S) T sec"
  have "tls_together ?C S T b" by (rule tls_run_inv [OF assms(1,2) null_engine_ok assms(3) trun_pass.hyps])
  then have "same_bytes (broker_host ?E) b_trace (snd (poll_once (driver ?C (broker_host ?E)) S timeout_ms b))"
    using null_stream.step_poll_once [where m = m and B = B and S = S and T = T and sec = sec and s = b and timeout = timeout_ms] trun_pass.IH by (simp add: tls_together_step [where E = ?E] same_bytes_def)
  then show ?case by (simp add: same_bytes_def)
next
  case (trun_publish b sec topic payload q retain)
  let ?C = "tls_over null_engine m B S"
  have t: "tls_together ?C S T b" by (rule tls_run_inv [OF assms(1,2) null_engine_ok assms(3) trun_publish.hyps])
  then have s: "settled T b" "tls_inv ?C (b_tr b)" "tls_opens (b_tr b) = open_conns b" by (simp_all add: tls_together_def tls_settled_def)
  obtain as where "b_trace (snd (publish (tls_env ?C T sec) topic payload q retain b)) = b_trace b @ as"
    "transcript (tls_send ?C) (tls_close ?C) as (b_tr b) = Some (b_tr (snd (publish (tls_env ?C T sec) topic payload q retain b)))"
    "protocol as (tls_opens (b_tr b)) = Some (open_conns (snd (publish (tls_env ?C T sec) topic payload q retain b)))"
    by (rule tls_publish_said [OF s])
  then show ?case using null_transcript [of ?C as "b_tr b"] s(2) trun_publish.IH [of ci] by (simp add: accepted_on_append)
qed simp_all

section \<open>What fits\<close>





section \<open>A stack in use\<close>

definition sample_tls_conf :: "(unit, nat stream_server) tls_conf" where
  "sample_tls_conf = tls_over null_engine 2 128 sample_conf"

definition sample_tls_listening :: "(unit, (unit, nat stream_server) tls) broker" where
  "sample_tls_listening = (let b = broker_init sample_traits (tls_init sample_tls_conf () (stream_init sample_conf 3))
     in b\<lparr>b_tr := (b_tr b)\<lparr>tl_raw := sample_listening\<rparr>\<rparr>)"

abbreviation sample_driver :: "((unit, (unit, nat stream_server) tls) broker, nat stream_server) host" where
  "sample_driver \<equiv> driver sample_tls_conf (broker_host (tls_env sample_tls_conf sample_traits allow_all))"

text \<open>A pass that accepts two connections.\<close>

definition sample_tls :: "(unit, (unit, nat stream_server) tls) broker" where
  "sample_tls = snd (poll_once sample_driver sample_conf 100 sample_tls_listening)"

lemma sample_tls_run: "tls_run sample_tls_conf sample_conf sample_traits sample_tls"
proof -
  have "tls_run sample_tls_conf sample_conf sample_traits sample_tls_listening"
    unfolding sample_tls_listening_def Let_def
    by (rule trun_tcp [OF trun_start, where K = sample_sockets and port = 1883 and bind_addr = None
          and ok = "snd (tcp_open sample_sockets sample_posix 1883 None (stream_init sample_conf 3))"])
      (simp add: sample_listening_def broker_init_def tls_init_def)
  then show ?thesis unfolding sample_tls_def by (rule trun_pass)
qed

definition sample_tls_accepted :: "(unit, (unit, nat stream_server) tls) broker" where
  "sample_tls_accepted =
    (let s = (\<lambda>fd. (new_slot 64)\<lparr>sl_fd := fd\<rparr>); c = (conn_reset (new_conn 32))\<lparr>cn_active := True, cn_deadline_ms := 2000\<rparr>;
         e = (\<lambda>ci. Noted ((new_event connection_opened)\<lparr>ev_ci := Some ci\<rparr>))
     in sample_tls_listening\<lparr>b_conns := [c, c], b_trace := [e 0, e 1],
          b_tr := (b_tr sample_tls_listening)\<lparr>tl_raw := sample_listening\<lparr>ss_os := 6, ss_got := [3, 4, 5], ss_slots := [s 4, s 5]\<rparr>,
            tl_engine_open := [True, True], tl_trace := [e 0, e 1]\<rparr>\<rparr>)"

lemma sample_tls_accept: "accept_new sample_driver sample_conf 1000 sample_tls_listening = sample_tls_accepted"
  by code_simp

lemma sample_tls_pass_fds:
  "map sl_fd (ss_slots (flush_all sample_conf (tl_raw (b_tr (driver_tick sample_tls_conf
     (broker_host (tls_env sample_tls_conf sample_traits allow_all)) 1000 sample_tls_accepted))))) = [4, 5]"
  by code_simp

lemma sample_tls_fds: "map sl_fd (ss_slots (tl_raw (b_tr sample_tls))) = [4, 5]"
proof -
  have l: "tl_raw (b_tr sample_tls_listening) = sample_listening" by (simp add: sample_tls_listening_def Let_def)
  have s: "sample_tls_listening\<lparr>b_tr := (b_tr sample_tls_listening)\<lparr>tl_raw := sample_listening\<rparr>\<rparr> = sample_tls_listening"
    by (simp add: sample_tls_listening_def Let_def)
  have "sample_listening\<lparr>ss_os := ss_os sample_listening\<rparr> = sample_listening" by simp
  then show ?thesis using sample_tls_pass_fds
    by (simp add: sample_tls_def poll_once_def l s sample_paused sample_poll_set sample_posix_sel serve_event_def rv_any_def sample_tls_accept Let_def)
qed

section \<open>Properties\<close>

text \<open>
  The adapter marks an engine open before it asks the broker. When the broker has fewer connections than the
  adapter, its refusal leaves the mark standing, and \<open>drain_engines\<close> serves the slot.
\<close>

lemma driver_open_stale:
  assumes "tls_inv C (b_tr b)" "ci < tls_max_connections C" "max_connections T \<le> ci"
  shows "\<exists>b'. driver_open C (broker_host (tls_env C T sec)) ci now b = (Err_state, b') \<and> ci \<in> tls_opens (b_tr b')"
  using assms by (auto simp: driver_open_def conn_open_def Let_def tls_inv_def tls_opens_def)

text \<open>C17: with any engine, even one that reports lengths beyond its buffers, the three layers agree between poll passes: the slots
  of the server with a descriptor, the engines marked open and the active connections of the broker are the
  same, and on each the bytes taken by the system followed by those in the ring are the records the adapter
  handed down since the connection was opened.\<close>

theorem tls_layers_agree:
  assumes "traits_ok T" "conf_ok S" "engine_ok N" "tls_max_connections (tls_over N m B S) \<le> max_connections T" "tls_run (tls_over N m B S) S T b"
  shows "wf_broker T b \<and> {ci. native_handle S ci (tl_raw (b_tr b)) \<ge> 0} = {ci. ci < max_connections T \<and> cn_active (conn_at b ci)}
    \<and> tls_opens (b_tr b) = {ci. ci < max_connections T \<and> cn_active (conn_at b ci)}
    \<and> (\<forall>ci \<in> tls_opens (b_tr b). accepted_on ci (tl_trace (b_tr b)) = sl_taken (slot_at (tl_raw (b_tr b)) ci)
         @ ring_bytes (sc_out_buf S) (sl_ring (slot_at (tl_raw (b_tr b)) ci)))"
proof -
  have t: "tls_together (tls_over N m B S) S T b" by (rule tls_run_inv [OF assms])
  have s: "settled T b" using t by (simp add: tls_together_def tls_settled_def)
  have "length (ss_slots (tl_raw (b_tr b))) = sc_max_conns S" using t by (simp add: tls_together_def stream_inv_def)
  then have "{ci. native_handle S ci (tl_raw (b_tr b)) \<ge> 0} = stream_opens (tl_raw (b_tr b))"
    using stream_opens_bound [of _ "tl_raw (b_tr b)"] by (auto simp: native_handle_def stream_opens_def)
  then show ?thesis using t s active_open [OF s] by (simp add: tls_together_def settled_def stream_out_def)
qed

lemma sample_tls_capacity: "tls_max_connections (tls_over null_engine 2 128 sample_conf) \<le> max_connections sample_traits"
  by code_simp

theorem tls_layers_agree_witness:
  "map sl_fd (ss_slots (tl_raw (b_tr sample_tls))) = [4, 5] \<and> wf_broker sample_traits sample_tls
   \<and> tls_opens (b_tr sample_tls) = {ci. ci < max_connections sample_traits \<and> cn_active (conn_at sample_tls ci)}"
  using tls_layers_agree [OF sample_traits_ok sample_conf_ok null_engine_ok sample_tls_capacity sample_tls_run [unfolded sample_tls_conf_def]] sample_tls_fds
  by blast

text \<open>C22: over \<open>NullTlsEngine\<close> the adapter is transparent: on an open connection the bytes taken by the system followed by those in
  the ring are the packets the broker was told were accepted, byte for byte and in order.\<close>

theorem null_engine_transparent:
  assumes "traits_ok T" "conf_ok S" "tls_max_connections (tls_over null_engine m B S) \<le> max_connections T"
    "tls_run (tls_over null_engine m B S) S T b" "sl_fd (slot_at (tl_raw (b_tr b)) ci) \<ge> 0"
  shows "accepted_on ci (b_trace b) = sl_taken (slot_at (tl_raw (b_tr b)) ci) @ ring_bytes (sc_out_buf S) (sl_ring (slot_at (tl_raw (b_tr b)) ci))"
proof -
  have t: "tls_together (tls_over null_engine m B S) S T b" by (rule tls_run_inv [OF assms(1,2) null_engine_ok assms(3,4)])
  then have "ci \<in> open_conns b" using assms(5) by (auto simp: tls_together_def stream_opens_def)
  then show ?thesis using t null_run_same [OF assms(1-4), of ci] by (simp add: tls_together_def stream_out_def)
qed

theorem null_engine_transparent_witness:
  "accepted_on 1 (b_trace sample_tls) = sl_taken (slot_at (tl_raw (b_tr sample_tls)) 1) @ ring_bytes 64 (sl_ring (slot_at (tl_raw (b_tr sample_tls)) 1))"
proof -
  have "sl_fd (slot_at (tl_raw (b_tr sample_tls)) 1) = 5"
    using arg_cong [OF sample_tls_fds, of "\<lambda>l. l ! 1"] arg_cong [OF sample_tls_fds, of length] by (simp add: slot_at_def)
  then show ?thesis
    using null_engine_transparent [OF sample_traits_ok sample_conf_ok sample_tls_capacity sample_tls_run [unfolded sample_tls_conf_def], of 1] by simp
qed



end
