(* ===== verification/Run_Loop.thy ===== *)
theory Run_Loop
  imports Tls_Server Pipe
begin

text \<open>
  The loops that drive a transport until it is told to stop (\<open>run\<close> and \<open>stop\<close> of \<open>stream_server.hpp\<close> and
  \<open>pipe.hpp\<close>). \<open>stop\<close> is meant to be called by a signal handler, so it can run anywhere in the loop;
  what matters is between which two tests of \<open>running_\<close> it does. A schedule \<open>sig\<close> says so: \<open>sig k\<close> holds when
  \<open>stop\<close> is called after the test before the \<open>k\<close>-th and before the \<open>k\<close>-th one, counted from 0; for \<open>k = 0\<close>, after
  \<open>running_\<close> was set and before it is first tested. A loop that is never stopped does not return, nor does
  one with a pass that does not: the value is then \<open>None\<close>. A pass does not return when a write loop in it is
  interrupted for ever, which the transport's \<open>stuck\<close> field tells.
\<close>

section \<open>Model\<close>

definition stop_flag :: "bool \<Rightarrow> bool \<Rightarrow> bool" where
  "stop_flag called running = (if called then False else running)"

partial_function (option) stream_loop ::
  "('s, 'os stream_server) host \<Rightarrow> 'os stream_conf \<Rightarrow> int \<Rightarrow> (nat \<Rightarrow> bool) \<Rightarrow> nat \<Rightarrow> bool \<Rightarrow> 's \<Rightarrow> 's option" where
  "stream_loop H C tick_ms sig k running s =
    (let running = stop_flag (sig k) running
     in if running
        then let s = snd (poll_once H C tick_ms s)
             in if ss_stuck (h_tr H s) then None else stream_loop H C tick_ms sig (k + 1) running s
        else Some s)"

text \<open>The value of \<open>running_\<close> before the call, an argument here, is overwritten.\<close>

definition stream_run :: "('s, 'os stream_server) host \<Rightarrow> 'os stream_conf \<Rightarrow> int \<Rightarrow> (nat \<Rightarrow> bool) \<Rightarrow> bool \<Rightarrow> 's \<Rightarrow> 's option" where
  "stream_run H C tick_ms sig running s = (let running = True in stream_loop H C tick_ms sig 0 running s)"

partial_function (option) pipe_loop ::
  "('s, 'os pipe) host \<Rightarrow> 'os pipe_conf \<Rightarrow> int \<Rightarrow> (nat \<Rightarrow> bool) \<Rightarrow> nat \<Rightarrow> bool \<Rightarrow> 's \<Rightarrow> (bool \<times> 's) option" where
  "pipe_loop H C tick_ms sig k running s =
    (let running = stop_flag (sig k) running
     in if running \<and> pp_rfd (h_tr H s) \<ge> 0
        then let s = snd (pipe_poll_once H C tick_ms s)
             in if pp_stuck (h_tr H s) then None else pipe_loop H C tick_ms sig (k + 1) running s
        else Some (running, s))"

text \<open>The pipe can end its loop by itself, so the value \<open>running_\<close> is left with is part of the result.\<close>

definition pipe_loop_run :: "('s, 'os pipe) host \<Rightarrow> 'os pipe_conf \<Rightarrow> int \<Rightarrow> (nat \<Rightarrow> bool) \<Rightarrow> bool \<Rightarrow> 's \<Rightarrow> (bool \<times> 's) option" where
  "pipe_loop_run H C tick_ms sig running s = (let running = True in pipe_loop H C tick_ms sig 0 running s)"

section \<open>The loops return when they are stopped\<close>

text \<open>
  Both loops repeat a pass until a test fails. The locale describes them: \<open>f\<close> is the pass, \<open>hangs s\<close> whether the
  pass that leads to \<open>s\<close> does not return, \<open>stops k s\<close> whether the \<open>k\<close>-th test, made in state \<open>s\<close>, ends the loop,
  \<open>res k s\<close> what is returned then.
\<close>

locale signalled_loop =
  fixes loop :: "nat \<Rightarrow> 's \<Rightarrow> 'r option" and f :: "'s \<Rightarrow> 's" and hangs :: "'s \<Rightarrow> bool"
    and stops :: "nat \<Rightarrow> 's \<Rightarrow> bool" and res :: "nat \<Rightarrow> 's \<Rightarrow> 'r"
  assumes unfold: "loop k s = (if stops k s then Some (res k s) else if hangs (f s) then None else loop (Suc k) (f s))"
    and returned: "loop k s = Some r \<Longrightarrow> \<exists>n. stops (k + n) ((f ^^ n) s) \<and> r = res (k + n) ((f ^^ n) s)"
begin

lemma goes_on:
  "(\<And>j. j < n \<Longrightarrow> \<not> stops (k + j) ((f ^^ j) s) \<and> \<not> hangs ((f ^^ Suc j) s)) \<Longrightarrow> loop k s = loop (k + n) ((f ^^ n) s)"
proof (induction n)
  case (Suc n)
  then have "loop k s = loop (k + n) ((f ^^ n) s)" by simp
  also have "\<dots> = loop (Suc (k + n)) (f ((f ^^ n) s))" using Suc.prems [of n] by (simp add: unfold [of "k + n"])
  finally show ?case by simp
qed simp

lemma stops_first:
  assumes "stops n ((f ^^ n) s)" "\<And>j. j < n \<Longrightarrow> \<not> stops j ((f ^^ j) s)" "\<And>j. j < n \<Longrightarrow> \<not> hangs ((f ^^ Suc j) s)"
  shows "loop 0 s = Some (res n ((f ^^ n) s))"
  using goes_on [of n 0 s] assms by (simp add: unfold [of n])

lemma hangs_first:
  assumes "hangs ((f ^^ Suc m) s)" "\<And>j. j \<le> m \<Longrightarrow> \<not> stops j ((f ^^ j) s)" "\<And>j. j < m \<Longrightarrow> \<not> hangs ((f ^^ Suc j) s)"
  shows "loop 0 s = None"
  using goes_on [of m 0 s] assms by (simp add: unfold [of m])

lemma never: "(\<And>n. \<not> stops n ((f ^^ n) s)) \<Longrightarrow> loop 0 s = None"
  using returned [of 0 s] by (cases "loop 0 s") auto

text \<open>The loop as a function: the state after as many passes as there are before the first test that ends it, if they all return.\<close>

lemma loop_value:
  "loop 0 s = (if \<exists>n. stops n ((f ^^ n) s)
     then let n = (LEAST n. stops n ((f ^^ n) s)) in if \<exists>j<n. hangs ((f ^^ Suc j) s) then None else Some (res n ((f ^^ n) s))
     else None)"
proof (cases "\<exists>n. stops n ((f ^^ n) s)")
  case True
  define n where "n = (LEAST n. stops n ((f ^^ n) s))"
  have n: "stops n ((f ^^ n) s)" "\<And>j. j < n \<Longrightarrow> \<not> stops j ((f ^^ j) s)"
    unfolding n_def by (rule LeastI_ex [OF True], erule not_less_Least)
  have "loop 0 s = (if \<exists>j<n. hangs ((f ^^ Suc j) s) then None else Some (res n ((f ^^ n) s)))"
  proof (cases "\<exists>j<n. hangs ((f ^^ Suc j) s)")
    case h: True
    define m where "m = (LEAST j. hangs ((f ^^ Suc j) s))"
    obtain j where j: "j < n" "hangs ((f ^^ Suc j) s)" using h by blast
    have m: "hangs ((f ^^ Suc m) s)" "\<And>j. j < m \<Longrightarrow> \<not> hangs ((f ^^ Suc j) s)" "m \<le> j"
      using LeastI [where P = "\<lambda>j. hangs ((f ^^ Suc j) s)", OF j(2)] not_less_Least [where P = "\<lambda>j. hangs ((f ^^ Suc j) s)"]
        Least_le [where P = "\<lambda>j. hangs ((f ^^ Suc j) s)", OF j(2)] unfolding m_def by blast+
    have "\<not> stops i ((f ^^ i) s)" if "i \<le> m" for i using n(2) [of i] that m(3) j(1) by simp
    then show ?thesis using hangs_first [OF m(1) _ m(2)] h by simp
  qed (use stops_first [OF n] in auto)
  then show ?thesis using True unfolding n_def by (simp add: Let_def)
next
  case False
  then show ?thesis using never [of s] by simp
qed

lemma invariant:
  assumes "loop 0 s = Some r" "Q s" "\<And>s. Q s \<Longrightarrow> Q (f s)"
  obtains n s' where "r = res n s'" "stops n s'" "Q s'"
proof -
  obtain n where "stops n ((f ^^ n) s)" "r = res n ((f ^^ n) s)" using returned [OF assms(1)] by auto
  moreover have "Q ((f ^^ n) s)" by (induction n) (simp_all add: assms(2,3))
  ultimately show thesis using that by blast
qed

text \<open>An invariant under which no pass hangs.\<close>

lemma loop_live:
  assumes "Q s" "\<And>s. Q s \<Longrightarrow> Q (f s)" "\<And>s. Q s \<Longrightarrow> \<not> hangs s"
  shows "Q ((f ^^ n) s) \<and> \<not> hangs ((f ^^ n) s)"
    and "loop 0 s = (if \<exists>n. stops n ((f ^^ n) s) then let n = (LEAST n. stops n ((f ^^ n) s)) in Some (res n ((f ^^ n) s)) else None)"
proof -
  have q: "Q ((f ^^ n) s)" for n by (induction n) (simp_all add: assms(1,2))
  then show "Q ((f ^^ n) s) \<and> \<not> hangs ((f ^^ n) s)" using assms(3) by simp
  have "\<not> hangs ((f ^^ Suc n) s)" for n by (rule assms(3) [OF q])
  then show "loop 0 s = (if \<exists>n. stops n ((f ^^ n) s) then let n = (LEAST n. stops n ((f ^^ n) s)) in Some (res n ((f ^^ n) s)) else None)"
    unfolding loop_value by (simp del: funpow.simps)
qed

end

lemma stream_loop_returned:
  assumes "stream_loop H C t sig k running s = Some s'"
  shows "running \<longrightarrow> (\<exists>n. sig (k + n) \<and> s' = ((\<lambda>s. snd (poll_once H C t s)) ^^ n) s)"
proof (rule stream_loop.raw_induct [OF _ assms, where P = "\<lambda>H C t sig k running s s'. running \<longrightarrow>
    (\<exists>n. sig (k + n) \<and> s' = ((\<lambda>s. snd (poll_once H C t s)) ^^ n) s)"], goal_cases)
  case (1 rec H C t sig k running s s')
  show ?case
  proof (cases "sig k \<or> \<not> running")
    case True
    then show ?thesis using 1(2) by (auto simp: stop_flag_def Let_def intro: exI [of _ 0])
  next
    case False
    then obtain n where "sig (k + 1 + n)" "s' = ((\<lambda>s. snd (poll_once H C t s)) ^^ n) (snd (poll_once H C t s))"
      using 1(1) [of H C t sig "k + 1" running "snd (poll_once H C t s)" s'] 1(2) by (auto simp: stop_flag_def Let_def split: if_splits)
    then show ?thesis by (intro impI exI [of _ "Suc n"]) (simp add: funpow_Suc_right del: funpow.simps)
  qed
qed

lemma pipe_loop_returned:
  assumes "pipe_loop H C t sig k running s = Some r"
  shows "running \<longrightarrow> (\<exists>n. (sig (k + n) \<or> pp_rfd (h_tr H (snd r)) < 0) \<and> r = (\<not> sig (k + n), ((\<lambda>s. snd (pipe_poll_once H C t s)) ^^ n) s))"
proof (rule pipe_loop.raw_induct [OF _ assms, where P = "\<lambda>H C t sig k running s r. running \<longrightarrow>
    (\<exists>n. (sig (k + n) \<or> pp_rfd (h_tr H (snd r)) < 0) \<and> r = (\<not> sig (k + n), ((\<lambda>s. snd (pipe_poll_once H C t s)) ^^ n) s))"], goal_cases)
  case (1 rec H C t sig k running s r)
  show ?case
  proof (cases "sig k \<or> \<not> running \<or> pp_rfd (h_tr H s) < 0")
    case True
    then show ?thesis using 1(2) by (auto simp: stop_flag_def Let_def split: if_splits intro: exI [of _ 0])
  next
    case False
    then have "rec H C t sig (k + 1) running (snd (pipe_poll_once H C t s)) = Some r"
      using 1(2) by (auto simp: stop_flag_def Let_def not_less split: if_splits)
    from 1(1) [OF this] False obtain n where "sig (k + 1 + n) \<or> pp_rfd (h_tr H (snd r)) < 0"
      "r = (\<not> sig (k + 1 + n), ((\<lambda>s. snd (pipe_poll_once H C t s)) ^^ n) (snd (pipe_poll_once H C t s)))" by fastforce
    then show ?thesis by (intro impI exI [of _ "Suc n"]) (simp add: funpow_Suc_right del: funpow.simps)
  qed
qed

interpretation streaming: signalled_loop "\<lambda>k. stream_loop H C t sig k True" "\<lambda>s. snd (poll_once H C t s)" "\<lambda>s. ss_stuck (h_tr H s)"
    "\<lambda>k s. sig k" "\<lambda>k s. s"
  for H :: "('s, 'os stream_server) host" and C t sig
proof
  fix k s
  show "stream_loop H C t sig k True s = (if sig k then Some s else if ss_stuck (h_tr H (snd (poll_once H C t s))) then None
      else stream_loop H C t sig (Suc k) True (snd (poll_once H C t s)))"
    by (subst stream_loop.simps) (simp add: stop_flag_def Let_def)
next
  fix k s s' assume "stream_loop H C t sig k True s = Some s'"
  then show "\<exists>n. sig (k + n) \<and> s' = ((\<lambda>s. snd (poll_once H C t s)) ^^ n) s" using stream_loop_returned [of H C t sig k True s s'] by simp
qed

interpretation piping: signalled_loop "\<lambda>k. pipe_loop H C t sig k True" "\<lambda>s. snd (pipe_poll_once H C t s)" "\<lambda>s. pp_stuck (h_tr H s)"
    "\<lambda>k s. sig k \<or> pp_rfd (h_tr H s) < 0" "\<lambda>k s. (\<not> sig k, s)"
  for H :: "('s, 'os pipe) host" and C t sig
proof
  fix k s
  show "pipe_loop H C t sig k True s =
      (if sig k \<or> pp_rfd (h_tr H s) < 0 then Some (\<not> sig k, s) else if pp_stuck (h_tr H (snd (pipe_poll_once H C t s))) then None
       else pipe_loop H C t sig (Suc k) True (snd (pipe_poll_once H C t s)))"
    by (subst pipe_loop.simps) (auto simp: stop_flag_def Let_def)
next
  fix k s r assume l: "pipe_loop H C t sig k True s = Some r"
  obtain n where n: "sig (k + n) \<or> pp_rfd (h_tr H (snd r)) < 0" "r = (\<not> sig (k + n), ((\<lambda>s. snd (pipe_poll_once H C t s)) ^^ n) s)"
    using pipe_loop_returned [OF l] by fastforce
  show "\<exists>n. (sig (k + n) \<or> pp_rfd (h_tr H (((\<lambda>s. snd (pipe_poll_once H C t s)) ^^ n) s)) < 0)
      \<and> r = (\<not> sig (k + n), ((\<lambda>s. snd (pipe_poll_once H C t s)) ^^ n) s)" by (rule exI [of _ n]) (use n in simp)
qed

text \<open>Whatever a loop returns is a state of the broker and its transport in use; the pipe, unless it was stopped, is closed.\<close>

lemma stream_run_served:
  assumes "server_run C T b" "stream_run (broker_host (stream_env C T sec)) C t sig running b = Some b'" shows "server_run C T b'"
  by (rule streaming.invariant [where Q = "server_run C T", OF assms(2) [unfolded stream_run_def Let_def] assms(1)]) (erule run_pass, simp)

lemma tls_run_served:
  assumes "tls_run C S T b" "stream_run (driver C (broker_host (tls_env C T sec))) S t sig running b = Some b'" shows "tls_run C S T b'"
  by (rule streaming.invariant [where Q = "tls_run C S T", OF assms(2) [unfolded stream_run_def Let_def] assms(1)]) (erule trun_pass, simp)

lemma pipe_loop_served:
  assumes "pipe_run C T b" "pipe_loop_run (broker_host (pipe_env C T sec)) C t sig running b = Some (running', b')"
  shows "pipe_run C T b' \<and> (running' \<longrightarrow> pp_rfd (b_tr b') < 0)"
  by (rule piping.invariant [where Q = "pipe_run C T", OF assms(2) [unfolded pipe_loop_run_def Let_def] assms(1)]) (erule prun_pass, auto)

lemma pipe_loop_stopped: "pipe_loop_run H C t sig running s = Some (running', s') \<Longrightarrow> \<not> running' \<longrightarrow> (\<exists>k. sig k)"
  using piping.returned [of H C t sig 0 s "(running', s')"] by (auto simp: pipe_loop_run_def)

text \<open>Passes of a server in use return if interruptions end.\<close>

lemma served_not_stuck:
  "traits_ok T \<Longrightarrow> conf_ok C \<Longrightarrow> server_run C T b \<Longrightarrow> \<forall>fd. signals_end (px_send (sc_os C) fd) \<Longrightarrow> \<not> ss_stuck (b_tr b)"
  using server_run_inv [of T C b] by (simp add: together_def stream_inv_def)

lemma stream_run_live:
  fixes b :: "('ctx, 'os stream_server) broker"
  assumes "traits_ok T" "conf_ok C" "server_run C T b" "\<forall>fd. signals_end (px_send (sc_os C) fd)"
  shows "stream_run (broker_host (stream_env C T sec)) C t sig running b =
      (if \<exists>n. sig n then Some (((\<lambda>b. snd (poll_once (broker_host (stream_env C T sec)) C t b)) ^^ (LEAST n. sig n)) b) else None)"
    "server_run C T (((\<lambda>b. snd (poll_once (broker_host (stream_env C T sec)) C t b)) ^^ n) b)
     \<and> \<not> ss_stuck (b_tr (((\<lambda>b. snd (poll_once (broker_host (stream_env C T sec)) C t b)) ^^ n) b))"
proof -
  have i: "server_run C T (snd (poll_once (broker_host (stream_env C T sec)) C t b))" if "server_run C T b" for b :: "('ctx, 'os stream_server) broker"
    using that by (rule run_pass)
  have h: "\<not> ss_stuck (h_tr (broker_host (stream_env C T sec)) b)" if "server_run C T b" for b :: "('ctx, 'os stream_server) broker"
    using served_not_stuck [OF assms(1,2) that assms(4)] by simp
  show "stream_run (broker_host (stream_env C T sec)) C t sig running b =
      (if \<exists>n. sig n then Some (((\<lambda>b. snd (poll_once (broker_host (stream_env C T sec)) C t b)) ^^ (LEAST n. sig n)) b) else None)"
    using streaming.loop_live(2) [where Q = "server_run C T" and t = t and sig = sig, OF assms(3) i h] by (simp only: stream_run_def Let_def)
  show "server_run C T (((\<lambda>b. snd (poll_once (broker_host (stream_env C T sec)) C t b)) ^^ n) b)
     \<and> \<not> ss_stuck (b_tr (((\<lambda>b. snd (poll_once (broker_host (stream_env C T sec)) C t b)) ^^ n) b))" 
    using streaming.loop_live(1) [where Q = "server_run C T" and t = t and n = n, OF assms(3) i h] by simp
qed

section \<open>Properties\<close>

text \<open>C34: for a broker in use over a stream transport whose writes are not interrupted for ever, \<open>run\<close> returns exactly
  when \<open>stop\<close> is called while it runs, after completing the pass in which that happens and no other: if the first call
  falls before test \<open>n\<close>, it returns the state \<open>n\<close> passes have made, each of which returned. A call before \<open>run\<close> has no effect.\<close>

theorem stream_run_returns:
  assumes "traits_ok T" "conf_ok C" "server_run C T b" "\<forall>fd. signals_end (px_send (sc_os C) fd)"
  shows "stream_run (broker_host (stream_env C T sec)) C tick_ms sig running b =
      (if \<exists>n. sig n then Some (((\<lambda>b. snd (poll_once (broker_host (stream_env C T sec)) C tick_ms b)) ^^ (LEAST n. sig n)) b) else None)
    \<and> (\<forall>n. let b' = ((\<lambda>b. snd (poll_once (broker_host (stream_env C T sec)) C tick_ms b)) ^^ n) b
           in server_run C T b' \<and> \<not> ss_stuck (b_tr b'))"
  using stream_run_live [OF assms] by (simp add: Let_def)

theorem stream_run_returns_witness:
  "stream_run (broker_host (stream_env sample_conf sample_traits allow_all)) sample_conf 100 (\<lambda>n. n \<ge> 2) False sample_server =
    Some (((\<lambda>b. snd (poll_once (broker_host (stream_env sample_conf sample_traits allow_all)) sample_conf 100 b)) ^^ 2) sample_server)"
proof -
  have "(LEAST n. (2::nat) \<le> n) = 2" by (rule Least_equality) simp_all
  moreover have "\<exists>n. (2::nat) \<le> n" by blast
  ultimately show ?thesis
    using stream_run_returns [OF sample_traits_ok sample_conf_ok sample_server_run, of allow_all 100 "\<lambda>n. n \<ge> 2" False] sample_signals by simp
qed

text \<open>\<open>run\<close> of a pipe transport returns when it is stopped or has no descriptors left, whichever comes first, and
  not before, unless a pass before that does not return.\<close>

theorem pipe_run_returns:
  "pipe_loop_run H C tick_ms sig running s =
    (let after = (\<lambda>n. ((\<lambda>s. snd (pipe_poll_once H C tick_ms s)) ^^ n) s);
         ended = (\<lambda>n. sig n \<or> pp_rfd (h_tr H (after n)) < 0)
     in if \<exists>n. ended n
        then let n = (LEAST n. ended n) in if \<exists>j<n. pp_stuck (h_tr H (after (Suc j))) then None else Some (\<not> sig n, after n)
        else None)"
  using piping.loop_value [of H C tick_ms sig s] by (simp only: pipe_loop_run_def Let_def)

end
