(* ===== verification/Command_Line.thy ===== *)
theory Command_Line
  imports Broker_Sessions
begin

text \<open>
  The port argument of the example brokers (\<open>parse_port\<close> in \<open>examples/tcp_broker.cpp\<close> and
  \<open>examples/tcp_broker_acl.cpp\<close>) and the part of \<open>strtol\<close> it uses: base 10, in the C locale, for a \<open>long\<close> whose
  largest value is \<open>long_max\<close>. A C string is the list of its characters without the terminator.
\<close>

section \<open>Model\<close>

definition is_space :: "byte \<Rightarrow> bool" where
  "is_space c \<longleftrightarrow> c = 0x20 \<or> (0x09 \<le> c \<and> c \<le> 0x0D)"

definition is_digit :: "byte \<Rightarrow> bool" where
  "is_digit c \<longleftrightarrow> 0x30 \<le> c \<and> c \<le> 0x39"

definition ch_plus_sign :: byte where "ch_plus_sign = 0x2B"
definition ch_minus_sign :: byte where "ch_minus_sign = 0x2D"

text \<open>The value, the number of characters up to \<open>*endptr\<close>, and whether \<open>errno\<close> is set to \<open>ERANGE\<close>.\<close>

definition strtol :: "int \<Rightarrow> bytes \<Rightarrow> int \<times> nat \<times> bool" where
  "strtol long_max str =
    (let rest = dropWhile is_space str;
         neg = (rest \<noteq> [] \<and> hd rest = ch_minus_sign);
         body = (if rest \<noteq> [] \<and> (hd rest = ch_plus_sign \<or> hd rest = ch_minus_sign) then tl rest else rest);
         digits = takeWhile is_digit body;
         v = (if neg then - int (digits_value digits) else int (digits_value digits));
         n = length str - length body + length digits
     in if digits = [] then (0, 0, False)
        else if v > long_max then (long_max, n, True)
        else if v < - long_max - 1 then (- long_max - 1, n, True)
        else (v, n, False))"

definition parse_port :: "int \<Rightarrow> bytes \<Rightarrow> u16 option" where
  "parse_port long_max str =
    (let (val, end, erange) = strtol long_max str
     in if erange \<or> end = 0 \<or> end \<noteq> length str \<or> val < 1 \<or> val > 65535 then None else Some (of_int val))"

section \<open>What is a port\<close>

lemma is_digit_not: "is_digit c \<Longrightarrow> \<not> is_space c \<and> c \<noteq> ch_plus_sign \<and> c \<noteq> ch_minus_sign"
  by (auto simp: is_digit_def is_space_def ch_plus_sign_def ch_minus_sign_def word_le_nat_alt)

lemma sign_not_space: "\<not> is_space ch_plus_sign" "\<not> is_space ch_minus_sign"
  by (simp_all add: is_space_def ch_plus_sign_def ch_minus_sign_def)

lemma dropWhile_blank: "list_all is_space ws \<Longrightarrow> (xs = [] \<or> \<not> is_space (hd xs)) \<Longrightarrow> dropWhile is_space (ws @ xs) = xs"
  by (induction ws) (cases xs; simp)+

text \<open>The layout \<open>parse_port\<close> accepts: blanks, perhaps a plus sign, and digits to the end.\<close>

definition port_text :: "bytes \<Rightarrow> bytes \<Rightarrow> bool" where
  "port_text str digits \<longleftrightarrow> digits \<noteq> [] \<and> list_all is_digit digits
     \<and> (\<exists>ws sign. str = ws @ sign @ digits \<and> list_all is_space ws \<and> sign \<in> {[], [ch_plus_sign]})"

lemma port_text_split:
  assumes "port_text str ds"
  obtains sign where "dropWhile is_space str = sign @ ds" "sign \<in> {[], [ch_plus_sign]}" "ds \<noteq> []" "is_digit (hd ds)"
    "takeWhile is_digit ds = ds" "length ds \<le> length str"
proof -
  obtain ws sign where t: "str = ws @ sign @ ds" "list_all is_space ws" "sign \<in> {[], [ch_plus_sign]}" and ds: "ds \<noteq> []" "list_all is_digit ds"
    using assms unfolding port_text_def by blast
  have h: "is_digit (hd ds)" using ds by (cases ds) simp_all
  have "sign = [] \<or> sign = [ch_plus_sign]" using t(3) by simp
  then have "\<not> is_space (hd (sign @ ds))" using is_digit_not [OF h] sign_not_space(1) by (elim disjE) simp_all
  then have r: "dropWhile is_space str = sign @ ds"
    unfolding t(1) by (intro dropWhile_blank [OF t(2)] disjI2)
  have d: "takeWhile is_digit ds = ds" using ds(2) by (simp add: takeWhile_eq_all_conv list_all_iff)
  show thesis by (rule that [OF r t(3) ds(1) h d]) (simp add: t(1))
qed

lemma strtol_port_text:
  assumes "port_text str ds" "65535 \<le> long_max"
  shows "strtol long_max str = (if int (digits_value ds) > long_max then (long_max, length str, True) else (int (digits_value ds), length str, False))"
proof -
  obtain sign where r: "dropWhile is_space str = sign @ ds" "sign \<in> {[], [ch_plus_sign]}" "ds \<noteq> []" "is_digit (hd ds)"
    "takeWhile is_digit ds = ds" "length ds \<le> length str"
    by (rule port_text_split [OF assms(1)])
  have ne: "hd ds \<noteq> ch_plus_sign" "hd ds \<noteq> ch_minus_sign" "ch_plus_sign \<noteq> ch_minus_sign"
    using is_digit_not [OF r(4)] by (simp_all add: ch_plus_sign_def ch_minus_sign_def)
  have neg: "\<not> int (digits_value ds) < - long_max - 1" using assms(2) by simp
  have "sign = [] \<or> sign = [ch_plus_sign]" using r(2) by simp
  then show ?thesis using r(3,6) neg ne by (elim disjE) (simp_all add: strtol_def r(1,5) Let_def)
qed

lemma strtol_positive:
  assumes "strtol long_max str = (v, n, False)" "n = length str" "0 < v"
  shows "\<exists>ds. port_text str ds \<and> v = int (digits_value ds)"
proof -
  define rest where "rest = dropWhile is_space str"
  define signed where "signed \<longleftrightarrow> rest \<noteq> [] \<and> (hd rest = ch_plus_sign \<or> hd rest = ch_minus_sign)"
  define body where "body = (if signed then tl rest else rest)"
  define ds where "ds = takeWhile is_digit body"
  have neg: "\<not> (rest \<noteq> [] \<and> hd rest = ch_minus_sign)" and ne: "ds \<noteq> []" and v: "v = int (digits_value ds)"
    and n: "length str = length str - length body + length ds"
    using assms by (auto simp: strtol_def Let_def rest_def [symmetric] signed_def [symmetric] body_def [symmetric] ds_def [symmetric] split: if_splits)
  have "length rest \<le> length str" by (simp add: rest_def length_dropWhile_le)
  then have b: "length body \<le> length str" by (auto simp: body_def)
  have "length ds = length body" using n b by simp
  then have all: "ds = body" using takeWhile_dropWhile_id [of is_digit body]
    by (metis append_eq_conv_conj ds_def take_all_iff order_refl)
  have digits: "list_all is_digit ds" unfolding list_all_iff ds_def by (auto dest: set_takeWhileD)
  define sign where "sign = (if signed then [ch_plus_sign] else [])"
  have "rest = sign @ ds"
    using neg by (cases rest) (auto simp: all body_def sign_def signed_def)
  then have "str = takeWhile is_space str @ sign @ ds"
    using takeWhile_dropWhile_id [of is_space str] by (simp add: rest_def)
  moreover have "list_all is_space (takeWhile is_space str)" unfolding list_all_iff by (auto dest: set_takeWhileD)
  moreover have "sign \<in> {[], [ch_plus_sign]}" by (simp add: sign_def)
  ultimately have "port_text str ds" unfolding port_text_def using ne digits by blast
  then show ?thesis using v by blast
qed

lemma parse_port_iff:
  assumes "65535 \<le> long_max"
  shows "parse_port long_max str = Some p \<longleftrightarrow> (\<exists>ds. port_text str ds \<and> digits_value ds = unat p \<and> p \<noteq> 0)"
proof
  assume l: "parse_port long_max str = Some p"
  obtain v n e where s: "strtol long_max str = (v, n, e)" by (cases "strtol long_max str") 
  have q: "\<not> e" "n = length str" "1 \<le> v" "v \<le> 65535" "p = of_int v"
    using l by (auto simp: parse_port_def s split: if_splits)
  obtain ds where ds: "port_text str ds" "v = int (digits_value ds)"
    using strtol_positive [of long_max str v n] s q by auto
  have u: "unat p = nat v" using q(3-5) by (simp add: unat_eq_nat_uint uint_word_of_int_eq take_bit_int_eq_self)
  then have "digits_value ds = unat p" "p \<noteq> 0" using ds(2) q(3) by (simp, auto)
  then show "\<exists>ds. port_text str ds \<and> digits_value ds = unat p \<and> p \<noteq> 0" using ds(1) by blast
next
  assume "\<exists>ds. port_text str ds \<and> digits_value ds = unat p \<and> p \<noteq> 0"
  then obtain ds where ds: "port_text str ds" "digits_value ds = unat p" "p \<noteq> 0" by blast
  have u: "0 < uint p" "uint p < 65536" using ds(3) unsigned_less [of p, where 'a = int] by (simp_all add: word_neq_0_conv word_less_def)
  have ne: "str \<noteq> []" using ds(1) unfolding port_text_def by blast
  have v: "int (digits_value ds) = uint p" using ds(2) by simp
  have "strtol long_max str = (uint p, length str, False)"
    using strtol_port_text [OF ds(1) assms] u(2) assms unfolding v by simp
  then show "parse_port long_max str = Some p" using u ne by (simp add: parse_port_def)
qed

section \<open>Properties\<close>

lemma digit_loop_nonempty: "digit_loop v ds \<noteq> []"
proof (induction v ds rule: digit_loop.induct)
  case (1 v ds)
  show ?case using 1 [OF refl refl] by (cases "v div 10 = 0") (simp_all add: digit_loop.simps [of v ds] Let_def)
qed

lemma digit_loop_port_text: "port_text (digit_loop v []) (digit_loop v [])"
proof -
  have "list_all is_digit (digit_loop v [])"
    using digit_loop_chars [of v "[]"] unfolding list_all_iff is_digit_def by (simp add: word_le_nat_alt)
  moreover have "digit_loop v [] \<noteq> []" by (rule digit_loop_nonempty)
  ultimately show ?thesis unfolding port_text_def by (intro conjI exI [of _ "[]"]) simp_all
qed

text \<open>\<open>parse_port\<close> accepts exactly the arguments that are blanks, an optional plus sign and decimal digits up
  to the end of the string whose value is between 1 and 65535, and yields that value: no trailing garbage, no
  wrap-around, no port 0, even where the digits exceed a \<open>long\<close>. The decimal text of every port but 0 is read back.\<close>

theorem parse_port_exact:
  assumes "65535 \<le> long_max"
  shows "(parse_port long_max str = Some p \<longleftrightarrow> (\<exists>ds. port_text str ds \<and> digits_value ds = unat p \<and> p \<noteq> 0))
    \<and> (p \<noteq> 0 \<longrightarrow> parse_port long_max (digit_loop p []) = Some p)"
proof (intro conjI impI)
  assume p: "p \<noteq> 0"
  have "digits_value (digit_loop p []) = unat p" unfolding digit_loop_value by (simp add: digits_value_def)
  then show "parse_port long_max (digit_loop p []) = Some p"
    unfolding parse_port_iff [OF assms] using digit_loop_port_text p by blast
qed (rule parse_port_iff [OF assms])

end
