(* ===== verification/Examples.thy ===== *)
theory Examples
  imports Run_Loop Command_Line
begin

text \<open>
  The example programs (\<open>examples/*.cpp\<close>) and the configurations of \<open>tools/footprint.cpp\<close>. A \<open>main\<close> is a function of
  the arguments, the initial state of the operating system and the moments at which signals arrive; its value is
  the exit code and the final state of the broker, or \<open>None\<close> if it never returns. What is printed is left out. The
  file of a FIFO is reached through the calls in \<open>fifos\<close>.
\<close>

section \<open>Model\<close>

definition text_bytes :: "string \<Rightarrow> bytes" where
  "text_bytes s = map of_char s"

subsection \<open>\<open>tcp_broker.cpp\<close>\<close>

definition tcp_conf :: "'os posix \<Rightarrow> 'os stream_conf" where
  "tcp_conf P = \<lparr>sc_max_conns = max_connections default_traits, sc_out_buf = 4096, sc_os = P\<rparr>"

definition port_arg :: "int \<Rightarrow> bytes list \<Rightarrow> u16 option" where
  "port_arg long_max argv = (if length argv > 1 then parse_port long_max (argv ! 1) else Some 1883)"

text \<open>What both TCP examples do once the broker is configured. The signal handler calls \<open>stop\<close>: before \<open>run\<close> if \<open>early\<close>,
  and during \<open>run\<close> as \<open>sig\<close> says. \<open>running_\<close> is initially true.\<close>

definition tcp_serve ::
  "'ctx security \<Rightarrow> 'os sockets \<Rightarrow> 'os posix \<Rightarrow> bool \<Rightarrow> (nat \<Rightarrow> bool) \<Rightarrow> u16 \<Rightarrow> ('ctx, 'os stream_server) broker \<Rightarrow>
    (int \<times> ('ctx, 'os stream_server) broker) option" where
  "tcp_serve sec S P early sig port b =
    (let C = tcp_conf P; (tr, ok) = tcp_open S P port None (b_tr b); b = b\<lparr>b_tr := tr\<rparr>
     in if \<not> ok then Some (1, b)
        else let (shown, tr) = tcp_port S (b_tr b); b = b\<lparr>b_tr := tr\<rparr>
             in map_option (Pair 0) (stream_run (broker_host (stream_env C default_traits sec)) C 100 sig (stop_flag early True) b))"

definition tcp_main ::
  "int \<Rightarrow> 'os sockets \<Rightarrow> 'os posix \<Rightarrow> bool \<Rightarrow> (nat \<Rightarrow> bool) \<Rightarrow> bytes list \<Rightarrow> 'os \<Rightarrow> (int \<times> (unit, 'os stream_server) broker) option" where
  "tcp_main long_max S P early sig argv os =
    (let b = broker_init default_traits (stream_init (tcp_conf P) os)
     in case port_arg long_max argv of None \<Rightarrow> Some (1, b) | Some port \<Rightarrow> tcp_serve allow_all S P early sig port b)"

subsection \<open>\<open>tcp_broker_acl.cpp\<close>\<close>

definition ROLE_SENSOR :: byte where "ROLE_SENSOR = 1"
definition ROLE_DASHBOARD :: byte where "ROLE_DASHBOARD = 2"

definition example_caps :: acl_caps where
  "example_caps = \<lparr>max_users = 8, max_rules = 16, max_name_len = 32, max_secret_len = 32, max_pattern_len = 64\<rparr>"

text \<open>\<open>&&\<close> on calls that change the object: the first that fails ends the chain.\<close>

fun until_false :: "('a \<Rightarrow> 'a \<times> bool) list \<Rightarrow> 'a \<Rightarrow> 'a \<times> bool" where
  "until_false [] a = (a, True)"
| "until_false (f # fs) a = (let (a, ok) = f a in if ok then until_false fs a else (a, False))"

definition configure_acl :: "table_acl \<Rightarrow> table_acl \<times> bool" where
  "configure_acl = until_false
    [add_user example_caps (text_bytes ''sensor-1'') (text_bytes ''s3cret'') ROLE_SENSOR,
     add_user example_caps (text_bytes ''sensor-2'') (text_bytes ''s3cret'') ROLE_SENSOR,
     add_user example_caps (text_bytes ''dashboard'') (text_bytes ''d4sh'') ROLE_DASHBOARD,
     add_rule example_caps ROLE_SENSOR (text_bytes ''sensors/#'') acl_write,
     add_rule example_caps ROLE_DASHBOARD (text_bytes ''sensors/#'') acl_read,
     add_rule example_caps ROLE_DASHBOARD (text_bytes ''control/#'') acl_read_write]"

definition acl_main ::
  "int \<Rightarrow> 'os sockets \<Rightarrow> 'os posix \<Rightarrow> bool \<Rightarrow> (nat \<Rightarrow> bool) \<Rightarrow> bytes list \<Rightarrow> 'os \<Rightarrow> (int \<times> (byte, 'os stream_server) broker) option" where
  "acl_main long_max S P early sig argv os =
    (let b = broker_init default_traits (stream_init (tcp_conf P) os)
     in case port_arg long_max argv of None \<Rightarrow> Some (1, b)
        | Some port \<Rightarrow>
            (let (acl, ok) = configure_acl acl_init
             in if \<not> ok then Some (1, b) else tcp_serve (acl_policy acl) S P early sig port b))"

subsection \<open>\<open>uds_broker.cpp\<close>\<close>

definition uds_path :: "bytes list \<Rightarrow> bytes" where
  "uds_path argv = (if length argv > 1 then argv ! 1 else text_bytes ''/tmp/minimosq.sock'') @ [0]"

text \<open>The transport is the broker's \<open>b_tr\<close> and the path it remembers; \<open>path_max\<close> is the size of \<open>sun_path\<close>.\<close>

definition uds_main ::
  "nat \<Rightarrow> 'os sockets \<Rightarrow> 'os posix \<Rightarrow> bool \<Rightarrow> (nat \<Rightarrow> bool) \<Rightarrow> bytes list \<Rightarrow> 'os \<Rightarrow> (int \<times> (unit, 'os stream_server) broker) option" where
  "uds_main path_max S P early sig argv os =
    (let C = tcp_conf P; us = us_init C path_max os; b = broker_init default_traits (us_server us);
         (us, ok) = unix_open S P (uds_path argv) 0x180 us; b = b\<lparr>b_tr := us_server us\<rparr>
     in if \<not> ok then Some (1, b)
        else map_option (Pair 0) (stream_run (broker_host (stream_env C default_traits allow_all)) C 100 sig (stop_flag early True) b))"

subsection \<open>\<open>pipe_broker.cpp\<close>\<close>

definition pipe_traits :: traits where
  "pipe_traits = default_traits\<lparr>max_connections := 1\<rparr>"

record 'os fifos =
  fi_o_rdwr :: u32
  fi_o_nonblock :: u32
  fi_mkfifo :: "bytes \<Rightarrow> u32 \<Rightarrow> 'os \<Rightarrow> int \<times> 'os"
  fi_open :: "bytes \<Rightarrow> u32 \<Rightarrow> 'os \<Rightarrow> int \<times> 'os"

definition open_fifo :: "'os fifos \<Rightarrow> bytes \<Rightarrow> u32 \<Rightarrow> 'os \<Rightarrow> int \<times> 'os" where
  "open_fifo F path flags os =
    (let (done, os) = fi_mkfifo F path 0x1B6 os in fi_open F path (flags OR fi_o_rdwr F OR fi_o_nonblock F) os)"

definition pipe_example_conf :: "'os posix \<Rightarrow> 'os pipe_conf" where
  "pipe_example_conf P = \<lparr>pc_out_buf = 4096, pc_os = P\<rparr>"

text \<open>One round serves one client. The handler sets \<open>stop_requested\<close> and stops the transport; it may run before the
  \<open>r\<close>-th test of \<open>stop_requested\<close>, between that test and \<open>run\<close>, or before the \<open>k\<close>-th test within that \<open>run\<close>.\<close>

record pipe_signals =
  before_test :: "nat \<Rightarrow> bool"
  before_run :: "nat \<Rightarrow> bool"
  in_run :: "nat \<Rightarrow> nat \<Rightarrow> bool"

partial_function (option) pipe_rounds ::
  "'os fifos \<Rightarrow> 'os posix \<Rightarrow> pipe_signals \<Rightarrow> bytes \<Rightarrow> bytes \<Rightarrow> nat \<Rightarrow> bool \<Rightarrow> bool \<Rightarrow> (unit, 'os pipe) broker \<Rightarrow>
    (int \<times> (unit, 'os pipe) broker) option" where
  "pipe_rounds F px sigs in_path out_path r stop_requested running b =
    (let stop_requested = (stop_requested \<or> before_test sigs r); running = stop_flag (before_test sigs r) running
     in if stop_requested then Some (0, b)
        else
          let C = pipe_example_conf px;
              (rfd, os) = open_fifo F in_path 0 (pp_os (b_tr b));
              (wfd, os) = open_fifo F out_path 0 os;
              b = b\<lparr>b_tr := (b_tr b)\<lparr>pp_os := os\<rparr>\<rparr>
          in if rfd < 0 \<or> wfd < 0 then Some (1, b)
             else
               let (p, ok) = pipe_open px rfd wfd (b_tr b); b = b\<lparr>b_tr := p\<rparr>
               in if \<not> ok then Some (1, b)
                  else
                    let stop_requested = before_run sigs r; running = stop_flag (before_run sigs r) running
                    in case pipe_loop_run (broker_host (pipe_env C pipe_traits allow_all)) C 100 (in_run sigs r) running b of
                         None \<Rightarrow> None
                       | Some (running, b) \<Rightarrow>
                           pipe_rounds F px sigs in_path out_path (r + 1) (stop_requested \<or> \<not> running) running b)"

definition pipe_main ::
  "'os fifos \<Rightarrow> 'os posix \<Rightarrow> pipe_signals \<Rightarrow> bytes list \<Rightarrow> 'os \<Rightarrow> (int \<times> (unit, 'os pipe) broker) option" where
  "pipe_main F P sigs argv os =
    (let in_path = (if length argv > 1 then argv ! 1 else text_bytes ''/tmp/minimosq.in'');
         out_path = (if length argv > 2 then argv ! 2 else text_bytes ''/tmp/minimosq.out'')
     in pipe_rounds F P sigs in_path out_path 0 False True (broker_init pipe_traits (pipe_init (pipe_example_conf P) os)))"

subsection \<open>\<open>footprint.cpp\<close>\<close>

definition minimal_traits :: traits where
  "minimal_traits = \<lparr>max_connections = 2, max_sessions = 2, max_subscriptions_per_session = 2, max_topic_len = 32,
     max_client_id_len = 23, max_packet_size = 256, max_payload_len = 128, max_retained = 2, max_pending_per_session = 2,
     max_inbound_qos2 = 2, connect_timeout_ms = 10000, max_idle_ms = 0, session_expiry_ms = 0\<rparr>"

definition small_traits :: traits where
  "small_traits = \<lparr>max_connections = 4, max_sessions = 4, max_subscriptions_per_session = 4, max_topic_len = 64,
     max_client_id_len = 32, max_packet_size = 512, max_payload_len = 256, max_retained = 4, max_pending_per_session = 4,
     max_inbound_qos2 = 4, connect_timeout_ms = 10000, max_idle_ms = 0, session_expiry_ms = 0\<rparr>"

definition large_traits :: traits where
  "large_traits = \<lparr>max_connections = 16, max_sessions = 24, max_subscriptions_per_session = 16, max_topic_len = 128,
     max_client_id_len = 64, max_packet_size = 2048, max_payload_len = 1024, max_retained = 32, max_pending_per_session = 16,
     max_inbound_qos2 = 16, connect_timeout_ms = 10000, max_idle_ms = 0, session_expiry_ms = 0\<rparr>"

text \<open>The \<open>static_assert\<close>s of \<open>report\<close>.\<close>

definition report_asserted :: "traits \<Rightarrow> bool" where
  "report_asserted T \<longleftrightarrow> max_sessions T \<ge> max_connections T \<and> connect_timeout_ms T > 0 \<and> max_payload_len T \<le> max_packet_size T"

definition reported :: "traits list" where
  "reported = [minimal_traits, small_traits, default_traits, large_traits]"

section \<open>The TCP and Unix-socket examples\<close>

lemma tcp_port_os: "tcp_port S tr = (p, tr') \<Longrightarrow> \<exists>os. tr' = tr\<lparr>ss_os := os\<rparr>"
  by (auto simp: tcp_port_def split: if_splits prod.splits option.splits intro: exI [of _ "ss_os tr"])

lemma server_run_port: "server_run C T b \<Longrightarrow> tcp_port S (b_tr b) = (p, tr) \<Longrightarrow> server_run C T (b\<lparr>b_tr := tr\<rparr>)"
  using tcp_port_os [of S "b_tr b" p tr] by (auto intro: run_os)

text \<open>How a \<open>main\<close> ends: with code 1 where it cannot start, and then it holds no descriptor and has told no client
  anything; never, if it starts and is not stopped; with code 0 otherwise.\<close>

definition ends_well :: "'os stream_conf \<Rightarrow> bool \<Rightarrow> (nat \<Rightarrow> bool) \<Rightarrow> (int \<times> ('ctx, 'os stream_server) broker) option \<Rightarrow> bool" where
  "ends_well C starts sig r \<longleftrightarrow>
    (if \<not> starts then \<exists>b. r = Some (1, b) \<and> mset (ss_got (b_tr b)) = mset (ss_closed (b_tr b)) \<and> b_trace b = []
     else if \<exists>n. sig n then \<exists>b. r = Some (0, b) \<and> server_run C default_traits b \<and> \<not> ss_stuck (b_tr b)
     else r = None)"

text \<open>The port an argument list asks for: the number its first argument spells, or the default.\<close>

definition asked_port :: "bytes list \<Rightarrow> u16 \<Rightarrow> bool" where
  "asked_port argv port \<longleftrightarrow>
    (if length argv > 1 then port \<noteq> 0 \<and> (\<exists>digits. port_text (argv ! 1) digits \<and> digits_value digits = unat port) else port = 1883)"

lemma port_arg_iff: "65535 \<le> long_max \<Longrightarrow> port_arg long_max argv = Some port \<longleftrightarrow> asked_port argv port"
  by (auto simp: port_arg_def asked_port_def parse_port_iff)

lemma default_traits_ok: "traits_ok default_traits"
  by (simp add: traits_ok_def traits_asserted_def default_traits_def max_duration_ms_def)

lemma stream_run_ends:
  assumes "server_run C default_traits b" "conf_ok C" "\<forall>fd. signals_end (px_send (sc_os C) fd)"
  shows "ends_well C True sig (map_option (Pair 0) (stream_run (broker_host (stream_env C default_traits sec)) C t sig running b))"
  using stream_run_live(1) [OF default_traits_ok assms(2,1,3), where sec = sec and t = t and sig = sig and running = running]
    stream_run_live(2) [OF default_traits_ok assms(2,1,3), where sec = sec and t = t and n = "LEAST n. sig n"] by (simp add: ends_well_def)

text \<open>What is assumed of the system: it takes no more than it is given, and does not interrupt a write for ever.\<close>

definition system_ok :: "'os posix \<Rightarrow> bool" where
  "system_ok P \<longleftrightarrow> (\<forall>fd. writes_bounded (px_send P fd) \<and> signals_end (px_send P fd))"

lemma tcp_conf_ok: "system_ok P \<Longrightarrow> conf_ok (tcp_conf P) \<and> (\<forall>fd. signals_end (px_send (sc_os (tcp_conf P)) fd))"
  by (simp add: system_ok_def conf_ok_def tcp_conf_def)

lemma not_started:
  assumes "listener_step C (stream_init C os) tr False"
  shows "ends_well C' False sig (Some (1, (broker_init T (stream_init C os))\<lparr>b_tr := tr\<rparr>))"
  using assms by (auto simp: ends_well_def listener_step_def stream_init_def broker_init_def)

lemma tcp_serve_ends:
  fixes os :: 'os and P :: "'os posix"
  defines "b \<equiv> broker_init default_traits (stream_init (tcp_conf P) os)"
  assumes sys: "system_ok P"
  shows "ends_well (tcp_conf P) (snd (tcp_open S P port None (stream_init (tcp_conf P) os))) sig (tcp_serve sec S P early sig port b)"
proof -
  let ?C = "tcp_conf P"
  obtain tr ok where o: "tcp_open S P port None (stream_init ?C os) = (tr, ok)" by fastforce
  have P: "sc_os ?C = P" by (simp add: tcp_conf_def)
  have tr: "b_tr b = stream_init ?C os" by (simp add: b_def broker_init_def)
  have st: "listener_step ?C (stream_init ?C os) tr ok" by (rule tcp_open_step [OF o])
  show ?thesis
  proof (cases ok)
    case False
    then show ?thesis using not_started [of ?C os tr] st by (simp add: tcp_serve_def tr o Let_def) (simp add: b_def)
  next
    case True
    obtain p tr' where p: "tcp_port S tr = (p, tr')" by fastforce
    have "server_run ?C default_traits (b\<lparr>b_tr := tr\<rparr>)"
      by (rule run_tcp [where S = S and port = port and bind_addr = None and ok = ok]) (use o P tr run_start in \<open>simp_all add: b_def\<close>)
    then have "server_run ?C default_traits (b\<lparr>b_tr := tr'\<rparr>)" using server_run_port [of ?C default_traits "b\<lparr>b_tr := tr\<rparr>" S p tr'] p by simp
    from stream_run_ends [OF this, of sig sec 100] tcp_conf_ok [OF sys] True show ?thesis by (simp add: tcp_serve_def tr o p Let_def)
  qed
qed

lemma uds_main_ends:
  assumes sys: "system_ok P"
  shows "ends_well (tcp_conf P) (snd (unix_open S P (uds_path argv) 0x180 (us_init (tcp_conf P) path_max os))) sig
     (uds_main path_max S P early sig argv os)"
proof -
  let ?C = "tcp_conf P" and ?b = "broker_init default_traits (stream_init (tcp_conf P) os) :: (unit, _) broker"
  obtain us ok where o: "unix_open S P (uds_path argv) 0x180 (us_init ?C path_max os) = (us, ok)" by fastforce
  have i: "us_server (us_init ?C path_max os) = stream_init ?C os" by (simp add: us_init_def)
  have st: "listener_step ?C (stream_init ?C os) (us_server us) ok" using unix_open_step [OF o, of ?C] i by simp
  show ?thesis
  proof (cases ok)
    case False
    then show ?thesis using not_started [of ?C os "us_server us"] st by (simp add: uds_main_def o i Let_def)
  next
    case True
    have "server_run ?C default_traits (?b\<lparr>b_tr := us_server us\<rparr>)"
      by (rule run_unix [where S = S and path = "uds_path argv" and mode = "0x180" and us = "us_init ?C path_max os" and ok = ok])
        (rule run_start, simp add: i broker_init_def, use o in \<open>simp add: tcp_conf_def\<close>)
    from stream_run_ends [OF this, of sig allow_all 100] tcp_conf_ok [OF sys] True show ?thesis by (simp add: uds_main_def o i Let_def)
  qed
qed

section \<open>The access rules of the example\<close>

lemma example_names:
  "text_bytes ''sensor-1'' = [0x73, 0x65, 0x6E, 0x73, 0x6F, 0x72, 0x2D, 0x31]"
  "text_bytes ''sensor-2'' = [0x73, 0x65, 0x6E, 0x73, 0x6F, 0x72, 0x2D, 0x32]"
  "text_bytes ''dashboard'' = [0x64, 0x61, 0x73, 0x68, 0x62, 0x6F, 0x61, 0x72, 0x64]"
  by (simp_all add: text_bytes_def)

lemma example_secrets:
  "text_bytes ''s3cret'' = [0x73, 0x33, 0x63, 0x72, 0x65, 0x74]" "text_bytes ''d4sh'' = [0x64, 0x34, 0x73, 0x68]"
  by (simp_all add: text_bytes_def)

lemma example_patterns:
  "text_bytes ''sensors/#'' = [0x73, 0x65, 0x6E, 0x73, 0x6F, 0x72, 0x73, 0x2F, 0x23]"
  "text_bytes ''control/#'' = [0x63, 0x6F, 0x6E, 0x74, 0x72, 0x6F, 0x6C, 0x2F, 0x23]"
  by (simp_all add: text_bytes_def)

lemma example_patterns_valid: "topic_filter_valid (text_bytes ''sensors/#'')" "topic_filter_valid (text_bytes ''control/#'')"
  unfolding example_patterns by (simp_all add: topic_eval)

definition example_acl :: table_acl where
  "example_acl = \<lparr>
     acl_users = [\<lparr>u_name = text_bytes ''sensor-1'', u_password = text_bytes ''s3cret'', u_role = ROLE_SENSOR\<rparr>,
       \<lparr>u_name = text_bytes ''sensor-2'', u_password = text_bytes ''s3cret'', u_role = ROLE_SENSOR\<rparr>,
       \<lparr>u_name = text_bytes ''dashboard'', u_password = text_bytes ''d4sh'', u_role = ROLE_DASHBOARD\<rparr>],
     acl_rules = [\<lparr>ru_pattern = text_bytes ''sensors/#'', ru_role = ROLE_SENSOR, ru_access = 2\<rparr>,
       \<lparr>ru_pattern = text_bytes ''sensors/#'', ru_role = ROLE_DASHBOARD, ru_access = 1\<rparr>,
       \<lparr>ru_pattern = text_bytes ''control/#'', ru_role = ROLE_DASHBOARD, ru_access = 3\<rparr>],
     acl_anon_role = 0, acl_anon_allowed = False\<rparr>"

lemma configure_acl_value: "configure_acl acl_init = (example_acl, True)"
  by (simp add: configure_acl_def add_user_eq add_rule_eq example_caps_def acl_init_def example_acl_def example_patterns_valid)
    (simp add: example_names example_secrets example_patterns)

lemma until_false_keeps:
  "(\<And>f a. f \<in> set fs \<Longrightarrow> Q a \<Longrightarrow> Q (fst (f a))) \<Longrightarrow> Q a \<Longrightarrow> Q (fst (until_false fs a))"
proof (induction fs arbitrary: a)
  case (Cons f fs)
  have "Q (fst (f a))" using Cons.prems by simp
  then show ?case using Cons.IH Cons.prems(1) by (cases "f a") simp
qed simp

lemma example_acl_inv: "acl_inv example_caps example_acl"
proof -
  have "acl_inv example_caps (fst (configure_acl acl_init))"
    unfolding configure_acl_def
    by (rule until_false_keeps [where Q = "acl_inv example_caps", OF _ acl_inv_init]) (auto simp: acl_inv_add_user acl_inv_add_rule)
  then show ?thesis by (simp add: configure_acl_value)
qed

section \<open>The pipe example\<close>

lemma pipe_idle:
  assumes "traits_ok T" "pipe_conf_ok C" "pipe_run C T b" "pp_rfd (b_tr b) < 0" shows "\<not> cn_active (conn_at b 0)"
proof
  assume a: "cn_active (conn_at b 0)"
  have s: "settled T b" "pipe_together C b" using pipe_run_inv [OF assms(1,2) assms(3)] by auto
  have "0 < length (b_conns b)" using a by (auto simp: conn_at_def new_conn_def split: if_splits)
  then have "0 \<in> open_conns b" using a s(1) by (simp add: settled_def open_conns_def quiet_def heard_def)
  then show False using s(2) assms(4) by (auto simp: pipe_together_def pipe_opens_def pipe_inv_def split: if_splits)
qed

lemma pipe_traits_ok: "traits_ok pipe_traits"
  by (simp add: traits_ok_def traits_asserted_def pipe_traits_def default_traits_def max_duration_ms_def)

text \<open>What the handler has been asked for by the end of round \<open>r\<close>.\<close>

definition asked :: "pipe_signals \<Rightarrow> bool" where
  "asked sigs \<longleftrightarrow> (\<exists>r. before_test sigs r \<or> before_run sigs r \<or> (\<exists>k. in_run sigs r k))"

lemma pipe_round:
  assumes b: "pipe_run (pipe_example_conf P) pipe_traits b" "pp_rfd (b_tr b) < 0" and C: "pipe_conf_ok (pipe_example_conf P)"
    and o: "pipe_open P rfd wfd ((b_tr b)\<lparr>pp_os := os\<rparr>) = (p, ok)"
  shows "pipe_run (pipe_example_conf P) pipe_traits (b\<lparr>b_tr := p\<rparr>)"
proof -
  let ?b = "b\<lparr>b_tr := (b_tr b)\<lparr>pp_os := os\<rparr>\<rparr>"
  have "conn_at ?b 0 = conn_at b 0" by (simp add: conn_at_def)
  then have i: "\<not> cn_active (conn_at ?b 0)" using pipe_idle [OF pipe_traits_ok C b] by simp
  have "pipe_open (pc_os (pipe_example_conf P)) rfd wfd (b_tr ?b) = (p, ok)" using o by (simp add: pipe_example_conf_def)
  from prun_open [OF prun_os [OF b(1)] i this] show ?thesis by simp
qed

text \<open>One round, as the loop continues after it or ends with it.\<close>

lemma pipe_rounds_end:
  assumes "pipe_rounds F P sigs in_path out_path r stop_requested running b = Some res"
  shows "pipe_conf_ok (pipe_example_conf P) \<longrightarrow> pipe_run (pipe_example_conf P) pipe_traits b \<longrightarrow> (stop_requested \<longrightarrow> asked sigs) \<longrightarrow>
    (\<not> stop_requested \<longrightarrow> pp_rfd (b_tr b) < 0) \<longrightarrow>
    pipe_run (pipe_example_conf P) pipe_traits (snd res) \<and> (fst res = 0 \<and> asked sigs \<or> fst res = 1)"
proof (rule pipe_rounds.raw_induct [OF _ assms, where P = "\<lambda>F P sigs in_path out_path r stop_requested running b res.
    pipe_conf_ok (pipe_example_conf P) \<longrightarrow> pipe_run (pipe_example_conf P) pipe_traits b \<longrightarrow> (stop_requested \<longrightarrow> asked sigs) \<longrightarrow>
    (\<not> stop_requested \<longrightarrow> pp_rfd (b_tr b) < 0) \<longrightarrow>
    pipe_run (pipe_example_conf P) pipe_traits (snd res) \<and> (fst res = 0 \<and> asked sigs \<or> fst res = 1)"], goal_cases)
  case (1 rec F P sigs in_path out_path r stop_requested running b res)
  note rec = 1(1) and eq = 1(2)
  let ?C = "pipe_example_conf P" and ?H = "broker_host (pipe_env (pipe_example_conf P) pipe_traits allow_all)"
  show ?case
  proof (intro impI)
    assume C: "pipe_conf_ok ?C" and b: "pipe_run ?C pipe_traits b" and st: "stop_requested \<longrightarrow> asked sigs" "\<not> stop_requested \<longrightarrow> pp_rfd (b_tr b) < 0"
    show "pipe_run ?C pipe_traits (snd res) \<and> (fst res = 0 \<and> asked sigs \<or> fst res = 1)"
    proof (cases "stop_requested \<or> before_test sigs r")
      case True
      then show ?thesis using eq b st(1) by (auto simp: asked_def)
    next
      case False
      obtain rfd os1 where f1: "open_fifo F in_path 0 (pp_os (b_tr b)) = (rfd, os1)" by fastforce
      obtain wfd os2 where f2: "open_fifo F out_path 0 os1 = (wfd, os2)" by fastforce
      obtain p ok where o: "pipe_open P rfd wfd ((b_tr b)\<lparr>pp_os := os2\<rparr>) = (p, ok)" by fastforce
      have q: "pipe_run ?C pipe_traits (b\<lparr>b_tr := p\<rparr>)" by (rule pipe_round [OF b _ C o]) (use st(2) False in simp)
      note eq' = eq [unfolded Let_def f1 f2 prod.case]
      consider "rfd < 0 \<or> wfd < 0" | "\<not> (rfd < 0 \<or> wfd < 0)" "\<not> ok" | "\<not> (rfd < 0 \<or> wfd < 0)" "ok" by blast
      then show ?thesis
      proof cases
        case 1
        then have "res = (1, b\<lparr>b_tr := (b_tr b)\<lparr>pp_os := os2\<rparr>\<rparr>)" using eq' False by simp
        then show ?thesis using prun_os [OF b, of os2] by simp
      next
        case 2
        then have "res = (1, b\<lparr>b_tr := p\<rparr>)" using eq' False by (simp add: o)
        then show ?thesis using q by simp
      next
        case 3
        define l where "l = pipe_loop_run ?H ?C 100 (in_run sigs r)
          (stop_flag (before_run sigs r) (stop_flag (before_test sigs r) running)) (b\<lparr>b_tr := p\<rparr>)"
        have "(case l of None \<Rightarrow> None | Some (run', b') \<Rightarrow> rec F P sigs in_path out_path (r + 1) (before_run sigs r \<or> \<not> run') run' b') = Some res"
          using eq' False 3 by (simp add: o l_def)
        then obtain run' b' where l: "l = Some (run', b')"
          and next_round: "rec F P sigs in_path out_path (r + 1) (before_run sigs r \<or> \<not> run') run' b' = Some res"
          by (cases l) auto
        have b': "pipe_run ?C pipe_traits b'" "run' \<longrightarrow> pp_rfd (b_tr b') < 0" "\<not> run' \<longrightarrow> asked sigs"
          using pipe_loop_served [OF q l [unfolded l_def]] pipe_loop_stopped [OF l [unfolded l_def]] by (auto simp: asked_def)
        have "before_run sigs r \<or> \<not> run' \<longrightarrow> asked sigs" using b'(3) by (auto simp: asked_def)
        then show ?thesis using rec [OF next_round] C b' by simp
      qed
    qed
  qed
qed

lemma pipe_main_end:
  assumes "\<forall>fd. writes_bounded (px_write P fd)" "pipe_main F P sigs argv os = Some (code, b)"
  shows "pipe_run (pipe_example_conf P) pipe_traits b \<and> (code = 0 \<and> asked sigs \<or> code = 1)"
proof -
  let ?b = "broker_init pipe_traits (pipe_init (pipe_example_conf P) os) :: (unit, _) broker"
  have "pipe_conf_ok (pipe_example_conf P)" using assms(1) by (simp add: pipe_conf_ok_def pipe_example_conf_def)
  moreover have "pp_rfd (b_tr ?b) < 0" "pipe_run (pipe_example_conf P) pipe_traits ?b" by (simp add: broker_init_def pipe_init_def) (rule prun_start)
  ultimately show ?thesis
    using pipe_rounds_end [OF assms(2) [unfolded pipe_main_def Let_def]] by simp
qed

section \<open>The configurations fit\<close>

text \<open>Every configuration of the repository meets the assertions of the broker, of \<open>footprint.cpp\<close> and of the transport it
  is used with.\<close>

lemma configurations_fit:
  "list_all (\<lambda>T. report_asserted T \<and> traits_ok T) (pipe_traits # reported)"
  "transport_asserted default_traits (sc_max_conns (tcp_conf P)) (sc_out_buf (tcp_conf P))"
  "transport_asserted pipe_traits 1 (pc_out_buf (pipe_example_conf P))"
  by (simp_all add: reported_def report_asserted_def traits_ok_def traits_asserted_def pipe_traits_def default_traits_def
      minimal_traits_def small_traits_def large_traits_def max_duration_ms_def transport_asserted_def tcp_conf_def
      pipe_example_conf_def out_size_def stored_body_max_def packet_overhead_def)

section \<open>Properties\<close>

text \<open>The ACL example's tables hold its configuration. Anonymous clients are refused; exactly the three users are
  accepted, with their passwords; sensors may publish under \<open>sensors/\<close> and receive nothing; the dashboard may
  receive what is under \<open>sensors/\<close> or \<open>control/\<close> and publish under \<open>control/\<close> only.\<close>

theorem example_acl_grants:
  "snd (configure_acl acl_init) \<and>
   (let a = fst (configure_acl acl_init); sensors = text_bytes ''sensors/#''; control = text_bytes ''control/#'' in
    fst (acl_authenticate a cid None pw ctx) = not_authorized \<and>
    (acl_authenticate a cid (Some name) pw ctx = (accepted, role) \<longleftrightarrow>
      (name, case pw of Some p \<Rightarrow> p | None \<Rightarrow> [], role) \<in>
        {(text_bytes ''sensor-1'', text_bytes ''s3cret'', 1), (text_bytes ''sensor-2'', text_bytes ''s3cret'', 1),
         (text_bytes ''dashboard'', text_bytes ''d4sh'', 2)}) \<and>
    (acl_authorize_publish a 1 topic \<longleftrightarrow> topic_matches sensors topic) \<and>
    \<not> acl_authorize_receive a 1 topic \<and> \<not> acl_authorize_subscribe a 1 flt \<and>
    (acl_authorize_publish a 2 topic \<longleftrightarrow> topic_matches control topic) \<and>
    (acl_authorize_receive a 2 topic \<longleftrightarrow> topic_matches sensors topic \<or> topic_matches control topic) \<and>
    (acl_authorize_subscribe a 2 flt \<longleftrightarrow> topic_filter_covers sensors flt \<or> topic_filter_covers control flt))"
  unfolding configure_acl_value prod.sel Let_def acl_accepts_iff [OF example_acl_inv]
  by (auto simp: example_acl_def acl_authenticate_def acl_authorize_publish_def acl_authorize_receive_def
      acl_authorize_subscribe_def acl_allowed_def ROLE_SENSOR_def ROLE_DASHBOARD_def)

text \<open>C40: the socket examples exit with code 1 exactly when the argument does not spell a port, a number from 1 to
  65535, or the listener cannot be opened, and then hold no descriptor; otherwise, on a system that does not interrupt a write
  for ever, they serve until a signal arrives during \<open>run\<close> and exit with code 0, or serve for ever. A signal that arrived
  before \<open>run\<close> makes no difference.\<close>

theorem socket_examples_exit:
  assumes "65535 \<le> long_max" "system_ok P"
  shows "let opens = (\<lambda>port. snd (tcp_open S P port None (stream_init (tcp_conf P) os)));
       starts = (\<exists>port. asked_port argv port \<and> opens port)
   in ends_well (tcp_conf P) starts sig (tcp_main long_max S P early sig argv os)
      \<and> ends_well (tcp_conf P) starts sig (acl_main long_max S P early sig argv os)
      \<and> ends_well (tcp_conf P) (snd (unix_open S P (uds_path argv) 0x180 (us_init (tcp_conf P) path_max os))) sig
           (uds_main path_max S P early sig argv os)"
proof (cases "port_arg long_max argv")
  case None
  then show ?thesis by (simp add: Let_def tcp_main_def acl_main_def uds_main_ends [OF assms(2)] port_arg_iff [OF assms(1), symmetric])
    (simp add: ends_well_def broker_init_def stream_init_def)
next
  case (Some port)
  then show ?thesis
    using tcp_serve_ends [OF assms(2), of S port os sig allow_all early] tcp_serve_ends [OF assms(2), of S port os sig "acl_policy example_acl" early]
    by (simp add: Let_def tcp_main_def acl_main_def configure_acl_value uds_main_ends [OF assms(2)] port_arg_iff [OF assms(1), symmetric])
qed

lemma sample_system_ok: "system_ok sample_posix"
  using sample_conf_ok sample_signals by (simp add: system_ok_def conf_ok_def)

text \<open>Started with \<open>1884\<close> and stopped after a pass, and with the port \<open>70000\<close>.\<close>

theorem socket_examples_exit_witness:
  "(\<exists>b. tcp_main (2 ^ 63 - 1) sample_sockets sample_posix False (\<lambda>n. n = 1) [[], text_bytes ''1884''] 3 = Some (0, b))
   \<and> (\<exists>b. tcp_main (2 ^ 63 - 1) sample_sockets sample_posix False (\<lambda>n. n = 1) [[], text_bytes ''70000''] 3 = Some (1, b))"
proof -
  note x = socket_examples_exit [where long_max = "2 ^ 63 - 1" and S = sample_sockets and os = 3 and sig = "\<lambda>n. n = 1" and early = False, OF _ sample_system_ok]
  let ?a = "[[], text_bytes ''1884'']" and ?z = "[[], text_bytes ''70000'']"
  have a: "port_arg (2 ^ 63 - 1) ?a = Some 1884" "port_arg (2 ^ 63 - 1) ?z = None"
    by (simp_all add: port_arg_def text_bytes_def parse_port_def strtol_def is_space_def is_digit_def digits_value_def
        ch_plus_sign_def ch_minus_sign_def)
  have o: "snd (tcp_open sample_sockets sample_posix 1884 None (stream_init (tcp_conf sample_posix) 3))" by code_simp
  have "\<exists>port. asked_port ?a port \<and> snd (tcp_open sample_sockets sample_posix port None (stream_init (tcp_conf sample_posix) 3))"
    using a(1) o by (auto simp: port_arg_iff)
  moreover have "\<not> asked_port ?z port" for port using a(2) port_arg_iff [of "2 ^ 63 - 1" ?z port] by simp
  moreover have "ends_well (tcp_conf sample_posix) starts (\<lambda>n. n = 1) r \<Longrightarrow> \<exists>b. r = Some (if starts then 0 else 1, b)"
    for starts and r :: "(int \<times> (unit, nat stream_server) broker) option"
    by (auto simp: ends_well_def split: if_splits)
  ultimately show ?thesis using x [of ?a] x [of ?z] unfolding Let_def by fastforce
qed

end
