(* ===== verification/Version.thy ===== *)
theory Version
  imports Prelude
begin

text \<open>
  The version macros (\<open>version.hpp\<close>). The three components are macros that expand to integer literals: they are
  kept as their spelling, which \<open>#\<close> turns into a string, and \<open>literal_value\<close> is the number they denote. The
  arithmetic of the comparison is that of \<open>int\<close> in C++; where it would overflow, the value is \<open>None\<close>.
\<close>

section \<open>Model\<close>

type_synonym token = string

definition VERSION_MAJOR :: token where "VERSION_MAJOR = ''1''"
definition VERSION_MINOR :: token where "VERSION_MINOR = ''0''"
definition VERSION_PATCH :: token where "VERSION_PATCH = ''1''"

definition literal_value :: "token \<Rightarrow> int" where
  "literal_value t = foldl (\<lambda>n c. n * 10 + (of_char c - 48)) 0 t"

text \<open>Signed arithmetic on \<open>int\<close>, undefined where the result has no 32-bit representation.\<close>

definition int_value :: "int \<Rightarrow> int option" where
  "int_value n = (if - (2 ^ 31) \<le> n \<and> n < 2 ^ 31 then Some n else None)"

definition int_mul :: "int \<Rightarrow> int \<Rightarrow> int option" where "int_mul a b = int_value (a * b)"
definition int_add :: "int \<Rightarrow> int \<Rightarrow> int option" where "int_add a b = int_value (a + b)"

definition VERSION_NUMBER :: "int \<Rightarrow> int \<Rightarrow> int \<Rightarrow> int option" where
  "VERSION_NUMBER major minor patch =
    Option.bind (int_mul major 1000000) (\<lambda>a.
    Option.bind (int_mul minor 1000) (\<lambda>b.
    Option.bind (int_add a b) (\<lambda>c. int_add c patch)))"

definition VERSION :: "int option" where
  "VERSION = VERSION_NUMBER (literal_value VERSION_MAJOR) (literal_value VERSION_MINOR) (literal_value VERSION_PATCH)"

definition VERSION_AT_LEAST :: "int \<Rightarrow> int \<Rightarrow> int \<Rightarrow> bool option" where
  "VERSION_AT_LEAST major minor patch =
    Option.bind VERSION (\<lambda>v. Option.bind (VERSION_NUMBER major minor patch) (\<lambda>w. Some (v \<ge> w)))"

definition VERSION_STRINGIFY :: "token \<Rightarrow> string" where "VERSION_STRINGIFY t = t"

definition VERSION_STRING :: string where
  "VERSION_STRING = VERSION_STRINGIFY VERSION_MAJOR @ ''.'' @ VERSION_STRINGIFY VERSION_MINOR @ ''.'' @ VERSION_STRINGIFY VERSION_PATCH"

definition version_major :: int where "version_major = literal_value VERSION_MAJOR"
definition version_minor :: int where "version_minor = literal_value VERSION_MINOR"
definition version_patch :: int where "version_patch = literal_value VERSION_PATCH"
definition version_string :: string where "version_string = VERSION_STRING"

section \<open>Versions compare as they should\<close>

definition version_field :: "int \<Rightarrow> bool" where
  "version_field n \<longleftrightarrow> 0 \<le> n \<and> n \<le> 999"

definition version_less :: "int \<times> int \<times> int \<Rightarrow> int \<times> int \<times> int \<Rightarrow> bool" where
  "version_less a b =
    (case (a, b) of ((a1, a2, a3), (b1, b2, b3)) \<Rightarrow> a1 < b1 \<or> a1 = b1 \<and> (a2 < b2 \<or> a2 = b2 \<and> a3 < b3))"

lemma VERSION_NUMBER_value:
  assumes "version_field minor" "version_field patch" "0 \<le> major" "major \<le> 2146"
  shows "VERSION_NUMBER major minor patch = Some (major * 1000000 + minor * 1000 + patch)"
  using assms by (simp add: VERSION_NUMBER_def int_mul_def int_add_def int_value_def version_field_def)

text \<open>The numbers order versions as their fields do, from the major down.\<close>

lemma version_number_order:
  assumes "version_field a2" "version_field a3" "version_field b2" "version_field b3"
  shows "a1 * 1000000 + a2 * 1000 + a3 < b1 * 1000000 + b2 * 1000 + b3 \<longleftrightarrow> version_less (a1, a2, a3) (b1, b2, b3)"
proof -
  have r: "a2 * 1000 + a3 \<le> 999999" "0 \<le> a2 * 1000 + a3" "b2 * 1000 + b3 \<le> 999999" "0 \<le> b2 * 1000 + b3"
    "a3 \<le> 999" "0 \<le> a3" "b3 \<le> 999" "0 \<le> b3"
    using assms by (simp_all add: version_field_def)
  consider "a1 < b1" | "a1 > b1" | "a1 = b1" "a2 < b2" | "a1 = b1" "a2 > b2" | "a1 = b1" "a2 = b2" by linarith
  then show ?thesis using r by cases (simp_all add: version_less_def)
qed

text \<open>The bound of the comment: 2146 is the last major version for which every minor and patch fit an \<open>int\<close>.\<close>

lemma version_bound:
  "(\<forall>minor patch. version_field minor \<and> version_field patch \<longrightarrow> VERSION_NUMBER major minor patch \<noteq> None) \<longleftrightarrow> major \<le> 2146"
  if "0 \<le> major"
proof
  assume a: "\<forall>minor patch. version_field minor \<and> version_field patch \<longrightarrow> VERSION_NUMBER major minor patch \<noteq> None"
  then have "VERSION_NUMBER major 999 999 \<noteq> None" by (simp add: version_field_def)
  then show "major \<le> 2146"
    by (auto simp: VERSION_NUMBER_def int_mul_def int_add_def int_value_def split: if_splits)
next
  assume "major \<le> 2146"
  then show "\<forall>minor patch. version_field minor \<and> version_field patch \<longrightarrow> VERSION_NUMBER major minor patch \<noteq> None"
    using that VERSION_NUMBER_value by auto
qed

lemma version_names: "version_string = ''1.0.1''" "(version_major, version_minor, version_patch) = (1, 0, 1)" "VERSION = Some 1000001"
  by (simp_all add: version_string_def VERSION_STRING_def VERSION_STRINGIFY_def VERSION_MAJOR_def VERSION_MINOR_def VERSION_PATCH_def
      version_major_def version_minor_def version_patch_def literal_value_def VERSION_def VERSION_NUMBER_def int_mul_def int_add_def int_value_def)

text \<open>\<open>MINIMOSQ_VERSION_AT_LEAST\<close> is defined, without overflow, for every version with minor and patch up to 999
  and a major up to 2146, and says whether that version is not later than this one in the order of the fields.\<close>

theorem version_at_least_correct:
  assumes "version_field minor" "version_field patch" "0 \<le> major" "major \<le> 2146"
  shows "VERSION_AT_LEAST major minor patch = Some (\<not> version_less (version_major, version_minor, version_patch) (major, minor, patch))"
proof -
  have f: "version_field 0" "version_field 1" by (simp_all add: version_field_def)
  show ?thesis
    using version_number_order [OF f assms(1,2), of 1 major] unfolding version_names(2) 
    by (auto simp: VERSION_AT_LEAST_def VERSION_NUMBER_value [OF assms] version_names(3))
qed

end
