(* ===== verification/Spec2Isabelle.thy ===== *)
theory Spec2Isabelle
  imports Frame_Delivery Broker_Time Broker_Flight Broker_Redelivery Broker_Output Storage Examples Version
begin

text \<open>
  minimosq: an MQTT 3.1.1 broker as a header-only C++ library.

  \<^bold>\<open>The program.\<close> A \<open>Broker\<close> (\<open>src/include/minimosq/broker/broker.hpp\<close>) is a class template over
  its capacities (\<open>Traits\<close>), a transport, a security policy and an observer. It owns arrays of
  fixed size only: connections, a pool of sessions, a pool of retained messages, one output buffer.
  A transport calls \<open>conn_open\<close>, \<open>conn_data\<close> and \<open>conn_closed\<close>, the application calls \<open>publish\<close>
  and \<open>tick\<close>; the broker calls the transport's \<open>send\<close> and \<open>close\<close>. Bytes of a connection go
  through its \<open>FrameParser\<close>, which hands complete packets to \<open>on_packet\<close>; the handler parses the
  body, checks it against the policy and the topic rules, updates sessions and the retained store,
  and queues or sends what follows. A handler never closes a connection directly: it marks it dead,
  and \<open>flush_dead\<close> tears dead connections down once the handler is done.

  The transports (\<open>transports/\<close>) are event loops over \<open>poll()\<close>: a stream server with one slot per connection, its
  TCP and Unix listeners, and a pipe with a single connection. They queue what the broker sends in a ring per
  connection and write it at the end of a pass. The TLS adapter stands between a transport and the broker and is
  a broker to the one and a transport to the other.

  \<^bold>\<open>Theories and sources\<close> (paths below \<open>src/include/minimosq/\<close>).
    \<^item> \<open>Prelude\<close>: lemma collections and facts on lists, words and folds.
    \<^item> \<open>Containers\<close>: \<open>core/span.hpp\<close>, \<open>fixed_string.hpp\<close>, \<open>static_vector.hpp\<close>, \<open>pool.hpp\<close>. A span is a list, a
      capacity is an argument, a pointer into a pool is a slot index. Locale \<open>slot_store\<close> states the laws of a pool.
      \<open>Storage\<close>: the same containers as the code lays them out - a size beside an array whose unused slots hold
      anything, pointers as addresses - with \<open>fixed_buffer.hpp\<close>, and that they refine the former.
    \<^item> \<open>Constants\<close>: \<open>core/error.hpp\<close>, \<open>protocol/constants.hpp\<close>, \<open>broker/observer.hpp\<close>.
    \<^item> \<open>Utf8\<close>, \<open>Wire\<close>, \<open>Packets\<close>, \<open>Packets_Accept\<close>, \<open>Frame\<close>, \<open>Frame_Delivery\<close>: \<open>protocol/\<close>. Integers that can
      wrap are words of the source's width. \<open>FrameParser::feed\<close> is a function over the input with the
      callback as an argument; locale \<open>frame_client\<close> is what it needs of the callback.
    \<^item> \<open>Topic\<close>: \<open>topic.hpp\<close>.  \<open>Session\<close>, \<open>Queue_Inv\<close>: \<open>broker/session.hpp\<close>.  \<open>Retained\<close>: \<open>broker/retained.hpp\<close>.
      \<open>Security\<close>: \<open>broker/table_acl.hpp\<close> and the policy interface, a record of functions: within one step a policy answers
      the same question alike, from one step to the next it may be another.
    \<^item> \<open>Broker_State\<close> (state, reporting, sending, deadlines), \<open>Broker_Deliver\<close> (queue, routing, replay, teardown),
      \<open>Broker_Inv\<close> (with \<open>flush_dead\<close>), \<open>Broker_Sessions\<close> (expiry, eviction, generated identifiers), \<open>Broker_Connect\<close>
      (CONNECT), \<open>Broker_Packets\<close> (the other handlers and \<open>on_packet\<close>), \<open>Broker_Api\<close> (entry points, reachable
      states): \<open>broker/broker.hpp\<close>, \<open>broker/config.hpp\<close>. A member function is a function on the record \<open>broker\<close>; the
      template parameters are the record \<open>env\<close>: the capacities, the policy, and the transport as two
      functions on a transport state of any type. What the observer is told and what the transport is
      handed is kept in \<open>b_trace\<close>.
    \<^item> \<open>Transport\<close>: \<open>transport.hpp\<close>, and the interface as locales. \<open>transport_ops\<close> and \<open>byte_transport\<close> are what the broker
      is promised of \<open>send\<close> and \<open>close\<close>, \<open>polled\<close> is what a transport is promised of the four functions it drives (record
      \<open>host\<close>, interpreted on the broker), \<open>driven\<close> is both together. \<open>Broker_Talks\<close>: the calls the broker makes.
    \<^item> \<open>Out_Ring\<close>, \<open>Posix\<close>: \<open>transports/posix/common.hpp\<close> and the write loop of \<open>flush\<close>. The operating system is a parameter, a
      record of functions on a state of any type; every answer of every call is possible. What is documented of it - a
      write takes no more than it is given, signals end - are the hypotheses \<open>writes_bounded\<close> and \<open>signals_end\<close>.
    \<^item> \<open>Stream_Server\<close>, \<open>Listeners\<close>, \<open>Server\<close>: \<open>transports/posix/stream_server.hpp\<close>, \<open>tcp.hpp\<close>, \<open>unix_socket.hpp\<close> and the
      broker over them.  \<open>Pipe\<close>: \<open>transports/posix/pipe.hpp\<close>.
    \<^item> \<open>Tls_Adapter\<close>, \<open>Tls_Server\<close>: \<open>transports/tls_adapter.hpp\<close>, with the engine as a parameter, and the three layers together.
    \<^item> \<open>Run_Loop\<close>: \<open>run\<close> and \<open>stop\<close> of the transports. \<open>stop\<close> comes from a signal handler: a schedule says before which test
      of the flag it runs. Locale \<open>signalled_loop\<close> is what the loops have in common.
    \<^item> \<open>Command_Line\<close>, \<open>Examples\<close>: \<open>src/examples/\<close>, each \<open>main\<close> a function of its arguments, the system and the signals, and the
      configurations of \<open>src/tools/footprint.cpp\<close>.  \<open>Version\<close>: \<open>version.hpp\<close>.
    \<^item> \<open>Broker_Sample\<close>: a small broker in use, on which the theorems are applied.

  \<^bold>\<open>What is shown.\<close>
    \<^item> Wire level: the parsers accept exactly the encodings of well-formed packets, builders emit exactly
      those encodings or nothing, the framer equals a byte-at-a-time automaton and delivers a stream packet by packet
      however it is cut, with lengths at their machine widths; UTF-8 and topic filters are decided as the standard says.
    \<^item> Stores: the retained store and the subscription table refine maps, the ring refines a bounded queue, the containers in
      memory refine lists and the pool, whatever pointer is released.
    \<^item> Broker: \<open>wf_broker\<close> (\<open>Broker_Inv\<close>) is an invariant of every reachable state: links between sessions and
      connections, unique client identifiers, bounded tables, and for each queue in-flight entries first, with
      distinct non-zero identifiers (\<open>Queue_Inv\<close>, \<open>Broker_Frame\<close>). Routing to one session leaves the others
      alone (\<open>Broker_Routing\<close>), flushing a queue sends it in order (\<open>Broker_Queue\<close>), teardown disturbs nobody
      else (\<open>Broker_Flush\<close>), and the guarantees of the single packets are in \<open>Broker_Subs\<close>, \<open>Broker_Inbound\<close> and \<open>Broker_Time\<close>.
      \<open>Broker_Steady\<close> holds what all steps have in common: locales \<open>steady\<close>, \<open>lasting\<close> and \<open>persistent\<close>, for what survives the
      packets of connected clients, connections that come and go, and CONNECT. \<open>Broker_Flight\<close> follows the messages in flight of a
      session: acknowledgements move them on as the QoS 1 and 2 handshakes say, and nothing else loses one but expiry and the
      eviction of its session from a full table. \<open>Broker_Redelivery\<close> follows the identifiers of inbound QoS 2 messages: one that is
      neither released nor pushed out of the full table is not routed again. \<open>Broker_Output\<close>: all that is sent are server packets.
    \<^item> Transports: the broker calls \<open>send\<close> and \<open>close\<close> on open connections only; each transport and the broker agree on the
      connections between passes and the peer is sent what was accepted, in order; no descriptor leaks or is closed twice;
      a packet that fits is refused only when the system takes too little, or the TLS engine declines it. The driver of the TLS adapter keeps the contract of a
      broker for any engine (\<open>sublocale\<close> of \<open>polled\<close>), so the same holds of the stack with TLS, and over \<open>NullTlsEngine\<close>
      the adapter changes nothing.
    \<^item> Programs: \<open>run\<close> returns exactly when it is stopped while it runs, if writes are not interrupted for ever; the examples exit with the code their start
      deserves, and their access rules grant what they say; versions compare as their fields do.

  \<^bold>\<open>Undefined behaviour and loops.\<close> \<open>b_stuck\<close> has no counterpart in the code: it is set where the code would
  dereference a null session pointer and where one of its two unbounded searches would not end. The searches
  are modelled with as many rounds as there are values to try - 65535 packet identifiers in \<open>alloc_loop\<close>, 65536
  counter values in \<open>generate_loop\<close> - and are shown to return within them. All other loops terminate by a measure
  given with their definition, but for the write loop \<open>flush_loop\<close>: a signal restarts a write without bound, so
  it is a partial function, shown to return when signals end; \<open>ss_stuck\<close> and \<open>pp_stuck\<close> record that it does not. The
  loops \<open>run\<close> are partial functions too, undefined after a pass that is stuck, and when they return is one of the properties.
  The further fields \<open>sl_taken\<close>, \<open>ss_got\<close>, \<open>ss_closed\<close>, \<open>pp_taken\<close>, \<open>pp_closed\<close>, \<open>us_unlinked\<close> and \<open>tl_trace\<close> only record what the system was
  handed. \<open>traits_ok\<close> collects the bounds on the capacities the code needs: those
  it asserts and, beyond them, at most 65535 connections and sessions (indices are 16 bit with a sentinel), fewer than
  65535 pending messages and at least one slot for QoS 2 identifiers.

  \<^bold>\<open>Not modelled.\<close> The type-level probes for
  optional members are values of the configuration records: 0 or \<open>None\<close> where a member is missing. The observer's own
  code, the operating system and TLS libraries are parameters; the bytes of a socket address and \<open>set_nodelay\<close> are part of the
  system calls that take them. Re-entrant calls into the broker from an observer or transport callback are
  excluded, as the source's documentation demands. The output buffer \<open>out_\<close> is not part of the state: what
  the builders return does not depend on its old contents. What the programs print is left out,
  as are the sizes \<open>footprint.cpp\<close> reports, which are the compiler's, and the Python scripts of \<open>src/tools/\<close>, which process
  coverage data and documentation. \<open>minimosq.hpp\<close> includes the other headers and has no code.
\<close>

section \<open>The broker in every reachable state\<close>

text \<open>C1: whatever sequence of \<open>conn_open\<close>, \<open>conn_data\<close>, \<open>conn_closed\<close>, \<open>tick\<close> and \<open>publish\<close> brought the broker
  to its state, with any bytes, times, security policies and transport answers, the state is well formed and no
  connection is left waiting to be torn down.\<close>

theorem broker_invariant:
  assumes "traits_ok T" "reachable T b" shows "wf_broker T b \<and> quiet b"
  by (rule reachable_settled [OF assms(2,1)])

theorem broker_invariant_witness:
  "wf_broker sample_traits (snd (conn_open sample_env 0 0 (broker_init sample_traits ())))
     \<and> quiet (snd (conn_open sample_env 0 0 (broker_init sample_traits ())))"
  by (rule broker_invariant [OF sample_traits_ok reachable_open])

text \<open>C2: no call ever dereferences a null session pointer, and no search for a packet identifier or a client
  identifier runs forever.\<close>

theorem broker_never_stuck:
  assumes "traits_ok T" "reachable T b" shows "\<not> b_stuck b"
  using reachable_settled [OF assms(2,1)] wfD(2) [of T b] by (simp add: sessions_ok_def)

theorem broker_never_stuck_witness: "\<not> b_stuck (snd (conn_open sample_env 0 0 (broker_init sample_traits ())))"
  by (rule broker_never_stuck [OF sample_traits_ok reachable_open])

text \<open>C26: no two connections of a reachable broker belong to sessions of the same client identifier: a CONNECT
  under an identifier in use has taken the older connection's place.\<close>

theorem one_connection_per_client:
  assumes "traits_ok T" "reachable T b"
  shows "inj_on (\<lambda>ci. client_id_of b (conn_at b ci)) {ci. ci < max_connections T \<and> session_of b (conn_at b ci) \<noteq> None}"
proof (rule inj_onI, clarify)
  fix ci cj si sj assume ci: "ci < max_connections T" "cj < max_connections T"
    and so: "session_of b (conn_at b ci) = Some si" "session_of b (conn_at b cj) = Some sj"
    and e: "client_id_of b (conn_at b ci) = client_id_of b (conn_at b cj)"
  have wf: "wf_broker T b" using reachable_settled [OF assms(2,1)] by blast
  obtain s where s: "session_at b si = Some s" "unat (s_conn s) = ci" by (rule linked_conn [OF wf ci(1) so(1)])
  obtain t where t: "session_at b sj = Some t" "unat (s_conn t) = cj" by (rule linked_conn [OF wf ci(2) so(2)])
  have "si = sj" using slot_pool.keyedD [OF wfD(6) [OF wf], of si s sj t] s(1) t(1) e so by (simp add: session_at_def client_id_of_def)
  then show "ci = cj" using s t by simp
qed

theorem one_connection_per_client_witness:
  "inj_on (\<lambda>ci. client_id_of (snd (conn_open sample_env 0 0 (broker_init sample_traits ())))
        (conn_at (snd (conn_open sample_env 0 0 (broker_init sample_traits ()))) ci))
     {ci. ci < max_connections sample_traits
        \<and> session_of (snd (conn_open sample_env 0 0 (broker_init sample_traits ())))
            (conn_at (snd (conn_open sample_env 0 0 (broker_init sample_traits ()))) ci) \<noteq> None}"
  by (rule one_connection_per_client [OF sample_traits_ok reachable_open])

text \<open>C25: the packet handlers see the same packets in the same states however the bytes of a connection are cut
  into reads: feeding the pieces one after the other, until the connection is doomed or the framing fails,
  equals feeding them at once.\<close>

theorem packets_chunk_invariant:
  assumes "serving (e_traits E) ci b" "\<not> cn_dead (conn_at b ci)" "fp_inv m p"
  shows "feed_chunks m (on_packet E ci) (\<lambda>b. cn_dead (conn_at b ci)) p chunks b = feed m (on_packet E ci) p (concat chunks) b"
  by (rule fed.feed_chunks_concat [OF assms(3,1,2)])

theorem packets_chunk_invariant_witness:
  "feed_chunks 32 (on_packet sample_env 0) (\<lambda>b. cn_dead (conn_at b 0)) (fp_reset (fp_init 32)) [[0xC0], [0]] sample_broker
     = feed 32 (on_packet sample_env 0) (fp_reset (fp_init 32)) [0xC0, 0] sample_broker"
proof -
  have "fp_inv 32 (fp_reset (fp_init 32))" by (rule fp_inv_reset) (simp add: fp_init_def)
  then show ?thesis
    using packets_chunk_invariant [of sample_env 0 sample_broker 32 "fp_reset (fp_init 32)" "[[0xC0], [0]]"]
    by (simp add: serving_def sample_wf)
qed

end
